(* ===== verification/Prelude.thy ===== *)
theory Prelude
  imports Main "HOL-Library.Word"
begin

text \<open>
  Shared vocabulary of the development: results with the errors the programs raise, unsigned
  machine arithmetic written on \<open>nat\<close> with the wrap-around explicit, array slices and block
  copies, and the list lemmas the components use.

  Unsigned C++ integers are natural numbers below \<open>2 ^ w\<close>. Every conversion and every
  operation that can leave the range goes through \<open>u16\<close>, \<open>u32\<close> or \<open>u64\<close>; subtraction on
  \<open>uint64_t\<close> goes through \<open>sub64\<close>.
\<close>

named_theorems width_simps \<open>machine arithmetic that stays in range\<close>
named_theorems block_simps \<open>slices and block copies\<close>

section \<open>Results\<close>

text \<open>\<open>Die\<close> is the tools' \<open>die(message)\<close> (exit status 2), \<open>BadAlloc\<close> is
  \<open>std::bad_alloc\<close>, \<open>ANNException\<close> is \<open>diskann::ANNException\<close>, \<open>OutOfRange\<close> is
  \<open>std::out_of_range\<close> and also marks an access outside an array, which C++ leaves undefined,
  \<open>InvalidArgument\<close> is \<open>std::invalid_argument\<close> of the numeric conversions.\<close>

datatype err = Die string | BadAlloc | ANNException string | OutOfRange | InvalidArgument

type_synonym 'a res = "err + 'a"

definition rbind :: "'a res \<Rightarrow> ('a \<Rightarrow> 'b res) \<Rightarrow> 'b res" where
  "rbind r f = (case r of Inl e \<Rightarrow> Inl e | Inr x \<Rightarrow> f x)"

lemma rbind_simps [simp]:
  "rbind (Inl e) f = Inl e"
  "rbind (Inr x) f = f x"
  by (simp_all add: rbind_def)

lemma rbind_eq_Inr_iff: "rbind r f = Inr y \<longleftrightarrow> (\<exists>x. r = Inr x \<and> f x = Inr y)"
  by (cases r) auto

lemma rbind_Inr_E:
  assumes "rbind r f = Inr y"
  obtains x where "r = Inr x" "f x = Inr y"
  using assms by (auto simp: rbind_eq_Inr_iff)

lemma rbind_right: "rbind r Inr = r"
  by (cases r) simp_all

lemma rbind_fst: "rbind (rbind r (\<lambda>s. Inr (s, b))) (\<lambda>st. Inr (fst st)) = r"
  by (cases r) simp_all

text \<open>A loop over a list that stops at the first error.\<close>

fun rfold :: "('a \<Rightarrow> 's \<Rightarrow> 's res) \<Rightarrow> 'a list \<Rightarrow> 's \<Rightarrow> 's res" where
  "rfold f [] s = Inr s"
| "rfold f (x # xs) s = rbind (f x s) (rfold f xs)"

lemma rfold_Nil: "rfold f [] = Inr"
  by (rule ext) simp

lemma rfold_append: "rfold f (xs @ ys) s = rbind (rfold f xs s) (rfold f ys)"
proof (induction xs arbitrary: s)
  case Nil
  then show ?case by simp
next
  case (Cons x xs)
  then show ?case by (cases "f x s") auto
qed

lemma rfold_invariant:
  assumes "rfold f xs s = Inr t" and "I s"
    and "\<And>x s s'. x \<in> set xs \<Longrightarrow> I s \<Longrightarrow> f x s = Inr s' \<Longrightarrow> I s'"
  shows "I t"
  using assms
proof (induction xs arbitrary: s)
  case Nil
  then show ?case by simp
next
  case (Cons x xs)
  then obtain s' where s': "f x s = Inr s'" "rfold f xs s' = Inr t"
    by (auto simp: rbind_eq_Inr_iff)
  moreover have "I s'"
    using Cons.prems s'(1) by auto
  ultimately show ?case
    using Cons.IH Cons.prems(3) by (meson list.set_intros(2))
qed

section \<open>Unsigned machine integers\<close>

definition u16 :: "nat \<Rightarrow> nat" where "u16 x = x mod 2 ^ 16"
definition u32 :: "nat \<Rightarrow> nat" where "u32 x = x mod 2 ^ 32"
definition u64 :: "nat \<Rightarrow> nat" where "u64 x = x mod 2 ^ 64"

definition sub64 :: "nat \<Rightarrow> nat \<Rightarrow> nat" where
  "sub64 a b = (a + (2 ^ 64 - b mod 2 ^ 64)) mod 2 ^ 64"

definition sub32 :: "nat \<Rightarrow> nat \<Rightarrow> nat" where
  "sub32 a b = (a + (2 ^ 32 - b mod 2 ^ 32)) mod 2 ^ 32"

lemma u16_id [width_simps]: "x < 2 ^ 16 \<Longrightarrow> u16 x = x"
  by (simp add: u16_def)

lemma u32_id [width_simps]: "x < 2 ^ 32 \<Longrightarrow> u32 x = x"
  by (simp add: u32_def)

lemma u64_id [width_simps]: "x < 2 ^ 64 \<Longrightarrow> u64 x = x"
  by (simp add: u64_def)

lemma u16_lt: "u16 x < 2 ^ 16"
  by (simp add: u16_def)

lemma u32_lt: "u32 x < 2 ^ 32"
  by (simp add: u32_def)

lemma u64_lt: "u64 x < 2 ^ 64"
  by (simp add: u64_def)

lemma u64_le: "u64 x \<le> x"
  by (simp add: u64_def)

lemma sub64_id [width_simps]:
  assumes "b \<le> a" "a < 2 ^ 64"
  shows "sub64 a b = a - b"
proof -
  have b: "b mod 2 ^ 64 = b"
    using assms by simp
  have eq: "a + (2 ^ 64 - b) = (a - b) + 2 ^ 64"
    using assms by linarith
  have lt: "a - b < 2 ^ 64"
    using assms by linarith
  have "sub64 a b = ((a - b) + 2 ^ 64) mod 2 ^ 64"
    by (simp only: sub64_def b eq)
  also have "\<dots> = a - b"
    using lt by (simp only: mod_add_self2 mod_less)
  finally show ?thesis .
qed

lemma sub32_id [width_simps]:
  assumes "b \<le> a" "a < 2 ^ 32"
  shows "sub32 a b = a - b"
proof -
  have b: "b mod 2 ^ 32 = b"
    using assms by simp
  have eq: "a + (2 ^ 32 - b) = (a - b) + 2 ^ 32"
    using assms by linarith
  have lt: "a - b < 2 ^ 32"
    using assms by linarith
  have "sub32 a b = ((a - b) + 2 ^ 32) mod 2 ^ 32"
    by (simp only: sub32_def b eq)
  also have "\<dots> = a - b"
    using lt by (simp only: mod_add_self2 mod_less)
  finally show ?thesis .
qed

text \<open>The rounding idioms \<open>(x + a - 1) / a * a\<close> and \<open>(x + a - 1) / a\<close>.\<close>

definition div_up :: "nat \<Rightarrow> nat \<Rightarrow> nat" where
  "div_up x a = (x + a - 1) div a"

definition round_up_nat :: "nat \<Rightarrow> nat \<Rightarrow> nat" where
  "round_up_nat x a = div_up x a * a"

lemma div_up_mult_ge: "0 < a \<Longrightarrow> x \<le> div_up x a * a"
proof -
  assume a: "0 < a"
  have "x + a - 1 < (x + a - 1) div a * a + a"
    using a div_mult_mod_eq[of "x + a - 1" a] mod_less_divisor[of a "x + a - 1"] by linarith
  then show ?thesis
    unfolding div_up_def by linarith
qed

lemma div_up_mult_less: "0 < a \<Longrightarrow> div_up x a * a < x + a"
proof -
  assume a: "0 < a"
  have "(x + a - 1) div a * a \<le> x + a - 1"
    by (rule div_times_less_eq_dividend)
  with a show ?thesis
    unfolding div_up_def by linarith
qed

lemmas round_up_ge = div_up_mult_ge [folded round_up_nat_def]
lemmas round_up_less = div_up_mult_less [folded round_up_nat_def]

lemma round_up_dvd: "a dvd round_up_nat x a"
  by (simp add: round_up_nat_def)

lemma round_up_least:
  assumes "0 < a" "a dvd y" "x \<le> y"
  shows "round_up_nat x a \<le> y"
proof -
  obtain k where y: "y = a * k"
    using assms(2) by blast
  have "round_up_nat x a < a * Suc k"
    using round_up_less[OF assms(1), of x] assms(3) y by simp
  then have "div_up x a < Suc k"
    using assms(1) by (simp add: round_up_nat_def mult.commute del: mult_Suc_right)
  then show ?thesis
    using y by (simp add: round_up_nat_def mult.commute)
qed

lemma round_up_aligned: "0 < a \<Longrightarrow> a dvd x \<Longrightarrow> round_up_nat x a = x"
  by (simp add: le_antisym round_up_ge round_up_least)

lemma round_up_pos: "0 < a \<Longrightarrow> 0 < x \<Longrightarrow> 0 < round_up_nat x a"
  using round_up_ge[of a x] by linarith

section \<open>Slices and block copies\<close>

text \<open>\<open>block xs off n\<close> is the block of \<open>n\<close> elements at \<open>off\<close>; \<open>blit xs off ys\<close> is
  \<open>memcpy(xs + off, ys, length ys)\<close> for a destination that is large enough.\<close>

definition block :: "'a list \<Rightarrow> nat \<Rightarrow> nat \<Rightarrow> 'a list" where
  "block xs off n = take n (drop off xs)"

definition blit :: "'a list \<Rightarrow> nat \<Rightarrow> 'a list \<Rightarrow> 'a list" where
  "blit xs off ys = take off xs @ ys @ drop (off + length ys) xs"

lemma length_block [simp]: "off + n \<le> length xs \<Longrightarrow> length (block xs off n) = n"
  by (simp add: block_def)

lemma length_block_min: "length (block xs off n) = min n (length xs - off)"
  by (simp add: block_def)

lemma block_0 [simp]: "block xs off 0 = []"
  by (simp add: block_def)

lemma nth_block [simp]: "i < n \<Longrightarrow> off + n \<le> length xs \<Longrightarrow> block xs off n ! i = xs ! (off + i)"
  by (simp add: block_def)

lemma block_append_left [block_simps]:
  "off + n \<le> length xs \<Longrightarrow> block (xs @ ys) off n = block xs off n"
  by (simp add: block_def)

lemma block_append_right [block_simps]:
  "length xs \<le> off \<Longrightarrow> block (xs @ ys) off n = block ys (off - length xs) n"
  by (simp add: block_def)

lemma block_append_exact [simp]: "block (xs @ ys) (length xs) (length ys) = ys"
  by (simp add: block_def)

lemma block_split: "block xs off (m + n) = block xs off m @ block xs (off + m) n"
  by (simp add: block_def take_add add.commute)

lemma block_slice: "i + n \<le> m \<Longrightarrow> block (block xs off m) i n = block xs (off + i) n"
  by (simp add: block_def drop_take add.commute)

lemma block_whole [simp]: "block xs 0 (length xs) = xs"
  by (simp add: block_def)

lemma length_blit [simp]: "off + length ys \<le> length xs \<Longrightarrow> length (blit xs off ys) = length xs"
  by (simp add: blit_def)

lemma block_blit_same [block_simps]:
  "off + length ys \<le> length xs \<Longrightarrow> block (blit xs off ys) off (length ys) = ys"
  by (simp add: block_def blit_def)

lemma block_blit_before [block_simps]:
  "i + n \<le> off \<Longrightarrow> off + length ys \<le> length xs \<Longrightarrow> block (blit xs off ys) i n = block xs i n"
  by (simp add: block_def blit_def drop_take)

lemma block_blit_after [block_simps]:
  assumes "off + length ys \<le> i" "off + length ys \<le> length xs"
  shows "block (blit xs off ys) i n = block xs i n"
proof -
  have "drop i (blit xs off ys) = drop (i - (off + length ys)) (drop (off + length ys) xs)"
    using assms by (simp add: blit_def)
  also have "\<dots> = drop i xs"
    using assms by simp
  finally show ?thesis
    by (simp add: block_def)
qed

lemma blit_Nil [simp]: "blit xs off [] = xs"
  by (simp add: blit_def)

lemma block_concat_uniform:
  assumes "\<forall>x \<in> set xs. length x = L" "k < length xs"
  shows "block (concat xs) (k * L) L = xs ! k"
  using assms
proof (induction xs arbitrary: k)
  case Nil
  then show ?case by simp
next
  case (Cons x xs)
  show ?case
  proof (cases k)
    case 0
    then show ?thesis using Cons.prems by (simp add: block_def)
  next
    case (Suc j)
    then have "block (concat (x # xs)) (k * L) L = block (concat xs) (j * L) L"
      using Cons.prems(1) by (simp add: block_append_right)
    then show ?thesis using Cons Suc by simp
  qed
qed

section \<open>Prefix sums\<close>

text \<open>\<open>prefix[i + 1] = prefix[i] + counts[i]\<close>, as the tools compute offsets.\<close>

fun prefix_sums :: "nat \<Rightarrow> nat list \<Rightarrow> nat list" where
  "prefix_sums acc [] = [acc]"
| "prefix_sums acc (c # cs) = acc # prefix_sums (acc + c) cs"

lemma length_prefix_sums [simp]: "length (prefix_sums acc cs) = Suc (length cs)"
  by (induction cs arbitrary: acc) auto

lemma nth_prefix_sums: "i \<le> length cs \<Longrightarrow> prefix_sums acc cs ! i = acc + sum_list (take i cs)"
proof (induction cs arbitrary: acc i)
  case Nil
  then show ?case by simp
next
  case (Cons c cs)
  then show ?case by (cases i) auto
qed

lemma sum_list_take_Suc:
  fixes cs :: "nat list"
  assumes "i < length cs"
  shows "sum_list (take (Suc i) cs) = sum_list (take i cs) + cs ! i"
  using assms by (simp add: take_Suc_conv_app_nth)

lemma sum_list_take_mono:
  fixes cs :: "nat list"
  assumes "i \<le> j"
  shows "sum_list (take i cs) \<le> sum_list (take j cs)"
proof -
  have "take j cs = take i cs @ take (j - i) (drop i cs)"
    using assms by (metis le_add_diff_inverse take_add)
  then show ?thesis
    by simp
qed

lemma sum_list_take_le: "sum_list (take i cs) \<le> sum_list (cs :: nat list)"
  by (metis append_take_drop_id le_add1 sum_list.append)

section \<open>Lists\<close>

lemma concat_map_filter_eq:
  "concat (map f (filter P xs)) = concat (map (\<lambda>x. if P x then f x else []) xs)"
  by (induction xs) auto

lemma nth_list_update_if: "i < length xs \<Longrightarrow> xs[i := v] ! j = (if i = j then v else xs ! j)"
  by (cases "i = j") auto

lemma map_upt_conv_map_nth: "map (\<lambda>i. f (xs ! i)) [0..<length xs] = map f xs"
  by (rule nth_equalityI) auto

end
