(* ===== verification/Bytes.thy ===== *)
theory Bytes
  imports Prelude
begin

text \<open>
  Bytes, little-endian integers (the layout of the \<open>write((char*)&x, sizeof x)\<close> idiom on the
  x86-64 targets the build supports), arrays of \<open>uint32_t\<close>, and files as byte lists with the
  positioned writes and exact reads the tools use.
\<close>

type_synonym byte = "8 word"
type_synonym bfile = "byte list"

section \<open>Little-endian integers\<close>

fun le_bytes :: "nat \<Rightarrow> nat \<Rightarrow> byte list" where
  "le_bytes 0 n = []"
| "le_bytes (Suc k) n = word_of_nat n # le_bytes k (n div 256)"

fun le_nat :: "byte list \<Rightarrow> nat" where
  "le_nat [] = 0"
| "le_nat (b # bs) = unat b + 256 * le_nat bs"

lemma length_le_bytes [simp]: "length (le_bytes k n) = k"
  by (induction k arbitrary: n) auto

lemma unat_byte_lt: "unat (b :: byte) < 256"
  using unsigned_less[of b, where ?'a = nat] by simp

lemma le_nat_lt: "le_nat bs < 256 ^ length bs"
proof (induction bs)
  case Nil
  then show ?case by simp
next
  case (Cons b bs)
  then show ?case using unat_byte_lt[of b] by simp
qed

lemma le_nat_le_bytes: "le_nat (le_bytes k n) = n mod 256 ^ k"
proof (induction k arbitrary: n)
  case 0
  then show ?case by simp
next
  case (Suc k)
  have "le_nat (le_bytes (Suc k) n) = n mod 256 + 256 * (n div 256 mod 256 ^ k)"
    by (simp add: Suc.IH unat_of_nat)
  also have "\<dots> = n mod (256 * 256 ^ k)"
    by (simp add: mod_mult2_eq)
  finally show ?case by simp
qed

lemma le_bytes_le_nat: "le_bytes (length bs) (le_nat bs) = bs"
proof (induction bs)
  case Nil
  then show ?case by simp
next
  case (Cons b bs)
  have "(unat b + 256 * le_nat bs) div 256 = le_nat bs"
    using unat_byte_lt[of b] by simp
  moreover have "(word_of_nat (unat b + 256 * le_nat bs) :: byte) = b"
    by (simp add: word_unat_eq_iff unat_of_nat unat_byte_lt del: of_nat_add of_nat_mult)
  ultimately show ?case using Cons by simp
qed

lemma le_nat_bytes4 [simp]: "le_nat (le_bytes 4 n) = u32 n"
  by (simp add: le_nat_le_bytes u32_def)

lemma le_nat_bytes8 [simp]: "le_nat (le_bytes 8 n) = u64 n"
  by (simp add: le_nat_le_bytes u64_def)

lemma le_nat_bytes2 [simp]: "le_nat (le_bytes 2 n) = u16 n"
  by (simp add: le_nat_le_bytes u16_def)

lemma le_nat_replicate_0 [simp]: "le_nat (replicate k 0) = 0"
  by (induction k) auto

section \<open>Arrays of \<open>uint32_t\<close>\<close>

definition enc32 :: "nat list \<Rightarrow> byte list" where
  "enc32 ids = concat (map (le_bytes 4) ids)"

fun dec32 :: "byte list \<Rightarrow> nat list" where
  "dec32 (a # b # c # d # bs) = le_nat [a, b, c, d] # dec32 bs"
| "dec32 bs = []"

lemma length_enc32 [simp]: "length (enc32 ids) = 4 * length ids"
  by (induction ids) (auto simp: enc32_def)

lemma enc32_simps [simp]:
  "enc32 [] = []"
  "enc32 (x # xs) = le_bytes 4 x @ enc32 xs"
  "enc32 (xs @ ys) = enc32 xs @ enc32 ys"
  by (simp_all add: enc32_def)

lemma dec32_append:
  assumes "length bs = 4"
  shows "dec32 (bs @ cs) = le_nat bs # dec32 cs"
proof -
  obtain a b c d where "bs = [a, b, c, d]"
    using assms by (auto simp: numeral_eq_Suc length_Suc_conv)
  then show ?thesis by simp
qed

lemma dec32_enc32_append: "dec32 (enc32 ids @ bs) = map u32 ids @ dec32 bs"
  by (induction ids) (auto simp: dec32_append)

lemma dec32_enc32 [simp]: "dec32 (enc32 ids) = map u32 ids"
  using dec32_enc32_append[of ids "[]"] by simp

lemma length_dec32: "length (dec32 bs) = length bs div 4"
  by (induction bs rule: dec32.induct) auto

lemma dec32_lt: "x \<in> set (dec32 bs) \<Longrightarrow> x < 2 ^ 32"
proof (induction bs rule: dec32.induct)
  case (1 a b c d bs)
  then show ?case using le_nat_lt[of "[a, b, c, d]"] by auto
qed auto

lemma enc32_dec32: "4 dvd length bs \<Longrightarrow> enc32 (dec32 bs) = bs"
proof (induction bs rule: dec32.induct)
  case (1 a b c d bs)
  have "length [a, b, c, d] = 4"
    by simp
  then have "le_bytes 4 (le_nat [a, b, c, d]) = [a, b, c, d]"
    by (metis le_bytes_le_nat)
  moreover have "4 dvd length bs"
    using "1.prems" by simp presburger
  ultimately show ?case
    using "1.IH" by (simp del: le_nat.simps le_bytes.simps)
qed (simp_all, presburger+)

lemma block_enc32: "block (enc32 ids) (4 * i) (4 * n) = enc32 (block ids i n)"
proof -
  have drop: "drop (4 * i) (enc32 xs) = enc32 (drop i xs)" for i xs
  proof (induction xs arbitrary: i)
    case Nil
    then show ?case by simp
  next
    case (Cons x xs)
    then show ?case by (cases i) auto
  qed
  have take: "take (4 * n) (enc32 xs) = enc32 (take n xs)" for n xs
  proof (induction xs arbitrary: n)
    case Nil
    then show ?case by simp
  next
    case (Cons x xs)
    then show ?case by (cases n) auto
  qed
  show ?thesis
    by (simp add: block_def drop take)
qed

lemma map_u32_id [width_simps]: "(\<And>x. x \<in> set ids \<Longrightarrow> x < 2 ^ 32) \<Longrightarrow> map u32 ids = ids"
  by (simp add: map_idI u32_id)

section \<open>Files\<close>

text \<open>\<open>pwrite(fd, bs, n, off)\<close>: writing past the end leaves a hole of zeros.\<close>

definition pwrite :: "bfile \<Rightarrow> nat \<Rightarrow> byte list \<Rightarrow> bfile" where
  "pwrite f off bs = take off f @ replicate (off - length f) 0 @ bs @ drop (off + length bs) f"

text \<open>\<open>_read_exact\<close> on a stream at position \<open>p\<close>: the bytes and the new position, or the
  process dies on a short read.\<close>

definition read_exact :: "bfile \<Rightarrow> nat \<Rightarrow> nat \<Rightarrow> (byte list \<times> nat) res" where
  "read_exact f p n = (if p + n \<le> length f then Inr (block f p n, p + n) else Inl (Die ''short read''))"

lemma length_pwrite: "length (pwrite f off bs) = max (length f) (off + length bs)"
  by (auto simp: pwrite_def max_def)

lemma pwrite_inside: "off + length bs \<le> length f \<Longrightarrow> pwrite f off bs = blit f off bs"
  by (simp add: pwrite_def blit_def)

lemma pwrite_end: "pwrite f (length f) bs = f @ bs"
  by (simp add: pwrite_def)

lemma block_pwrite_same: "block (pwrite f off bs) off (length bs) = bs"
proof -
  have "length (take off f @ replicate (off - length f) 0) = off"
    by simp
  then show ?thesis
    by (simp add: pwrite_def block_def)
qed

lemma nth_pwrite:
  assumes "i < length f" "i < off \<or> off + length bs \<le> i"
  shows "pwrite f off bs ! i = f ! i"
  using assms by (auto simp: pwrite_def nth_append min_def)

lemma block_pwrite_other:
  assumes "i + n \<le> length f" "i + n \<le> off \<or> off + length bs \<le> i"
  shows "block (pwrite f off bs) i n = block f i n"
proof (rule nth_equalityI)
  have len: "i + n \<le> length (pwrite f off bs)"
    using assms(1) by (simp add: length_pwrite)
  then show "length (block (pwrite f off bs) i n) = length (block f i n)"
    using assms(1) by simp
  fix j assume "j < length (block (pwrite f off bs) i n)"
  then have "j < n"
    using len by simp
  then show "block (pwrite f off bs) i n ! j = block f i n ! j"
    using assms len by (auto intro!: nth_pwrite)
qed

lemma read_exact_append:
  "read_exact (f @ bs @ g) (length f) (length bs) = Inr (bs, length f + length bs)"
  by (simp add: read_exact_def block_def)

text \<open>A \<open>pwrite\<close> whose short count ends the process; \<open>ok off n\<close> is the operating system's answer,
  true when all bytes were written.\<close>

definition pwrite_or_die :: "(nat \<Rightarrow> nat \<Rightarrow> bool) \<Rightarrow> string \<Rightarrow> bfile \<Rightarrow> nat \<Rightarrow> byte list \<Rightarrow> bfile res" where
  "pwrite_or_die ok msg f off bs = (if ok off (length bs) then Inr (pwrite f off bs) else Inl (Die msg))"

end
