(* ===== verification/Ieee_Float.thy ===== *)
theory Ieee_Float
  imports Complex_Main "HOL-Library.Log_Nat" Prelude
begin

text \<open>
  IEEE 754 arithmetic as the C++ code uses it: \<open>float\<close> (binary32), \<open>double\<close> (binary64) and the
  x87 \<open>long double\<close> of the budget formulas, with rounding to nearest, ties to even, infinities,
  NaN and signed zeros. A finite value is its sign and its magnitude as a rational, so every
  operation is executable; the format is an argument of the operations that round.
\<close>

section \<open>Values and formats\<close>

datatype fmt = Binary32 | Binary64 | X87

fun prec :: "fmt \<Rightarrow> nat" where
  "prec Binary32 = 24"
| "prec Binary64 = 53"
| "prec X87 = 64"

text \<open>The exponent of the last place of the subnormal numbers, and the largest exponent.\<close>

fun qmin :: "fmt \<Rightarrow> int" where
  "qmin Binary32 = - 149"
| "qmin Binary64 = - 1074"
| "qmin X87 = - 16445"

fun emax :: "fmt \<Rightarrow> int" where
  "emax Binary32 = 127"
| "emax Binary64 = 1023"
| "emax X87 = 16383"

datatype fp = NaN | Inf bool | Fin bool rat

section \<open>Rounding\<close>

definition pow2 :: "int \<Rightarrow> rat" where
  "pow2 e = (if 0 \<le> e then 2 ^ nat e else 1 / 2 ^ nat (- e))"

text \<open>The binary exponent of a positive rational: \<open>pow2 (ilog2 x) \<le> x < pow2 (ilog2 x + 1)\<close>.\<close>

definition ilog2 :: "rat \<Rightarrow> int" where
  "ilog2 x = (let (n, d) = quotient_of x; k = bitlen n - bitlen d
              in if pow2 k \<le> x then k else k - 1)"

definition round_half_even :: "rat \<Rightarrow> int" where
  "round_half_even x = (let n = \<lfloor>x\<rfloor>; r = x - of_int n
     in if r < 1/2 then n else if 1/2 < r then n + 1 else if even n then n else n + 1)"

definition fround :: "fmt \<Rightarrow> bool \<Rightarrow> rat \<Rightarrow> fp" where
  "fround f s x =
     (if x = 0 then Fin s 0
      else let q = max (ilog2 x - int (prec f) + 1) (qmin f);
               y = of_int (round_half_even (x / pow2 q)) * pow2 q
           in if pow2 (emax f + 1) \<le> y then Inf s else Fin s y)"

section \<open>Operations\<close>

fun fval :: "fp \<Rightarrow> rat" where
  "fval (Fin s m) = (if s then - m else m)"
| "fval _ = 0"

fun is_nan :: "fp \<Rightarrow> bool" where
  "is_nan NaN = True"
| "is_nan _ = False"

fun is_fin :: "fp \<Rightarrow> bool" where
  "is_fin (Fin s m) = True"
| "is_fin _ = False"

fun fneg :: "fp \<Rightarrow> fp" where
  "fneg NaN = NaN"
| "fneg (Inf s) = Inf (\<not> s)"
| "fneg (Fin s m) = Fin (\<not> s) m"

fun fadd :: "fmt \<Rightarrow> fp \<Rightarrow> fp \<Rightarrow> fp" where
  "fadd f NaN y = NaN"
| "fadd f x NaN = NaN"
| "fadd f (Inf s) (Inf t) = (if s = t then Inf s else NaN)"
| "fadd f (Inf s) (Fin t n) = Inf s"
| "fadd f (Fin s m) (Inf t) = Inf t"
| "fadd f (Fin s m) (Fin t n) =
     (let v = fval (Fin s m) + fval (Fin t n)
      in if v = 0 then Fin (s \<and> t) 0 else fround f (v < 0) \<bar>v\<bar>)"

definition fsub :: "fmt \<Rightarrow> fp \<Rightarrow> fp \<Rightarrow> fp" where
  "fsub f x y = fadd f x (fneg y)"

fun fmul :: "fmt \<Rightarrow> fp \<Rightarrow> fp \<Rightarrow> fp" where
  "fmul f NaN y = NaN"
| "fmul f x NaN = NaN"
| "fmul f (Inf s) (Inf t) = Inf (s \<noteq> t)"
| "fmul f (Inf s) (Fin t n) = (if n = 0 then NaN else Inf (s \<noteq> t))"
| "fmul f (Fin s m) (Inf t) = (if m = 0 then NaN else Inf (s \<noteq> t))"
| "fmul f (Fin s m) (Fin t n) = fround f (s \<noteq> t) (m * n)"

fun fdiv :: "fmt \<Rightarrow> fp \<Rightarrow> fp \<Rightarrow> fp" where
  "fdiv f NaN y = NaN"
| "fdiv f x NaN = NaN"
| "fdiv f (Inf s) (Inf t) = NaN"
| "fdiv f (Inf s) (Fin t n) = Inf (s \<noteq> t)"
| "fdiv f (Fin s m) (Inf t) = Fin (s \<noteq> t) 0"
| "fdiv f (Fin s m) (Fin t n) =
     (if n = 0 then (if m = 0 then NaN else Inf (s \<noteq> t)) else fround f (s \<noteq> t) (m / n))"

text \<open>Conversions: between formats, from unsigned integers, and to \<open>uint64_t\<close> (truncation;
  \<open>None\<close> where C++ leaves the conversion undefined).\<close>

fun fconv :: "fmt \<Rightarrow> fp \<Rightarrow> fp" where
  "fconv f (Fin s m) = fround f s m"
| "fconv f x = x"

definition f_of_nat :: "fmt \<Rightarrow> nat \<Rightarrow> fp" where
  "f_of_nat f n = fround f False (of_nat n)"

fun f_to_u64 :: "fp \<Rightarrow> nat option" where
  "f_to_u64 (Fin s m) =
     (if s \<and> 1 \<le> m \<or> 2 ^ 64 \<le> m then None else if s then Some 0 else Some (nat \<lfloor>m\<rfloor>))"
| "f_to_u64 _ = None"

text \<open>Comparisons: false whenever an operand is NaN.\<close>

fun flt :: "fp \<Rightarrow> fp \<Rightarrow> bool" where
  "flt (Inf s) (Inf t) \<longleftrightarrow> s \<and> \<not> t"
| "flt (Inf s) (Fin t n) \<longleftrightarrow> s"
| "flt (Fin s m) (Inf t) \<longleftrightarrow> \<not> t"
| "flt (Fin s m) (Fin t n) \<longleftrightarrow> fval (Fin s m) < fval (Fin t n)"
| "flt _ _ \<longleftrightarrow> False"

fun feq :: "fp \<Rightarrow> fp \<Rightarrow> bool" where
  "feq (Inf s) (Inf t) \<longleftrightarrow> s = t"
| "feq (Fin s m) (Fin t n) \<longleftrightarrow> fval (Fin s m) = fval (Fin t n)"
| "feq _ _ \<longleftrightarrow> False"

definition fle :: "fp \<Rightarrow> fp \<Rightarrow> bool" where
  "fle x y \<longleftrightarrow> flt x y \<or> feq x y"

text \<open>\<open>std::max(a, b)\<close> is \<open>(a < b) ? b : a\<close>.\<close>

definition fmax :: "fp \<Rightarrow> fp \<Rightarrow> fp" where
  "fmax a b = (if flt a b then b else a)"

definition flt_max :: fp where
  "flt_max = Fin False ((2 ^ 24 - 1) * 2 ^ 104)"

abbreviation fzero :: fp where "fzero \<equiv> Fin False 0"
abbreviation fone :: fp where "fone \<equiv> Fin False 1"

section \<open>Order\<close>

lemma flt_irrefl [simp]: "\<not> flt x x"
  by (cases x) auto

lemma flt_trans: "flt x y \<Longrightarrow> flt y z \<Longrightarrow> flt x z"
  by (cases x; cases y; cases z) auto

lemma flt_asym: "flt x y \<Longrightarrow> \<not> flt y x"
  using flt_trans flt_irrefl by blast

lemma feq_sym: "feq x y \<longleftrightarrow> feq y x"
  by (cases x; cases y) auto

lemma feq_trans: "feq x y \<Longrightarrow> feq y z \<Longrightarrow> feq x z"
  by (cases x; cases y; cases z) auto

lemma feq_refl [simp]: "feq x x \<longleftrightarrow> \<not> is_nan x"
  by (cases x) auto

lemma feq_flt_trans: "feq x y \<Longrightarrow> flt y z \<Longrightarrow> flt x z"
  by (cases x; cases y; cases z) auto

lemma flt_feq_trans: "flt x y \<Longrightarrow> feq y z \<Longrightarrow> flt x z"
  by (cases x; cases y; cases z) auto

lemma flt_not_feq: "flt x y \<Longrightarrow> \<not> feq x y"
  by (cases x; cases y) auto

lemma fcmp_total: "\<not> is_nan x \<Longrightarrow> \<not> is_nan y \<Longrightarrow> flt x y \<or> feq x y \<or> flt y x"
  by (cases x; cases y) auto

lemma fle_refl [simp]: "fle x x \<longleftrightarrow> \<not> is_nan x"
  by (simp add: fle_def)

lemma fle_trans: "fle x y \<Longrightarrow> fle y z \<Longrightarrow> fle x z"
  unfolding fle_def using flt_trans feq_trans feq_flt_trans flt_feq_trans by blast

lemma fle_flt_trans: "fle x y \<Longrightarrow> flt y z \<Longrightarrow> flt x z"
  unfolding fle_def using flt_trans feq_flt_trans by blast

lemma flt_fle_trans: "flt x y \<Longrightarrow> fle y z \<Longrightarrow> flt x z"
  unfolding fle_def using flt_trans flt_feq_trans by blast

lemma not_fle: "\<not> is_nan x \<Longrightarrow> \<not> is_nan y \<Longrightarrow> \<not> fle x y \<longleftrightarrow> flt y x"
  unfolding fle_def using fcmp_total flt_asym flt_not_feq feq_sym by blast

lemma not_flt: "\<not> is_nan x \<Longrightarrow> \<not> is_nan y \<Longrightarrow> \<not> flt x y \<longleftrightarrow> fle y x"
  using not_fle by blast

lemma fle_not_nan: "fle x y \<Longrightarrow> \<not> is_nan x \<and> \<not> is_nan y"
  by (cases x; cases y) (auto simp: fle_def)

lemma flt_not_nan: "flt x y \<Longrightarrow> \<not> is_nan x \<and> \<not> is_nan y"
  by (cases x; cases y) auto

section \<open>Rounding is exact on representable values\<close>

lemma pow2_pos [simp]: "0 < pow2 e"
  by (simp add: pow2_def)

lemma pow2_nonzero [simp]: "pow2 e \<noteq> 0"
  using pow2_pos[of e] by linarith

lemma pow2_eq_powi: "pow2 e = 2 powi e"
  by (simp add: pow2_def power_int_def field_simps)

lemma pow2_add: "pow2 (a + b) = pow2 a * pow2 b"
  by (simp add: pow2_eq_powi power_int_add)

lemma pow2_nat: "0 \<le> e \<Longrightarrow> pow2 e = of_int (2 ^ nat e)"
  by (simp add: pow2_def)

lemma pow2_mono: "a \<le> b \<Longrightarrow> pow2 a \<le> pow2 b"
  by (simp add: pow2_eq_powi power_int_increasing)

lemma pow2_less_iff: "pow2 a < pow2 b \<longleftrightarrow> a < b"
  by (metis linorder_not_le order_less_imp_not_less pow2_mono order_le_imp_less_or_eq pow2_eq_powi power_int_strict_increasing one_less_numeral_iff semiring_norm(76))

lemma ilog2_bounds:
  assumes "0 < x"
  shows "pow2 (ilog2 x) \<le> x" "x < pow2 (ilog2 x + 1)"
proof -
  obtain n d where nd: "quotient_of x = (n, d)"
    by (cases "quotient_of x")
  have d: "0 < d" and x: "x = of_int n / of_int d"
    using nd quotient_of_denom_pos quotient_of_div by blast+
  have n: "0 < n"
    using assms d x by (simp add: zero_less_divide_iff)
  have bounds: "pow2 (bitlen a - 1) \<le> of_int a" "of_int a < pow2 (bitlen a)" if "0 < a" for a :: int
  proof -
    have "0 \<le> bitlen a - 1"
      using bitlen_nonneg[of "a - 1"] that by (simp add: bitlen_def floorlog_def)
    then show "pow2 (bitlen a - 1) \<le> of_int a"
      using bitlen_bounds[OF that] by (simp add: pow2_nat del: of_int_power)
    show "of_int a < pow2 (bitlen a)"
      using bitlen_bounds[OF that] bitlen_nonneg[of a] by (simp add: pow2_nat del: of_int_power)
  qed
  define k where "k = bitlen n - bitlen d"
  have up: "x < pow2 (k + 1)"
  proof -
    have "of_int n < pow2 (bitlen n)"
      using bounds(2)[OF n] .
    also have "\<dots> = pow2 (k + 1) * pow2 (bitlen d - 1)"
      by (simp add: k_def flip: pow2_add)
    also have "\<dots> \<le> pow2 (k + 1) * of_int d"
      using bounds(1)[OF d] by simp
    finally show ?thesis
      using d by (simp add: x divide_less_eq)
  qed
  have lo: "pow2 (k - 1) \<le> x"
  proof -
    have "pow2 (k - 1) * of_int d \<le> pow2 (k - 1) * pow2 (bitlen d)"
      using bounds(2)[OF d] by simp
    also have "\<dots> = pow2 (bitlen n - 1)"
      by (simp add: k_def flip: pow2_add)
    also have "\<dots> \<le> of_int n"
      using bounds(1)[OF n] .
    finally show ?thesis
      using d by (simp add: x le_divide_eq)
  qed
  have eq: "ilog2 x = (if pow2 k \<le> x then k else k - 1)"
    by (simp add: ilog2_def nd k_def)
  show "pow2 (ilog2 x) \<le> x" "x < pow2 (ilog2 x + 1)"
    using up lo by (auto simp: eq)
qed

definition representable :: "fmt \<Rightarrow> rat \<Rightarrow> bool" where
  "representable f y \<longleftrightarrow>
     (\<exists>m q. y = of_nat m * pow2 q \<and> m < 2 ^ prec f \<and> qmin f \<le> q \<and> y < pow2 (emax f + 1))"

fun wf_fp :: "fmt \<Rightarrow> fp \<Rightarrow> bool" where
  "wf_fp f (Fin s m) = representable f m"
| "wf_fp f _ = True"

lemma round_half_even_of_int [simp]: "round_half_even (of_int n) = n"
  by (simp add: round_half_even_def)

lemma round_half_even_bounds: "of_int (round_half_even x) - 1/2 \<le> x" "x \<le> of_int (round_half_even x) + 1/2"
  unfolding round_half_even_def Let_def by (auto split: if_splits) linarith+

lemma round_half_even_nonneg: "0 \<le> x \<Longrightarrow> 0 \<le> round_half_even x"
  by (auto simp: round_half_even_def Let_def)

lemma round_half_even_le:
  assumes "x \<le> of_int n"
  shows "round_half_even x \<le> n"
proof (rule ccontr)
  assume "\<not> round_half_even x \<le> n"
  then have "n + 1 \<le> round_half_even x"
    by linarith
  then have "(of_int (n + 1) :: rat) \<le> of_int (round_half_even x)"
    by (simp only: of_int_le_iff)
  then have "of_int n + 1/2 \<le> x"
    using round_half_even_bounds(1)[of x] by (simp add: field_simps)
  with assms show False
    by linarith
qed

lemma fround_exact:
  assumes "representable f y"
  shows "fround f s y = Fin s y"
proof (cases "y = 0")
  case True
  then show ?thesis by (simp add: fround_def)
next
  case False
  from assms obtain m q where y: "y = of_nat m * pow2 q" and m: "m < 2 ^ prec f" and q: "qmin f \<le> q"
    and top: "y < pow2 (emax f + 1)"
    by (auto simp: representable_def)
  have pos: "0 < y"
    using False y by (simp add: zero_less_mult_iff)
  define q' where "q' = max (ilog2 y - int (prec f) + 1) (qmin f)"
  have "q' \<le> q"
  proof (rule ccontr)
    assume "\<not> q' \<le> q"
    with q have "q + int (prec f) \<le> ilog2 y"
      by (auto simp: q'_def max_def split: if_splits)
    then have "pow2 q * pow2 (int (prec f)) \<le> y"
      using ilog2_bounds(1)[OF pos] pow2_mono order_trans by (fastforce simp flip: pow2_add)
    moreover have "(of_nat m :: rat) < pow2 (int (prec f))"
    proof -
      have "(of_nat m :: rat) < of_nat (2 ^ prec f)"
        using m by (simp only: of_nat_less_iff)
      then show ?thesis
        by (simp add: pow2_def)
    qed
    ultimately show False
      using pow2_pos[of q] by (simp add: y mult.commute)
  qed
  then have "y / pow2 q' = of_nat m * pow2 (q - q')"
    using pow2_add[of "q - q'" q'] by (simp add: y)
  also have "\<dots> = of_int (int m * 2 ^ nat (q - q'))"
    using \<open>q' \<le> q\<close> by (simp add: pow2_nat)
  finally have int: "y / pow2 q' = of_int (int m * 2 ^ nat (q - q'))" .
  have "of_int (round_half_even (y / pow2 q')) * pow2 q' = y"
    using int by (metis nonzero_divide_eq_eq pow2_nonzero round_half_even_of_int)
  then show ?thesis
    using False top by (simp add: fround_def Let_def flip: q'_def)
qed

lemma fround_wf:
  assumes "0 \<le> x"
  shows "wf_fp f (fround f s x)"
proof (cases "x = 0")
  case True
  have "\<exists>q. qmin f \<le> q"
    by blast
  then show ?thesis
    using True by (auto simp: fround_def representable_def)
next
  case False
  with assms have pos: "0 < x" by simp
  define q where "q = max (ilog2 x - int (prec f) + 1) (qmin f)"
  define m where "m = round_half_even (x / pow2 q)"
  have m0: "0 \<le> m"
    unfolding m_def using pos by (intro round_half_even_nonneg) (simp add: less_imp_le)
  have "x < pow2 (ilog2 x + 1)"
    by (rule ilog2_bounds(2)[OF pos])
  also have "\<dots> \<le> pow2 (int (prec f) + q)"
    by (rule pow2_mono) (simp add: q_def)
  finally have "x / pow2 q \<le> of_int (2 ^ prec f)"
    by (simp add: pow2_add pow2_nat divide_le_eq)
  then have m1: "m \<le> 2 ^ prec f"
    unfolding m_def by (rule round_half_even_le)
  have rep: "representable f (of_int m * pow2 q)" if "of_int m * pow2 q < pow2 (emax f + 1)"
  proof (cases "m = 2 ^ prec f")
    case False
    with m1 have "nat m < 2 ^ prec f"
      using m0 by (simp add: nat_less_iff)
    moreover have "of_int m * pow2 q = of_nat (nat m) * pow2 q"
      using m0 by simp
    moreover have "qmin f \<le> q"
      by (simp add: q_def)
    ultimately show ?thesis
      using that unfolding representable_def by blast
  next
    case True
    have "of_int m * pow2 q = of_nat (2 ^ (prec f - 1)) * pow2 (q + 1)"
    proof -
      obtain k where "prec f = Suc k"
        by (cases f) (simp_all add: numeral_eq_Suc)
      then have "(2::rat) ^ prec f = 2 ^ (prec f - 1) * 2"
        by simp
      then show ?thesis
        by (simp add: True pow2_add pow2_def[of 1])
    qed
    moreover have "(2::nat) ^ (prec f - 1) < 2 ^ prec f"
      by (cases f) simp_all
    moreover have "qmin f \<le> q + 1"
      by (simp add: q_def)
    ultimately show ?thesis
      using that unfolding representable_def by blast
  qed
  show ?thesis
    using False rep by (auto simp: fround_def Let_def m_def simp flip: q_def)
qed

lemma fround_one [simp]: "fround f s 1 = Fin s 1"
proof (rule fround_exact)
  show "representable f 1"
    unfolding representable_def
    using pow2_less_iff[of 0 "emax f + 1"]
    by (intro exI[of _ 1] exI[of _ 0]) (cases f; simp add: pow2_nat[of 0])
qed

lemma fmul_one: "wf_fp f x \<Longrightarrow> fmul f fone x = x"
  by (cases x) (auto simp: fround_exact)

section \<open>Signs\<close>

text \<open>\<open>fnonneg x\<close>: a number, not a NaN, with the sign bit clear.\<close>

fun fnonneg :: "fp \<Rightarrow> bool" where
  "fnonneg NaN = False"
| "fnonneg (Inf s) = (\<not> s)"
| "fnonneg (Fin s m) = (\<not> s \<and> 0 \<le> m)"

lemma fround_cases:
  assumes "0 \<le> x"
  obtains "fround f s x = Inf s" | m where "fround f s x = Fin s m" "0 \<le> m"
proof (cases "x = 0")
  case True
  then show ?thesis using that by (simp add: fround_def)
next
  case False
  then have "0 \<le> round_half_even (x / pow2 q)" for q
    using assms pow2_pos[of q] by (intro round_half_even_nonneg) (simp add: less_imp_le)
  then have "0 \<le> of_int (round_half_even (x / pow2 q)) * pow2 q" for q
    using pow2_pos[of q] by (simp add: less_imp_le)
  moreover define q where "q = max (ilog2 x - int (prec f) + 1) (qmin f)"
  ultimately have "0 \<le> of_int (round_half_even (x / pow2 q)) * pow2 q"
    by blast
  then show ?thesis
    using that False by (cases "pow2 (emax f + 1) \<le> of_int (round_half_even (x / pow2 q)) * pow2 q")
      (simp_all add: fround_def Let_def flip: q_def)
qed

lemma fround_nonneg: "0 \<le> x \<Longrightarrow> fnonneg (fround f False x)"
  by (metis fnonneg.simps(2) fnonneg.simps(3) fround_cases)

lemma fadd_nonneg: "fnonneg x \<Longrightarrow> fnonneg y \<Longrightarrow> fnonneg (fadd f x y)"
  by (cases x; cases y) (auto simp: Let_def fround_nonneg abs_if)

lemma fmul_self_nonneg: "\<not> is_nan x \<Longrightarrow> fnonneg (fmul f x x)"
  by (cases x) (auto simp: fround_nonneg)

lemma fconv_nonneg: "fnonneg x \<Longrightarrow> fnonneg (fconv f x)"
  by (cases x) (auto simp: fround_nonneg)

lemma fnonneg_not_nan: "fnonneg x \<Longrightarrow> \<not> is_nan x"
  by (cases x) auto

lemma fle_zero_nonneg: "fnonneg x \<Longrightarrow> fle fzero x"
  by (cases x) (auto simp: fle_def)

lemma fle_fzero_iff: "fnonneg x \<Longrightarrow> fle x fzero \<longleftrightarrow> x = fzero"
  by (cases x) (auto simp: fle_def)

lemma fsub_self: "is_fin x \<Longrightarrow> fsub f x x = fzero"
  by (cases x) (auto simp: fsub_def)

lemma is_fin_not_nan: "is_fin x \<Longrightarrow> \<not> is_nan x"
  by (cases x) auto

lemma fround_not_nan [simp]: "\<not> is_nan (fround f s x)"
  by (simp add: fround_def Let_def)

lemma fconv_not_nan: "\<not> is_nan x \<Longrightarrow> \<not> is_nan (fconv f x)"
  by (cases x) auto

lemma fsub_fin_not_nan: "is_fin x \<Longrightarrow> is_fin y \<Longrightarrow> \<not> is_nan (fsub f x y)"
  by (cases x; cases y) (auto simp: fsub_def Let_def)

lemma fconv_wf: "wf_fp f (fconv f x)" if "\<And>s m. x = Fin s m \<Longrightarrow> 0 \<le> m"
  using that by (cases x) (auto intro: fround_wf)

section \<open>Rounding below a power of two\<close>

lemma fround_le_pow2:
  assumes "0 \<le> x" "x \<le> pow2 k" "qmin f \<le> k" "k \<le> emax f"
  shows "\<exists>m. fround f False x = Fin False m \<and> 0 \<le> m \<and> m \<le> pow2 k"
proof (cases "x = 0")
  case True
  then show ?thesis using less_imp_le[OF pow2_pos[of k]] by (simp add: fround_def)
next
  case False
  then have pos: "0 < x" using assms(1) by simp
  define q where "q = max (ilog2 x - int (prec f) + 1) (qmin f)"
  define y where "y = of_int (round_half_even (x / pow2 q)) * pow2 q"
  have "pow2 (ilog2 x) \<le> pow2 k"
    using ilog2_bounds(1)[OF pos] assms(2) by simp
  then have "ilog2 x \<le> k"
    using pow2_less_iff[of k "ilog2 x"] by linarith
  then have q: "q \<le> k"
    using assms(3) by (cases f) (auto simp: q_def)
  have quot: "pow2 k / pow2 q = of_int (2 ^ nat (k - q))"
    using q pow2_add[of "k - q" q] pow2_nat[of "k - q"] pow2_pos[of q] by (simp add: field_simps)
  then have "x / pow2 q \<le> of_int (2 ^ nat (k - q))"
    using assms(2) pow2_pos[of q] by (metis divide_right_mono less_eq_rat_def)
  then have "round_half_even (x / pow2 q) \<le> 2 ^ nat (k - q)"
    by (rule round_half_even_le)
  then have "y \<le> of_int (2 ^ nat (k - q)) * pow2 q"
    unfolding y_def using pow2_pos[of q] by (intro mult_right_mono) (simp_all only: of_int_le_iff less_imp_le)
  also have "\<dots> = pow2 k"
    unfolding quot[symmetric] using pow2_pos[of q] by simp
  finally have y: "y \<le> pow2 k" .
  have "0 \<le> y"
    unfolding y_def using pos less_imp_le[OF pow2_pos[of q]] by (simp add: round_half_even_nonneg)
  moreover have "pow2 k < pow2 (emax f + 1)"
    using assms(4) by (simp add: pow2_less_iff)
  ultimately show ?thesis
    using False y by (simp add: fround_def Let_def flip: q_def y_def)
qed

lemma fround_le_one:
  assumes "0 \<le> x" "x \<le> 1"
  shows "\<not> flt fone (fround f False x)"
proof -
  have "pow2 0 = 1" by (simp add: pow2_def)
  moreover have "qmin f \<le> 0" "0 \<le> emax f" by (cases f; simp)+
  ultimately show ?thesis
    using fround_le_pow2[of x 0 f] assms by auto
qed

lemma fdiv_le_one:
  assumes "fnonneg x" "fnonneg y" "flt x y"
  shows "\<not> flt fone (fdiv f x y)" "\<not> is_nan (fdiv f x y)"
  using assms by (cases x; cases y; auto simp: fround_le_one)+

lemma representable_of_nat:
  assumes "n < 2 ^ prec f"
  shows "representable f (of_nat n)"
proof -
  have "(of_nat n :: rat) < of_nat (2 ^ prec f)"
    using assms by (simp only: of_nat_less_iff)
  also have "\<dots> = pow2 (int (prec f))"
    by (simp add: pow2_def)
  also have "\<dots> < pow2 (emax f + 1)"
    unfolding pow2_less_iff by (cases f) simp_all
  finally have "(of_nat n :: rat) < pow2 (emax f + 1)" .
  moreover have "(of_nat n :: rat) = of_nat n * pow2 0" "qmin f \<le> 0"
    by (simp add: pow2_def) (cases f, simp_all)
  ultimately show ?thesis
    using assms unfolding representable_def by blast
qed

end
