(* ===== verification/Cstd.thy ===== *)
theory Cstd
  imports Ieee_Float "HOL-Library.Char_ord"
begin

text \<open>
  The conversions of the C++ standard library that the command lines and text files of the tools
  go through: \<open>std::stoul\<close>, \<open>std::stoull\<close>, \<open>std::stoll\<close>, \<open>std::atoi\<close>, \<open>std::stof\<close>,
  \<open>operator>>\<close> into a \<open>uint64_t\<close>, \<open>std::getline\<close> and \<open>std::setw\<close>/\<open>operator<<\<close> of an
  unsigned number. \<open>unsigned long\<close> has 64 bits.
\<close>

section \<open>Scanning\<close>

definition is_ws :: "char \<Rightarrow> bool" where
  "is_ws c \<longleftrightarrow> c \<in> {CHR '' '', CHR 0x09, CHR 0x0A, CHR 0x0B, CHR 0x0C, CHR 0x0D}"

definition code :: "char \<Rightarrow> nat" where
  "code c = of_char c"

definition is_dig :: "char \<Rightarrow> bool" where
  "is_dig c \<longleftrightarrow> 48 \<le> code c \<and> code c \<le> 57"

definition dec_val :: "string \<Rightarrow> nat" where
  "dec_val ds = foldl (\<lambda>n c. 10 * n + (code c - 48)) 0 ds"

text \<open>Optional white space and sign.\<close>

definition scan_sign :: "string \<Rightarrow> bool \<times> string" where
  "scan_sign s =
     (case dropWhile is_ws s of
        [] \<Rightarrow> (False, [])
      | c # cs \<Rightarrow> if c = CHR ''-'' then (True, cs) else if c = CHR ''+'' then (False, cs) else (False, c # cs))"

text \<open>\<open>strtol\<close> in base 10: sign, magnitude and the rest, or nothing when there is no digit.\<close>

definition strto :: "string \<Rightarrow> (bool \<times> nat \<times> string) option" where
  "strto s =
     (let (neg, t) = scan_sign s; ds = takeWhile is_dig t
      in if ds = [] then None else Some (neg, dec_val ds, dropWhile is_dig t))"

definition stoull :: "string \<Rightarrow> nat res" where
  "stoull s =
     (case strto s of
        None \<Rightarrow> Inl InvalidArgument
      | Some (neg, v, rest) \<Rightarrow>
          if 2 ^ 64 \<le> v then Inl OutOfRange else Inr (if neg then u64 (2 ^ 64 - v) else v))"

definition stoll :: "string \<Rightarrow> int res" where
  "stoll s =
     (case strto s of
        None \<Rightarrow> Inl InvalidArgument
      | Some (neg, v, rest) \<Rightarrow>
          if (if neg then v \<le> 2 ^ 63 else v < 2 ^ 63) then Inr (if neg then - int v else int v)
          else Inl OutOfRange)"

text \<open>\<open>atoi\<close> is \<open>(int) strtol(s, NULL, 10)\<close>: saturated to 64 bits, then cut to 32.\<close>

definition wrap_int :: "int \<Rightarrow> int" where
  "wrap_int x = (x + 2 ^ 31) mod 2 ^ 32 - 2 ^ 31"

definition atoi :: "string \<Rightarrow> int" where
  "atoi s =
     (case strto s of
        None \<Rightarrow> 0
      | Some (neg, v, rest) \<Rightarrow>
          wrap_int (if neg then - int (min v (2 ^ 63)) else int (min v (2 ^ 63 - 1))))"

text \<open>\<open>in >> x\<close> for an unsigned 64 bit \<open>x\<close>: the value and the rest of the stream, or failure.\<close>

definition extract_u64 :: "string \<Rightarrow> (nat \<times> string) option" where
  "extract_u64 s =
     (case strto s of
        None \<Rightarrow> None
      | Some (neg, v, rest) \<Rightarrow>
          if 2 ^ 64 \<le> v then None else Some (if neg then u64 (2 ^ 64 - v) else v, rest))"

text \<open>\<open>std::getline\<close> until the stream ends: the lines without their terminators.\<close>

function getlines :: "string \<Rightarrow> string list" where
  "getlines [] = []"
| "getlines (c # cs) =
     (let l = takeWhile (\<lambda>d. d \<noteq> CHR 0x0A) (c # cs);
          r = dropWhile (\<lambda>d. d \<noteq> CHR 0x0A) (c # cs)
      in l # getlines (drop 1 r))"
  by pat_completeness auto
termination
  by (relation "measure length") (auto simp: less_Suc_eq_le le_diff_conv intro: le_trans[OF length_dropWhile_le])

section \<open>Floating point\<close>

definition lower :: "char \<Rightarrow> char" where
  "lower c = (if 65 \<le> code c \<and> code c \<le> 90 then char_of (code c + 32) else c)"

definition has_prefix :: "string \<Rightarrow> string \<Rightarrow> bool" where
  "has_prefix p s \<longleftrightarrow> take (length p) s = p"

definition hex_val :: "char \<Rightarrow> nat option" where
  "hex_val c =
     (if is_dig c then Some (code c - 48)
      else if 97 \<le> code (lower c) \<and> code (lower c) \<le> 102 then Some (code (lower c) - 87) else None)"

text \<open>A mantissa in base \<open>B\<close> with an optional point: value times \<open>B ^ (number of fraction digits)\<close>,
  that number, and the rest.\<close>

definition scan_mantissa :: "(char \<Rightarrow> nat option) \<Rightarrow> nat \<Rightarrow> string \<Rightarrow> (nat \<times> nat \<times> string) option" where
  "scan_mantissa val B s =
     (let isd = (\<lambda>c. val c \<noteq> None);
          ip = takeWhile isd s; r = dropWhile isd s;
          (fp, r2) = (case r of
             [] \<Rightarrow> ([], r)
           | c # cs \<Rightarrow> if c = CHR ''.'' then (takeWhile isd cs, dropWhile isd cs) else ([], r))
      in if ip = [] \<and> fp = [] then None
         else Some (foldl (\<lambda>n c. B * n + the (val c)) 0 (ip @ fp), length fp, r2))"

text \<open>An exponent is read only when a digit follows the letter and the sign.\<close>

definition scan_exponent :: "char \<Rightarrow> string \<Rightarrow> int" where
  "scan_exponent e s =
     (case s of
        [] \<Rightarrow> 0
      | c # cs \<Rightarrow>
          if lower c \<noteq> e \<or> (cs \<noteq> [] \<and> is_ws (hd cs)) then 0
          else (case strto cs of None \<Rightarrow> 0 | Some (neg, v, rest) \<Rightarrow> if neg then - int v else int v))"

definition scan_magnitude :: "string \<Rightarrow> rat option" where
  "scan_magnitude t =
     (let hex = (if has_prefix ''0x'' (map lower t) then scan_mantissa hex_val 16 (drop 2 t) else None)
      in case hex of
           Some (m, k, r) \<Rightarrow> Some (of_nat m * pow2 (scan_exponent (CHR ''p'') r - 4 * int k))
         | None \<Rightarrow>
             (case scan_mantissa (\<lambda>c. if is_dig c then Some (code c - 48) else None) 10 t of
                None \<Rightarrow> None
              | Some (m, k, r) \<Rightarrow>
                  (let x = scan_exponent (CHR ''e'') r - int k
                   in Some (if 0 \<le> x then of_nat m * 10 ^ nat x else of_nat m / 10 ^ nat (- x)))))"

text \<open>\<open>std::stof\<close>: overflow, and a result below the normal range that is not exact, raise
  \<open>std::out_of_range\<close>.\<close>

definition stof :: "string \<Rightarrow> fp res" where
  "stof s =
     (let (neg, t) = scan_sign s
      in if has_prefix ''inf'' (map lower t) then Inr (Inf neg)
         else if has_prefix ''nan'' (map lower t) then Inr NaN
         else case scan_magnitude t of
                None \<Rightarrow> Inl InvalidArgument
              | Some x \<Rightarrow>
                  (let r = fround Binary32 neg x
                   in case r of
                        Fin sg y \<Rightarrow> if y \<noteq> x \<and> x < pow2 (- 126) then Inl OutOfRange else Inr r
                      | _ \<Rightarrow> Inl OutOfRange))"

section \<open>Printing\<close>

fun dec_string :: "nat \<Rightarrow> string" where
  "dec_string n = (if n < 10 then [char_of (48 + n)] else dec_string (n div 10) @ [char_of (48 + n mod 10)])"

declare dec_string.simps [simp del]

text \<open>\<open>std::setw(w) << std::setfill('0')\<close>.\<close>

definition zero_pad :: "nat \<Rightarrow> string \<Rightarrow> string" where
  "zero_pad w s = replicate (w - length s) (CHR ''0'') @ s"

lemma code_digit [simp]: "d < 10 \<Longrightarrow> code (char_of (48 + d)) = 48 + d"
  by (simp add: code_def)

lemma is_dig_digit [simp]: "d < 10 \<Longrightarrow> is_dig (char_of (48 + d :: nat))"
  by (simp add: is_dig_def)

lemma dec_string_digits: "\<forall>c \<in> set (dec_string n). is_dig c"
  by (induction n rule: dec_string.induct) (subst dec_string.simps, auto)

lemma dec_string_nonempty [simp]: "dec_string n \<noteq> []"
  by (subst dec_string.simps) simp

lemma dec_val_dec_string [simp]: "dec_val (dec_string n) = n"
proof (induction n rule: dec_string.induct)
  case (1 n)
  then show ?case
    by (cases "n < 10") (auto simp: dec_string.simps[of n] dec_val_def)
qed

lemma digit_not_sign: "is_dig c \<Longrightarrow> \<not> is_ws c \<and> c \<noteq> CHR ''-'' \<and> c \<noteq> CHR ''+''"
  by (auto simp: is_dig_def is_ws_def code_def)

lemma strto_dec_string:
  assumes "rest = [] \<or> \<not> is_dig (hd rest)"
  shows "strto (dec_string n @ rest) = Some (False, n, rest)"
proof -
  obtain c cs where c: "dec_string n = c # cs"
    using dec_string_nonempty by (meson neq_Nil_conv)
  have dig: "\<forall>x \<in> set (c # cs). is_dig x"
    using dec_string_digits[of n] by (simp add: c)
  then have "scan_sign (dec_string n @ rest) = (False, dec_string n @ rest)"
    using digit_not_sign[of c] by (simp add: scan_sign_def c)
  moreover have "takeWhile is_dig (dec_string n @ rest) = dec_string n"
    using assms dec_string_digits[of n] by (cases rest) (auto simp: takeWhile_append)
  moreover have "dropWhile is_dig (dec_string n @ rest) = rest"
    using assms dec_string_digits[of n] by (cases rest) (auto simp: dropWhile_append)
  ultimately show ?thesis
    by (simp add: strto_def)
qed

lemma stoull_dec_string: "n < 2 ^ 64 \<Longrightarrow> stoull (dec_string n) = Inr n"
  using strto_dec_string[of "[]" n] by (simp add: stoull_def)

lemma span_dec_string [simp]:
  "takeWhile is_dig (dec_string n) = dec_string n" "dropWhile is_dig (dec_string n) = []"
  using dec_string_digits[of n] by (simp_all add: takeWhile_eq_all_conv)

definition int_string :: "int \<Rightarrow> string" where
  "int_string x = (if x < 0 then CHR ''-'' # dec_string (nat (- x)) else dec_string (nat x))"

lemma strto_int_string:
  "strto (int_string x) = Some (x < 0, nat \<bar>x\<bar>, [])"
proof (cases "x < 0")
  case True
  show ?thesis
    using True by (simp add: int_string_def strto_def scan_sign_def is_ws_def Let_def)
next
  case False
  then show ?thesis
    using strto_dec_string[of "[]" "nat x"] by (simp add: int_string_def)
qed

lemma stoll_int_string: "- (2 ^ 63) \<le> x \<Longrightarrow> x < 2 ^ 63 \<Longrightarrow> stoll (int_string x) = Inr x"
  by (auto simp: stoll_def strto_int_string)

lemma atoi_int_string: "- (2 ^ 31) \<le> x \<Longrightarrow> x < 2 ^ 31 \<Longrightarrow> atoi (int_string x) = x"
  by (auto simp: atoi_def strto_int_string wrap_int_def min_def)

end
