(* ===== verification/Config.thy ===== *)
theory Config
  imports Cstd
begin

text \<open>
  The configuration of the construction tool (\<open>construction/our_construction.cpp\<close>): its
  command line (\<open>Args\<close>, \<open>parse_flags\<close>, the positional arguments of \<open>main\<close>), the stages a
  run performs, file names, and the allow-list of partition pairs (\<open>CrossPairMask\<close>).
\<close>

section \<open>Environment and names\<close>

text \<open>\<open>getenv\<close> gives \<open>None\<close> when the variable is unset.\<close>

definition env_flag_enabled :: "string option \<Rightarrow> bool \<Rightarrow> bool" where
  "env_flag_enabled v default_value =
     (case v of
        None \<Rightarrow> default_value
      | Some s \<Rightarrow> if s = [] then default_value
                  else s \<noteq> ''0'' \<and> s \<noteq> ''false'' \<and> s \<noteq> ''False'' \<and> s \<noteq> ''no'' \<and> s \<noteq> ''off'')"

definition subindex_prefix :: "string \<Rightarrow> nat \<Rightarrow> string" where
  "subindex_prefix out_prefix u = out_prefix @ ''.subgraph_u'' @ dec_string u @ ''.mem.index''"

definition subshard_path :: "string \<Rightarrow> nat \<Rightarrow> string" where
  "subshard_path out_prefix u = out_prefix @ ''.subshard_u'' @ dec_string u @ ''.fbin''"

definition bucket_log_name :: "string \<Rightarrow> nat \<Rightarrow> string" where
  "bucket_log_name tag_prefix b = tag_prefix @ ''bucket_'' @ zero_pad 3 (dec_string b) @ ''.log''"

section \<open>Arguments\<close>

datatype prof = PNONE | PBASIC | PDETAIL

datatype stage = STAGE_ALL | BUILD_SUBGRAPHS | PAIR_PROCESSING | SELF_DUMP | CROSS_PAIRS | COMPACT

record args =
  a_data_path :: string
  a_out_prefix :: string
  a_P :: nat
  a_R :: nat
  a_L :: nat
  a_threads :: nat
  a_tag_prefix :: string
  a_buckets :: int
  a_read_buf_mib :: int
  a_keep_subindex :: int
  a_profile :: prof
  a_stage :: stage
  a_chunk_bytes :: nat
  a_memory_budget_bytes :: nat
  a_anchor_start :: int
  a_anchor_end :: int
  a_target :: int
  a_cross_pairs_file :: string

definition args_default :: args where
  "args_default = \<lparr>a_data_path = [], a_out_prefix = [], a_P = 20, a_R = 32, a_L = 50, a_threads = 0,
     a_tag_prefix = [], a_buckets = - 1, a_read_buf_mib = 2, a_keep_subindex = 0, a_profile = PBASIC,
     a_stage = STAGE_ALL, a_chunk_bytes = 0, a_memory_budget_bytes = 0, a_anchor_start = - 1,
     a_anchor_end = - 1, a_target = - 1, a_cross_pairs_file = []\<rparr>"

fun stage_name :: "stage \<Rightarrow> string" where
  "stage_name STAGE_ALL = ''all''"
| "stage_name BUILD_SUBGRAPHS = ''build-subgraphs''"
| "stage_name PAIR_PROCESSING = ''pair-processing''"
| "stage_name SELF_DUMP = ''self-dump''"
| "stage_name CROSS_PAIRS = ''cross-pairs''"
| "stage_name COMPACT = ''compact''"

text \<open>\<open>strncmp(s, k, strlen(k)) == 0 ? s + strlen(k) : nullptr\<close>\<close>

definition pref :: "string \<Rightarrow> string \<Rightarrow> string option" where
  "pref k s = (if take (length k) s = k then Some (drop (length k) s) else None)"

text \<open>A chain \<open>if (pref k1) ... else if (pref k2) ...\<close>: the first matching key acts, an argument
  that matches none is skipped.\<close>

fun flag_chain :: "(string \<times> (string \<Rightarrow> 'a \<Rightarrow> 'a res)) list \<Rightarrow> string \<Rightarrow> 'a \<Rightarrow> 'a res" where
  "flag_chain [] s a = Inr a"
| "flag_chain ((k, f) # ks) s a = (case pref k s of Some v \<Rightarrow> f v a | None \<Rightarrow> flag_chain ks s a)"

definition parse_profile :: "string \<Rightarrow> prof" where
  "parse_profile v = (if v = ''none'' then PNONE else if v = ''detail'' then PDETAIL else PBASIC)"

definition parse_stage :: "string \<Rightarrow> stage res" where
  "parse_stage v =
     (if v = ''all'' then Inr STAGE_ALL
      else if v = ''build-subgraphs'' then Inr BUILD_SUBGRAPHS
      else if v = ''pair-processing'' then Inr PAIR_PROCESSING
      else if v = ''self-dump'' then Inr SELF_DUMP
      else if v = ''cross-pairs'' then Inr CROSS_PAIRS
      else if v = ''compact'' then Inr COMPACT
      else Inl (Die (''unknown --stage value: '' @ v)))"

definition construction_flags :: "(string \<times> (string \<Rightarrow> args \<Rightarrow> args res)) list" where
  "construction_flags =
     [(''--prefix='', \<lambda>v a. Inr (a\<lparr>a_tag_prefix := v\<rparr>)),
      (''--buckets='', \<lambda>v a. Inr (a\<lparr>a_buckets := atoi v\<rparr>)),
      (''--read-buf-mib='', \<lambda>v a. Inr (a\<lparr>a_read_buf_mib := atoi v\<rparr>)),
      (''--keep-subindex='', \<lambda>v a. Inr (a\<lparr>a_keep_subindex := atoi v\<rparr>)),
      (''--profile='', \<lambda>v a. Inr (a\<lparr>a_profile := parse_profile v\<rparr>)),
      (''--stage='', \<lambda>v a. rbind (parse_stage v) (\<lambda>s. Inr (a\<lparr>a_stage := s\<rparr>))),
      (''--chunk-bytes='', \<lambda>v a. rbind (stoull v) (\<lambda>n. Inr (a\<lparr>a_chunk_bytes := n\<rparr>))),
      (''--memory-budget-bytes='', \<lambda>v a. rbind (stoull v) (\<lambda>n. Inr (a\<lparr>a_memory_budget_bytes := n\<rparr>))),
      (''--anchor='', \<lambda>v a. rbind (stoll v) (\<lambda>n. Inr (a\<lparr>a_anchor_start := n, a_anchor_end := n\<rparr>))),
      (''--anchor-start='', \<lambda>v a. rbind (stoll v) (\<lambda>n. Inr (a\<lparr>a_anchor_start := n\<rparr>))),
      (''--anchor-end='', \<lambda>v a. rbind (stoll v) (\<lambda>n. Inr (a\<lparr>a_anchor_end := n\<rparr>))),
      (''--target='', \<lambda>v a. rbind (stoll v) (\<lambda>n. Inr (a\<lparr>a_target := n\<rparr>))),
      (''--cross-pairs-file='', \<lambda>v a. Inr (a\<lparr>a_cross_pairs_file := v\<rparr>))]"

definition parse_flags :: "string list \<Rightarrow> args \<Rightarrow> args res" where
  "parse_flags argv a = rfold (flag_chain construction_flags) (drop 1 argv) a"

text \<open>The head of \<open>main\<close>: usage (exit status 1 is \<open>Inr None\<close>), positional arguments, flags, the
  default of the tag prefix and the check of \<open>--target\<close>.\<close>

definition stoul_arg :: "string list \<Rightarrow> nat \<Rightarrow> nat \<Rightarrow> nat res" where
  "stoul_arg argv i dflt = (if i < length argv then rbind (stoull (argv ! i)) (\<lambda>n. Inr (u32 n)) else Inr dflt)"

definition main_args :: "string list \<Rightarrow> args option res" where
  "main_args argv =
     (if length argv < 3 then Inr None
      else
        rbind (stoul_arg argv 3 (a_P args_default)) (\<lambda>P.
        rbind (stoul_arg argv 4 (a_R args_default)) (\<lambda>R.
        rbind (stoul_arg argv 5 (a_L args_default)) (\<lambda>L.
        rbind (stoul_arg argv 6 (a_threads args_default)) (\<lambda>threads.
        rbind (parse_flags argv (args_default\<lparr>a_data_path := argv ! 1, a_out_prefix := argv ! 2,
                 a_P := P, a_R := R, a_L := L, a_threads := threads\<rparr>)) (\<lambda>a.
          let a' = (if a_tag_prefix a = [] then a\<lparr>a_tag_prefix := a_out_prefix a @ ''.''\<rparr> else a)
          in if 0 \<le> a_target a' \<and> a_stage a' \<noteq> CROSS_PAIRS
             then Inl (Die ''--target requires --stage=cross-pairs'')
             else Inr (Some a')))))))"

section \<open>Stages\<close>

definition builds_subgraphs :: "stage \<Rightarrow> bool" where
  "builds_subgraphs s \<longleftrightarrow> s = STAGE_ALL \<or> s = BUILD_SUBGRAPHS"

definition does_self_dump :: "stage \<Rightarrow> bool" where
  "does_self_dump s \<longleftrightarrow> s = STAGE_ALL \<or> s = PAIR_PROCESSING \<or> s = SELF_DUMP"

definition does_cross_pairs :: "stage \<Rightarrow> bool" where
  "does_cross_pairs s \<longleftrightarrow> s = STAGE_ALL \<or> s = PAIR_PROCESSING \<or> s = CROSS_PAIRS"

definition does_compact :: "stage \<Rightarrow> bool" where
  "does_compact s \<longleftrightarrow> s = STAGE_ALL \<or> s = PAIR_PROCESSING \<or> s = COMPACT"

section \<open>The allow-list of pairs\<close>

record cross_mask =
  m_enabled :: bool
  m_selected_pairs :: nat
  m_selected :: "bool list"

definition unordered_pair_count :: "nat \<Rightarrow> nat" where
  "unordered_pair_count P = (if P < 2 then 0 else u64 (P * (P - 1)) div 2)"

definition mask_line :: "nat \<Rightarrow> nat \<times> string \<Rightarrow> cross_mask \<Rightarrow> cross_mask res" where
  "mask_line P nl msk =
     (case nl of (line_no, line) \<Rightarrow>
        if line = [] \<or> hd line = CHR ''#'' then Inr msk
        else case extract_u64 line of
            None \<Rightarrow> Inl (Die (''bad cross pairs file line '' @ dec_string line_no @ '': '' @ line))
          | Some (x, rest) \<Rightarrow>
              (case extract_u64 rest of
                 None \<Rightarrow> Inl (Die (''bad cross pairs file line '' @ dec_string line_no @ '': '' @ line))
               | Some (y, rest') \<Rightarrow>
                   if P \<le> x \<or> P \<le> y \<or> x = y then
                     Inl (Die (''invalid cross pair at line '' @ dec_string line_no @ '': ('' @ dec_string x @
                       '','' @ dec_string y @ '') for P='' @ dec_string P))
                   else
                     let idx = u64 (u32 (min x y) * P + u32 (max x y))
                     in if m_selected msk ! idx then Inr msk
                        else Inr (msk\<lparr>m_selected := (m_selected msk)[idx := True],
                                       m_selected_pairs := u64 (m_selected_pairs msk + 1)\<rparr>)))"

text \<open>The file is \<open>None\<close> when it cannot be opened.\<close>

definition load_cross_pair_mask :: "args \<Rightarrow> string option \<Rightarrow> cross_mask res" where
  "load_cross_pair_mask a content =
     (if a_cross_pairs_file a = [] then Inr \<lparr>m_enabled = False, m_selected_pairs = 0, m_selected = []\<rparr>
      else case content of
          None \<Rightarrow> Inl (Die (''open cross pairs file: '' @ a_cross_pairs_file a))
        | Some txt \<Rightarrow>
            rfold (mask_line (a_P a)) (zip [1..<Suc (length (getlines txt))] (getlines txt))
              \<lparr>m_enabled = True, m_selected_pairs = 0, m_selected = replicate (a_P a * a_P a) False\<rparr>)"

definition cross_pair_selected :: "cross_mask \<Rightarrow> nat \<Rightarrow> nat \<Rightarrow> nat \<Rightarrow> bool" where
  "cross_pair_selected msk P i j =
     (if \<not> m_enabled msk then True
      else if i = j then False
      else m_selected msk ! (min i j * P + max i j))"

section \<open>What the allow-list means\<close>

text \<open>The pair a line names; comments and empty lines name none.\<close>

definition line_pair :: "string \<Rightarrow> (nat \<times> nat) option" where
  "line_pair line =
     (if line = [] \<or> hd line = CHR ''#'' then None
      else case extract_u64 line of
          None \<Rightarrow> None
        | Some (x, rest) \<Rightarrow> (case extract_u64 rest of None \<Rightarrow> None | Some (y, r) \<Rightarrow> Some (min x y, max x y)))"

definition listed :: "string \<Rightarrow> (nat \<times> nat) set" where
  "listed txt = (\<Union>l \<in> set (getlines txt). set_option (line_pair l))"

lemma pair_index_inj:
  assumes "i < P" "j < P" "i' < P" "j' < (P :: nat)" "i * P + j = i' * P + j'"
  shows "i = i' \<and> j = j'"
proof -
  have "(i * P + j) div P = i" "(i * P + j) mod P = j" "(i' * P + j') div P = i'" "(i' * P + j') mod P = j'"
    using assms(1-4) by auto
  then show ?thesis using assms(5) by metis
qed

lemma pair_index_lt: "i < P \<Longrightarrow> j < P \<Longrightarrow> i * P + j < P * (P :: nat)"
  by (metis add_less_cancel_left div_mult_mod_eq less_mult_imp_div_less mult.commute mult_less_cancel2
      nat_neq_iff not_less_iff_gr_or_eq not_less_zero order_less_le_trans add.commute
      add_lessD1 mult_Suc Suc_leI mult_le_mono1)

text \<open>The mask represents a set \<open>S\<close> of ordered pairs below \<open>P\<close>, and counts it.\<close>

definition mask_for :: "nat \<Rightarrow> (nat \<times> nat) set \<Rightarrow> cross_mask \<Rightarrow> bool" where
  "mask_for P S msk \<longleftrightarrow>
     m_enabled msk \<and> length (m_selected msk) = P * P \<and>
     (\<forall>i < P. \<forall>j < P. m_selected msk ! (i * P + j) \<longleftrightarrow> (i, j) \<in> S) \<and>
     S \<subseteq> {(i, j). i < j \<and> j < P} \<and> m_selected_pairs msk = card S"

lemma finite_pairs: "finite {(i, j). i < j \<and> j < (P :: nat)}"
  by (rule finite_subset[of _ "{..<P} \<times> {..<P}"]) auto

lemma card_pairs_lt: "(P :: nat) < 2 ^ 32 \<Longrightarrow> S \<subseteq> {(i, j). i < j \<and> j < P} \<Longrightarrow> card S < 2 ^ 64"
proof -
  assume a: "P < 2 ^ 32" "S \<subseteq> {(i, j). i < j \<and> j < P}"
  then have "S \<subseteq> {..<P} \<times> {..<P}" by auto
  then have "card S \<le> card ({..<P} \<times> {..<P})" by (intro card_mono) auto
  also have "\<dots> = P * P" by (simp add: card_cartesian_product)
  also have "\<dots> < 2 ^ 32 * 2 ^ 32" using a(1) by (intro mult_strict_mono) auto
  finally show ?thesis by simp
qed

lemma mask_line_step:
  assumes "mask_for P S msk" "P < 2 ^ 32" "mask_line P (no, line) msk = Inr msk'"
  shows "mask_for P (S \<union> set_option (line_pair line)) msk'"
proof (cases "line = [] \<or> hd line = CHR ''#''")
  case True
  then show ?thesis using assms by (simp add: mask_line_def line_pair_def)
next
  case False
  then obtain x rest y rest' where xy: "extract_u64 line = Some (x, rest)" "extract_u64 rest = Some (y, rest')"
    using assms(3) by (auto simp: mask_line_def split: option.splits prod.splits)
  let ?i = "min x y" and ?j = "max x y"
  have r: "x < P" "y < P" "x \<noteq> y"
    using assms(3) False xy by (auto simp: mask_line_def not_le split: if_splits)
  then have ij: "?i < ?j" "?j < P" "?i < P" by auto
  have lt: "?i * P + ?j < P * P"
    using pair_index_lt[OF ij(3,2)] .
  have "P * P < 2 ^ 32 * 2 ^ 32"
    using assms(2) by (intro mult_strict_mono) auto
  then have idx: "u64 (u32 ?i * P + u32 ?j) = ?i * P + ?j"
    using lt ij assms(2) by (simp add: u32_id u64_id)
  have pair: "set_option (line_pair line) = {(?i, ?j)}"
    using False xy by (simp add: line_pair_def)
  have S: "S \<subseteq> {(i, j). i < j \<and> j < P}" "finite S"
    using assms(1) finite_subset[OF _ finite_pairs] by (auto simp: mask_for_def)
  have new: "msk' = (if m_selected msk ! (?i * P + ?j) then msk
      else msk\<lparr>m_selected := (m_selected msk)[?i * P + ?j := True],
                m_selected_pairs := u64 (m_selected_pairs msk + 1)\<rparr>)"
    using assms(3) False xy r by (simp add: mask_line_def idx Let_def split: if_splits)
  show ?thesis
  proof (cases "(?i, ?j) \<in> S")
    case True
    then show ?thesis
      using new assms(1) ij pair by (simp add: mask_for_def insert_absorb)
  next
    case notin: False
    have "card (S \<union> {(?i, ?j)}) = card S + 1" "card S + 1 < 2 ^ 64"
      using notin S card_pairs_lt[OF assms(2), of "S \<union> {(?i, ?j)}"] ij by auto
    moreover have "msk' = msk\<lparr>m_selected := (m_selected msk)[?i * P + ?j := True],
        m_selected_pairs := u64 (m_selected_pairs msk + 1)\<rparr>"
      using new notin assms(1) ij by (simp add: mask_for_def)
    moreover have "(m_selected msk)[?i * P + ?j := True] ! (i * P + j) \<longleftrightarrow> (i, j) \<in> S \<union> {(?i, ?j)}"
      if "i < P" "j < P" for i j
      using that assms(1) lt pair_index_inj[OF ij(3,2) that] pair_index_lt[OF that]
      by (auto simp: mask_for_def nth_list_update)
    ultimately show ?thesis
      using assms(1) S(1) ij unfolding pair mask_for_def by (simp add: u64_id)
  qed
qed

lemma rfold_mask_lines:
  assumes "mask_for P S msk" "P < 2 ^ 32" "length nos = length lines"
    "rfold (mask_line P) (zip nos lines) msk = Inr msk'"
  shows "mask_for P (S \<union> (\<Union>l \<in> set lines. set_option (line_pair l))) msk'"
  using assms(3,1,4)
proof (induction nos lines arbitrary: S msk rule: list_induct2)
  case Nil
  then show ?case by simp
next
  case (Cons n nos l lines)
  then obtain m1 where m1: "mask_line P (n, l) msk = Inr m1" "rfold (mask_line P) (zip nos lines) m1 = Inr msk'"
    by (auto simp: rbind_eq_Inr_iff)
  have "S \<union> (\<Union>l \<in> set (l # lines). set_option (line_pair l)) =
      S \<union> set_option (line_pair l) \<union> (\<Union>l \<in> set lines. set_option (line_pair l))"
    by auto
  then show ?case
    using Cons.IH[OF mask_line_step[OF Cons.prems(1) assms(2) m1(1)] m1(2)] by simp
qed

text \<open>The allow-list file means what it says: when \<open>load_cross_pair_mask\<close> accepts a file, then
  for distinct partitions i and j below P the pair is selected exactly when some line of the file
  names the two ids in either order (repetitions and comments included), and
  \<open>selected_pairs\<close> is the number of distinct unordered pairs.\<close>

theorem cross_mask_listed:
  assumes "load_cross_pair_mask a (Some txt) = Inr msk" "a_cross_pairs_file a \<noteq> []" "a_P a < 2 ^ 32"
    and "i < a_P a" "j < a_P a" "i \<noteq> j"
  shows "(cross_pair_selected msk (a_P a) i j \<longleftrightarrow> (min i j, max i j) \<in> listed txt) \<and>
    m_selected_pairs msk = card (listed txt)"
proof -
  let ?m0 = "\<lparr>m_enabled = True, m_selected_pairs = 0, m_selected = replicate (a_P a * a_P a) False\<rparr>"
  have "mask_for (a_P a) {} ?m0"
    using pair_index_lt by (auto simp: mask_for_def)
  then have "mask_for (a_P a) (listed txt) msk"
    using rfold_mask_lines[of "a_P a" "{}" ?m0 "[1..<Suc (length (getlines txt))]" "getlines txt" msk] assms(1-3)
    by (simp add: load_cross_pair_mask_def listed_def del: upt_Suc)
  then show ?thesis
    using assms(4-6) by (simp add: mask_for_def cross_pair_selected_def)
qed

theorem cross_mask_listed_witness:
  "\<exists>msk. load_cross_pair_mask (args_default\<lparr>a_P := 4, a_cross_pairs_file := ''pairs''\<rparr>)
      (Some ([CHR ''#''] @ [CHR 0x0A] @ ''2 0'' @ [CHR 0x0A] @ ''0 2'')) = Inr msk \<and>
    cross_pair_selected msk 4 0 2 \<and> \<not> cross_pair_selected msk 4 1 2"
proof -
  let ?a = "args_default\<lparr>a_P := 4, a_cross_pairs_file := ''pairs''\<rparr>"
  let ?txt = "[CHR ''#''] @ [CHR 0x0A] @ ''2 0'' @ [CHR 0x0A] @ ''0 2''"
  have lines: "getlines ?txt = [''#'', ''2 0'', ''0 2'']"
    by (simp add: Let_def)
  have scan: "extract_u64 ''2 0'' = Some (2, '' 0'')" "extract_u64 '' 0'' = Some (0, [])"
    "extract_u64 ''0 2'' = Some (0, '' 2'')" "extract_u64 '' 2'' = Some (2, [])"
    by (simp_all add: extract_u64_def strto_def scan_sign_def is_ws_def is_dig_def code_def dec_val_def Let_def)
  have "listed ?txt = {(0, 2)}"
    unfolding listed_def lines by (simp add: line_pair_def scan)
  moreover obtain msk where "load_cross_pair_mask ?a (Some ?txt) = Inr msk"
    unfolding load_cross_pair_mask_def lines
    by (simp add: mask_line_def scan upt_rec[of _ "Suc n" for n] args_default_def u64_def u32_def Let_def del: upt_Suc)
  ultimately show ?thesis
    using cross_mask_listed[of ?a ?txt msk 0 2] cross_mask_listed[of ?a ?txt msk 1 2]
    by (auto simp: args_default_def)
qed

section \<open>The command line can express every configuration\<close>

fun profile_name :: "prof \<Rightarrow> string" where
  "profile_name PNONE = ''none''"
| "profile_name PBASIC = ''basic''"
| "profile_name PDETAIL = ''detail''"

definition render_args :: "args \<Rightarrow> string list" where
  "render_args a =
     [''our_construction'',
      ''--prefix='' @ a_tag_prefix a,
      ''--buckets='' @ int_string (a_buckets a),
      ''--read-buf-mib='' @ int_string (a_read_buf_mib a),
      ''--keep-subindex='' @ int_string (a_keep_subindex a),
      ''--profile='' @ profile_name (a_profile a),
      ''--stage='' @ stage_name (a_stage a),
      ''--chunk-bytes='' @ dec_string (a_chunk_bytes a),
      ''--memory-budget-bytes='' @ dec_string (a_memory_budget_bytes a),
      ''--anchor-start='' @ int_string (a_anchor_start a),
      ''--anchor-end='' @ int_string (a_anchor_end a),
      ''--target='' @ int_string (a_target a),
      ''--cross-pairs-file='' @ a_cross_pairs_file a]"

definition args_in_range :: "args \<Rightarrow> bool" where
  "args_in_range a \<longleftrightarrow>
     (\<forall>x \<in> {a_buckets a, a_read_buf_mib a, a_keep_subindex a}. - (2 ^ 31) \<le> x \<and> x < 2 ^ 31) \<and>
     (\<forall>x \<in> {a_anchor_start a, a_anchor_end a, a_target a}. - (2 ^ 63) \<le> x \<and> x < 2 ^ 63) \<and>
     a_chunk_bytes a < 2 ^ 64 \<and> a_memory_budget_bytes a < 2 ^ 64"

lemma parse_stage_name [simp]: "parse_stage (stage_name st) = Inr st"
  by (cases st) (simp_all add: parse_stage_def)

lemma parse_profile_name [simp]: "parse_profile (profile_name pr) = pr"
  by (cases pr) (simp_all add: parse_profile_def)

text \<open>The action each key selects, decided on the characters of the keys.\<close>

lemma flag_actions:
  "flag_chain construction_flags (''--prefix='' @ v) a = Inr (a\<lparr>a_tag_prefix := v\<rparr>)"
  "flag_chain construction_flags (''--buckets='' @ v) a = Inr (a\<lparr>a_buckets := atoi v\<rparr>)"
  "flag_chain construction_flags (''--read-buf-mib='' @ v) a = Inr (a\<lparr>a_read_buf_mib := atoi v\<rparr>)"
  "flag_chain construction_flags (''--keep-subindex='' @ v) a = Inr (a\<lparr>a_keep_subindex := atoi v\<rparr>)"
  "flag_chain construction_flags (''--profile='' @ v) a = Inr (a\<lparr>a_profile := parse_profile v\<rparr>)"
  "flag_chain construction_flags (''--stage='' @ v) a = rbind (parse_stage v) (\<lambda>x. Inr (a\<lparr>a_stage := x\<rparr>))"
  "flag_chain construction_flags (''--chunk-bytes='' @ v) a = rbind (stoull v) (\<lambda>x. Inr (a\<lparr>a_chunk_bytes := x\<rparr>))"
  "flag_chain construction_flags (''--memory-budget-bytes='' @ v) a =
     rbind (stoull v) (\<lambda>x. Inr (a\<lparr>a_memory_budget_bytes := x\<rparr>))"
  "flag_chain construction_flags (''--anchor-start='' @ v) a = rbind (stoll v) (\<lambda>x. Inr (a\<lparr>a_anchor_start := x\<rparr>))"
  "flag_chain construction_flags (''--anchor-end='' @ v) a = rbind (stoll v) (\<lambda>x. Inr (a\<lparr>a_anchor_end := x\<rparr>))"
  "flag_chain construction_flags (''--target='' @ v) a = rbind (stoll v) (\<lambda>x. Inr (a\<lparr>a_target := x\<rparr>))"
  "flag_chain construction_flags (''--cross-pairs-file='' @ v) a = Inr (a\<lparr>a_cross_pairs_file := v\<rparr>)"
  by (simp_all add: construction_flags_def pref_def)

text \<open>Round trip of the command line: the flags printed for any configuration whose numbers fit
  their types are parsed back into it, whatever the arguments held before; the stage is written by
  \<open>stage_name\<close>, the function the tool reports it with.\<close>

theorem parse_flags_render:
  assumes "args_in_range a"
  shows "parse_flags (render_args a) a0 =
    Inr (a\<lparr>a_data_path := a_data_path a0, a_out_prefix := a_out_prefix a0, a_P := a_P a0, a_R := a_R a0,
           a_L := a_L a0, a_threads := a_threads a0\<rparr>)"
proof -
  have r: "atoi (int_string (a_buckets a)) = a_buckets a" "atoi (int_string (a_read_buf_mib a)) = a_read_buf_mib a"
    "atoi (int_string (a_keep_subindex a)) = a_keep_subindex a"
    "stoll (int_string (a_anchor_start a)) = Inr (a_anchor_start a)"
    "stoll (int_string (a_anchor_end a)) = Inr (a_anchor_end a)" "stoll (int_string (a_target a)) = Inr (a_target a)"
    "stoull (dec_string (a_chunk_bytes a)) = Inr (a_chunk_bytes a)"
    "stoull (dec_string (a_memory_budget_bytes a)) = Inr (a_memory_budget_bytes a)"
    using assms unfolding args_in_range_def
    by (auto intro: atoi_int_string stoll_int_string stoull_dec_string)
  show ?thesis
    unfolding parse_flags_def render_args_def
    by (simp only: drop_Suc_Cons drop_0 One_nat_def rfold.simps flag_actions rbind_simps r parse_stage_name
        parse_profile_name) simp
qed

theorem parse_flags_render_witness:
  "parse_flags (render_args (args_default\<lparr>a_stage := CROSS_PAIRS, a_target := 3\<rparr>)) (args_default\<lparr>a_P := 7\<rparr>) =
     Inr (args_default\<lparr>a_stage := CROSS_PAIRS, a_target := 3, a_P := 7\<rparr>)"
proof -
  have "args_in_range (args_default\<lparr>a_stage := CROSS_PAIRS, a_target := 3\<rparr>)"
    by (simp add: args_in_range_def args_default_def)
  then show ?thesis
    using parse_flags_render[of "args_default\<lparr>a_stage := CROSS_PAIRS, a_target := 3\<rparr>" "args_default\<lparr>a_P := 7\<rparr>"]
    by (simp add: args_default_def)
qed

end
