(* ===== verification/Partition.thy ===== *)
theory Partition
  imports Config
begin

text \<open>
  How \<open>construction/our_construction.cpp\<close> divides the points: contiguous partitions
  (\<open>make_offsets\<close>), the check of the memory budget, and the buckets of the candidate logs
  (\<open>gid_to_bucket\<close>, \<open>bucket_base\<close>, \<open>bucket_limit\<close>).
\<close>

section \<open>Partitions\<close>

text \<open>The loop of \<open>make_offsets\<close>: the running start and the offsets written so far. The program
  divides by \<open>P\<close>; for \<open>P = 0\<close> it has no result, and the theorems assume \<open>0 < P\<close>.\<close>

definition make_offsets :: "nat \<Rightarrow> nat \<Rightarrow> nat list" where
  "make_offsets n P =
     (let base = n div P; rem = n mod P
      in fst (fold (\<lambda>i (off, s). (off @ [s], u64 (s + (base + (if i < rem then 1 else 0))))) [0..<P] ([], 0)))"

definition part_start :: "nat list \<Rightarrow> nat \<Rightarrow> nat" where
  "part_start off t = off ! t"

definition part_end :: "nat list \<Rightarrow> nat \<Rightarrow> nat \<Rightarrow> nat \<Rightarrow> nat" where
  "part_end off P N t = (if t + 1 < P then off ! (t + 1) else N)"

definition part_size :: "nat list \<Rightarrow> nat \<Rightarrow> nat \<Rightarrow> nat \<Rightarrow> nat" where
  "part_size off P N t = sub64 (part_end off P N t) (part_start off t)"

text \<open>The sizes the loop adds up.\<close>

definition part_sizes :: "nat \<Rightarrow> nat \<Rightarrow> nat list" where
  "part_sizes n P = map (\<lambda>i. n div P + (if i < n mod P then 1 else 0)) [0..<P]"

lemma sum_part_sizes:
  assumes "0 < P"
  shows "sum_list (part_sizes n P) = n"
proof -
  have "sum_list (map (\<lambda>i. n div P + (if i < r then 1 else 0)) [0..<k]) = k * (n div P) + min k r" for k r
    by (induction k) (auto simp: min_def)
  moreover have "min P (n mod P) = n mod P"
    using mod_less_divisor[OF assms, of n] by simp
  ultimately show ?thesis
    by (simp add: part_sizes_def)
qed

lemma make_offsets_prefix:
  assumes "0 < P" "n < 2 ^ 64"
  shows "make_offsets n P = map (\<lambda>i. sum_list (take i (part_sizes n P))) [0..<P]"
proof -
  let ?sz = "\<lambda>i. n div P + (if i < n mod P then 1 else 0)"
  let ?f = "\<lambda>i (off, s). (off @ [s], u64 (s + ?sz i))"
  have take: "take k (part_sizes n P) = map ?sz [0..<k]" if "k \<le> P" for k
    using that by (simp add: part_sizes_def take_map)
  have bound: "sum_list (take k (part_sizes n P)) \<le> n" for k
    using sum_list_take_le[of k "part_sizes n P"] sum_part_sizes[OF assms(1), of n] by simp
  have "fold ?f [0..<k] ([], 0) =
      (map (\<lambda>i. sum_list (take i (part_sizes n P))) [0..<k], sum_list (take k (part_sizes n P)))" if "k \<le> P" for k
    using that
  proof (induction k)
    case 0
    then show ?case by simp
  next
    case (Suc k)
    have "sum_list (take (Suc k) (part_sizes n P)) = sum_list (take k (part_sizes n P)) + ?sz k"
      using Suc.prems by (simp add: take)
    moreover have "u64 (sum_list (take (Suc k) (part_sizes n P))) = sum_list (take (Suc k) (part_sizes n P))"
      using bound[of "Suc k"] assms(2) by (intro u64_id) linarith
    ultimately show ?case
      using Suc by simp
  qed
  from this[of P] show ?thesis
    by (simp add: make_offsets_def Let_def)
qed

lemma part_bounds:
  assumes "0 < P" "n < 2 ^ 64" "t < P"
  shows "part_start (make_offsets n P) t = sum_list (take t (part_sizes n P))"
    and "part_end (make_offsets n P) P n t = sum_list (take (Suc t) (part_sizes n P))"
    and "part_size (make_offsets n P) P n t = part_sizes n P ! t"
    and "part_end (make_offsets n P) P n t \<le> n"
proof -
  have len: "length (part_sizes n P) = P"
    by (simp add: part_sizes_def)
  show s: "part_start (make_offsets n P) t = sum_list (take t (part_sizes n P))"
    using assms by (simp add: part_start_def make_offsets_prefix)
  show e: "part_end (make_offsets n P) P n t = sum_list (take (Suc t) (part_sizes n P))"
  proof (cases "t + 1 < P")
    case True
    then show ?thesis using assms by (simp add: part_end_def make_offsets_prefix)
  next
    case False
    then have "take (Suc t) (part_sizes n P) = part_sizes n P" using len assms(3) by simp
    then show ?thesis using False sum_part_sizes[OF assms(1)] by (simp add: part_end_def)
  qed
  show le: "part_end (make_offsets n P) P n t \<le> n"
    using sum_list_take_le[of "Suc t" "part_sizes n P"] sum_part_sizes[OF assms(1), of n] by (simp add: e)
  have "sum_list (take (Suc t) (part_sizes n P)) = sum_list (take t (part_sizes n P)) + part_sizes n P ! t"
    using len assms(3) by (simp add: take_Suc_conv_app_nth)
  then show "part_size (make_offsets n P) P n t = part_sizes n P ! t"
    using s e le assms(2) unfolding part_size_def by (subst sub64_id) auto
qed

text \<open>The partitions tile the points: with P > 0, every point below n lies in exactly one
  partition's range [start, end), the ranges stay below n, and every partition has n div P or
  n div P + 1 points.\<close>

theorem make_offsets_partition:
  assumes "0 < P" "n < 2 ^ 64"
  shows "(\<forall>g < n. \<exists>!t. t < P \<and> part_start (make_offsets n P) t \<le> g \<and> g < part_end (make_offsets n P) P n t) \<and>
    (\<forall>t < P. part_end (make_offsets n P) P n t \<le> n \<and>
       part_size (make_offsets n P) P n t \<in> {n div P, n div P + 1})"
proof (intro conjI allI impI)
  let ?S = "\<lambda>t. sum_list (take t (part_sizes n P))"
  have len: "length (part_sizes n P) = P"
    by (simp add: part_sizes_def)
  fix g assume g: "g < n"
  define t where "t = (LEAST t. g < ?S (Suc t))"
  have "g < ?S (Suc (P - 1))"
    using g assms(1) sum_part_sizes[OF assms(1), of n] len by simp
  then have t: "g < ?S (Suc t)" "t \<le> P - 1" "\<And>k. k < t \<Longrightarrow> \<not> g < ?S (Suc k)"
    unfolding t_def by (auto intro: LeastI Least_le dest: not_less_Least)
  then have "?S t \<le> g"
    by (cases t) (auto simp: not_less)
  show "\<exists>!t. t < P \<and> part_start (make_offsets n P) t \<le> g \<and> g < part_end (make_offsets n P) P n t"
  proof (rule ex1I[of _ t])
    show "t < P \<and> part_start (make_offsets n P) t \<le> g \<and> g < part_end (make_offsets n P) P n t"
      using t \<open>?S t \<le> g\<close> assms(1) part_bounds(1,2)[OF assms, of t] by auto
    fix t' assume t': "t' < P \<and> part_start (make_offsets n P) t' \<le> g \<and> g < part_end (make_offsets n P) P n t'"
    then have "?S t' \<le> g" "g < ?S (Suc t')"
      using part_bounds(1,2)[OF assms, of t'] by auto
    moreover have "?S a \<le> ?S b" if "a \<le> b" for a b
      using that by (rule sum_list_take_mono)
    ultimately show "t' = t"
      using t(1) \<open>?S t \<le> g\<close> by (metis Suc_leI le_less_trans linorder_neqE_nat not_le)
  qed
next
  fix t assume "t < P"
  then show "part_end (make_offsets n P) P n t \<le> n"
    using part_bounds(4)[OF assms] by blast
  show "part_size (make_offsets n P) P n t \<in> {n div P, n div P + 1}"
    using part_bounds(3)[OF assms \<open>t < P\<close>] \<open>t < P\<close> by (simp add: part_sizes_def)
qed

theorem make_offsets_partition_witness:
  "part_end (make_offsets 7 3) 3 7 1 \<le> 7 \<and> make_offsets 7 3 = [0, 3, 5]"
proof -
  have "make_offsets 7 3 = [0, 3, 5]"
    by (simp add: make_offsets_def u64_def upt_conv_Cons)
  moreover have "part_end (make_offsets 7 3) 3 7 1 \<le> 7"
    using make_offsets_partition[of 3 7] by simp
  ultimately show ?thesis by simp
qed

section \<open>The memory budget\<close>

text \<open>\<open>estimate_ram_usage\<close> of \<open>include/index.h\<close>: \<open>sizeof(std::mutex)\<close> is 40,
  \<open>GRAPH_SLACK_FACTOR\<close> is the float nearest to 1.3, \<open>OVERHEAD_FACTOR\<close> the double nearest to 1.1.\<close>

definition GRAPH_SLACK_FACTOR :: fp where
  "GRAPH_SLACK_FACTOR = fround Binary32 False (13 / 10)"

definition estimate_ram_usage :: "nat \<Rightarrow> nat \<Rightarrow> nat \<Rightarrow> nat \<Rightarrow> fp" where
  "estimate_ram_usage sz dm datasize degree =
     (let mul = fmul Binary64; add = fadd Binary64; num = f_of_nat Binary64;
          size_of_data = mul (mul (num sz) (num (u64 ((dm div 8 + (if dm mod 8 \<noteq> 0 then 1 else 0)) * 8)))) (num datasize);
          size_of_graph = mul (mul (mul (num sz) (num degree)) (num 4)) GRAPH_SLACK_FACTOR;
          size_of_locks = mul (num sz) (num 40);
          size_of_outer_vector = mul (num sz) (num 8)
      in mul (fround Binary64 False (11 / 10)) (add (add (add size_of_data size_of_graph) size_of_locks) size_of_outer_vector))"

definition check_memory_budget :: "args \<Rightarrow> nat \<Rightarrow> nat \<Rightarrow> unit res" where
  "check_memory_budget a N D =
     (if 0 < a_memory_budget_bytes a then
        let off = make_offsets N (a_P a);
            max_part = fold (\<lambda>t m. max m (part_size off (a_P a) N t)) [0..<a_P a] 0;
            one_index_ram = estimate_ram_usage max_part (u32 D) 4 (a_R a);
            two_index_ram = fmul X87 (f_of_nat X87 2) one_index_ram
        in if flt (f_of_nat X87 (a_memory_budget_bytes a)) two_index_ram
           then Inl (Die ''P is too small for the requested memory budget; increase P before construction'')
           else Inr ()
      else Inr ())"

section \<open>Buckets\<close>

definition bucket_count :: "args \<Rightarrow> nat \<Rightarrow> nat \<Rightarrow> nat" where
  "bucket_count a N D =
     (let Cmax = u64 (a_R a * a_P a);
          per_gid_bytes_inmem = u64 (8 * Cmax + 64);
          reserve_bytes = 8 * 2 ^ 20
      in if 0 < a_buckets a then u32 (nat (a_buckets a))
         else
           let vec_bytes = u64 (u64 (N * D) * 4);
               topo_bytes = u64 (u64 (N * a_R a) * 4);
               per_part = u64 (vec_bytes + topo_bytes) div a_P a;
               M_budget = u64 (2 * per_part);
               usable = (if reserve_bytes < M_budget then M_budget - reserve_bytes else 1);
               Umax0 = usable div (max per_gid_bytes_inmem 1);
               Umax = (if Umax0 = 0 then 1 else Umax0);
               B = u32 (sub64 (u64 (N + Umax)) 1 div Umax)
           in if B = 0 then 1 else B)"

definition bucket_size_of :: "nat \<Rightarrow> nat \<Rightarrow> nat" where
  "bucket_size_of N B = sub64 (u64 (N + B)) 1 div B"

definition gid_to_bucket :: "nat \<Rightarrow> nat \<Rightarrow> nat \<Rightarrow> nat" where
  "gid_to_bucket N B gid = min (u32 (gid div bucket_size_of N B)) (sub32 B 1)"

definition bucket_base :: "nat \<Rightarrow> nat \<Rightarrow> nat \<Rightarrow> nat" where
  "bucket_base N B b = u32 (min (u64 (b * bucket_size_of N B)) N)"

definition bucket_limit :: "nat \<Rightarrow> nat \<Rightarrow> nat \<Rightarrow> nat" where
  "bucket_limit N B b = u32 (min (u64 (u64 (b + 1) * bucket_size_of N B)) N)"

lemma bucket_size_of_div_up: "N < 2 ^ 32 \<Longrightarrow> B < 2 ^ 32 \<Longrightarrow> 0 < B \<Longrightarrow> bucket_size_of N B = div_up N B"
  by (simp add: bucket_size_of_def div_up_def u64_id sub64_id)

lemma bucket_range:
  assumes "N < 2 ^ 32" "0 < B" "B < 2 ^ 32" "b < B"
  shows "bucket_base N B b = min (b * div_up N B) N" "bucket_limit N B b = min (Suc b * div_up N B) N"
proof -
  have "div_up N B \<le> N"
  proof (cases "N = 0")
    case False
    then have "N + B - 1 \<le> N * B"
      using assms(2) by (cases N; cases B) auto
    then show ?thesis
      using assms(2) div_le_mono[of "N + B - 1" "N * B" B] by (simp add: div_up_def)
  qed (use assms(2) in \<open>simp add: div_up_def\<close>)
  then have "Suc b * div_up N B \<le> 2 ^ 32 * N"
    using assms(3,4) by (intro mult_le_mono) auto
  also have "\<dots> < 2 ^ 32 * 2 ^ 32"
    using assms(1) by simp
  finally have lt: "Suc b * div_up N B < 2 ^ 64"
    by simp
  then have "b * div_up N B < 2 ^ 64"
    by simp
  then show "bucket_base N B b = min (b * div_up N B) N"
    using assms by (simp add: bucket_base_def bucket_size_of_div_up u64_id u32_id min_def)
  have "u64 (b + 1) = Suc b"
    using assms(3,4) by (simp add: u64_id)
  then show "bucket_limit N B b = min (Suc b * div_up N B) N"
    using lt assms by (simp add: bucket_limit_def bucket_size_of_div_up u64_id u32_id min_def)
qed

lemma bucket_of_gid:
  assumes "N < 2 ^ 32" "0 < B" "B < 2 ^ 32" "gid < N" "b < B"
  shows "gid_to_bucket N B gid < B \<and> gid_to_bucket N B gid = gid div bucket_size_of N B \<and>
    (b = gid_to_bucket N B gid \<longleftrightarrow> bucket_base N B b \<le> gid \<and> gid < bucket_limit N B b)"
proof -
  let ?s = "div_up N B"
  have s: "0 < ?s" "N \<le> B * ?s"
    using div_up_mult_ge[OF assms(2), of N] assms(4) by (auto simp: mult.commute intro: Nat.gr0I)
  have lt: "gid div ?s < B"
    using s assms(4) by (simp add: less_mult_imp_div_less mult.commute)
  have "gid div ?s \<le> gid"
    by (rule div_le_dividend)
  then have g: "gid_to_bucket N B gid = gid div ?s"
    using lt assms by (simp add: gid_to_bucket_def bucket_size_of_div_up u32_id sub32_id min_def)
  have "b = gid div ?s \<longleftrightarrow> b * ?s \<le> gid \<and> gid < Suc b * ?s"
    using s(1) by (metis div_nat_eqI dividend_less_div_times mult.commute mult_Suc times_div_less_eq_dividend
        add.commute)
  then have "b = gid div ?s \<longleftrightarrow> min (b * ?s) N \<le> gid \<and> gid < min (Suc b * ?s) N"
    using assms(4) by (auto simp: min_le_iff_disj)
  then show ?thesis
    using g lt assms by (simp only: bucket_range bucket_size_of_div_up)
qed

text \<open>Every record has a bucket that compaction reads it from: with 0 < B buckets, a point
  below N is sent to a bucket below B whose range [base, limit) holds it, and no other bucket's
  range does; the ranges stay below N. The clamp to B - 1 never changes the bucket.\<close>

theorem gid_to_bucket_range:
  assumes "N < 2 ^ 32" "0 < B" "B < 2 ^ 32" "gid < N" "b < B"
  shows "gid_to_bucket N B gid < B \<and> gid_to_bucket N B gid = gid div bucket_size_of N B \<and>
    (b = gid_to_bucket N B gid \<longleftrightarrow> bucket_base N B b \<le> gid \<and> gid < bucket_limit N B b)"
  by (rule bucket_of_gid[OF assms])

theorem gid_to_bucket_range_witness:
  "gid_to_bucket 10 4 9 = 3 \<and> bucket_base 10 4 3 \<le> 9 \<and> 9 < bucket_limit 10 4 3"
proof -
  have "gid_to_bucket 10 4 9 = 3"
    by (simp add: gid_to_bucket_def bucket_size_of_def u64_def u32_def sub64_def sub32_def)
  then show ?thesis
    using gid_to_bucket_range[of 10 4 9 3] by auto
qed

end
