(* ===== verification/Bucket_Log.thy ===== *)
theory Bucket_Log
  imports Bytes Partition "HOL-Library.Multiset"
begin

text \<open>
  The bucket logs of \<open>construction/our_construction.cpp\<close>: the record format (\<open>RecHdr\<close>), the
  per-thread staging buffer (\<open>TLStaging\<close>) and the descriptors (\<open>BucketFDs\<close>). Several threads
  append records to shared logs; each holds back records of one bucket in its buffer and writes
  them with one \<open>write\<close>. The thread system at the end shows that no interleaving loses,
  duplicates or tears a record.

  The operating system is a parameter (\<open>os\<close>): \<open>write\<close> on a descriptor opened with
  \<open>O_APPEND\<close>, \<open>posix_memalign\<close> and \<open>open\<close>.
\<close>

section \<open>Records\<close>

record bucket_rec =
  r_gid :: nat
  r_ids :: "nat list"

definition REC_HDR_ALIGNED :: nat where
  "REC_HDR_ALIGNED = 16"

definition round_up :: "nat \<Rightarrow> nat \<Rightarrow> nat" where
  "round_up x a = u64 (sub64 (u64 (x + a)) 1 div a * a)"

text \<open>\<open>sz16\<close> of \<open>append_record\<close> for a record of \<open>len\<close> ids.\<close>

definition rec_size :: "nat \<Rightarrow> nat" where
  "rec_size len =
     (let body = u32 (4 * len); sz = u32 (12 + body)
      in u32 (round_up (u32 (sz + 4)) REC_HDR_ALIGNED))"

text \<open>The four fields of \<open>RecHdr\<close> as stored.\<close>

definition rec_hdr_bytes :: "nat \<Rightarrow> nat \<Rightarrow> byte list" where
  "rec_hdr_bytes gid len = le_bytes 4 gid @ le_bytes 2 len @ le_bytes 2 0 @ le_bytes 4 (rec_size len)"

section \<open>Staging\<close>

text \<open>\<open>ts_data\<close> is the written part of \<open>buf\<close>, so \<open>used\<close> is its length; \<open>ts_alloc\<close> says that
  \<open>buf\<close> is not null. Logs are indexed by descriptor.\<close>

record staging =
  ts_cur_b :: int
  ts_cur_fd :: int
  ts_cap :: nat
  ts_alloc :: bool
  ts_data :: "byte list"

type_synonym logs = "int \<Rightarrow> bfile"

record os =
  os_write :: "int \<Rightarrow> byte list \<Rightarrow> logs \<Rightarrow> int \<times> logs"
  os_memalign :: "nat \<Rightarrow> bool"
  os_open :: "string \<Rightarrow> bool \<Rightarrow> int"

definition staging_zero :: staging where
  "staging_zero = \<lparr>ts_cur_b = - 1, ts_cur_fd = - 1, ts_cap = 0, ts_alloc = False, ts_data = []\<rparr>"

definition ts_init :: "os \<Rightarrow> nat \<Rightarrow> staging \<Rightarrow> staging res" where
  "ts_init os bytes st =
     (let bytes = (if bytes < 4096 then 4096 else bytes); n = (bytes + 4095) div 4096 * 4096
      in if os_memalign os n
         then Inr (st\<lparr>ts_alloc := True, ts_cap := n, ts_data := [], ts_cur_b := - 1, ts_cur_fd := - 1\<rparr>)
         else Inl (Die ''posix_memalign staging''))"

definition ts_flush :: "os \<Rightarrow> staging \<times> logs \<Rightarrow> (staging \<times> logs) res" where
  "ts_flush os sl =
     (case sl of (st, logs) \<Rightarrow>
        if \<not> ts_alloc st \<or> ts_data st = [] then Inr (st, logs)
        else if ts_cur_fd st < 0 then Inl (Die ''flush with invalid cur_fd'')
        else
          let (n, logs') = os_write os (ts_cur_fd st) (ts_data st) logs
          in if n \<noteq> int (length (ts_data st)) then Inl (Die ''write bucket staging'')
             else Inr (st\<lparr>ts_data := []\<rparr>, logs'))"

text \<open>\<open>while (ncap < used + need) ncap *= 2\<close>; it is only entered with \<open>ncap > 0\<close>.\<close>

function grow_cap :: "nat \<Rightarrow> nat \<Rightarrow> nat" where
  "grow_cap ncap target = (if ncap < target \<and> 0 < ncap then grow_cap (ncap * 2) target else ncap)"
  by pat_completeness auto
termination
  by (relation "measure (\<lambda>(ncap, target). target - ncap)") auto

declare grow_cap.simps [simp del]

definition ts_ensure :: "os \<Rightarrow> nat \<Rightarrow> staging \<Rightarrow> staging res" where
  "ts_ensure os need st =
     (let used = length (ts_data st)
      in if used + need \<le> ts_cap st then Inr st
         else
           let ncap = grow_cap (if ts_cap st \<noteq> 0 then ts_cap st * 2 else 64 * 1024) (used + need);
               n = (ncap + 4095) div 4096 * 4096
           in if os_memalign os n then Inr (st\<lparr>ts_alloc := True, ts_cap := n\<rparr>)
              else Inl (Die ''posix_memalign grow''))"

text \<open>\<open>append_record\<close> in its three parts: the switch of bucket, the copy into the buffer, the
  flush of a buffer that is full. A copy past the end of the buffer would be an overrun.\<close>

definition ts_switch :: "os \<Rightarrow> int \<Rightarrow> int \<Rightarrow> staging \<times> logs \<Rightarrow> (staging \<times> logs) res" where
  "ts_switch os fd b sl =
     (if ts_cur_b (fst sl) \<noteq> b then
        rbind (if 0 \<le> ts_cur_b (fst sl) then ts_flush os sl else Inr sl) (\<lambda>(st, logs).
          Inr (st\<lparr>ts_cur_b := b, ts_cur_fd := fd\<rparr>, logs))
      else Inr sl)"

definition ts_store :: "os \<Rightarrow> nat \<Rightarrow> nat list \<Rightarrow> nat \<Rightarrow> staging \<Rightarrow> staging res" where
  "ts_store os gid ids len st =
     (let body = u32 (4 * len); sz16 = rec_size len
      in rbind (ts_ensure os sz16 st) (\<lambda>st1.
           let bytes = rec_hdr_bytes gid len @ enc32 (take len ids) @ le_bytes 4 sz16 @
                       replicate (sz16 - (12 + body + 4)) 0
           in if length (ts_data st1) + length bytes \<le> ts_cap st1
              then Inr (st1\<lparr>ts_data := ts_data st1 @ bytes\<rparr>)
              else Inl OutOfRange))"

definition ts_spill :: "os \<Rightarrow> nat \<Rightarrow> staging \<times> logs \<Rightarrow> (staging \<times> logs) res" where
  "ts_spill os len sl =
     (if length (ts_data (fst sl)) + rec_size len > ts_cap (fst sl) then ts_flush os sl else Inr sl)"

definition append_record ::
    "os \<Rightarrow> int \<Rightarrow> int \<Rightarrow> nat \<Rightarrow> nat list \<Rightarrow> nat \<Rightarrow> staging \<times> logs \<Rightarrow> (staging \<times> logs) res" where
  "append_record os fd b gid ids len sl =
     (if len = 0 then Inr sl
      else rbind (ts_switch os fd b sl) (\<lambda>(st, logs).
           rbind (ts_store os gid ids len st) (\<lambda>st'. ts_spill os len (st', logs))))"

definition open_all :: "os \<Rightarrow> string \<Rightarrow> nat \<Rightarrow> bool \<Rightarrow> int list res" where
  "open_all os tag_prefix B trunc =
     rfold (\<lambda>b fds.
        let p = bucket_log_name tag_prefix b; fd = os_open os p trunc
        in if fd < 0 then Inl (Die (''open bucket log failed: '' @ p)) else Inr (fds[b := fd]))
       [0..<B] (replicate B (- 1))"

definition close_all :: "int list \<Rightarrow> int list" where
  "close_all fds = map (\<lambda>fd. - 1) fds"

section \<open>Format\<close>

text \<open>What \<open>write\<close> on a descriptor in append mode promises when it reports the full length.\<close>

definition append_mode :: "os \<Rightarrow> bool" where
  "append_mode os \<longleftrightarrow> (\<forall>fd bs logs logs'.
     os_write os fd bs logs = (int (length bs), logs') \<longrightarrow> logs' = logs(fd := logs fd @ bs))"

definition rec_ok :: "bucket_rec \<Rightarrow> bool" where
  "rec_ok r \<longleftrightarrow> r_gid r < 2 ^ 32 \<and> 0 < length (r_ids r) \<and> length (r_ids r) < 2 ^ 16 \<and>
     (\<forall>v \<in> set (r_ids r). v < 2 ^ 32)"

definition rec_bytes :: "bucket_rec \<Rightarrow> byte list" where
  "rec_bytes r =
     (let len = length (r_ids r); sz16 = rec_size len
      in rec_hdr_bytes (r_gid r) len @ enc32 (r_ids r) @ le_bytes 4 sz16 @ replicate (sz16 - (16 + 4 * len)) 0)"

lemma rec_size_round: "len < 2 ^ 16 \<Longrightarrow> rec_size len = round_up_nat (16 + 4 * len) 16"
proof -
  assume len: "len < 2 ^ 16"
  have "(16 + 4 * len + 16 - 1) div 16 * 16 \<le> 16 + 4 * len + 16"
    by (metis div_times_less_eq_dividend diff_le_self le_trans)
  then show ?thesis
    using len by (simp add: rec_size_def round_up_def round_up_nat_def div_up_def REC_HDR_ALIGNED_def Let_def
        u32_id u64_id sub64_id)
qed

lemma rec_size_bounds:
  assumes "len < 2 ^ 16"
  shows "16 + 4 * len \<le> rec_size len" "rec_size len < 2 ^ 32" "16 \<le> rec_size len"
proof -
  show "16 + 4 * len \<le> rec_size len"
    using round_up_ge[of 16 "16 + 4 * len"] by (simp add: rec_size_round[OF assms])
  then show "16 \<le> rec_size len" by simp
  show "rec_size len < 2 ^ 32"
    using round_up_less[of 16 "16 + 4 * len"] assms by (simp add: rec_size_round[OF assms])
qed

lemma length_rec_hdr [simp]: "length (rec_hdr_bytes gid len) = 12"
  by (simp add: rec_hdr_bytes_def)

lemma length_rec_bytes: "rec_ok r \<Longrightarrow> length (rec_bytes r) = rec_size (length (r_ids r))"
  using rec_size_bounds(1)[of "length (r_ids r)"] by (simp add: rec_bytes_def rec_ok_def Let_def)

section \<open>The staging buffer\<close>

text \<open>A staging buffer holds whole records of one bucket, within its capacity.\<close>

definition st_inv :: "(nat \<Rightarrow> int) \<Rightarrow> (bucket_rec \<Rightarrow> nat) \<Rightarrow> staging \<Rightarrow> bucket_rec list \<Rightarrow> bool" where
  "st_inv fds bk st rs \<longleftrightarrow>
     ts_data st = concat (map rec_bytes rs) \<and> length (ts_data st) \<le> ts_cap st \<and> (0 < ts_cap st \<longrightarrow> ts_alloc st) \<and>
     (\<forall>r \<in> set rs. rec_ok r \<and> ts_cur_b st = int (bk r)) \<and>
     (0 \<le> ts_cur_b st \<longrightarrow> ts_cur_fd st = fds (nat (ts_cur_b st)))"

lemma st_inv_init: "ts_init os n st0 = Inr st \<Longrightarrow> st_inv fds bk st []"
  by (auto simp: ts_init_def st_inv_def Let_def split: if_splits)

lemma rec_bytes_nonempty [simp]: "rec_bytes r \<noteq> []"
proof -
  have "12 \<le> length (rec_bytes r)"
    by (simp add: rec_bytes_def Let_def)
  then show ?thesis by auto
qed

lemma concat_rec_bytes_Nil: "concat (map rec_bytes rs) = [] \<longleftrightarrow> rs = []"
  by (cases rs) auto

lemma flush_spec:
  assumes "append_mode os" "st_inv fds bk st rs" "ts_flush os (st, logs) = Inr (st', logs')"
    and "\<forall>r \<in> set rs. bk r = b"
  shows "st_inv fds bk st' []" "ts_cur_b st' = ts_cur_b st" "ts_cap st' = ts_cap st"
    "logs' = logs(fds b := logs (fds b) @ concat (map rec_bytes rs))"
proof -
  have "st_inv fds bk st' [] \<and> ts_cur_b st' = ts_cur_b st \<and> ts_cap st' = ts_cap st \<and>
      logs' = logs(fds b := logs (fds b) @ concat (map rec_bytes rs))"
  proof (cases "rs = []")
    case True
    then show ?thesis
      using assms(2,3) by (auto simp: ts_flush_def st_inv_def)
  next
    case False
    then have ne: "ts_data st \<noteq> []"
      using concat_rec_bytes_Nil[of rs] assms(2) by (simp add: st_inv_def)
    then have alloc: "ts_alloc st"
      using assms(2) by (cases "ts_cap st") (auto simp: st_inv_def)
    have "ts_cur_b st = int b"
      using assms(2,4) False by (metis hd_in_set st_inv_def)
    then have fd: "ts_cur_fd st = fds b"
      using assms(2) by (simp add: st_inv_def)
    obtain n l where w: "os_write os (ts_cur_fd st) (ts_data st) logs = (n, l)"
      by (cases "os_write os (ts_cur_fd st) (ts_data st) logs")
    then have "n = int (length (ts_data st))" "logs' = l" "st' = st\<lparr>ts_data := []\<rparr>"
      using assms(3) ne alloc by (auto simp: ts_flush_def split: if_splits)
    then show ?thesis
      using w assms(1,2) fd unfolding append_mode_def st_inv_def by auto
  qed
  then show "st_inv fds bk st' []" "ts_cur_b st' = ts_cur_b st" "ts_cap st' = ts_cap st"
    "logs' = logs(fds b := logs (fds b) @ concat (map rec_bytes rs))"
    by simp_all
qed

lemma grow_cap_ge: "0 < ncap \<Longrightarrow> target \<le> grow_cap ncap target"
  by (induction ncap target rule: grow_cap.induct) (subst grow_cap.simps, auto)

lemma ensure_spec:
  assumes "ts_ensure os need st = Inr st'"
  shows "length (ts_data st') + need \<le> ts_cap st'" "ts_data st' = ts_data st"
    "ts_cur_b st' = ts_cur_b st" "ts_cur_fd st' = ts_cur_fd st" "ts_cap st \<le> ts_cap st'"
    "st_inv fds bk st rs \<Longrightarrow> st_inv fds bk st' rs"
proof -
  let ?t = "length (ts_data st) + need"
  let ?n = "grow_cap (if ts_cap st \<noteq> 0 then ts_cap st * 2 else 64 * 1024) ?t"
  have "?t \<le> ?n"
    by (intro grow_cap_ge) auto
  also have "?n \<le> (?n + 4095) div 4096 * 4096"
    using round_up_ge[of 4096 ?n] by (simp add: round_up_nat_def div_up_def)
  finally show "length (ts_data st') + need \<le> ts_cap st'" "ts_data st' = ts_data st"
    "ts_cur_b st' = ts_cur_b st" "ts_cur_fd st' = ts_cur_fd st" "ts_cap st \<le> ts_cap st'"
    "st_inv fds bk st rs \<Longrightarrow> st_inv fds bk st' rs"
    using assms by (auto simp: ts_ensure_def st_inv_def Let_def split: if_splits)
qed

lemma rec_bytes_eq:
  assumes "rec_ok r"
  shows "rec_hdr_bytes (r_gid r) (length (r_ids r)) @ enc32 (take (length (r_ids r)) (r_ids r)) @
    le_bytes 4 (rec_size (length (r_ids r))) @
    replicate (rec_size (length (r_ids r)) - (12 + u32 (4 * length (r_ids r)) + 4)) 0 = rec_bytes r"
  using assms by (simp add: rec_bytes_def rec_ok_def u32_id Let_def)

lemma ts_store_eq:
  assumes "rec_ok r"
  shows "ts_store os (r_gid r) (r_ids r) (length (r_ids r)) st =
    rbind (ts_ensure os (rec_size (length (r_ids r))) st) (\<lambda>st1.
      if length (ts_data st1) + length (rec_bytes r) \<le> ts_cap st1
      then Inr (st1\<lparr>ts_data := ts_data st1 @ rec_bytes r\<rparr>) else Inl OutOfRange)"
  by (simp only: ts_store_def Let_def rec_bytes_eq[OF assms])

lemma store_spec:
  assumes "rec_ok r" "st_inv fds bk st rs" "ts_cur_b st = int (bk r)"
    and "ts_store os (r_gid r) (r_ids r) (length (r_ids r)) st = Inr st'"
  shows "st_inv fds bk st' (rs @ [r])" "ts_cur_b st' = ts_cur_b st"
proof -
  obtain st1 where e: "ts_ensure os (rec_size (length (r_ids r))) st = Inr st1"
    and st': "st' = st1\<lparr>ts_data := ts_data st1 @ rec_bytes r\<rparr>"
      "length (ts_data st1) + length (rec_bytes r) \<le> ts_cap st1"
    using assms(4) by (auto simp: ts_store_eq[OF assms(1)] rbind_eq_Inr_iff split: if_splits)
  note en = ensure_spec[OF e]
  show "st_inv fds bk st' (rs @ [r])" "ts_cur_b st' = ts_cur_b st"
    using en(6)[OF assms(2)] en(3) st' assms(1,3) by (auto simp: st_inv_def)
qed

text \<open>The copy stays inside the buffer: \<open>ensure\<close> has made room for the whole record.\<close>

lemma store_no_overrun:
  assumes "rec_ok r"
  shows "ts_store os (r_gid r) (r_ids r) (length (r_ids r)) st \<noteq> Inl OutOfRange"
proof (cases "ts_ensure os (rec_size (length (r_ids r))) st")
  case (Inl e)
  then have "e = Die ''posix_memalign grow''"
    by (auto simp: ts_ensure_def Let_def split: if_splits)
  then show ?thesis using Inl by (simp add: ts_store_eq[OF assms])
next
  case (Inr st1)
  then show ?thesis
    using ensure_spec(1)[OF Inr] length_rec_bytes[OF assms] by (simp add: ts_store_eq[OF assms])
qed

section \<open>Threads\<close>

text \<open>A thread works through the records it produces; each \<open>append_record\<close> is three steps, so other
  threads may write between them. After the loop every thread flushes
  (\<open>flush_bucket_buffers\<close>). An error ends the process, so it has no successor state.\<close>

datatype phase = Idle | Switched bucket_rec | Stored bucket_rec

record thread =
  th_st :: staging
  th_phase :: phase
  th_todo :: "bucket_rec list"

record sys =
  s_logs :: logs
  s_threads :: "thread list"

definition put_thread :: "sys \<Rightarrow> nat \<Rightarrow> thread \<Rightarrow> logs \<Rightarrow> sys" where
  "put_thread s t th l = \<lparr>s_logs = l, s_threads = (s_threads s)[t := th]\<rparr>"

inductive log_step :: "os \<Rightarrow> (nat \<Rightarrow> int) \<Rightarrow> (bucket_rec \<Rightarrow> nat) \<Rightarrow> sys \<Rightarrow> sys \<Rightarrow> bool"
  for os :: os and fds :: "nat \<Rightarrow> int" and bk :: "bucket_rec \<Rightarrow> nat" where
  switch: "\<lbrakk>t < length (s_threads s); s_threads s ! t = th; th_phase th = Idle; th_todo th = r # rs;
     ts_switch os (fds (bk r)) (int (bk r)) (th_st th, s_logs s) = Inr (st', l')\<rbrakk>
   \<Longrightarrow> log_step os fds bk s (put_thread s t \<lparr>th_st = st', th_phase = Switched r, th_todo = rs\<rparr> l')"
| store: "\<lbrakk>t < length (s_threads s); s_threads s ! t = th; th_phase th = Switched r;
     ts_store os (r_gid r) (r_ids r) (length (r_ids r)) (th_st th) = Inr st'\<rbrakk>
   \<Longrightarrow> log_step os fds bk s (put_thread s t (th\<lparr>th_st := st', th_phase := Stored r\<rparr>) (s_logs s))"
| spill: "\<lbrakk>t < length (s_threads s); s_threads s ! t = th; th_phase th = Stored r;
     ts_spill os (length (r_ids r)) (th_st th, s_logs s) = Inr (st', l')\<rbrakk>
   \<Longrightarrow> log_step os fds bk s (put_thread s t (th\<lparr>th_st := st', th_phase := Idle\<rparr>) l')"
| last_flush: "\<lbrakk>t < length (s_threads s); s_threads s ! t = th; th_phase th = Idle; th_todo th = [];
     ts_flush os (th_st th, s_logs s) = Inr (st', l')\<rbrakk>
   \<Longrightarrow> log_step os fds bk s (put_thread s t (th\<lparr>th_st := st'\<rparr>) l')"

definition sys_start :: "staging list \<Rightarrow> bucket_rec list list \<Rightarrow> logs \<Rightarrow> sys" where
  "sys_start sts work l =
     \<lparr>s_logs = l, s_threads = map2 (\<lambda>st w. \<lparr>th_st = st, th_phase = Idle, th_todo = w\<rparr>) sts work\<rparr>"

definition sys_done :: "sys \<Rightarrow> bool" where
  "sys_done s \<longleftrightarrow>
     (\<forall>th \<in> set (s_threads s). th_phase th = Idle \<and> th_todo th = [] \<and> ts_data (th_st th) = [])"

text \<open>The ghost view: for every bucket the records its log holds, for every thread those its buffer
  holds. Together with the pending ones they are always the records to be written.\<close>

definition pending :: "thread \<Rightarrow> bucket_rec multiset" where
  "pending th = (case th_phase th of Switched r \<Rightarrow> {#r#} | _ \<Rightarrow> {#}) + mset (th_todo th)"

definition th_inv :: "(nat \<Rightarrow> int) \<Rightarrow> (bucket_rec \<Rightarrow> nat) \<Rightarrow> nat \<Rightarrow> thread \<Rightarrow> bucket_rec list \<Rightarrow> bool" where
  "th_inv fds bk B th g \<longleftrightarrow>
     st_inv fds bk (th_st th) g \<and> (\<forall>r \<in> set g. bk r < B) \<and> (\<forall>r \<in># pending th. rec_ok r \<and> bk r < B) \<and>
     (\<forall>r. th_phase th = Switched r \<longrightarrow> ts_cur_b (th_st th) = int (bk r))"

definition sys_inv ::
    "(nat \<Rightarrow> int) \<Rightarrow> (bucket_rec \<Rightarrow> nat) \<Rightarrow> nat \<Rightarrow> logs \<Rightarrow> bucket_rec multiset \<Rightarrow> sys \<Rightarrow> (nat \<Rightarrow> bucket_rec list) \<Rightarrow>
     bucket_rec list list \<Rightarrow> bool" where
  "sys_inv fds bk B l0 recs s fl gs \<longleftrightarrow>
     length gs = length (s_threads s) \<and> (\<forall>t < length gs. th_inv fds bk B (s_threads s ! t) (gs ! t)) \<and>
     (\<forall>b < B. s_logs s (fds b) = l0 (fds b) @ concat (map rec_bytes (fl b)) \<and>
        mset (fl b) + filter_mset (\<lambda>r. bk r = b)
          (sum_list (map2 (\<lambda>th g. mset g + pending th) (s_threads s) gs)) = filter_mset (\<lambda>r. bk r = b) recs)"

lemma sum_map2_update:
  fixes f :: "'a \<Rightarrow> 'b \<Rightarrow> 'c multiset"
  assumes "t < length xs" "length ys = length xs"
  shows "sum_list (map2 f (xs[t := x]) (ys[t := y])) + f (xs ! t) (ys ! t) = sum_list (map2 f xs ys) + f x y"
  using assms
proof (induction xs arbitrary: ys t)
  case Nil
  then show ?case by simp
next
  case (Cons a xs)
  obtain b ys' where ys: "ys = b # ys'" "length ys' = length xs"
    using Cons.prems(2) by (cases ys) auto
  show ?case
  proof (cases t)
    case 0
    then show ?thesis by (simp add: ys ac_simps)
  next
    case (Suc k)
    then show ?thesis using Cons.IH[of k ys'] Cons.prems(1) ys(2) by (simp add: ys add.assoc)
  qed
qed

text \<open>One thread moves: what it adds to the log of its bucket leaves its own share.\<close>

lemma sys_inv_put:
  assumes inv: "sys_inv fds bk B l0 recs s fl gs" and t: "t < length (s_threads s)" and inj: "inj_on fds {..<B}"
    and th: "th_inv fds bk B th g"
    and l: "l = (s_logs s)(fds c := s_logs s (fds c) @ concat (map rec_bytes out))" and c: "out \<noteq> [] \<Longrightarrow> c < B"
    and out: "\<forall>r \<in> set out. bk r = c"
    and bal: "mset out + (mset g + pending th) = mset (gs ! t) + pending (s_threads s ! t)"
  shows "sys_inv fds bk B l0 recs (put_thread s t th l) (fl(c := fl c @ out)) (gs[t := g])"
  unfolding sys_inv_def
proof (intro conjI allI impI)
  let ?f = "\<lambda>th g. mset g + pending th"
  have len: "length gs = length (s_threads s)"
    using inv by (simp add: sys_inv_def)
  then show "length (gs[t := g]) = length (s_threads (put_thread s t th l))"
    by (simp add: put_thread_def)
  fix k assume "k < length (gs[t := g])"
  then show "th_inv fds bk B (s_threads (put_thread s t th l) ! k) (gs[t := g] ! k)"
    using inv th t len by (cases "k = t") (auto simp: put_thread_def sys_inv_def)
next
  let ?f = "\<lambda>th g. mset g + pending th"
  have len: "length gs = length (s_threads s)"
    using inv by (simp add: sys_inv_def)
  fix b assume b: "b < B"
  have logs: "s_logs s (fds b) = l0 (fds b) @ concat (map rec_bytes (fl b))"
    using inv b by (simp add: sys_inv_def)
  show "s_logs (put_thread s t th l) (fds b) = l0 (fds b) @ concat (map rec_bytes ((fl(c := fl c @ out)) b))"
  proof (cases "out = []")
    case True
    then show ?thesis using logs l by (simp add: put_thread_def)
  next
    case False
    then have "fds b = fds c \<longleftrightarrow> b = c"
      using inj b c by (auto simp: inj_on_def)
    then show ?thesis using logs l by (auto simp: put_thread_def)
  qed
  have "sum_list (map2 ?f ((s_threads s)[t := th]) (gs[t := g])) + (mset out + ?f th g) =
      sum_list (map2 ?f (s_threads s) gs) + ?f th g"
    using sum_map2_update[OF t len, of ?f th g] bal by (simp only:)
  then have "sum_list (map2 ?f ((s_threads s)[t := th]) (gs[t := g])) + mset out = sum_list (map2 ?f (s_threads s) gs)"
    by (simp add: ac_simps)
  then have "filter_mset (\<lambda>r. bk r = b) (sum_list (map2 ?f (s_threads s) gs)) =
      filter_mset (\<lambda>r. bk r = b) (sum_list (map2 ?f ((s_threads s)[t := th]) (gs[t := g]))) +
      filter_mset (\<lambda>r. bk r = b) (mset out)"
    by (metis filter_union_mset)
  moreover have "filter_mset (\<lambda>r. bk r = b) (mset out) = (if b = c then mset out else {#})"
    using out by (auto simp: filter_mset_eq_conv)
  moreover have "mset (fl b) + filter_mset (\<lambda>r. bk r = b) (sum_list (map2 ?f (s_threads s) gs)) =
      filter_mset (\<lambda>r. bk r = b) recs"
    using inv b by (simp add: sys_inv_def)
  ultimately show "mset ((fl(c := fl c @ out)) b) + filter_mset (\<lambda>r. bk r = b)
      (sum_list (map2 ?f (s_threads (put_thread s t th l)) (gs[t := g]))) = filter_mset (\<lambda>r. bk r = b) recs"
    by (auto simp: put_thread_def ac_simps)
qed

text \<open>What a part of \<open>append_record\<close> may write: whole records of one bucket, taken from the buffer.\<close>

definition moves_out ::
    "(nat \<Rightarrow> int) \<Rightarrow> (bucket_rec \<Rightarrow> nat) \<Rightarrow> bucket_rec list \<Rightarrow> logs \<Rightarrow> bucket_rec list \<Rightarrow> logs \<Rightarrow> nat \<Rightarrow> bucket_rec list \<Rightarrow> bool" where
  "moves_out fds bk g l g' l' c out \<longleftrightarrow>
     g = out @ g' \<and> (\<forall>r \<in> set out. bk r = c) \<and> l' = l(fds c := l (fds c) @ concat (map rec_bytes out))"

lemma moves_out_none: "moves_out fds bk g l g l c []"
  by (simp add: moves_out_def)

lemma flush_moves:
  assumes "append_mode os" "st_inv fds bk st g" "ts_flush os (st, l) = Inr (st', l')"
  shows "\<exists>c. moves_out fds bk g l [] l' c g \<and> st_inv fds bk st' [] \<and> ts_cur_b st' = ts_cur_b st"
proof -
  have b: "\<forall>r \<in> set g. bk r = nat (ts_cur_b st)"
    using assms(2) by (auto simp: st_inv_def)
  show ?thesis
    using flush_spec[OF assms b] b by (auto simp: moves_out_def intro!: exI[of _ "nat (ts_cur_b st)"])
qed

lemma switch_moves:
  assumes "append_mode os" "st_inv fds bk st g" "ts_switch os (fds b) (int b) (st, l) = Inr (st', l')"
  shows "\<exists>c out g'. moves_out fds bk g l g' l' c out \<and> st_inv fds bk st' g' \<and> ts_cur_b st' = int b"
proof (cases "ts_cur_b st = int b")
  case True
  then have "st' = st" "l' = l"
    using assms(3) by (simp_all add: ts_switch_def)
  then show ?thesis
    using moves_out_none[of fds bk g l] assms(2) True by blast
next
  case False
  show ?thesis
  proof (cases "0 \<le> ts_cur_b st")
    case nonneg: True
    then obtain st1 where st1: "ts_flush os (st, l) = Inr (st1, l')" "st' = st1\<lparr>ts_cur_b := int b, ts_cur_fd := fds b\<rparr>"
      using assms(3) False by (auto simp: ts_switch_def rbind_eq_Inr_iff)
    obtain c where "moves_out fds bk g l [] l' c g" "st_inv fds bk st1 []"
      using flush_moves[OF assms(1,2) st1(1)] by blast
    moreover from this(2) have "st_inv fds bk st' []" "ts_cur_b st' = int b"
      using st1(2) by (simp_all add: st_inv_def)
    ultimately show ?thesis by blast
  next
    case neg: False
    then have "g = []" "l' = l" "st' = st\<lparr>ts_cur_b := int b, ts_cur_fd := fds b\<rparr>"
      using assms(2,3) False by (cases g; auto simp: st_inv_def ts_switch_def)+
    then show ?thesis
      using moves_out_none[of fds bk "[]" l] assms(2) by (auto simp: st_inv_def intro!: exI[of _ "[]"])
  qed
qed

lemma spill_moves:
  assumes "append_mode os" "st_inv fds bk st g" "ts_spill os n (st, l) = Inr (st', l')"
  shows "\<exists>c out g'. moves_out fds bk g l g' l' c out \<and> st_inv fds bk st' g'"
proof (cases "ts_cap st < length (ts_data st) + rec_size n")
  case True
  then have "ts_flush os (st, l) = Inr (st', l')"
    using assms(3) by (simp add: ts_spill_def)
  then show ?thesis
    using flush_moves[OF assms(1,2)] by blast
next
  case False
  then have "st' = st" "l' = l"
    using assms(3) by (simp_all add: ts_spill_def)
  then show ?thesis
    using moves_out_none[of fds bk g l] assms(2) by blast
qed

lemma sys_inv_thread:
  "sys_inv fds bk B l0 recs s fl gs \<Longrightarrow> t < length (s_threads s) \<Longrightarrow> th_inv fds bk B (s_threads s ! t) (gs ! t)"
  by (simp add: sys_inv_def)

text \<open>A thread's move that only changes its buffer through such an output keeps the invariant.\<close>

lemma sys_inv_moves:
  assumes inv: "sys_inv fds bk B l0 recs s fl gs" and t: "t < length (s_threads s)" and inj: "inj_on fds {..<B}"
    and mv: "moves_out fds bk (gs ! t @ new) (s_logs s) g' l' c out"
    and st: "st_inv fds bk (th_st th) g'" and new: "\<forall>r \<in> set new. bk r < B"
    and ph: "\<And>r. th_phase th = Switched r \<Longrightarrow> ts_cur_b (th_st th) = int (bk r)"
    and pend: "mset new + pending th = pending (s_threads s ! t)"
  shows "\<exists>fl' gs'. sys_inv fds bk B l0 recs (put_thread s t th l') fl' gs'"
proof -
  have old: "th_inv fds bk B (s_threads s ! t) (gs ! t)"
    using sys_inv_thread[OF inv t] .
  have split: "gs ! t @ new = out @ g'"
    using mv by (simp add: moves_out_def)
  have lt: "\<forall>r \<in> set (out @ g'). bk r < B"
    using old new unfolding split[symmetric] by (auto simp: th_inv_def)
  have "th_inv fds bk B th g'"
    using st lt ph old pend[symmetric] by (auto simp: th_inv_def)
  moreover have "mset out + (mset g' + pending th) = mset (gs ! t) + pending (s_threads s ! t)"
    using arg_cong[OF split, of mset] pend[symmetric] by (simp add: ac_simps)
  moreover have "out \<noteq> [] \<Longrightarrow> c < B"
    using lt mv by (cases out) (auto simp: moves_out_def)
  ultimately show ?thesis
    using sys_inv_put[OF inv t inj] mv unfolding moves_out_def by blast
qed

lemma log_step_inv:
  assumes "append_mode os" "inj_on fds {..<B}" "log_step os fds bk s s'" "sys_inv fds bk B l0 recs s fl gs"
  shows "\<exists>fl' gs'. sys_inv fds bk B l0 recs s' fl' gs'"
  using assms(3)
proof cases
  case (switch t th r rs st' l')
  have old: "th_inv fds bk B th (gs ! t)"
    using sys_inv_thread[OF assms(4)] switch(2,3) by blast
  obtain c out g' where "moves_out fds bk (gs ! t) (s_logs s) g' l' c out" "st_inv fds bk st' g'"
    "ts_cur_b st' = int (bk r)"
    using switch_moves[OF assms(1), of fds bk "th_st th" "gs ! t" "bk r" "s_logs s" st' l'] switch(6) old
    by (auto simp: th_inv_def)
  then show ?thesis
    unfolding switch(1)
    by (intro sys_inv_moves[OF assms(4) switch(2) assms(2), where new = "[]"]) (use switch in \<open>auto simp: pending_def\<close>)
next
  case (store t th r st')
  have old: "th_inv fds bk B th (gs ! t)"
    using sys_inv_thread[OF assms(4)] store(2,3) by blast
  then have r: "rec_ok r" "bk r < B" "ts_cur_b (th_st th) = int (bk r)" "st_inv fds bk (th_st th) (gs ! t)"
    using store(4) by (auto simp: th_inv_def pending_def)
  show ?thesis
    unfolding store(1)
    by (intro sys_inv_moves[OF assms(4) store(2) assms(2) moves_out_none, where new = "[r]"])
      (use store r store_spec(1)[OF r(1,4,3) store(5)] in \<open>auto simp: pending_def\<close>)
next
  case (spill t th r st' l')
  have old: "th_inv fds bk B th (gs ! t)"
    using sys_inv_thread[OF assms(4)] spill(2,3) by blast
  obtain c out g' where "moves_out fds bk (gs ! t) (s_logs s) g' l' c out" "st_inv fds bk st' g'"
    using spill_moves[OF assms(1) old[unfolded th_inv_def, THEN conjunct1] spill(5)] by blast
  then show ?thesis
    unfolding spill(1)
    by (intro sys_inv_moves[OF assms(4) spill(2) assms(2), where new = "[]"]) (use spill in \<open>auto simp: pending_def\<close>)
next
  case (last_flush t th st' l')
  have old: "th_inv fds bk B th (gs ! t)"
    using sys_inv_thread[OF assms(4)] last_flush(2,3) by blast
  obtain c where "moves_out fds bk (gs ! t) (s_logs s) [] l' c (gs ! t)" "st_inv fds bk st' []"
    using flush_moves[OF assms(1) old[unfolded th_inv_def, THEN conjunct1] last_flush(6)] by blast
  then show ?thesis
    unfolding last_flush(1)
    by (intro sys_inv_moves[OF assms(4) last_flush(2) assms(2), where new = "[]"])
      (use last_flush in \<open>auto simp: pending_def\<close>)
qed

lemma pending_idle: "pending \<lparr>th_st = st, th_phase = Idle, th_todo = w\<rparr> = mset w"
  by (simp add: pending_def)

lemma sys_inv_start:
  assumes "length sts = length work" "\<forall>st \<in> set sts. st_inv fds bk st []"
    and "\<forall>w \<in> set work. \<forall>r \<in> set w. rec_ok r \<and> bk r < B"
  shows "sys_inv fds bk B l (mset (concat work)) (sys_start sts work l) (\<lambda>b. []) (replicate (length work) [])"
proof -
  have "sum_list (map2 (\<lambda>th g. mset g + pending th)
      (map2 (\<lambda>st w. \<lparr>th_st = st, th_phase = Idle, th_todo = w\<rparr>) sts work) (replicate (length work) [])) =
      mset (concat work)"
    using assms(1) by (induction sts work rule: list_induct2) (auto simp: pending_idle)
  then show ?thesis
    using assms by (auto simp: sys_inv_def sys_start_def th_inv_def pending_idle all_set_conv_all_nth)
qed

lemma log_steps_inv:
  assumes "(log_step os fds bk)\<^sup>*\<^sup>* s s'" "append_mode os" "inj_on fds {..<B}"
    and "\<exists>fl gs. sys_inv fds bk B l0 recs s fl gs"
  shows "\<exists>fl gs. sys_inv fds bk B l0 recs s' fl gs"
  using assms(1,4) by (induction rule: rtranclp_induct) (auto intro: log_step_inv[OF assms(2,3)])

lemma sum_list_empty: "\<forall>x \<in> set xs. x = {#} \<Longrightarrow> sum_list xs = {#}"
  by (induction xs) auto

lemma sys_inv_done:
  assumes "sys_inv fds bk B l0 recs s fl gs" "sys_done s" "b < B"
  shows "s_logs s (fds b) = l0 (fds b) @ concat (map rec_bytes (fl b))"
    and "mset (fl b) = filter_mset (\<lambda>r. bk r = b) recs"
proof -
  have "mset (gs ! t) + pending (s_threads s ! t) = {#}" if t: "t < length (s_threads s)" for t
  proof -
    have "th_phase (s_threads s ! t) = Idle" "th_todo (s_threads s ! t) = []" "ts_data (th_st (s_threads s ! t)) = []"
      using assms(2) t by (auto simp: sys_done_def)
    moreover have "gs ! t = []"
      using sys_inv_thread[OF assms(1) t] calculation(3) concat_rec_bytes_Nil by (metis th_inv_def st_inv_def)
    ultimately show ?thesis by (simp add: pending_def)
  qed
  then have "sum_list (map2 (\<lambda>th g. mset g + pending th) (s_threads s) gs) = {#}"
    using assms(1) by (intro sum_list_empty) (auto simp: sys_inv_def set_zip)
  then show "s_logs s (fds b) = l0 (fds b) @ concat (map rec_bytes (fl b))"
    "mset (fl b) = filter_mset (\<lambda>r. bk r = b) recs"
    using assms(1,3) by (simp_all add: sys_inv_def)
qed

section \<open>Reading a log\<close>

text \<open>The loop that both passes of the compaction use: it stops at a record that is too short or
  that runs past the end. \<open>f\<close> is applied to gid, length and position of every record.\<close>

function scan_log :: "(nat \<Rightarrow> nat \<Rightarrow> nat \<Rightarrow> 's \<Rightarrow> 's) \<Rightarrow> bfile \<Rightarrow> nat \<Rightarrow> 's \<Rightarrow> 's" where
  "scan_log f blob offm s =
     (if offm + 12 \<le> length blob then
        let gid = le_nat (block blob offm 4); len = le_nat (block blob (offm + 4) 2);
            size_bytes = le_nat (block blob (offm + 8) 4)
        in if size_bytes < REC_HDR_ALIGNED then s
           else if length blob < offm + size_bytes then s
           else scan_log f blob (offm + size_bytes) (f gid len offm s)
      else s)"
  by pat_completeness auto
termination
  by (relation "measure (\<lambda>(f, blob, offm, s). length blob - offm)") (auto simp: REC_HDR_ALIGNED_def)

declare scan_log.simps [simp del]

lemma rec_at:
  assumes "drop offm blob = rec_bytes r @ rest" "rec_ok r"
  shows "offm + 12 \<le> length blob" "le_nat (block blob offm 4) = r_gid r"
    "le_nat (block blob (offm + 4) 2) = length (r_ids r)"
    "le_nat (block blob (offm + 8) 4) = rec_size (length (r_ids r))"
    "offm + rec_size (length (r_ids r)) \<le> length blob"
    "drop (offm + rec_size (length (r_ids r))) blob = rest"
    "dec32 (block blob (offm + 12) (4 * length (r_ids r))) = r_ids r"
proof -
  let ?n = "length (r_ids r)"
  have n: "?n < 2 ^ 16" "r_gid r < 2 ^ 32"
    using assms(2) by (simp_all add: rec_ok_def)
  note sz = rec_size_bounds[OF n(1)]
  have len: "length blob - offm = rec_size ?n + length rest"
    using arg_cong[OF assms(1), of length] length_rec_bytes[OF assms(2)] by simp
  show "offm + 12 \<le> length blob" "offm + rec_size ?n \<le> length blob"
    using len sz by linarith+
  have d: "drop (offm + k) blob = drop k (rec_bytes r @ rest)" for k
    using assms(1) by (metis add.commute drop_drop)
  show "drop (offm + rec_size ?n) blob = rest"
    using d[of "rec_size ?n"] length_rec_bytes[OF assms(2)] by simp
  show "le_nat (block blob offm 4) = r_gid r" "le_nat (block blob (offm + 4) 2) = ?n"
    "le_nat (block blob (offm + 8) 4) = rec_size ?n"
    using n sz(2) by (simp_all add: block_def d assms(1) rec_bytes_def rec_hdr_bytes_def Let_def u32_id u16_id)
  show "dec32 (block blob (offm + 12) (4 * ?n)) = r_ids r"
    using assms(2) by (simp add: block_def d rec_bytes_def Let_def map_u32_id rec_ok_def)
qed

lemma scan_log_step:
  assumes "drop offm blob = rec_bytes r @ rest" "rec_ok r"
  shows "scan_log f blob offm s =
    scan_log f blob (offm + rec_size (length (r_ids r))) (f (r_gid r) (length (r_ids r)) offm s)"
  using rec_at[OF assms] rec_size_bounds(3)[of "length (r_ids r)"] assms(2)
  by (subst scan_log.simps) (simp add: Let_def REC_HDR_ALIGNED_def rec_ok_def)

text \<open>Records and their positions in a log.\<close>

fun rec_positions :: "nat \<Rightarrow> bucket_rec list \<Rightarrow> (bucket_rec \<times> nat) list" where
  "rec_positions off [] = []"
| "rec_positions off (r # rs) = (r, off) # rec_positions (off + rec_size (length (r_ids r))) rs"

lemma map_fst_rec_positions [simp]: "map fst (rec_positions off rs) = rs"
  by (induction rs arbitrary: off) auto

lemma scan_log_records:
  assumes "drop offm blob = concat (map rec_bytes rs)" "\<forall>r \<in> set rs. rec_ok r"
  shows "scan_log f blob offm s =
    fold (\<lambda>(r, off) s. f (r_gid r) (length (r_ids r)) off s) (rec_positions offm rs) s"
  using assms
proof (induction rs arbitrary: offm s)
  case Nil
  then show ?case by (subst scan_log.simps) simp
next
  case (Cons r rs)
  have at: "drop offm blob = rec_bytes r @ concat (map rec_bytes rs)" "rec_ok r"
    using Cons.prems by simp_all
  show ?case
    using Cons.IH[OF rec_at(6)[OF at]] Cons.prems(2) by (subst scan_log_step[OF at]) simp
qed

lemma rec_positions_body:
  assumes "drop offm blob = concat (map rec_bytes rs)" "\<forall>r \<in> set rs. rec_ok r" "(r, p) \<in> set (rec_positions offm rs)"
  shows "dec32 (block blob (p + 12) (4 * length (r_ids r))) = r_ids r"
  using assms
proof (induction rs arbitrary: offm)
  case Nil
  then show ?case by simp
next
  case (Cons a rs)
  have at: "drop offm blob = rec_bytes a @ concat (map rec_bytes rs)" "rec_ok a"
    using Cons.prems(1,2) by simp_all
  show ?case
    using Cons.IH[OF rec_at(6)[OF at]] Cons.prems(2,3) rec_at(7)[OF at] by auto
qed

section \<open>Progress\<close>

text \<open>An operating system that writes everything and has memory.\<close>

definition os_works :: "os \<Rightarrow> bool" where
  "os_works os \<longleftrightarrow> (\<forall>fd bs l. fst (os_write os fd bs l) = int (length bs)) \<and> (\<forall>n. os_memalign os n)"

lemma flush_works:
  assumes "os_works os" "st_inv fds bk st g" "\<forall>b < B. 0 \<le> fds b" "\<forall>r \<in> set g. bk r < B"
  shows "\<exists>st' l'. ts_flush os (st, l) = Inr (st', l') \<and> ts_data st' = []"
proof (cases "ts_data st = []")
  case True
  then show ?thesis by (simp add: ts_flush_def)
next
  case False
  then have "g \<noteq> []" "ts_alloc st"
    using assms(2) by (auto simp: st_inv_def)
  then have "0 \<le> ts_cur_fd st"
    using assms(2-4) by (cases g) (auto simp: st_inv_def)
  moreover obtain l' where "os_write os (ts_cur_fd st) (ts_data st) l = (int (length (ts_data st)), l')"
    using assms(1) unfolding os_works_def by (metis prod.collapse)
  ultimately show ?thesis
    using \<open>ts_alloc st\<close> False by (simp add: ts_flush_def)
qed

lemma switch_works:
  assumes "os_works os" "st_inv fds bk st g" "\<forall>b < B. 0 \<le> fds b" "\<forall>r \<in> set g. bk r < B"
  shows "\<exists>st' l'. ts_switch os fd b (st, l) = Inr (st', l') \<and> (ts_data st' = ts_data st \<or> ts_data st' = [])"
  using flush_works[OF assms, of l] by (fastforce simp: ts_switch_def)

lemma store_works:
  assumes "os_works os" "rec_ok r"
  shows "\<exists>st'. ts_store os (r_gid r) (r_ids r) (length (r_ids r)) st = Inr st'"
proof -
  have "\<exists>st1. ts_ensure os (rec_size (length (r_ids r))) st = Inr st1"
    using assms(1) by (auto simp: ts_ensure_def os_works_def Let_def)
  then obtain st1 where "ts_ensure os (rec_size (length (r_ids r))) st = Inr st1" ..
  then show ?thesis
    using ensure_spec(1) length_rec_bytes[OF assms(2)] by (auto simp: ts_store_eq[OF assms(2)])
qed

lemma spill_works:
  assumes "os_works os" "st_inv fds bk st g" "\<forall>b < B. 0 \<le> fds b" "\<forall>r \<in> set g. bk r < B"
  shows "\<exists>st' l'. ts_spill os n (st, l) = Inr (st', l') \<and> (ts_data st' = ts_data st \<or> ts_data st' = [])"
  using flush_works[OF assms, of l] by (fastforce simp: ts_spill_def)

definition th_work :: "thread \<Rightarrow> nat" where
  "th_work th = 5 * length (th_todo th) +
     (case th_phase th of Idle \<Rightarrow> 0 | Switched r \<Rightarrow> 4 | Stored r \<Rightarrow> 2) + (if ts_data (th_st th) = [] then 0 else 1)"

lemma sum_work_update:
  "t < length ths \<Longrightarrow> th_work th < th_work (ths ! t) \<Longrightarrow>
    sum_list (map th_work (ths[t := th])) < sum_list (map th_work ths)"
proof (induction ths arbitrary: t)
  case Nil
  then show ?case by simp
next
  case (Cons a ths)
  then show ?case by (cases t) auto
qed

lemma log_progress:
  assumes "os_works os" "\<forall>b < B. 0 \<le> fds b" "sys_inv fds bk B l0 recs s fl gs" "\<not> sys_done s"
  obtains s' where "log_step os fds bk s s'"
    "sum_list (map th_work (s_threads s')) < sum_list (map th_work (s_threads s))"
proof -
  obtain t where t: "t < length (s_threads s)" and nd: "th_phase (s_threads s ! t) \<noteq> Idle \<or>
      th_todo (s_threads s ! t) \<noteq> [] \<or> ts_data (th_st (s_threads s ! t)) \<noteq> []"
    using assms(4) by (auto simp: sys_done_def in_set_conv_nth)
  let ?th = "s_threads s ! t"
  have inv: "st_inv fds bk (th_st ?th) (gs ! t)" "\<forall>r \<in> set (gs ! t). bk r < B" "\<forall>r \<in># pending ?th. rec_ok r"
    using sys_inv_thread[OF assms(3) t] by (auto simp: th_inv_def)
  have "\<exists>th l. log_step os fds bk s (put_thread s t th l) \<and> th_work th < th_work ?th"
  proof (cases "th_phase ?th")
    case Idle
    show ?thesis
    proof (cases "th_todo ?th")
      case Nil
      obtain st' l' where f: "ts_flush os (th_st ?th, s_logs s) = Inr (st', l')" "ts_data st' = []"
        using flush_works[OF assms(1) inv(1) assms(2) inv(2)] by blast
      have "th_work (?th\<lparr>th_st := st'\<rparr>) < th_work ?th"
        using f(2) nd Idle Nil by (simp add: th_work_def)
      then show ?thesis
        using log_step.last_flush[OF t refl Idle Nil f(1)] by blast
    next
      case (Cons r rs)
      obtain st' l' where f: "ts_switch os (fds (bk r)) (int (bk r)) (th_st ?th, s_logs s) = Inr (st', l')"
        "ts_data st' = ts_data (th_st ?th) \<or> ts_data st' = []"
        using switch_works[OF assms(1) inv(1) assms(2) inv(2)] by blast
      have "th_work \<lparr>th_st = st', th_phase = Switched r, th_todo = rs\<rparr> < th_work ?th"
        using f(2) Idle Cons by (auto simp: th_work_def)
      then show ?thesis
        using log_step.switch[where fds = fds and bk = bk and os = os, OF t refl Idle Cons f(1)] by blast
    qed
  next
    case (Switched r)
    then have "rec_ok r"
      using inv(3) by (simp add: pending_def)
    then obtain st' where f: "ts_store os (r_gid r) (r_ids r) (length (r_ids r)) (th_st ?th) = Inr st'"
      using store_works[OF assms(1)] by blast
    have "th_work (?th\<lparr>th_st := st', th_phase := Stored r\<rparr>) < th_work ?th"
      using Switched by (simp add: th_work_def)
    then show ?thesis
      using log_step.store[OF t refl Switched f] by blast
  next
    case (Stored r)
    obtain st' l' where f: "ts_spill os (length (r_ids r)) (th_st ?th, s_logs s) = Inr (st', l')"
      "ts_data st' = ts_data (th_st ?th) \<or> ts_data st' = []"
      using spill_works[OF assms(1) inv(1) assms(2) inv(2)] by blast
    have "th_work (?th\<lparr>th_st := st', th_phase := Idle\<rparr>) < th_work ?th"
      using f(2) Stored by (auto simp: th_work_def)
    then show ?thesis
      using log_step.spill[OF t refl Stored f(1)] by blast
  qed
  then show thesis
    using that sum_work_update[OF t] by (fastforce simp: put_thread_def)
qed

lemma log_runs_finish:
  assumes "os_works os" "append_mode os" "\<forall>b < B. 0 \<le> fds b" "inj_on fds {..<B}"
    and "\<exists>fl gs. sys_inv fds bk B l0 recs s fl gs"
  shows "\<exists>s'. (log_step os fds bk)\<^sup>*\<^sup>* s s' \<and> sys_done s'"
  using assms(5)
proof (induction "sum_list (map th_work (s_threads s))" arbitrary: s rule: less_induct)
  case less
  show ?case
  proof (cases "sys_done s")
    case False
    obtain fl gs where inv: "sys_inv fds bk B l0 recs s fl gs"
      using less.prems by blast
    obtain s1 where s1: "log_step os fds bk s s1"
      "sum_list (map th_work (s_threads s1)) < sum_list (map th_work (s_threads s))"
      using log_progress[OF assms(1,3) inv False] .
    then show ?thesis
      using less.hyps[OF s1(2) log_step_inv[OF assms(2,4) s1(1) inv]] converse_rtranclp_into_rtranclp by metis
  qed blast
qed

section \<open>Properties\<close>

definition scanned :: "bfile \<Rightarrow> bucket_rec list" where
  "scanned blob = rev (scan_log (\<lambda>gid len off rs.
     \<lparr>r_gid = gid, r_ids = dec32 (block blob (off + 12) (4 * len))\<rparr> # rs) blob 0 [])"

lemma scanned_records:
  assumes "\<forall>r \<in> set rs. rec_ok r"
  shows "scanned (concat (map rec_bytes rs)) = rs"
proof -
  let ?blob = "concat (map rec_bytes rs)"
  let ?ps = "rec_positions 0 rs"
  have body: "\<lparr>r_gid = r_gid (fst x), r_ids = dec32 (block ?blob (snd x + 12) (4 * length (r_ids (fst x))))\<rparr> = fst x"
    if "x \<in> set ?ps" for x
    using rec_positions_body[of 0 ?blob rs "fst x" "snd x"] that assms by simp
  have "fold (\<lambda>(r, off) acc. \<lparr>r_gid = r_gid r, r_ids = dec32 (block ?blob (off + 12) (4 * length (r_ids r)))\<rparr> # acc) xs acc =
      rev (map fst xs) @ acc" if "set xs \<subseteq> set ?ps" for xs acc
    using that by (induction xs arbitrary: acc) (auto simp: body[of "(a, b)" for a b, simplified])
  from this[of ?ps "[]"] show ?thesis
    using assms by (simp add: scanned_def scan_log_records[where rs = rs])
qed

text \<open>C4. No record is lost, duplicated or torn, whatever the interleaving: threads with freshly
  initialised staging buffers write their records (bucket by bucket, with flushes on every change
  of bucket, on a full buffer and at the end) to logs in append mode. When all are done, the log of
  bucket b is a sequence of whole records, exactly those of all the threads that belong to b, and
  the reader of the compaction finds them in it.\<close>

theorem bucket_logs_complete:
  assumes "append_mode os" "inj_on fds {..<B}" "length sts = length work"
    and "\<forall>st \<in> set sts. \<exists>n st0. ts_init os n st0 = Inr st"
    and "\<forall>w \<in> set work. \<forall>r \<in> set w. rec_ok r \<and> bk r < B"
    and "(log_step os fds bk)\<^sup>*\<^sup>* (sys_start sts work (\<lambda>fd. [])) s" "sys_done s" "b < B"
  shows "\<exists>rs. mset rs = filter_mset (\<lambda>r. bk r = b) (mset (concat work)) \<and>
    s_logs s (fds b) = concat (map rec_bytes rs) \<and> scanned (s_logs s (fds b)) = rs"
proof -
  have "\<forall>st \<in> set sts. st_inv fds bk st []"
    using assms(4) st_inv_init by blast
  then obtain fl gs where inv: "sys_inv fds bk B (\<lambda>fd. []) (mset (concat work)) s fl gs"
    using log_steps_inv[OF assms(6,1,2)] sys_inv_start[OF assms(3) _ assms(5)] by blast
  note fin = sys_inv_done[OF inv assms(7,8)]
  have "set (fl b) \<subseteq> set (concat work)"
    using arg_cong[OF fin(2), of set_mset] by auto
  then have "\<forall>r \<in> set (fl b). rec_ok r"
    using assms(5) by fastforce
  then show ?thesis
    using fin scanned_records[of "fl b"] by auto
qed

text \<open>A file system in memory, for the witnesses.\<close>

definition mem_os :: os where
  "mem_os = \<lparr>os_write = \<lambda>fd bs l. (int (length bs), l(fd := l fd @ bs)), os_memalign = \<lambda>n. True,
     os_open = \<lambda>p trunc. 3\<rparr>"

lemma mem_os_ok: "append_mode mem_os" "os_works mem_os"
  by (auto simp: append_mode_def os_works_def mem_os_def)

lemma mem_os_run:
  assumes "\<forall>w \<in> set work. \<forall>r \<in> set w. rec_ok r \<and> bk r < B"
  obtains sts s where "length sts = length work" "\<forall>st \<in> set sts. \<exists>n st0. ts_init mem_os n st0 = Inr st"
    "(log_step mem_os int bk)\<^sup>*\<^sup>* (sys_start sts work (\<lambda>fd. [])) s" "sys_done s"
proof -
  obtain st where st: "ts_init mem_os 4096 staging_zero = Inr st"
    by (simp add: ts_init_def mem_os_def)
  let ?sts = "replicate (length work) st"
  have init: "\<forall>x \<in> set ?sts. st_inv int bk x []"
    using st_inv_init[OF st] by simp
  have "inj_on int {..<B}" "\<forall>b < B. 0 \<le> int b"
    by (auto simp: inj_on_def)
  then obtain s where "(log_step mem_os int bk)\<^sup>*\<^sup>* (sys_start ?sts work (\<lambda>fd. [])) s" "sys_done s"
    using log_runs_finish[OF mem_os_ok(2,1), of B int] sys_inv_start[OF _ init assms] by (metis length_replicate)
  then show thesis
    using that[of ?sts s] st by auto
qed

theorem bucket_logs_complete_witness:
  "\<exists>sts s rs. (log_step mem_os int (\<lambda>r. 0))\<^sup>*\<^sup>*
      (sys_start sts [[\<lparr>r_gid = 4, r_ids = [9]\<rparr>], [\<lparr>r_gid = 2, r_ids = [7, 8]\<rparr>]] (\<lambda>fd. [])) s \<and> sys_done s \<and>
    mset rs = {#\<lparr>r_gid = 4, r_ids = [9]\<rparr>, \<lparr>r_gid = 2, r_ids = [7, 8]\<rparr>#} \<and> scanned (s_logs s 0) = rs"
proof -
  let ?work = "[[\<lparr>r_gid = 4, r_ids = [9]\<rparr>], [\<lparr>r_gid = 2, r_ids = [7, 8]\<rparr>]]"
  have ok: "\<forall>w \<in> set ?work. \<forall>r \<in> set w. rec_ok r \<and> (\<lambda>r. 0) r < (1 :: nat)"
    by (simp add: rec_ok_def)
  obtain sts s where r: "length sts = length ?work" "\<forall>st \<in> set sts. \<exists>n st0. ts_init mem_os n st0 = Inr st"
    "(log_step mem_os int (\<lambda>r. 0))\<^sup>*\<^sup>* (sys_start sts ?work (\<lambda>fd. [])) s" "sys_done s"
    by (rule mem_os_run[OF ok])
  have "\<exists>rs. mset rs = filter_mset (\<lambda>r. 0 = (0 :: nat)) (mset (concat ?work)) \<and>
      s_logs s (int 0) = concat (map rec_bytes rs) \<and> scanned (s_logs s (int 0)) = rs"
    by (rule bucket_logs_complete[OF mem_os_ok(1) _ r(1,2) ok r(3,4)]) (auto simp: inj_on_def)
  then show ?thesis
    using r(3,4) by auto
qed

text \<open>C39. Staging never overruns its buffer and never reports an invalid descriptor: with any
  operating system, on a buffer that holds whole records of one bucket, appending a record to a
  bucket with a valid descriptor succeeds or ends in a failed \<open>write\<close> or \<open>posix_memalign\<close>; when the
  operating system serves every request, it succeeds.\<close>

theorem append_record_safe:
  fixes l :: logs
  assumes "append_mode os" "st_inv fds bk st g" "\<forall>b < B. 0 \<le> fds b" "\<forall>r \<in> set g. bk r < B" "rec_ok r" "bk r < B"
  defines "res \<equiv> append_record os (fds (bk r)) (int (bk r)) (r_gid r) (r_ids r) (length (r_ids r)) (st, l)"
  shows "res \<noteq> Inl OutOfRange \<and> res \<noteq> Inl (Die ''flush with invalid cur_fd'') \<and>
    (os_works os \<longrightarrow> (\<exists>st' l'. res = Inr (st', l')))"
proof -
  have len: "length (r_ids r) \<noteq> 0"
    using assms(5) by (simp add: rec_ok_def)
  have fl: "ts_flush os (st', l') \<noteq> Inl OutOfRange \<and> ts_flush os (st', l') \<noteq> Inl (Die ''flush with invalid cur_fd'')"
    if "st_inv fds bk st' g'" "\<forall>r \<in> set g'. bk r < B" for st' l' g'
  proof (cases "ts_data st' = []")
    case False
    then have "0 \<le> ts_cur_fd st'"
      using that assms(3) by (cases g') (auto simp: st_inv_def)
    then show ?thesis by (auto simp: ts_flush_def split: prod.splits)
  qed (simp add: ts_flush_def)
  show ?thesis
  proof (cases "ts_switch os (fds (bk r)) (int (bk r)) (st, l)")
    case (Inl e)
    then have "ts_flush os (st, l) = Inl e"
      by (auto simp: ts_switch_def rbind_def split: if_splits sum.splits)
    moreover have "os_works os \<Longrightarrow> False"
      using switch_works[OF _ assms(2,3,4), of os "fds (bk r)" "int (bk r)" l] Inl by auto
    ultimately show ?thesis
      using fl[OF assms(2,4), of l] Inl len by (auto simp: res_def append_record_def)
  next
    case (Inr sl)
    obtain st1 l1 where sl: "sl = (st1, l1)" by (cases sl)
    obtain c out g1 where m1: "moves_out fds bk g l g1 l1 c out" "st_inv fds bk st1 g1" "ts_cur_b st1 = int (bk r)"
      using switch_moves[OF assms(1,2)] Inr sl by blast
    have g1: "\<forall>r \<in> set g1. bk r < B"
      using m1(1) assms(4) by (auto simp: moves_out_def)
    show ?thesis
    proof (cases "ts_store os (r_gid r) (r_ids r) (length (r_ids r)) st1")
      case inl: (Inl e)
      have "e \<noteq> OutOfRange" "os_works os \<Longrightarrow> False" "e \<noteq> Die ''flush with invalid cur_fd''"
        using store_no_overrun[OF assms(5), of os st1] store_works[OF _ assms(5), of os st1] inl
        by (auto simp: ts_store_eq[OF assms(5)] ts_ensure_def rbind_def Let_def split: if_splits sum.splits)
      then show ?thesis
        using Inr sl inl len by (auto simp: res_def append_record_def)
    next
      case st2: (Inr st2)
      have inv2: "st_inv fds bk st2 (g1 @ [r])" "\<forall>x \<in> set (g1 @ [r]). bk x < B"
        using store_spec(1)[OF assms(5) m1(2,3) st2] g1 assms(6) by auto
      have "res = ts_spill os (length (r_ids r)) (st2, l1)"
        using Inr sl st2 len by (simp add: res_def append_record_def)
      moreover have "os_works os \<Longrightarrow> \<exists>st' l'. ts_spill os (length (r_ids r)) (st2, l1) = Inr (st', l')"
        using spill_works[OF _ inv2(1) assms(3) inv2(2)] by blast
      ultimately show ?thesis
        using fl[OF inv2, of l1] by (auto simp: ts_spill_def split: if_splits)
    qed
  qed
qed


theorem append_record_safe_witness:
  "\<exists>st l'. append_record mem_os 3 0 5 [1, 2] 2
      (\<lparr>ts_cur_b = - 1, ts_cur_fd = - 1, ts_cap = 4096, ts_alloc = True, ts_data = []\<rparr>, \<lambda>fd. []) = Inr (st, l')"
proof -
  let ?st = "\<lparr>ts_cur_b = - 1, ts_cur_fd = - 1, ts_cap = 4096, ts_alloc = True, ts_data = []\<rparr>"
  have "st_inv (\<lambda>b. 3) (\<lambda>r. 0) ?st []" "rec_ok \<lparr>r_gid = 5, r_ids = [1, 2]\<rparr>"
    by (simp_all add: st_inv_def rec_ok_def)
  then show ?thesis
    using append_record_safe[OF mem_os_ok(1), of "\<lambda>b. 3" "\<lambda>r. 0" ?st "[]" 1 "\<lparr>r_gid = 5, r_ids = [1, 2]\<rparr>" "\<lambda>fd. []"]
      mem_os_ok(2) by (simp add: numeral_2_eq_2)
qed

end
