(* ===== verification/Scatter.thy ===== *)
theory Scatter
  imports Prelude
begin

text \<open>
  Counting scatter, the scheme by which both candidate writers build their files: count the
  elements per key, turn the counts into offsets, then copy every chunk to the cursor of its key.
  Compaction (\<open>our_construction.cpp\<close>) and reverse edges (\<open>reverse_edge_logic.cpp\<close>) instantiate
  it. The result is the concatenation, by key, of the chunks in the order they came.
\<close>

type_synonym 'a items = "(nat \<times> 'a list) list"

definition chunks :: "'a items \<Rightarrow> nat \<Rightarrow> 'a list" where
  "chunks items u = concat (map snd (filter (\<lambda>x. fst x = u) items))"

definition chunk_counts :: "nat \<Rightarrow> 'a items \<Rightarrow> nat list" where
  "chunk_counts U items = map (\<lambda>u. length (chunks items u)) [0..<U]"

definition count_step :: "nat \<times> 'a list \<Rightarrow> nat list \<Rightarrow> nat list" where
  "count_step x cs = cs[fst x := cs ! fst x + length (snd x)]"

definition scatter_step :: "nat \<times> 'a list \<Rightarrow> 'a list \<times> nat list \<Rightarrow> 'a list \<times> nat list" where
  "scatter_step x s = (blit (fst s) (snd s ! fst x) (snd x), (snd s)[fst x := snd s ! fst x + length (snd x)])"

lemma chunks_Nil [simp]: "chunks [] u = []"
  by (simp add: chunks_def)

lemma chunks_append: "chunks (xs @ ys) u = chunks xs u @ chunks ys u"
  by (simp add: chunks_def)

lemma chunks_single: "chunks [x] u = (if fst x = u then snd x else [])"
  by (simp add: chunks_def)

lemma chunks_Cons: "chunks (x # xs) u = (if fst x = u then snd x else []) @ chunks xs u"
  by (simp add: chunks_def)

lemma length_chunk_counts [simp]: "length (chunk_counts U items) = U"
  by (simp add: chunk_counts_def)

lemma nth_chunk_counts [simp]: "u < U \<Longrightarrow> chunk_counts U items ! u = length (chunks items u)"
  by (simp add: chunk_counts_def)

lemma fold_count_step:
  assumes "\<forall>x \<in> set items. fst x < U"
  shows "fold count_step items (replicate U 0) = chunk_counts U items"
  using assms
proof (induction items rule: rev_induct)
  case Nil
  then show ?case by (simp add: chunk_counts_def map_replicate_const)
next
  case (snoc x items)
  then show ?case
    by (intro nth_equalityI)
      (auto simp: count_step_def chunks_append chunks_single nth_list_update)
qed

text \<open>Where the chunks of a key start in the output.\<close>

definition seg :: "nat \<Rightarrow> 'a items \<Rightarrow> nat \<Rightarrow> nat" where
  "seg U items u = sum_list (take u (chunk_counts U items))"

lemma seg_Suc: "u < U \<Longrightarrow> seg U items (Suc u) = seg U items u + length (chunks items u)"
  by (simp add: seg_def take_Suc_conv_app_nth)

lemma seg_mono: "u \<le> v \<Longrightarrow> seg U items u \<le> seg U items v"
  unfolding seg_def by (rule sum_list_take_mono)

definition by_key :: "nat \<Rightarrow> 'a items \<Rightarrow> 'a list" where
  "by_key U items = concat (map (chunks items) [0..<U])"

lemma length_by_key: "length (by_key U items) = seg U items U"
  by (simp add: by_key_def seg_def chunk_counts_def length_concat comp_def)

lemma block_by_key:
  assumes "u < U"
  shows "block (by_key U items) (seg U items u) (length (chunks items u)) = chunks items u"
proof -
  have "[0..<U] = [0..<u] @ u # [Suc u..<U]"
    using assms by (metis less_imp_add_positive upt_add_eq_append upt_conv_Cons zero_le le0 le_add1 less_imp_le_nat
        le_add_diff_inverse add_0)
  then have "by_key U items = concat (map (chunks items) [0..<u]) @ chunks items u @ concat (map (chunks items) [Suc u..<U])"
    by (simp add: by_key_def)
  moreover have "length (concat (map (chunks items) [0..<u])) = seg U items u"
    using assms by (simp add: seg_def chunk_counts_def length_concat comp_def take_map)
  ultimately show ?thesis
    by (simp add: block_def)
qed

text \<open>A list is determined by its segments.\<close>

lemma eq_by_key:
  assumes "length out = seg U items U" "\<And>u. u < U \<Longrightarrow> block out (seg U items u) (length (chunks items u)) = chunks items u"
  shows "out = by_key U items"
proof -
  have "take (seg U items k) out = concat (map (chunks items) [0..<k])" if "k \<le> U" for k
    using that
  proof (induction k)
    case 0
    then show ?case by (simp add: seg_def)
  next
    case (Suc k)
    then have "take (seg U items (Suc k)) out = take (seg U items k) out @ block out (seg U items k) (length (chunks items k))"
      by (simp add: seg_Suc take_add block_def)
    then show ?case using Suc assms(2)[of k] by simp
  qed
  from this[of U] show ?thesis
    using assms(1) by (simp add: by_key_def)
qed

theorem scatter_by_key:
  assumes keys: "\<forall>x \<in> set items. fst x < U" and len: "length out0 = seg U items U"
    and cur0: "length cur0 \<ge> U" "\<And>u. u < U \<Longrightarrow> cur0 ! u = seg U items u"
  shows "fst (fold scatter_step items (out0, cur0)) = by_key U items"
    and "\<And>u. u < U \<Longrightarrow> snd (fold scatter_step items (out0, cur0)) ! u = seg U items (Suc u)"
proof -
  have inv: "let (out, cur) = fold scatter_step done (out0, cur0)
     in length out = length out0 \<and> length cur = length cur0 \<and>
        (\<forall>u < U. cur ! u = seg U items u + length (chunks done u) \<and>
           block out (seg U items u) (length (chunks done u)) = chunks done u)"
    if "items = done @ rest" for "done" rest
    using that
  proof (induction "done" arbitrary: rest rule: rev_induct)
    case Nil
    then show ?case using cur0 by simp
  next
    case (snoc x "done")
    obtain out cur where s: "fold scatter_step done (out0, cur0) = (out, cur)" by force
    obtain k xs where x: "x = (k, xs)" by (cases x)
    have k: "k < U" using keys snoc.prems x by auto
    have IH: "length out = length out0" "length cur = length cur0"
      "\<And>u. u < U \<Longrightarrow> cur ! u = seg U items u + length (chunks done u)"
      "\<And>u. u < U \<Longrightarrow> block out (seg U items u) (length (chunks done u)) = chunks done u"
      using snoc.IH[of "x # rest"] snoc.prems s by auto
    have room: "length (chunks done u) + length (if u = k then xs else []) \<le> length (chunks items u)" for u
      using snoc.prems x by (simp add: chunks_append chunks_single chunks_Cons)
    have "cur ! k + length xs \<le> seg U items (Suc k)"
      using IH(3)[OF k] room[of k] seg_Suc[OF k, of items] by simp
    moreover have "seg U items (Suc k) \<le> length out"
      using seg_mono[of "Suc k" U U items] k len IH(1) by simp
    ultimately have fits: "cur ! k + length xs \<le> length out" "cur ! k + length xs \<le> seg U items (Suc k)"
      by simp_all
    have "block (blit out (cur ! k) xs) (seg U items u) (length (chunks (done @ [x]) u)) = chunks (done @ [x]) u"
      if u: "u < U" for u
    proof (cases "u = k")
      case True
      have "block (blit out (cur ! k) xs) (seg U items k) (length (chunks done k)) = chunks done k"
        using IH(3,4)[OF k] fits by (simp add: block_blit_before)
      moreover have "block (blit out (cur ! k) xs) (cur ! k) (length xs) = xs"
        using fits by (simp add: block_blit_same)
      ultimately show ?thesis
        using True IH(3)[OF k] by (simp add: chunks_append chunks_single x block_split)
    next
      case False
      have "seg U items u + length (chunks done u) \<le> cur ! k \<or> cur ! k + length xs \<le> seg U items u"
      proof (cases "u < k")
        case True
        then have "seg U items (Suc u) \<le> seg U items k" by (intro seg_mono) simp
        then show ?thesis using room[of u] False seg_Suc[OF u, of items] IH(3)[OF k] by simp
      next
        case ge: False
        then have "seg U items (Suc k) \<le> seg U items u" using False by (intro seg_mono) simp
        then show ?thesis using fits(2) by simp
      qed
      then have "block (blit out (cur ! k) xs) (seg U items u) (length (chunks done u)) =
          block out (seg U items u) (length (chunks done u))"
        using fits(1) block_blit_before block_blit_after by metis
      then show ?thesis
        using False IH(4)[OF u] by (simp add: chunks_append chunks_single x)
    qed
    moreover have "cur[k := cur ! k + length xs] ! u = seg U items u + length (chunks (done @ [x]) u)" if "u < U" for u
      using that IH(2,3) k cur0(1) by (auto simp: x chunks_append chunks_single nth_list_update)
    moreover have "fold scatter_step (done @ [x]) (out0, cur0) = (blit out (cur ! k) xs, cur[k := cur ! k + length xs])"
      by (simp add: s) (simp add: scatter_step_def x)
    ultimately show ?case
      using IH(1,2) fits(1) by simp
  qed
  obtain out cur where s: "fold scatter_step items (out0, cur0) = (out, cur)" by force
  have fin: "length out = length out0" "\<And>u. u < U \<Longrightarrow> cur ! u = seg U items u + length (chunks items u)"
    "\<And>u. u < U \<Longrightarrow> block out (seg U items u) (length (chunks items u)) = chunks items u"
    using inv[of items "[]"] s by auto
  show "fst (fold scatter_step items (out0, cur0)) = by_key U items"
    using eq_by_key[of out U items] fin len s by simp
  show "\<And>u. u < U \<Longrightarrow> snd (fold scatter_step items (out0, cur0)) ! u = seg U items (Suc u)"
    using fin(2) s by (simp add: seg_Suc)
qed

text \<open>Where the cursors stand, and that no step leaves a bound the totals respect.\<close>

lemma scatter_cursor:
  assumes "\<forall>x \<in> set items. fst x < length cur0"
  shows "length (snd (fold scatter_step items (out0, cur0))) = length cur0 \<and>
    (\<forall>u < length cur0. snd (fold scatter_step items (out0, cur0)) ! u = cur0 ! u + length (chunks items u))"
  using assms
proof (induction items rule: rev_induct)
  case Nil
  then show ?case by simp
next
  case (snoc x items)
  then show ?case
    by (auto simp: scatter_step_def chunks_append chunks_single nth_list_update)
qed

end
