(* ===== verification/Cand_File.thy ===== *)
theory Cand_File
  imports Bytes Scatter
begin

text \<open>
  The candidate files \<open>cand.idx\<close> and \<open>cand.ids\<close> (\<open>CandIdxHdr\<close>, \<open>CandIdxRow\<close>,
  \<open>CandIdsHdr\<close>), which the compaction and the reverse edge tool write and the pruning tool reads.
  \<open>cand_idx_file\<close> and \<open>cand_ids_file\<close> are the specification: one candidate list per point.
\<close>

section \<open>Layout\<close>

definition CAND_IDX_MAGIC :: nat where "CAND_IDX_MAGIC = 0x43494458"
definition CAND_IDS_MAGIC :: nat where "CAND_IDS_MAGIC = 0x43494553"

definition cand_idx_hdr :: "nat \<Rightarrow> byte list" where
  "cand_idx_hdr N = le_bytes 4 CAND_IDX_MAGIC @ le_bytes 4 1 @ le_bytes 8 N @ le_bytes 8 0 @ le_bytes 8 0"

definition cand_ids_hdr :: "nat \<Rightarrow> byte list" where
  "cand_ids_hdr total_ids = le_bytes 4 CAND_IDS_MAGIC @ le_bytes 4 1 @ le_bytes 8 total_ids @ le_bytes 8 0 @ le_bytes 8 0"

definition cand_idx_row :: "nat \<Rightarrow> nat \<Rightarrow> byte list" where
  "cand_idx_row off_bytes cnt = le_bytes 8 off_bytes @ le_bytes 4 cnt @ le_bytes 2 0 @ le_bytes 2 0"

fun idx_rows :: "nat \<Rightarrow> 'a list list \<Rightarrow> byte list" where
  "idx_rows acc [] = []"
| "idx_rows acc (l # ls) = cand_idx_row (4 * acc) (length l) @ idx_rows (acc + length l) ls"

definition cand_idx_file :: "nat list list \<Rightarrow> bfile" where
  "cand_idx_file ls = cand_idx_hdr (length ls) @ idx_rows 0 ls"

definition cand_ids_file :: "nat list list \<Rightarrow> bfile" where
  "cand_ids_file ls = cand_ids_hdr (length (concat ls)) @ enc32 (concat ls)"

text \<open>What a reader of the row of \<open>g\<close> and of its stretch of ids gets.\<close>

definition cand_row_at :: "bfile \<Rightarrow> nat \<Rightarrow> nat \<times> nat" where
  "cand_row_at idx g = (le_nat (block idx (32 + 16 * g) 8), le_nat (block idx (32 + 16 * g + 8) 4))"

definition cand_list_at :: "bfile \<Rightarrow> bfile \<Rightarrow> nat \<Rightarrow> nat list" where
  "cand_list_at idx ids g = (case cand_row_at idx g of (off, cnt) \<Rightarrow> dec32 (block ids (32 + off) (4 * cnt)))"

lemma length_cand_hdrs [simp]: "length (cand_idx_hdr N) = 32" "length (cand_ids_hdr N) = 32"
  by (simp_all add: cand_idx_hdr_def cand_ids_hdr_def)

lemma length_cand_idx_row [simp]: "length (cand_idx_row o1 c) = 16"
  by (simp add: cand_idx_row_def)

lemma length_idx_rows [simp]: "length (idx_rows acc ls) = 16 * length ls"
  by (induction ls arbitrary: acc) auto

lemma idx_rows_append: "idx_rows acc (xs @ ys) = idx_rows acc xs @ idx_rows (acc + length (concat xs)) ys"
  by (induction xs arbitrary: acc) (auto simp: add.assoc)

text \<open>What the widths of the format hold.\<close>

definition cand_fits :: "nat list list \<Rightarrow> bool" where
  "cand_fits ls \<longleftrightarrow> length ls < 2 ^ 32 \<and> 4 * length (concat ls) < 2 ^ 63 \<and>
     (\<forall>l \<in> set ls. length l < 2 ^ 32 \<and> (\<forall>v \<in> set l. v < 2 ^ 32))"

lemma cand_row_at_file:
  assumes "g < length ls" "cand_fits ls"
  shows "cand_row_at (cand_idx_file ls) g = (4 * length (concat (take g ls)), length (ls ! g))"
proof -
  have split: "ls = take g ls @ ls ! g # drop (Suc g) ls"
    using assms(1) by (simp add: id_take_nth_drop)
  have "idx_rows 0 ls = idx_rows 0 (take g ls) @ cand_idx_row (4 * length (concat (take g ls))) (length (ls ! g)) @
      idx_rows (length (concat (take g ls)) + length (ls ! g)) (drop (Suc g) ls)"
    by (subst split) (simp add: idx_rows_append)
  moreover have "length (idx_rows 0 (take g ls)) = 16 * g"
    using assms(1) by simp
  moreover have "4 * length (concat (take g ls)) < 2 ^ 64" "length (ls ! g) < 2 ^ 32"
  proof -
    have "length (concat (take g ls)) \<le> length (concat ls)"
      by (metis append_take_drop_id concat_append le_add1 length_append)
    then show "4 * length (concat (take g ls)) < 2 ^ 64"
      using assms(2) by (simp add: cand_fits_def)
    show "length (ls ! g) < 2 ^ 32"
      using assms by (simp add: cand_fits_def)
  qed
  ultimately show ?thesis
    by (simp add: cand_row_at_def cand_idx_file_def block_def cand_idx_row_def u64_id u32_id)
qed

lemma cand_list_at_file:
  assumes "g < length ls" "cand_fits ls"
  shows "cand_list_at (cand_idx_file ls) (cand_ids_file ls) g = ls ! g"
proof -
  have split: "ls = take g ls @ ls ! g # drop (Suc g) ls"
    using assms(1) by (simp add: id_take_nth_drop)
  have "concat ls = concat (take g ls) @ ls ! g @ concat (drop (Suc g) ls)"
    by (subst split) (simp del: append_take_drop_id)
  then have "enc32 (concat ls) = enc32 (concat (take g ls)) @ enc32 (ls ! g) @ enc32 (concat (drop (Suc g) ls))"
    by simp
  moreover have "\<forall>v \<in> set (ls ! g). v < 2 ^ 32"
    using assms nth_mem[of g ls] unfolding cand_fits_def by blast
  ultimately show ?thesis
    by (simp add: cand_list_at_def cand_row_at_file[OF assms] cand_ids_file_def block_def map_u32_id)
qed

end
