(* ===== verification/Compaction.thy ===== *)
theory Compaction
  imports Bucket_Log Cand_File
begin

text \<open>
  The compaction phase of \<open>construction/our_construction.cpp\<close>: every bucket log is read once,
  its records are counted per point, and the candidate lists go to \<open>cand.idx\<close> and \<open>cand.ids\<close>.
  The operating system's answers are parameters: \<open>rd off want\<close> is the count \<open>read\<close> returns,
  \<open>ok off n\<close> says that \<open>pwrite\<close> wrote all \<open>n\<close> bytes.
\<close>

section \<open>Reading a log\<close>

definition read_chunk :: "int \<Rightarrow> nat" where
  "read_chunk read_buf_mib = max (nat (read_buf_mib * 2 ^ 20 mod 2 ^ 64)) (2 ^ 20)"

function read_bucket :: "(nat \<Rightarrow> nat \<Rightarrow> int) \<Rightarrow> nat \<Rightarrow> bfile \<Rightarrow> nat \<Rightarrow> byte list \<Rightarrow> byte list res" where
  "read_bucket rd CHUNK f offb blob =
     (if offb < length f then
        let want = min CHUNK (length f - offb); n = rd offb want
        in if n < 0 then Inl (Die ''read bucket'')
           else if n = 0 then Inr blob
           else read_bucket rd CHUNK f (offb + nat n) (blit blob offb (block f offb (nat n)))
      else Inr blob)"
  by pat_completeness auto
termination
  by (relation "measure (\<lambda>(rd, CHUNK, f, offb, blob). length f - offb)") auto

declare read_bucket.simps [simp del]

section \<open>The two passes\<close>

definition count_rec :: "nat \<Rightarrow> nat \<Rightarrow> nat \<Rightarrow> nat \<Rightarrow> nat \<Rightarrow> nat list \<times> nat \<Rightarrow> nat list \<times> nat" where
  "count_rec base lmt gid len off s =
     (case s of (counts, sum_b) \<Rightarrow>
        if base \<le> gid \<and> gid < lmt
        then let u = gid - base in (counts[u := u32 (counts ! u + len)], u64 (sum_b + len))
        else s)"

definition fill_rec :: "nat \<Rightarrow> nat \<Rightarrow> byte list \<Rightarrow> nat \<Rightarrow> nat \<Rightarrow> nat \<Rightarrow> nat list \<times> nat list \<Rightarrow> nat list \<times> nat list" where
  "fill_rec base lmt blob gid len off s =
     (case s of (out_ids, cursor) \<Rightarrow>
        if len \<noteq> 0 \<and> base \<le> gid \<and> gid < lmt
        then let u = gid - base; oe = cursor ! u
             in (blit out_ids oe (dec32 (block blob (off + 12) (len * 4))), cursor[u := u64 (oe + len)])
        else s)"

record compact_state =
  c_idx :: bfile
  c_ids :: bfile
  c_acc :: nat
  c_removed :: "nat list"

definition write_idx_rows :: "(nat \<Rightarrow> nat \<Rightarrow> bool) \<Rightarrow> nat \<Rightarrow> nat \<Rightarrow> nat list \<Rightarrow> nat list \<Rightarrow> bfile \<Rightarrow> bfile res" where
  "write_idx_rows ok acc_ids base counts pre idx =
     rfold (\<lambda>u f. pwrite_or_die ok ''write idx row'' f (32 + u32 (base + u) * 16)
              (cand_idx_row (u64 (u64 (acc_ids + pre ! u) * 4)) (counts ! u)))
       [0..<length counts] idx"

definition compact_bucket ::
    "(nat \<Rightarrow> nat \<Rightarrow> int) \<Rightarrow> (nat \<Rightarrow> nat \<Rightarrow> bool) \<Rightarrow> nat \<Rightarrow> nat \<Rightarrow> nat \<Rightarrow> (nat \<Rightarrow> bfile) \<Rightarrow> nat \<Rightarrow> compact_state \<Rightarrow> compact_state res" where
  "compact_bucket rd ok CHUNK N B logs b st =
     (let base = bucket_base N B b; lmt = bucket_limit N B b; f = logs b
      in if lmt \<le> base then Inr st
         else
           rbind (read_bucket rd CHUNK f 0 (replicate (length f) 0)) (\<lambda>blob.
             let (counts, sum_b) = scan_log (count_rec base lmt) blob 0 (replicate (lmt - base) 0, 0);
                 pre = prefix_sums 0 counts
             in rbind (write_idx_rows ok (c_acc st) base counts pre (c_idx st)) (\<lambda>idx.
                rbind (if 0 < sum_b then
                         let (out_ids, cursor) = scan_log (fill_rec base lmt blob) blob 0 (replicate sum_b 0, pre)
                         in pwrite_or_die ok ''pwrite cand.ids bucket'' (c_ids st) (32 + u64 (c_acc st * 4)) (enc32 out_ids)
                       else Inr (c_ids st)) (\<lambda>ids.
                  Inr \<lparr>c_idx = idx, c_ids = ids, c_acc = u64 (c_acc st + sum_b),
                       c_removed = (if 0 < length f then c_removed st @ [b] else c_removed st)\<rparr>))))"

definition compact ::
    "(nat \<Rightarrow> nat \<Rightarrow> int) \<Rightarrow> (nat \<Rightarrow> nat \<Rightarrow> bool) \<Rightarrow> nat \<Rightarrow> nat \<Rightarrow> nat \<Rightarrow> (nat \<Rightarrow> bfile) \<Rightarrow> compact_state res" where
  "compact rd ok CHUNK N B logs =
     rbind (pwrite_or_die ok ''write idx hdr'' [] 0 (cand_idx_hdr N)) (\<lambda>idx.
     rbind (pwrite_or_die ok ''write ids hdr'' [] 0 (cand_ids_hdr 0)) (\<lambda>ids.
     rbind (rfold (compact_bucket rd ok CHUNK N B logs) [0..<B]
              \<lparr>c_idx = idx, c_ids = ids, c_acc = 0, c_removed = []\<rparr>) (\<lambda>st.
     rbind (pwrite_or_die ok ''rewrite ids hdr'' (c_ids st) 0 (cand_ids_hdr (c_acc st))) (\<lambda>ids'.
       Inr (st\<lparr>c_ids := ids'\<rparr>)))))"

section \<open>Reading\<close>

text \<open>\<open>read\<close> on a regular file before its end: between one byte and what was asked for.\<close>

definition read_mode :: "(nat \<Rightarrow> nat \<Rightarrow> int) \<Rightarrow> bool" where
  "read_mode rd \<longleftrightarrow> (\<forall>off want. 0 < want \<longrightarrow> 0 < rd off want \<and> rd off want \<le> int want)"

lemma read_bucket_content:
  assumes "read_mode rd" "0 < CHUNK" "length blob = length f" "offb \<le> length f" "take offb blob = take offb f"
  shows "read_bucket rd CHUNK f offb blob = Inr f"
  using assms
proof (induction rd CHUNK f offb blob rule: read_bucket.induct)
  case (1 rd CHUNK f offb blob)
  show ?case
  proof (cases "offb < length f")
    case False
    then show ?thesis
      using "1.prems" by (subst read_bucket.simps) simp
  next
    case True
    let ?want = "min CHUNK (length f - offb)"
    define n where "n = rd offb ?want"
    have "0 < ?want"
      using True "1.prems"(2) by simp
    then have "0 < rd offb ?want \<and> rd offb ?want \<le> int ?want"
      using "1.prems"(1) unfolding read_mode_def by blast
    then have n: "0 < n" "nat n \<le> length f - offb"
      unfolding n_def by linarith+
    let ?blob = "blit blob offb (block f offb (nat n))"
    have fit: "offb + nat n \<le> length f"
      using n(2) True by simp
    have "take (offb + nat n) ?blob = take (offb + nat n) f"
      using fit "1.prems"(3,5) by (simp add: blit_def take_add block_def)
    then have "read_bucket rd CHUNK f (offb + nat n) ?blob = Inr f"
      using "1.IH"[OF True refl n_def] n(1) fit "1.prems" by simp
    then show ?thesis
      using True n(1) by (subst read_bucket.simps) (simp add: Let_def flip: n_def)
  qed
qed

section \<open>One bucket\<close>

definition bucket_items :: "nat \<Rightarrow> bucket_rec list \<Rightarrow> nat items" where
  "bucket_items base rs = map (\<lambda>r. (r_gid r - base, r_ids r)) rs"

lemma bucket_items_simps [simp]:
  "bucket_items base [] = []"
  "bucket_items base (rs @ rs') = bucket_items base rs @ bucket_items base rs'"
  "bucket_items base (r # rs) = (r_gid r - base, r_ids r) # bucket_items base rs"
  by (simp_all add: bucket_items_def)

definition in_bucket :: "nat \<Rightarrow> nat \<Rightarrow> bucket_rec list \<Rightarrow> bool" where
  "in_bucket base lmt rs \<longleftrightarrow> (\<forall>r \<in> set rs. rec_ok r \<and> base \<le> r_gid r \<and> r_gid r < lmt)"

lemma in_bucket_keys: "in_bucket base lmt rs \<Longrightarrow> \<forall>x \<in> set (bucket_items base rs). fst x < lmt - base"
  by (auto simp: in_bucket_def bucket_items_def diff_less_mono)

lemma count_pass:
  assumes "in_bucket base lmt rs"
  shows "fold (\<lambda>(r, off) s. count_rec base lmt (r_gid r) (length (r_ids r)) off s) (rec_positions p rs)
      (map u32 cs, u64 t) = (map u32 (fold count_step (bucket_items base rs) cs), u64 (t + length (concat (map r_ids rs))))"
  using assms
proof (induction rs arbitrary: p cs t)
  case Nil
  then show ?case by simp
next
  case (Cons r rs)
  let ?u = "r_gid r - base"
  have r: "base \<le> r_gid r" "r_gid r < lmt" and rs: "in_bucket base lmt rs"
    using Cons.prems by (auto simp: in_bucket_def)
  have "count_rec base lmt (r_gid r) (length (r_ids r)) p (map u32 cs, u64 t) =
      (map u32 (count_step (?u, r_ids r) cs), u64 (t + length (r_ids r)))"
  proof (cases "?u < length cs")
    case True
    then show ?thesis
      using r by (simp add: count_rec_def count_step_def map_update Let_def u32_def u64_def mod_simps)
  next
    case False
    then show ?thesis
      using r by (simp add: count_rec_def count_step_def list_update_beyond Let_def u64_def mod_simps)
  qed
  then show ?case
    using Cons.IH[OF rs, of _ "count_step (?u, r_ids r) cs" "t + length (r_ids r)"] by (simp add: add.assoc)
qed

lemma fill_pass:
  assumes "drop 0 blob = concat (map rec_bytes rs)" "in_bucket base lmt rs" "lmt - base \<le> length cur"
    and "\<And>u. u < length cur \<Longrightarrow> cur ! u + length (chunks (bucket_items base rs) u) < 2 ^ 64"
  shows "fold (\<lambda>(r, off) s. fill_rec base lmt blob (r_gid r) (length (r_ids r)) off s) (rec_positions 0 rs) (out, cur) =
    fold scatter_step (bucket_items base rs) (out, cur)"
proof -
  let ?F = "\<lambda>(r, off) s. fill_rec base lmt blob (r_gid r) (length (r_ids r)) off s"
  have ok: "\<forall>r \<in> set rs. rec_ok r"
    using assms(2) by (simp add: in_bucket_def)
  have "fold ?F ps (out, cur) = fold scatter_step (bucket_items base (map fst ps)) (out, cur)"
    if "rec_positions 0 rs = ps @ qs" for ps qs
    using that
  proof (induction ps arbitrary: qs rule: rev_induct)
    case Nil
    then show ?case by simp
  next
    case (snoc x ps)
    obtain r off where x: "x = (r, off)" by (cases x)
    let ?done = "bucket_items base (map fst ps)" and ?u = "r_gid r - base"
    have mem: "(r, off) \<in> set (rec_positions 0 rs)"
      using snoc.prems x by simp
    have rs: "rs = map fst ps @ r # map fst qs"
      using arg_cong[OF snoc.prems, of "map fst"] x by simp
    then have r: "base \<le> r_gid r" "r_gid r < lmt" "rec_ok r" and keys: "\<forall>x \<in> set ?done. fst x < length cur"
      using assms(2,3) in_bucket_keys[of base lmt "map fst ps"] by (fastforce simp: in_bucket_def)+
    have body: "dec32 (block blob (off + 12) (4 * length (r_ids r))) = r_ids r"
      using rec_positions_body[OF assms(1) ok mem] .
    obtain o1 c1 where s: "fold scatter_step ?done (out, cur) = (o1, c1)" by force
    have c1: "length c1 = length cur" "\<And>u. u < length cur \<Longrightarrow> c1 ! u = cur ! u + length (chunks ?done u)"
      using scatter_cursor[OF keys, of out] s by auto
    have "length (chunks ?done ?u) + length (r_ids r) \<le> length (chunks (bucket_items base rs) ?u)"
      by (subst rs) (simp add: chunks_append chunks_Cons)
    moreover have "?u < length cur"
      using r assms(3) by linarith
    ultimately have "c1 ! ?u + length (r_ids r) < 2 ^ 64"
      using c1(2)[of ?u] assms(4)[of ?u] by linarith
    then have "?F x (o1, c1) = scatter_step (?u, r_ids r) (o1, c1)"
      using r body by (simp add: x fill_rec_def scatter_step_def Let_def u64_id rec_ok_def mult.commute)
    then show ?case
      using snoc.IH[of "x # qs"] snoc.prems s by (simp add: x)
  qed
  from this[of "rec_positions 0 rs" "[]"] show ?thesis
    by simp
qed

lemma write_idx_rows_eq:
  assumes "\<forall>o1 n. ok o1 n" "length idx = 32 + 16 * base" "base + length ls < 2 ^ 32"
    and "4 * (acc + length (concat ls)) < 2 ^ 64"
  shows "write_idx_rows ok acc base (map length ls) (prefix_sums 0 (map length ls)) idx = Inr (idx @ idx_rows acc ls)"
proof -
  let ?pre = "prefix_sums 0 (map length ls)"
  let ?w = "\<lambda>u f. pwrite_or_die ok ''write idx row'' f (32 + u32 (base + u) * 16)
      (cand_idx_row (u64 (u64 (acc + ?pre ! u) * 4)) (map length ls ! u))"
  have "rfold ?w [0..<k] idx = Inr (idx @ idx_rows acc (take k ls))" if "k \<le> length ls" for k
    using that
  proof (induction k)
    case 0
    then show ?case by simp
  next
    case (Suc k)
    have pre: "?pre ! k = length (concat (take k ls))"
      using Suc.prems by (simp add: nth_prefix_sums take_map length_concat)
    have "length (concat (take k ls)) \<le> length (concat ls)"
      by (metis append_take_drop_id concat_append le_add1 length_append)
    then have u: "u64 (u64 (acc + ?pre ! k) * 4) = 4 * (acc + length (concat (take k ls)))" "u32 (base + k) = base + k"
      using assms(3,4) Suc.prems by (simp_all add: pre u64_id u32_id)
    have pos: "32 + (base + k) * 16 = length (idx @ idx_rows acc (take k ls))"
      using assms(2) Suc.prems by simp
    have "take (Suc k) ls = take k ls @ [ls ! k]"
      using Suc.prems by (simp add: take_Suc_conv_app_nth)
    moreover have "?w k (idx @ idx_rows acc (take k ls)) =
        Inr ((idx @ idx_rows acc (take k ls)) @ cand_idx_row (4 * (acc + length (concat (take k ls)))) (length (ls ! k)))"
      using Suc.prems unfolding u pos pwrite_or_die_def pwrite_end by (simp add: assms(1))
    ultimately show ?case
      using Suc by (simp add: rfold_append idx_rows_append)
  qed
  from this[of "length ls"] show ?thesis
    by (simp add: write_idx_rows_def)
qed

text \<open>The candidate lists of the points of one bucket, from the records of its log.\<close>

definition bucket_lists :: "nat \<Rightarrow> nat \<Rightarrow> bucket_rec list \<Rightarrow> nat list list" where
  "bucket_lists base lmt rs = map (chunks (bucket_items base rs)) [0..<lmt - base]"

lemma bucket_lists_counts:
  "chunk_counts (lmt - base) (bucket_items base rs) = map length (bucket_lists base lmt rs)"
  "by_key (lmt - base) (bucket_items base rs) = concat (bucket_lists base lmt rs)"
  "length (bucket_lists base lmt rs) = lmt - base"
  by (simp_all add: chunk_counts_def bucket_lists_def by_key_def)

lemma sum_counts_total:
  "in_bucket base lmt rs \<Longrightarrow> length (concat (map r_ids rs)) = length (concat (bucket_lists base lmt rs))"
proof (induction rs rule: rev_induct)
  case Nil
  then show ?case by (simp add: bucket_lists_def length_concat comp_def map_replicate_const sum_list_replicate)
next
  case (snoc r rs)
  have u: "r_gid r - base < lmt - base"
    using snoc.prems by (auto simp: in_bucket_def diff_less_mono)
  have "sum_list (map (\<lambda>u. length (chunks (bucket_items base (rs @ [r])) u)) [0..<lmt - base]) =
      sum_list (map (\<lambda>u. length (chunks (bucket_items base rs) u)) [0..<lmt - base]) +
      sum_list (map (\<lambda>u. if r_gid r - base = u then length (r_ids r) else 0) [0..<lmt - base])"
    unfolding sum_list_addf[symmetric]
    by (intro arg_cong[where f = sum_list] map_cong refl) (simp add: chunks_append chunks_single)
  also have "sum_list (map (\<lambda>u. if r_gid r - base = u then length (r_ids r) else 0) [0..<lmt - base]) = length (r_ids r)"
    using u by (simp add: interv_sum_list_conv_sum_set_nat)
  finally show ?case
    using snoc by (simp add: bucket_lists_def length_concat comp_def in_bucket_def)
qed

lemma compact_bucket_spec:
  assumes ok: "\<forall>o1 n. ok o1 n" and rd: "read_mode rd" "0 < CHUNK"
    and log: "logs b = concat (map rec_bytes rs)" "in_bucket (bucket_base N B b) (bucket_limit N B b) rs"
    and pos: "length (c_idx st) = 32 + 16 * bucket_base N B b" "length (c_ids st) = 32 + 4 * c_acc st"
  defines "ls \<equiv> bucket_lists (bucket_base N B b) (bucket_limit N B b) rs"
  assumes fit: "bucket_limit N B b < 2 ^ 32" "4 * (c_acc st + length (concat ls)) < 2 ^ 64"
    "\<And>l. l \<in> set ls \<Longrightarrow> length l < 2 ^ 32" "bucket_base N B b \<le> bucket_limit N B b"
  obtains rem where "compact_bucket rd ok CHUNK N B logs b st =
    Inr \<lparr>c_idx = c_idx st @ idx_rows (c_acc st) ls, c_ids = c_ids st @ enc32 (concat ls),
         c_acc = c_acc st + length (concat ls), c_removed = rem\<rparr>"
proof (cases "bucket_limit N B b \<le> bucket_base N B b")
  case True
  then have "ls = []"
    by (simp add: ls_def bucket_lists_def)
  then show ?thesis
    using that[of "c_removed st"] True by (simp add: compact_bucket_def)
next
  case False
  let ?base = "bucket_base N B b" and ?lmt = "bucket_limit N B b" and ?f = "logs b"
  let ?U = "?lmt - ?base" and ?items = "bucket_items ?base rs"
  have blob: "read_bucket rd CHUNK ?f 0 (replicate (length ?f) 0) = Inr ?f"
    by (rule read_bucket_content[OF rd]) simp_all
  have ok_recs: "\<forall>r \<in> set rs. rec_ok r"
    using log(2) by (simp add: in_bucket_def)
  have f0: "drop 0 ?f = concat (map rec_bytes rs)"
    using log(1) by simp
  note cnt = bucket_lists_counts[where lmt = ?lmt and base = ?base and rs = rs, folded ls_def]
  have total: "length (concat (map r_ids rs)) = length (concat ls)"
    using sum_counts_total[OF log(2)] by (simp add: ls_def)
  have "map u32 (map length ls) = map length ls"
    using fit(3) by (simp add: u32_id)
  moreover have "u64 (length (concat ls)) = length (concat ls)"
    using fit(2) by (simp add: u64_id)
  ultimately have pass1: "scan_log (count_rec ?base ?lmt) ?f 0 (replicate ?U 0, 0) = (map length ls, length (concat ls))"
    using count_pass[OF log(2), of 0 "replicate ?U 0" 0] fold_count_step[OF in_bucket_keys[OF log(2)]]
    by (simp add: scan_log_records[OF f0 ok_recs] cnt total u32_def u64_def)
  have rows: "write_idx_rows ok (c_acc st) ?base (map length ls) (prefix_sums 0 (map length ls)) (c_idx st) =
      Inr (c_idx st @ idx_rows (c_acc st) ls)"
    using fit(1,2,4) cnt(3) by (intro write_idx_rows_eq[OF ok pos(1)]) simp_all
  have pre: "length (prefix_sums 0 (map length ls)) = Suc ?U"
    "\<And>u. u \<le> ?U \<Longrightarrow> prefix_sums 0 (map length ls) ! u = seg ?U ?items u"
    using cnt(3) by (simp_all add: nth_prefix_sums seg_def cnt(1))
  have segU: "seg ?U ?items ?U = length (concat ls)"
    using length_by_key[of ?U ?items] cnt(2) by simp
  have small: "prefix_sums 0 (map length ls) ! u + length (chunks ?items u) < 2 ^ 64"
    if "u < length (prefix_sums 0 (map length ls))" for u
  proof (cases "u < ?U")
    case True
    then have "seg ?U ?items u + length (chunks ?items u) = seg ?U ?items (Suc u)"
      by (simp add: seg_Suc)
    also have "\<dots> \<le> seg ?U ?items ?U"
      using True by (intro seg_mono) simp
    finally show ?thesis using pre(2)[of u] True fit(2) segU by simp
  next
    case False
    then have "u = ?U" using that pre(1) by simp
    moreover have "chunks ?items ?U = []"
      using in_bucket_keys[OF log(2)] by (auto simp: chunks_def)
    ultimately show ?thesis using pre(2)[of ?U] fit(2) segU by simp
  qed
  have "fst (fold scatter_step ?items (replicate (length (concat ls)) 0, prefix_sums 0 (map length ls))) = concat ls"
    using scatter_by_key(1)[OF in_bucket_keys[OF log(2)], of "replicate (length (concat ls)) 0" "prefix_sums 0 (map length ls)"]
      pre segU cnt(2) by simp
  then have pass2: "fst (scan_log (fill_rec ?base ?lmt ?f) ?f 0 (replicate (length (concat ls)) 0, prefix_sums 0 (map length ls))) = concat ls"
    using fill_pass[OF f0 log(2) _ small] pre(1) by (simp add: scan_log_records[OF f0 ok_recs])
  have ids: "pwrite_or_die ok ''pwrite cand.ids bucket'' (c_ids st) (32 + u64 (c_acc st * 4)) (enc32 (concat ls)) =
      Inr (c_ids st @ enc32 (concat ls))"
    using pos(2) fit(2) ok pwrite_end[of "c_ids st"] by (simp add: pwrite_or_die_def u64_id mult.commute)
  have acc: "u64 (c_acc st + length (concat ls)) = c_acc st + length (concat ls)"
    using fit(2) by (simp add: u64_id)
  show ?thesis
  proof (cases "concat ls = []")
    case True
    have "enc32 (concat ls) = []" "length (concat ls) = 0"
      unfolding True by simp_all
    then show ?thesis
      using that[of "if 0 < length ?f then c_removed st @ [b] else c_removed st"] False blob pass1 rows acc
      by (simp add: compact_bucket_def Let_def)
  next
    case ne: False
    then show ?thesis
      using that[of "if 0 < length ?f then c_removed st @ [b] else c_removed st"] False blob pass1 pass2 rows ids acc
      by (simp add: compact_bucket_def Let_def case_prod_beta)
  qed
qed

section \<open>All buckets\<close>

text \<open>The specification: the list of a point is the ids of its records, in the order of its log.\<close>

definition cand_of :: "nat \<Rightarrow> nat \<Rightarrow> (nat \<Rightarrow> bucket_rec list) \<Rightarrow> nat \<Rightarrow> nat list" where
  "cand_of N B recs g = concat (map r_ids (filter (\<lambda>r. r_gid r = g) (recs (gid_to_bucket N B g))))"

definition cand_lists :: "nat \<Rightarrow> nat \<Rightarrow> (nat \<Rightarrow> bucket_rec list) \<Rightarrow> nat list list" where
  "cand_lists N B recs = map (cand_of N B recs) [0..<N]"

definition logs_hold :: "nat \<Rightarrow> nat \<Rightarrow> (nat \<Rightarrow> bfile) \<Rightarrow> (nat \<Rightarrow> bucket_rec list) \<Rightarrow> bool" where
  "logs_hold N B logs recs \<longleftrightarrow>
     (\<forall>b < B. logs b = concat (map rec_bytes (recs b)) \<and>
        (\<forall>r \<in> set (recs b). rec_ok r \<and> r_gid r < N \<and> gid_to_bucket N B (r_gid r) = b))"

lemma bucket_chain:
  assumes "N < 2 ^ 32" "0 < B" "B < 2 ^ 32" "b < B"
  shows "bucket_base N B b \<le> bucket_limit N B b" "bucket_limit N B b \<le> N" "bucket_limit N B b = min (Suc b * div_up N B) N"
    "bucket_base N B b = min (b * div_up N B) N"
  using bucket_range[OF assms] by (auto simp: min_def)

lemma bucket_lists_cand:
  assumes "N < 2 ^ 32" "0 < B" "B < 2 ^ 32" "b < B" "logs_hold N B logs recs"
  shows "bucket_lists (bucket_base N B b) (bucket_limit N B b) (recs b) =
    map (cand_of N B recs) [bucket_base N B b..<bucket_limit N B b]"
    and "in_bucket (bucket_base N B b) (bucket_limit N B b) (recs b)"
proof -
  let ?base = "bucket_base N B b" and ?lmt = "bucket_limit N B b"
  have rng: "r_gid r < N \<and> ?base \<le> r_gid r \<and> r_gid r < ?lmt" if "r \<in> set (recs b)" for r
    using that assms(4,5) bucket_of_gid[OF assms(1-3), of "r_gid r" b] by (auto simp: logs_hold_def)
  then show "in_bucket ?base ?lmt (recs b)"
    using assms(4,5) by (auto simp: in_bucket_def logs_hold_def)
  have "chunks (bucket_items ?base (recs b)) u = cand_of N B recs (?base + u)" if "u < ?lmt - ?base" for u
  proof -
    have g: "?base + u < N" "?base + u < ?lmt"
      using bucket_chain(2)[OF assms(1-4)] that by linarith+
    then have "gid_to_bucket N B (?base + u) = b"
      using bucket_of_gid[OF assms(1-3) g(1) assms(4)] by simp
    moreover have "chunks (bucket_items ?base rs) u = concat (map r_ids (filter (\<lambda>r. r_gid r = ?base + u) rs))"
      if "\<forall>r \<in> set rs. ?base \<le> r_gid r" for rs
      using that by (induction rs) (auto simp: chunks_Cons)
    ultimately show ?thesis
      using rng by (simp add: cand_of_def)
  qed
  moreover have "[?base..<?lmt] = map (\<lambda>u. ?base + u) [0..<?lmt - ?base]"
    using bucket_chain(1)[OF assms(1-4)] by (intro nth_equalityI) simp_all
  ultimately show "bucket_lists ?base ?lmt (recs b) = map (cand_of N B recs) [?base..<?lmt]"
    by (simp add: bucket_lists_def)
qed

lemma take_cand_lists: "k \<le> N \<Longrightarrow> take k (cand_lists N B recs) = map (cand_of N B recs) [0..<k]"
  by (simp add: cand_lists_def take_map)

lemma length_concat_take_le: "length (concat (take k ls)) \<le> length (concat ls)"
  by (metis append_take_drop_id concat_append le_add1 length_append)

lemma compact_buckets:
  assumes ok: "\<forall>o1 n. ok o1 n" and rd: "read_mode rd" "0 < CHUNK"
    and B: "N < 2 ^ 32" "0 < B" "B < 2 ^ 32" and logs: "logs_hold N B logs recs" and fit: "cand_fits (cand_lists N B recs)"
    and k: "k \<le> B"
  shows "\<exists>rem. rfold (compact_bucket rd ok CHUNK N B logs) [0..<k]
      \<lparr>c_idx = cand_idx_hdr N, c_ids = cand_ids_hdr 0, c_acc = 0, c_removed = []\<rparr> =
    Inr \<lparr>c_idx = cand_idx_hdr N @ idx_rows 0 (take (min (k * div_up N B) N) (cand_lists N B recs)),
         c_ids = cand_ids_hdr 0 @ enc32 (concat (take (min (k * div_up N B) N) (cand_lists N B recs))),
         c_acc = length (concat (take (min (k * div_up N B) N) (cand_lists N B recs))), c_removed = rem\<rparr>"
  using k
proof (induction k)
  case 0
  then show ?case by simp
next
  case (Suc k)
  let ?L = "cand_lists N B recs" and ?s = "div_up N B"
  let ?done = "take (min (k * ?s) N) ?L"
  obtain rem where rem: "rfold (compact_bucket rd ok CHUNK N B logs) [0..<k]
      \<lparr>c_idx = cand_idx_hdr N, c_ids = cand_ids_hdr 0, c_acc = 0, c_removed = []\<rparr> =
    Inr \<lparr>c_idx = cand_idx_hdr N @ idx_rows 0 ?done, c_ids = cand_ids_hdr 0 @ enc32 (concat ?done),
         c_acc = length (concat ?done), c_removed = rem\<rparr>" (is "_ = Inr ?st")
    using Suc by auto
  have k: "k < B" using Suc.prems by simp
  let ?ls = "bucket_lists (bucket_base N B k) (bucket_limit N B k) (recs k)"
  note ch = bucket_chain[OF B k]
  note cand = bucket_lists_cand[OF B k logs]
  have lenL: "length ?L = N" by (simp add: cand_lists_def)
  have app: "take (min (Suc k * ?s) N) ?L = ?done @ ?ls"
  proof -
    have "[0..<bucket_limit N B k] = [0..<bucket_base N B k] @ [bucket_base N B k..<bucket_limit N B k]"
      using ch(1) by (metis le0 upt_add_eq_append le_add_diff_inverse add_0)
    then show ?thesis
      using take_cand_lists[of "bucket_limit N B k" N B recs] take_cand_lists[of "bucket_base N B k" N B recs] ch(1,2)
      unfolding ch(3)[symmetric] ch(4)[symmetric] cand(1) by simp
  qed
  have sub: "set ?ls \<subseteq> set ?L"
    by (metis app Un_upper2 set_append set_take_subset subset_trans)
  have "length (concat (take (min (Suc k * ?s) N) ?L)) \<le> length (concat ?L)"
    by (rule length_concat_take_le)
  then have bound: "4 * (length (concat ?done) + length (concat ?ls)) < 2 ^ 64"
    using fit unfolding app by (simp add: cand_fits_def)
  have hold: "logs k = concat (map rec_bytes (recs k))"
    using logs k by (simp add: logs_hold_def)
  obtain rem' where "compact_bucket rd ok CHUNK N B logs k ?st =
    Inr \<lparr>c_idx = c_idx ?st @ idx_rows (c_acc ?st) ?ls, c_ids = c_ids ?st @ enc32 (concat ?ls),
         c_acc = c_acc ?st + length (concat ?ls), c_removed = rem'\<rparr>"
  proof (rule compact_bucket_spec[where logs = logs and b = k and rs = "recs k" and N = N and B = B, OF ok rd hold cand(2), of ?st])
    show "length (c_idx ?st) = 32 + 16 * bucket_base N B k"
      using ch(4) lenL by simp
    show "4 * (c_acc ?st + length (concat ?ls)) < 2 ^ 64"
      using bound by simp
    show "bucket_limit N B k < 2 ^ 32"
      using ch(2) B(1) by linarith
    show "length l < 2 ^ 32" if "l \<in> set ?ls" for l
      using that sub fit by (auto simp: cand_fits_def)
  qed (use ch(1) in auto)
  then show ?case
    unfolding app using rem by (simp add: rfold_append idx_rows_append)
qed

text \<open>C5. Compaction is correct: when the log of every bucket is a sequence of well-formed records of
  points of that bucket, and the totals fit the formats, compaction succeeds and writes exactly the
  candidate files of the specification: each point's list is the ids of its records in log order,
  the rows give its offset and length, the final header the total. Counts, offsets, cursors and
  partial reads play no part in the result.\<close>

theorem compact_cand_files:
  assumes "\<forall>o1 n. ok o1 n" "read_mode rd" "0 < CHUNK" "N < 2 ^ 32" "0 < B" "B < 2 ^ 32"
    and "logs_hold N B logs recs" "cand_fits (cand_lists N B recs)"
  shows "\<exists>st. compact rd ok CHUNK N B logs = Inr st \<and> c_idx st = cand_idx_file (cand_lists N B recs) \<and>
    c_ids st = cand_ids_file (cand_lists N B recs) \<and>
    (\<forall>g < N. cand_list_at (c_idx st) (c_ids st) g = cand_of N B recs g)"
proof -
  let ?L = "cand_lists N B recs"
  have lenL: "length ?L = N" by (simp add: cand_lists_def)
  have "min (B * div_up N B) N = N"
    using div_up_mult_ge[OF assms(5), of N] by (simp add: mult.commute)
  then obtain rem where r: "rfold (compact_bucket rd ok CHUNK N B logs) [0..<B]
      \<lparr>c_idx = cand_idx_hdr N, c_ids = cand_ids_hdr 0, c_acc = 0, c_removed = []\<rparr> =
    Inr \<lparr>c_idx = cand_idx_hdr N @ idx_rows 0 ?L, c_ids = cand_ids_hdr 0 @ enc32 (concat ?L),
         c_acc = length (concat ?L), c_removed = rem\<rparr>"
    using compact_buckets[OF assms order_refl] lenL by auto
  have hdr: "pwrite (cand_ids_hdr 0 @ bs) 0 (cand_ids_hdr n) = cand_ids_hdr n @ bs" for n bs
    by (simp add: pwrite_def)
  have new: "pwrite [] 0 bs = bs" for bs
    by (simp add: pwrite_def)
  show ?thesis
    using r assms(1) cand_list_at_file[OF _ assms(8)] lenL
    by (auto simp: compact_def pwrite_or_die_def hdr new cand_idx_file_def cand_ids_file_def cand_lists_def)
qed

theorem compact_cand_files_witness:
  "\<exists>st. compact (\<lambda>off want. int want) (\<lambda>off n. True) (2 ^ 20) 3 1
      (\<lambda>b. rec_bytes \<lparr>r_gid = 1, r_ids = [2]\<rparr> @ rec_bytes \<lparr>r_gid = 0, r_ids = [1]\<rparr> @ rec_bytes \<lparr>r_gid = 1, r_ids = [0]\<rparr>) = Inr st \<and>
    cand_list_at (c_idx st) (c_ids st) 1 = [2, 0]"
proof -
  let ?rs = "[\<lparr>r_gid = 1, r_ids = [2]\<rparr>, \<lparr>r_gid = 0, r_ids = [1]\<rparr>, \<lparr>r_gid = 1, r_ids = [0]\<rparr>]"
  let ?logs = "\<lambda>b :: nat. rec_bytes \<lparr>r_gid = 1, r_ids = [2]\<rparr> @ rec_bytes \<lparr>r_gid = 0, r_ids = [1]\<rparr> @ rec_bytes \<lparr>r_gid = 1, r_ids = [0]\<rparr>"
  have "gid_to_bucket 3 1 g = 0" for g
    by (simp add: gid_to_bucket_def sub32_def)
  then have "logs_hold 3 1 ?logs (\<lambda>b. ?rs)" "cand_lists 3 1 (\<lambda>b. ?rs) = [[1], [2, 0], []]"
    "cand_of 3 1 (\<lambda>b. ?rs) 1 = [2, 0]"
    by (simp_all add: logs_hold_def rec_ok_def cand_lists_def cand_of_def upt_conv_Cons)
  moreover have "read_mode (\<lambda>off want. int want)" "cand_fits [[1], [2, 0], []]"
    by (simp_all add: read_mode_def cand_fits_def)
  ultimately show ?thesis
    using compact_cand_files[of "\<lambda>off n. True" "\<lambda>off want. int want" "2 ^ 20" 3 1 ?logs "\<lambda>b. ?rs"] by auto
qed

end
