(* ===== verification/Dist_Order.thy ===== *)
theory Dist_Order
  imports Ieee_Float "HOL-Library.Multiset"
begin

text \<open>
  Comparators and sorting. \<open>std::sort\<close> needs a strict weak order; the order used everywhere in the
  code compares a \<open>float\<close> distance first and a node id second. The locale \<open>strict_weak\<close> is
  the comparator contract of the standard library, \<open>strict_total\<close> adds that incomparable
  elements are equal, in which case the sorted result does not depend on the algorithm. Both are
  interpreted on the code's comparator.
\<close>

section \<open>Sorting with a comparator\<close>

text \<open>A stable insertion sort, as one algorithm that meets the contract of \<open>std::sort\<close>.\<close>

fun insort_by :: "('a \<Rightarrow> 'a \<Rightarrow> bool) \<Rightarrow> 'a \<Rightarrow> 'a list \<Rightarrow> 'a list" where
  "insort_by lt x [] = [x]"
| "insort_by lt x (y # ys) = (if lt y x then y # insort_by lt x ys else x # y # ys)"

fun std_sort :: "('a \<Rightarrow> 'a \<Rightarrow> bool) \<Rightarrow> 'a list \<Rightarrow> 'a list" where
  "std_sort lt [] = []"
| "std_sort lt (x # xs) = insort_by lt x (std_sort lt xs)"

text \<open>The postcondition of \<open>std::sort\<close>: no element is smaller than an earlier one.\<close>

definition sorted_by :: "('a \<Rightarrow> 'a \<Rightarrow> bool) \<Rightarrow> 'a list \<Rightarrow> bool" where
  "sorted_by lt xs \<longleftrightarrow> sorted_wrt (\<lambda>x y. \<not> lt y x) xs"

lemma mset_insort_by [simp]: "mset (insort_by lt x xs) = add_mset x (mset xs)"
  by (induction xs) auto

lemma set_insort_by [simp]: "set (insort_by lt x xs) = insert x (set xs)"
  by (induction xs) auto

lemma mset_std_sort [simp]: "mset (std_sort lt xs) = mset xs"
  by (induction xs) auto

lemma set_std_sort [simp]: "set (std_sort lt xs) = set xs"
  by (induction xs) auto

lemma length_std_sort [simp]: "length (std_sort lt xs) = length xs"
  by (metis mset_std_sort size_mset)

lemma std_sort_Nil_iff [simp]: "std_sort lt xs = [] \<longleftrightarrow> xs = []"
  by (metis length_0_conv length_std_sort)

locale strict_weak =
  fixes lt :: "'a \<Rightarrow> 'a \<Rightarrow> bool" and ok :: "'a \<Rightarrow> bool"
  assumes lt_irrefl: "\<not> lt x x"
    and lt_trans: "lt x y \<Longrightarrow> lt y z \<Longrightarrow> lt x z"
    and lt_negtrans: "ok x \<Longrightarrow> ok y \<Longrightarrow> ok z \<Longrightarrow> \<not> lt x y \<Longrightarrow> \<not> lt y z \<Longrightarrow> \<not> lt x z"
begin

lemma lt_asym: "lt x y \<Longrightarrow> \<not> lt y x"
  using lt_irrefl lt_trans by blast

lemma sorted_insort_by:
  assumes "ok x" "\<And>y. y \<in> set ys \<Longrightarrow> ok y" "sorted_by lt ys"
  shows "sorted_by lt (insort_by lt x ys)"
  using assms
proof (induction ys)
  case Nil
  then show ?case by (simp add: sorted_by_def)
next
  case (Cons y ys)
  show ?case
  proof (cases "lt y x")
    case True
    then show ?thesis
      using Cons lt_asym by (simp add: sorted_by_def)
  next
    case False
    then show ?thesis
      using Cons.prems lt_negtrans[of _ y x] by (auto simp: sorted_by_def)
  qed
qed

lemma sorted_std_sort:
  assumes "\<And>x. x \<in> set xs \<Longrightarrow> ok x"
  shows "sorted_by lt (std_sort lt xs)"
  using assms
proof (induction xs)
  case Nil
  then show ?case by (simp add: sorted_by_def)
next
  case (Cons x xs)
  then show ?case by (auto intro!: sorted_insort_by)
qed

end

locale strict_total = strict_weak +
  assumes incomparable_eq: "ok x \<Longrightarrow> ok y \<Longrightarrow> \<not> lt x y \<Longrightarrow> \<not> lt y x \<Longrightarrow> x = y"
begin

lemma sorted_perm_unique:
  assumes "mset xs = mset ys" "sorted_by lt xs" "sorted_by lt ys" "\<And>x. x \<in> set xs \<Longrightarrow> ok x"
  shows "xs = ys"
  using assms
proof (induction xs arbitrary: ys)
  case Nil
  then show ?case by simp
next
  case (Cons x xs)
  then obtain y ys' where ys: "ys = y # ys'"
    by (cases ys) auto
  have set: "set (x # xs) = set ys"
    using Cons.prems(1) by (metis set_mset_mset)
  have mem: "y \<in> set (x # xs)" "x \<in> set (y # ys')"
    using set ys by auto
  have "\<not> lt y x"
    using Cons.prems(2) mem(1) lt_irrefl by (auto simp: sorted_by_def)
  moreover have "\<not> lt x y"
    using Cons.prems(3) mem(2) ys lt_irrefl by (auto simp: sorted_by_def)
  moreover have "ok x" "ok y"
    using Cons.prems(4) set ys by auto
  ultimately have "x = y"
    by (metis incomparable_eq)
  then show ?case
    using Cons ys by (auto simp: sorted_by_def)
qed

text \<open>Whatever algorithm \<open>std::sort\<close> uses, its result is the one of the model.\<close>

lemma any_sort_eq:
  assumes "mset ys = mset xs" "sorted_by lt ys" "\<And>x. x \<in> set xs \<Longrightarrow> ok x"
  shows "ys = std_sort lt xs"
proof (rule sorted_perm_unique)
  show "mset ys = mset (std_sort lt xs)" "sorted_by lt ys"
    using assms by simp_all
  show "sorted_by lt (std_sort lt xs)"
    using assms(3) by (rule sorted_std_sort)
  show "ok x" if "x \<in> set ys" for x
    using that assms by (metis set_mset_mset)
qed

end

section \<open>Distance first, id second\<close>

text \<open>\<open>CN::operator<\<close>, \<open>Neighbor::operator<\<close> and the comparator of \<open>our_pruning\<close> are this
  comparison.\<close>

definition dist_id_lt :: "fp \<times> nat \<Rightarrow> fp \<times> nat \<Rightarrow> bool" where
  "dist_id_lt a b \<longleftrightarrow> flt (fst a) (fst b) \<or> feq (fst a) (fst b) \<and> snd a < snd b"

lemma dist_id_lt_irrefl: "\<not> dist_id_lt a a"
  by (simp add: dist_id_lt_def)

lemma dist_id_lt_trans: "dist_id_lt a b \<Longrightarrow> dist_id_lt b c \<Longrightarrow> dist_id_lt a c"
  unfolding dist_id_lt_def
  using flt_trans feq_trans feq_flt_trans flt_feq_trans less_trans by blast

lemma dist_id_lt_cases:
  assumes "\<not> is_nan (fst a)" "\<not> is_nan (fst b)"
  shows "dist_id_lt a b \<or> dist_id_lt b a \<or> feq (fst a) (fst b) \<and> snd a = snd b"
  unfolding dist_id_lt_def
  using fcmp_total[OF assms] feq_sym nat_neq_iff by blast

lemma dist_id_negtrans:
  assumes "\<not> is_nan (fst a)" "\<not> is_nan (fst b)" "\<not> is_nan (fst c)"
    and "\<not> dist_id_lt a b" "\<not> dist_id_lt b c"
  shows "\<not> dist_id_lt a c"
proof
  assume ac: "dist_id_lt a c"
  from dist_id_lt_cases[OF assms(1,2)] assms(4) show False
  proof (elim disjE)
    assume "dist_id_lt b a"
    then show False using ac assms(5) dist_id_lt_trans by blast
  next
    assume "feq (fst a) (fst b) \<and> snd a = snd b"
    then have "dist_id_lt b c"
      using ac feq_sym feq_trans feq_flt_trans by (metis dist_id_lt_def)
    then show False using assms(5) by blast
  qed auto
qed

lemma feq_nonneg_eq: "feq x y \<Longrightarrow> fnonneg x \<Longrightarrow> fnonneg y \<Longrightarrow> x = y"
  by (cases x; cases y) auto

lemma dist_id_incomparable:
  assumes "fnonneg (fst a)" "fnonneg (fst b)" "\<not> dist_id_lt a b" "\<not> dist_id_lt b a"
  shows "a = b"
  using dist_id_lt_cases[of a b] assms feq_nonneg_eq fnonneg_not_nan
  by (auto simp: prod_eq_iff)

interpretation di: strict_weak dist_id_lt "\<lambda>a. \<not> is_nan (fst a)"
  by unfold_locales (use dist_id_lt_irrefl dist_id_lt_trans dist_id_negtrans in blast)+

interpretation dit: strict_total dist_id_lt "\<lambda>a. fnonneg (fst a)"
  by unfold_locales
    (use dist_id_lt_irrefl dist_id_lt_trans dist_id_negtrans fnonneg_not_nan dist_id_incomparable in blast)+

end
