(* ===== verification/Neighbor_Queue.thy ===== *)
theory Neighbor_Queue
  imports Dist_Order
begin

text \<open>
  \<open>include/neighbor.h\<close>: \<open>Neighbor\<close> and \<open>NeighborPriorityQueue\<close>, the bounded candidate list of
  every graph search. The abstract view of a queue is the list of the (distance, id) keys of its
  active range; the reference definition is \<open>top_ins\<close>, insertion into a sorted list that is
  cut at the capacity. The locale \<open>search_queue\<close> states the interface the graph searches
  use: which ids are held and which are still to be expanded.
\<close>

section \<open>The reference: the L best keys seen so far\<close>

definition top_ins :: "('a \<Rightarrow> 'a \<Rightarrow> bool) \<Rightarrow> nat \<Rightarrow> 'a \<Rightarrow> 'a list \<Rightarrow> 'a list" where
  "top_ins lt L x xs = (if x \<in> set xs then xs else take L (insort_by lt x xs))"

definition best_of :: "('a \<Rightarrow> 'a \<Rightarrow> bool) \<Rightarrow> nat \<Rightarrow> 'a list \<Rightarrow> 'a list" where
  "best_of lt L xs = take L (std_sort lt (remdups xs))"

lemma take_insort_by_take: "take L (insort_by lt x (take L ys)) = take L (insort_by lt x ys)"
proof (induction ys arbitrary: L)
  case Nil
  then show ?case by simp
next
  case (Cons y ys)
  then show ?case by (cases L) (auto simp: take_Cons')
qed

lemma insort_by_last:
  "(\<And>y. y \<in> set ys \<Longrightarrow> lt y x) \<Longrightarrow> insort_by lt x ys = ys @ [x]"
  by (induction ys) auto

lemma insort_by_split:
  assumes "\<And>y. y \<in> set ys \<Longrightarrow> lt y x" "\<And>z. z \<in> set zs \<Longrightarrow> \<not> lt z x"
  shows "insort_by lt x (ys @ zs) = ys @ x # zs"
  using assms
proof (induction ys)
  case Nil
  then show ?case by (cases zs) auto
next
  case (Cons y ys)
  then show ?case by auto
qed

context strict_total
begin

lemma sorted_distinct_less:
  assumes "sorted_by lt ys" "distinct ys" "\<And>y. y \<in> set ys \<Longrightarrow> ok y" "i < j" "j < length ys"
  shows "lt (ys ! i) (ys ! j)"
proof -
  have "\<not> lt (ys ! j) (ys ! i)"
    using assms(1,4,5) by (simp add: sorted_by_def sorted_wrt_iff_nth_less)
  moreover have "ys ! i \<noteq> ys ! j"
    using assms(2,4,5) by (simp add: nth_eq_iff_index_eq)
  moreover have "ok (ys ! i)" "ok (ys ! j)"
    using assms(3,4,5) by auto
  ultimately show ?thesis
    using incomparable_eq by blast
qed

lemma top_ins_member:
  assumes "sorted_by lt ys" "distinct ys" "\<And>y. y \<in> set ys \<Longrightarrow> ok y" "x \<in> set ys"
  shows "top_ins lt L x (take L ys) = take L ys"
proof (cases "x \<in> set (take L ys)")
  case True
  then show ?thesis by (simp add: top_ins_def)
next
  case False
  obtain j where j: "j < length ys" "ys ! j = x"
    using assms(4) by (auto simp: in_set_conv_nth)
  have "L \<le> j"
    using False j by (metis in_set_conv_nth length_take linorder_not_less min_less_iff_conj nth_take)
  have "lt y x" if y: "y \<in> set (take L ys)" for y
  proof -
    obtain i where "i < length (take L ys)" "y = take L ys ! i"
      using y unfolding in_set_conv_nth by blast
    then have "i < L" "i < length ys" "y = ys ! i"
      by simp_all
    then show ?thesis
      using sorted_distinct_less[OF assms(1-3), of i j] j \<open>L \<le> j\<close> by simp
  qed
  then have "insort_by lt x (take L ys) = take L ys @ [x]"
    by (rule insort_by_last)
  then show ?thesis
    using False \<open>L \<le> j\<close> j(1) by (simp add: top_ins_def min_def)
qed

theorem fold_top_ins:
  assumes "\<And>x. x \<in> set xs \<Longrightarrow> ok x"
  shows "fold (top_ins lt L) xs [] = best_of lt L xs"
  using assms
proof (induction xs rule: rev_induct)
  case Nil
  then show ?case by (simp add: best_of_def)
next
  case (snoc x xs)
  define ys where "ys = std_sort lt (remdups xs)"
  have ys: "sorted_by lt ys" "distinct ys" "set ys = set xs"
    using snoc.prems sorted_std_sort[of "remdups xs"]
    by (auto simp: ys_def) (metis distinct_remdups mset_eq_imp_distinct_iff mset_std_sort)
  have ok: "y \<in> set (remdups (xs @ [x])) \<Longrightarrow> ok y" for y
    using snoc.prems by simp
  show ?case
  proof (cases "x \<in> set xs")
    case True
    have "set xs = set (xs @ [x])"
      using True by auto
    then have "mset (remdups xs) = mset (remdups (xs @ [x]))"
      by (rule set_eq_iff_mset_remdups_eq[THEN iffD1])
    then have "ys = std_sort lt (remdups (xs @ [x]))"
      using ys(1) ok by (intro any_sort_eq) (auto simp: ys_def)
    moreover have "top_ins lt L x (take L ys) = take L ys"
      using ys True snoc.prems by (intro top_ins_member) auto
    ultimately show ?thesis
      using snoc by (simp add: best_of_def flip: ys_def)
  next
    case False
    have "insort_by lt x ys = std_sort lt (remdups (xs @ [x]))"
    proof (rule any_sort_eq)
      have "mset (remdups (xs @ [x])) = mset (remdups (x # xs))"
        by (rule set_eq_iff_mset_remdups_eq[THEN iffD1]) simp
      then show "mset (insort_by lt x ys) = mset (remdups (xs @ [x]))"
        using False by (simp add: ys_def)
      show "sorted_by lt (insort_by lt x ys)"
        using ys snoc.prems by (intro sorted_insort_by) auto
    qed (use ok in auto)
    moreover have "x \<notin> set (take L ys)"
      using False ys(3) by (metis in_set_takeD)
    ultimately show ?thesis
      using snoc by (simp add: best_of_def top_ins_def take_insort_by_take flip: ys_def)
  qed
qed

lemma best_of_cong:
  assumes "set xs = set ys" "\<And>x. x \<in> set xs \<Longrightarrow> ok x"
  shows "best_of lt L xs = best_of lt L ys"
proof -
  have "mset (remdups xs) = mset (remdups ys)"
    using assms(1) by (rule set_eq_iff_mset_remdups_eq[THEN iffD1])
  then have "std_sort lt (remdups xs) = std_sort lt (remdups ys)"
    using assms sorted_std_sort[of "remdups xs"] by (intro any_sort_eq) auto
  then show ?thesis by (simp add: best_of_def)
qed

end

section \<open>The queue\<close>

record neighbor =
  nb_id :: nat
  nb_dist :: fp
  nb_expanded :: bool

record npq =
  q_size :: nat
  q_capacity :: nat
  q_cur :: nat
  q_data :: "neighbor list"

definition mk_neighbor :: "nat \<Rightarrow> fp \<Rightarrow> neighbor" where
  "mk_neighbor i d = \<lparr>nb_id = i, nb_dist = d, nb_expanded = False\<rparr>"

definition nb_key :: "neighbor \<Rightarrow> fp \<times> nat" where
  "nb_key n = (nb_dist n, nb_id n)"

definition neighbor_lt :: "neighbor \<Rightarrow> neighbor \<Rightarrow> bool" where
  "neighbor_lt a b \<longleftrightarrow>
     flt (nb_dist a) (nb_dist b) \<or> feq (nb_dist a) (nb_dist b) \<and> nb_id a < nb_id b"

lemma neighbor_lt_key: "neighbor_lt a b \<longleftrightarrow> dist_id_lt (nb_key a) (nb_key b)"
  by (simp add: neighbor_lt_def dist_id_lt_def nb_key_def)

text \<open>The constructor with a capacity; the vector's elements are value-initialised.\<close>

definition npq_new :: "nat \<Rightarrow> npq" where
  "npq_new capacity = \<lparr>q_size = 0, q_capacity = capacity, q_cur = 0,
     q_data = replicate (capacity + 1) \<lparr>nb_id = 0, nb_dist = fzero, nb_expanded = False\<rparr>\<rparr>"

text \<open>The binary search of \<open>insert\<close>: \<open>None\<close> is the early return on an equal id.\<close>

function npq_search :: "neighbor list \<Rightarrow> neighbor \<Rightarrow> nat \<Rightarrow> nat \<Rightarrow> nat option" where
  "npq_search dat nbr lo hi =
     (if lo < hi then
        let mid = (lo + hi) div 2
        in if neighbor_lt nbr (dat ! mid) then npq_search dat nbr lo mid
           else if nb_id (dat ! mid) = nb_id nbr then None
           else npq_search dat nbr (mid + 1) hi
      else Some lo)"
  by pat_completeness auto
termination
  by (relation "measure (\<lambda>(dat, nbr, lo, hi). hi - lo)") auto

declare npq_search.simps [simp del]

definition npq_insert :: "npq \<Rightarrow> neighbor \<Rightarrow> npq res" where
  "npq_insert q nbr =
     (if q_size q = q_capacity q \<and> q_size q = 0 then Inl OutOfRange
      else if q_size q = q_capacity q \<and> neighbor_lt (q_data q ! (q_size q - 1)) nbr then Inr q
      else case npq_search (q_data q) nbr 0 (q_size q) of
        None \<Rightarrow> Inr q
      | Some lo \<Rightarrow>
          let moved = (if lo < q_capacity q
                       then blit (q_data q) (lo + 1) (block (q_data q) lo (q_size q - lo))
                       else q_data q)
          in Inr (q\<lparr>q_data := moved[lo := mk_neighbor (nb_id nbr) (nb_dist nbr)],
                   q_size := (if q_size q < q_capacity q then q_size q + 1 else q_size q),
                   q_cur := (if lo < q_cur q then lo else q_cur q)\<rparr>))"

text \<open>The cursor loop of \<open>closest_unexpanded\<close>.\<close>

function npq_advance :: "neighbor list \<Rightarrow> nat \<Rightarrow> nat \<Rightarrow> nat" where
  "npq_advance dat sz cur =
     (if cur < sz \<and> nb_expanded (dat ! cur) then npq_advance dat sz (cur + 1) else cur)"
  by pat_completeness auto
termination
  by (relation "measure (\<lambda>(dat, sz, cur). sz - cur)") auto

declare npq_advance.simps [simp del]

definition closest_unexpanded :: "npq \<Rightarrow> (neighbor \<times> npq) res" where
  "closest_unexpanded q =
     (if q_cur q < length (q_data q) then
        let dat = (q_data q)[q_cur q := (q_data q ! q_cur q)\<lparr>nb_expanded := True\<rparr>]
        in Inr (dat ! q_cur q, q\<lparr>q_data := dat, q_cur := npq_advance dat (q_size q) (q_cur q)\<rparr>)
      else Inl OutOfRange)"

definition has_unexpanded_node :: "npq \<Rightarrow> bool" where
  "has_unexpanded_node q \<longleftrightarrow> q_cur q < q_size q"

definition npq_reserve :: "npq \<Rightarrow> nat \<Rightarrow> npq" where
  "npq_reserve q capacity =
     q\<lparr>q_data := (if capacity + 1 > length (q_data q)
                 then q_data q @ replicate (capacity + 1 - length (q_data q))
                        \<lparr>nb_id = 0, nb_dist = fzero, nb_expanded = False\<rparr>
                 else q_data q),
      q_capacity := capacity\<rparr>"

definition npq_clear :: "npq \<Rightarrow> npq" where
  "npq_clear q = q\<lparr>q_size := 0, q_cur := 0\<rparr>"

definition npq_active :: "npq \<Rightarrow> neighbor list" where
  "npq_active q = take (q_size q) (q_data q)"

definition npq_keys :: "npq \<Rightarrow> (fp \<times> nat) list" where
  "npq_keys q = map nb_key (npq_active q)"

section \<open>Invariant\<close>

text \<open>Sizes are in range, the active range is strictly sorted by non-negative distances, and
  \<open>_cur\<close> is the first unexpanded position (the comment in front of the class).\<close>

definition npq_inv :: "npq \<Rightarrow> bool" where
  "npq_inv q \<longleftrightarrow>
     0 < q_capacity q \<and> q_size q \<le> q_capacity q \<and> q_capacity q < length (q_data q) \<and>
     sorted_wrt dist_id_lt (npq_keys q) \<and> (\<forall>n \<in> set (npq_active q). fnonneg (nb_dist n)) \<and>
     q_cur q \<le> q_size q \<and> (\<forall>i < q_cur q. nb_expanded (q_data q ! i)) \<and>
     (q_cur q < q_size q \<longrightarrow> \<not> nb_expanded (q_data q ! q_cur q))"

lemma npq_inv_new: "0 < L \<Longrightarrow> npq_inv (npq_new L)"
  by (simp add: npq_inv_def npq_new_def npq_keys_def npq_active_def)

lemma npq_keys_new [simp]: "npq_keys (npq_new L) = []"
  by (simp add: npq_new_def npq_keys_def npq_active_def)

lemma npq_inv_clear_reserve:
  "0 < L \<Longrightarrow> npq_inv (npq_reserve (npq_clear q) L)"
  by (simp add: npq_inv_def npq_reserve_def npq_clear_def npq_keys_def npq_active_def)

lemma length_npq_active: "npq_inv q \<Longrightarrow> length (npq_active q) = q_size q"
  by (simp add: npq_inv_def npq_active_def)

lemma nth_npq_keys: "npq_inv q \<Longrightarrow> i < q_size q \<Longrightarrow> npq_keys q ! i = nb_key (q_data q ! i)"
  by (simp add: npq_inv_def npq_active_def npq_keys_def)

text \<open>The binary search splits the active range around the new key.\<close>

lemma npq_search_Some:
  assumes "npq_search dat nbr lo hi = Some p" "lo \<le> hi"
    and "sorted_wrt dist_id_lt (map nb_key (take sz dat))" "sz \<le> length dat" "hi \<le> sz"
    and "\<not> is_nan (nb_dist nbr)" "\<And>i. i < sz \<Longrightarrow> \<not> is_nan (nb_dist (dat ! i))"
    and "\<And>i. i < lo \<Longrightarrow> dist_id_lt (nb_key (dat ! i)) (nb_key nbr)"
    and "\<And>i. hi \<le> i \<Longrightarrow> i < sz \<Longrightarrow> dist_id_lt (nb_key nbr) (nb_key (dat ! i))"
  shows "p \<le> hi \<and> (\<forall>i < p. dist_id_lt (nb_key (dat ! i)) (nb_key nbr)) \<and>
    (\<forall>i. p \<le> i \<and> i < sz \<longrightarrow> dist_id_lt (nb_key nbr) (nb_key (dat ! i)))"
  using assms
proof (induction dat nbr lo hi rule: npq_search.induct)
  case (1 dat nbr lo hi)
  have mono: "dist_id_lt (nb_key (dat ! i)) (nb_key (dat ! j))" if "i < j" "j < sz" for i j
    using "1.prems"(3,4) that by (auto simp: sorted_wrt_iff_nth_less)
  show ?case
  proof (cases "lo < hi")
    case False
    then have "npq_search dat nbr lo hi = Some lo"
      by (subst npq_search.simps) simp
    then show ?thesis
      using "1.prems" False by auto
  next
    case True
    define mid where "mid = (lo + hi) div 2"
    have mid: "lo \<le> mid" "mid < hi"
      using True by (auto simp: mid_def)
    show ?thesis
    proof (cases "neighbor_lt nbr (dat ! mid)")
      case lt: True
      have "dist_id_lt (nb_key nbr) (nb_key (dat ! i))" if "mid \<le> i" "i < sz" for i
        using lt that mono[of mid i] dist_id_lt_trans by (cases "i = mid") (auto simp: neighbor_lt_key)
      then show ?thesis
        using "1.IH"(1)[OF True mid_def lt] "1.prems" lt True mid
        by (auto simp: npq_search.simps[of dat nbr lo hi] Let_def simp flip: mid_def)
    next
      case nlt: False
      then have neq: "nb_id (dat ! mid) \<noteq> nb_id nbr"
        using "1.prems"(1) True
        by (auto simp: npq_search.simps[of dat nbr lo hi] Let_def split: if_splits simp flip: mid_def)
      have gt: "dist_id_lt (nb_key (dat ! mid)) (nb_key nbr)"
        using dist_id_lt_cases[of "nb_key (dat ! mid)" "nb_key nbr"] nlt neq "1.prems"(5,6,7) mid
        by (auto simp: neighbor_lt_key nb_key_def)
      have "dist_id_lt (nb_key (dat ! i)) (nb_key nbr)" if "i < mid + 1" for i
        using gt that mono[of i mid] mid "1.prems"(5) dist_id_lt_trans
        by (cases "i = mid") (auto simp: less_Suc_eq)
      then show ?thesis
        using "1.IH"(2)[OF True mid_def nlt neq] "1.prems" nlt neq True mid
        by (auto simp: npq_search.simps[of dat nbr lo hi] Let_def simp flip: mid_def)
    qed
  qed
qed

lemma npq_search_None:
  "npq_search dat nbr lo hi = None \<Longrightarrow> \<exists>i. lo \<le> i \<and> i < hi \<and> nb_id (dat ! i) = nb_id nbr"
proof (induction dat nbr lo hi rule: npq_search.induct)
  case (1 dat nbr lo hi)
  define mid where "mid = (lo + hi) div 2"
  have lh: "lo < hi"
    using "1.prems" by (auto simp: npq_search.simps[of dat nbr lo hi] split: if_splits)
  then have mid: "lo \<le> mid" "mid < hi"
    by (auto simp: mid_def)
  consider "neighbor_lt nbr (dat ! mid)" | "nb_id (dat ! mid) = nb_id nbr"
    | "\<not> neighbor_lt nbr (dat ! mid)" "nb_id (dat ! mid) \<noteq> nb_id nbr"
    by blast
  then show ?case
  proof cases
    case 1
    then have "npq_search dat nbr lo mid = None"
      using "1.prems" lh by (simp add: npq_search.simps[of dat nbr lo hi] Let_def flip: mid_def)
    then show ?thesis
      using "1.IH"(1)[OF lh mid_def 1] mid by auto
  next
    case 2
    then show ?thesis using mid by blast
  next
    case 3
    then have "npq_search dat nbr (mid + 1) hi = None"
      using "1.prems" lh by (simp add: npq_search.simps[of dat nbr lo hi] Let_def flip: mid_def)
    then obtain i where "mid + 1 \<le> i" "i < hi" "nb_id (dat ! i) = nb_id nbr"
      using "1.IH"(2)[OF lh mid_def 3] by blast
    then show ?thesis
      using mid by (intro exI[of _ i]) simp
  qed
qed

section \<open>Insertion refines the reference\<close>

lemma memmove_insert:
  fixes dat :: "'a list" and n :: 'a
  assumes "lo \<le> sz" "sz < length dat"
  defines "dat' \<equiv> (blit dat (lo + 1) (block dat lo (sz - lo)))[lo := n]"
  shows "length dat' = length dat"
    and "j \<le> sz \<Longrightarrow> dat' ! j = (if j < lo then dat ! j else if j = lo then n else dat ! (j - 1))"
    and "take (Suc sz) dat' = take lo (take sz dat) @ n # drop lo (take sz dat)"
proof -
  have len: "length (block dat lo (sz - lo)) = sz - lo"
    using assms(1,2) by simp
  show l: "length dat' = length dat"
    using assms(1,2) len by (simp add: dat'_def)
  have nth: "dat' ! j = (if j < lo then dat ! j else if j = lo then n else dat ! (j - 1))" if "j \<le> sz" for j
  proof -
    have "blit dat (lo + 1) (block dat lo (sz - lo)) ! j = (if j \<le> lo then dat ! j else dat ! (j - 1))"
      using that assms(1,2) len
      by (auto simp: blit_def nth_append min_def not_less)
    then show ?thesis
      using assms(1,2) len by (simp add: dat'_def nth_list_update_if)
  qed
  then show "j \<le> sz \<Longrightarrow> dat' ! j = (if j < lo then dat ! j else if j = lo then n else dat ! (j - 1))" .
  show "take (Suc sz) dat' = take lo (take sz dat) @ n # drop lo (take sz dat)"
  proof (rule nth_equalityI)
    show "length (take (Suc sz) dat') = length (take lo (take sz dat) @ n # drop lo (take sz dat))"
      using assms(1,2) l by (simp add: min_def)
    fix j assume "j < length (take (Suc sz) dat')"
    then have j: "j \<le> sz" by simp
    consider "j < lo" | "j = lo" | "lo < j" by linarith
    then show "take (Suc sz) dat' ! j = (take lo (take sz dat) @ n # drop lo (take sz dat)) ! j"
      using nth[OF j] j assms(1,2) by cases (simp_all add: nth_append nth_Cons' min_absorb1)
  qed
qed

text \<open>A new id is either absent, or it comes with the distance it had before.\<close>

definition same_dist :: "npq \<Rightarrow> neighbor \<Rightarrow> bool" where
  "same_dist q nbr \<longleftrightarrow> (\<forall>m \<in> set (npq_active q). nb_id m = nb_id nbr \<longrightarrow> nb_dist m = nb_dist nbr)"

lemma npq_inv_nth:
  assumes "npq_inv q" "i < q_size q"
  shows "q_data q ! i \<in> set (npq_active q)" "fnonneg (nb_dist (q_data q ! i))"
proof -
  have "q_data q ! i = npq_active q ! i"
    using assms(2) by (simp add: npq_active_def)
  then show mem: "q_data q ! i \<in> set (npq_active q)"
    using assms length_npq_active[OF assms(1)] by simp
  then show "fnonneg (nb_dist (q_data q ! i))"
    using assms(1) by (simp add: npq_inv_def)
qed

lemma npq_search_split:
  assumes "npq_inv q" "fnonneg (nb_dist nbr)" "npq_search (q_data q) nbr 0 (q_size q) = Some lo"
  shows "lo \<le> q_size q" "\<And>i. i < lo \<Longrightarrow> dist_id_lt (npq_keys q ! i) (nb_key nbr)"
    and "\<And>i. lo \<le> i \<Longrightarrow> i < q_size q \<Longrightarrow> dist_id_lt (nb_key nbr) (npq_keys q ! i)"
proof -
  have "lo \<le> q_size q \<and> (\<forall>i < lo. dist_id_lt (nb_key (q_data q ! i)) (nb_key nbr)) \<and>
    (\<forall>i. lo \<le> i \<and> i < q_size q \<longrightarrow> dist_id_lt (nb_key nbr) (nb_key (q_data q ! i)))"
  proof (rule npq_search_Some[OF assms(3)])
    show "sorted_wrt dist_id_lt (map nb_key (take (q_size q) (q_data q)))" "q_size q \<le> length (q_data q)"
      using assms(1) by (auto simp: npq_inv_def npq_keys_def npq_active_def)
    show "\<not> is_nan (nb_dist nbr)" "\<And>i. i < q_size q \<Longrightarrow> \<not> is_nan (nb_dist (q_data q ! i))"
      using assms(1,2) npq_inv_nth(2) fnonneg_not_nan by blast+
  qed auto
  then show "lo \<le> q_size q" "\<And>i. i < lo \<Longrightarrow> dist_id_lt (npq_keys q ! i) (nb_key nbr)"
    "\<And>i. lo \<le> i \<Longrightarrow> i < q_size q \<Longrightarrow> dist_id_lt (nb_key nbr) (npq_keys q ! i)"
    using assms(1) by (auto simp: nth_npq_keys)
qed

lemma npq_insert_dropped:
  assumes "npq_inv q" "q_size q = q_capacity q" "neighbor_lt (q_data q ! (q_size q - 1)) nbr"
  shows "npq_insert q nbr = Inr q"
    and "top_ins dist_id_lt (q_capacity q) (nb_key nbr) (npq_keys q) = npq_keys q"
proof -
  have cap: "0 < q_capacity q" and sorted: "sorted_wrt dist_id_lt (npq_keys q)"
    using assms(1) by (auto simp: npq_inv_def)
  then show "npq_insert q nbr = Inr q"
    using assms(2,3) by (simp add: npq_insert_def)
  have len: "length (npq_keys q) = q_size q"
    using length_npq_active[OF assms(1)] by (simp add: npq_keys_def)
  have "dist_id_lt x (nb_key nbr)" if "x \<in> set (npq_keys q)" for x
  proof -
    obtain i where i: "i < q_size q" "x = npq_keys q ! i"
      using \<open>x \<in> set (npq_keys q)\<close> len by (auto simp: in_set_conv_nth)
    have last: "dist_id_lt (npq_keys q ! (q_size q - 1)) (nb_key nbr)"
      using assms cap by (simp add: nth_npq_keys neighbor_lt_key)
    show ?thesis
    proof (cases "i = q_size q - 1")
      case True
      then show ?thesis using last i by simp
    next
      case False
      then have "dist_id_lt x (npq_keys q ! (q_size q - 1))"
        using sorted i len by (simp add: sorted_wrt_iff_nth_less)
      then show ?thesis using last dist_id_lt_trans by blast
    qed
  qed
  then have "insort_by dist_id_lt (nb_key nbr) (npq_keys q) = npq_keys q @ [nb_key nbr]"
    by (rule insort_by_last)
  then show "top_ins dist_id_lt (q_capacity q) (nb_key nbr) (npq_keys q) = npq_keys q"
    using len assms(2) by (simp add: top_ins_def)
qed

lemma npq_insert_duplicate:
  assumes "npq_inv q" "same_dist q nbr" "npq_search (q_data q) nbr 0 (q_size q) = None"
  shows "nb_key nbr \<in> set (npq_keys q)"
proof -
  obtain i where i: "i < q_size q" "nb_id (q_data q ! i) = nb_id nbr"
    using npq_search_None[OF assms(3)] by auto
  then have "nb_dist (q_data q ! i) = nb_dist nbr"
    using assms(1,2) npq_inv_nth(1) by (auto simp: same_dist_def)
  then have "nb_key nbr = nb_key (q_data q ! i)"
    using i(2) by (simp add: nb_key_def)
  then show ?thesis
    using npq_inv_nth(1)[OF assms(1) i(1)] by (auto simp: npq_keys_def)
qed

lemma npq_insert_placed:
  assumes inv: "npq_inv q" and nn: "fnonneg (nb_dist nbr)"
    and notfull: "\<not> (q_size q = q_capacity q \<and> neighbor_lt (q_data q ! (q_size q - 1)) nbr)"
    and sr: "npq_search (q_data q) nbr 0 (q_size q) = Some lo"
  obtains q' where "npq_insert q nbr = Inr q'" "npq_inv q'" "q_capacity q' = q_capacity q"
    "npq_keys q' = top_ins dist_id_lt (q_capacity q) (nb_key nbr) (npq_keys q)"
    "set (npq_active q') \<subseteq> insert (mk_neighbor (nb_id nbr) (nb_dist nbr)) (set (npq_active q))"
proof -
  note split = npq_search_split[OF inv nn sr]
  let ?n = "mk_neighbor (nb_id nbr) (nb_dist nbr)"
  let ?ks = "npq_keys q" and ?k = "nb_key nbr"
  let ?dat = "(blit (q_data q) (lo + 1) (block (q_data q) lo (q_size q - lo)))[lo := ?n]"
  let ?sz = "if q_size q < q_capacity q then q_size q + 1 else q_size q"
  let ?cur = "if lo < q_cur q then lo else q_cur q"
  define q' where "q' = q\<lparr>q_data := ?dat, q_size := ?sz, q_cur := ?cur\<rparr>"
  have I: "0 < q_capacity q" "q_size q \<le> q_capacity q" "q_capacity q < length (q_data q)"
    "sorted_wrt dist_id_lt ?ks" "q_cur q \<le> q_size q" "\<And>i. i < q_cur q \<Longrightarrow> nb_expanded (q_data q ! i)"
    "q_cur q < q_size q \<Longrightarrow> \<not> nb_expanded (q_data q ! q_cur q)"
    using inv by (auto simp: npq_inv_def)
  have key: "nb_key ?n = ?k"
    by (simp add: nb_key_def mk_neighbor_def)
  have len: "length ?ks = q_size q"
    using length_npq_active[OF inv] by (simp add: npq_keys_def)
  have lo: "lo < q_capacity q"
  proof (rule ccontr)
    assume "\<not> lo < q_capacity q"
    then have full: "lo = q_size q" "q_size q = q_capacity q"
      using split(1) I(2) by auto
    then have "neighbor_lt (q_data q ! (q_size q - 1)) nbr"
      using split(2)[of "q_size q - 1"] I(1) nth_npq_keys[OF inv] by (simp add: neighbor_lt_key)
    then show False using notfull full by blast
  qed
  note mm = memmove_insert[where lo = lo and sz = "q_size q" and dat = "q_data q" and n = ?n, OF split(1)]
  have sz: "q_size q < length (q_data q)" using I by linarith
  have ins: "npq_insert q nbr = Inr q'"
    using notfull sr lo I(1) by (auto simp: npq_insert_def q'_def)
  have act: "npq_active q' = take (q_capacity q) (take lo (npq_active q) @ ?n # drop lo (npq_active q))"
  proof -
    have "min (q_capacity q) (Suc (q_size q)) = ?sz"
      using I(2) by auto
    then have "take ?sz ?dat = take (q_capacity q) (take (Suc (q_size q)) ?dat)"
      by (simp only: take_take)
    also have "\<dots> = take (q_capacity q) (take lo (npq_active q) @ ?n # drop lo (npq_active q))"
      by (simp only: mm(3)[OF sz] npq_active_def)
    finally show ?thesis
      by (simp add: npq_active_def q'_def)
  qed
  have before: "dist_id_lt x ?k" if x: "x \<in> set (take lo ?ks)" for x
  proof -
    obtain i where "i < length (take lo ?ks)" "x = take lo ?ks ! i"
      using x unfolding in_set_conv_nth by blast
    then show ?thesis using split(2)[of i] by simp
  qed
  have after: "dist_id_lt ?k x" if x: "x \<in> set (drop lo ?ks)" for x
  proof -
    obtain i where "i < length (drop lo ?ks)" "x = drop lo ?ks ! i"
      using x unfolding in_set_conv_nth by blast
    then show ?thesis using split(1) split(3)[of "lo + i"] len by simp
  qed
  have kspl: "insort_by dist_id_lt ?k ?ks = take lo ?ks @ ?k # drop lo ?ks"
  proof -
    have "insort_by dist_id_lt ?k (take lo ?ks @ drop lo ?ks) = take lo ?ks @ ?k # drop lo ?ks"
      using before after di.lt_asym by (intro insort_by_split) blast+
    then show ?thesis by simp
  qed
  have notin: "?k \<notin> set ?ks"
    using split len dist_id_lt_irrefl by (metis in_set_conv_nth linorder_not_less)
  have keys: "npq_keys q' = top_ins dist_id_lt (q_capacity q) ?k ?ks"
  proof -
    have "npq_keys q' = take (q_capacity q) (map nb_key (take lo (npq_active q) @ ?n # drop lo (npq_active q)))"
      by (simp only: npq_keys_def act take_map)
    also have "\<dots> = take (q_capacity q) (take lo ?ks @ ?k # drop lo ?ks)"
      by (simp only: npq_keys_def map_append list.map key take_map drop_map)
    finally show ?thesis
      using notin kspl by (simp add: top_ins_def)
  qed
  have sorted: "sorted_wrt dist_id_lt (insort_by dist_id_lt ?k ?ks)"
    unfolding kspl sorted_wrt_append
  proof (intro conjI ballI)
    show "sorted_wrt dist_id_lt (take lo ?ks)" "sorted_wrt dist_id_lt (?k # drop lo ?ks)"
      using I(4) after by (auto simp: sorted_wrt_take sorted_wrt_drop)
    fix x y assume "x \<in> set (take lo ?ks)" "y \<in> set (?k # drop lo ?ks)"
    then show "dist_id_lt x y"
      using before after dist_id_lt_trans by fastforce
  qed
  have "npq_inv q'"
    unfolding npq_inv_def
  proof (intro conjI ballI allI impI)
    show "0 < q_capacity q'" "q_size q' \<le> q_capacity q'" "q_capacity q' < length (q_data q')"
      using I mm(1)[OF sz] by (auto simp: q'_def)
    show "sorted_wrt dist_id_lt (npq_keys q')"
      using notin sorted by (simp add: keys top_ins_def sorted_wrt_take)
    show "fnonneg (nb_dist n)" if "n \<in> set (npq_active q')" for n
      using that inv nn by (auto simp: act npq_inv_def mk_neighbor_def dest!: in_set_takeD in_set_dropD)
    show "q_cur q' \<le> q_size q'"
      using I split(1) by (auto simp: q'_def)
    show "nb_expanded (q_data q' ! i)" if "i < q_cur q'" for i
      using that I(5,6) mm(2)[OF sz, of i] by (auto simp: q'_def split: if_splits)
    show "\<not> nb_expanded (q_data q' ! q_cur q')" if "q_cur q' < q_size q'"
    proof (cases "lo < q_cur q")
      case True
      then show ?thesis
        using mm(2)[OF sz, of lo] split(1) by (simp add: q'_def mk_neighbor_def)
    next
      case False
      then have "q_cur q = lo \<or> q_cur q < lo" by linarith
      then show ?thesis
        using mm(2)[OF sz, of "q_cur q"] split(1) I(5,7) False
        by (auto simp: q'_def mk_neighbor_def)
    qed
  qed
  moreover have "set (npq_active q') \<subseteq> insert ?n (set (npq_active q))"
    by (auto simp: act dest!: in_set_takeD in_set_dropD)
  ultimately show ?thesis
    using that ins keys by (simp add: q'_def)
qed

text \<open>One insertion refines one step of the reference, and keeps the invariant.\<close>

lemma npq_insert_step:
  assumes "npq_inv q" "fnonneg (nb_dist nbr)" "same_dist q nbr"
  obtains q' where "npq_insert q nbr = Inr q'" "npq_inv q'" "q_capacity q' = q_capacity q"
    "npq_keys q' = top_ins dist_id_lt (q_capacity q) (nb_key nbr) (npq_keys q)"
    "set (npq_active q') \<subseteq> insert (mk_neighbor (nb_id nbr) (nb_dist nbr)) (set (npq_active q))"
proof (cases "q_size q = q_capacity q \<and> neighbor_lt (q_data q ! (q_size q - 1)) nbr")
  case True
  then show ?thesis
    using that[of q] npq_insert_dropped[of q nbr] assms(1) True by (metis subset_insertI)
next
  case nfull: False
  show ?thesis
  proof (cases "npq_search (q_data q) nbr 0 (q_size q)")
    case None
    have "npq_insert q nbr = Inr q"
      using nfull None assms(1) by (auto simp: npq_insert_def npq_inv_def)
    moreover have "top_ins dist_id_lt (q_capacity q) (nb_key nbr) (npq_keys q) = npq_keys q"
      using npq_insert_duplicate[OF assms(1,3) None] by (simp add: top_ins_def)
    ultimately show ?thesis
      using that[of q] assms(1) by (simp add: subset_insertI)
  next
    case (Some lo)
    then show ?thesis
      using npq_insert_placed[OF assms(1,2) nfull] that by metis
  qed
qed

section \<open>Expansion\<close>

lemma npq_advance_spec:
  "cur \<le> sz \<Longrightarrow> cur \<le> npq_advance dat sz cur \<and> npq_advance dat sz cur \<le> sz \<and>
     (\<forall>i. cur \<le> i \<and> i < npq_advance dat sz cur \<longrightarrow> nb_expanded (dat ! i)) \<and>
     (npq_advance dat sz cur < sz \<longrightarrow> \<not> nb_expanded (dat ! npq_advance dat sz cur))"
proof (induction dat sz cur rule: npq_advance.induct)
  case (1 dat sz cur)
  show ?case
  proof (cases "cur < sz \<and> nb_expanded (dat ! cur)")
    case True
    then have "nb_expanded (dat ! i)" if "cur \<le> i" "i < npq_advance dat sz (cur + 1)" for i
      using "1.IH"[OF True] that by (cases "i = cur") auto
    then show ?thesis
      using "1.IH"[OF True] True by (auto simp: npq_advance.simps[of dat sz cur])
  next
    case False
    then have "npq_advance dat sz cur = cur"
      by (subst npq_advance.simps) auto
    then show ?thesis using False "1.prems" by auto
  qed
qed

text \<open>The view of a queue that serves one query, with distances \<open>d\<close>: the ids it holds, and
  those it still has to expand.\<close>

definition npq_todo :: "npq \<Rightarrow> nat set" where
  "npq_todo q = nb_id ` {n \<in> set (npq_active q). \<not> nb_expanded n}"

definition npq_ids :: "npq \<Rightarrow> nat set" where
  "npq_ids q = nb_id ` set (npq_active q)"

definition npq_shut :: "npq \<Rightarrow> nat set" where
  "npq_shut q = nb_id ` {n \<in> set (npq_active q). nb_expanded n}"

lemma npq_ids_split: "npq_ids q = npq_todo q \<union> npq_shut q"
  by (auto simp: npq_ids_def npq_todo_def npq_shut_def)

definition npq_ok :: "(nat \<Rightarrow> fp) \<Rightarrow> npq \<Rightarrow> bool" where
  "npq_ok d q \<longleftrightarrow> npq_inv q \<and> (\<forall>n \<in> set (npq_active q). nb_dist n = d (nb_id n))"

lemma npq_ok_new: "0 < L \<Longrightarrow> npq_ok d (npq_new L)"
  using npq_inv_new[of L] by (simp add: npq_ok_def) (simp add: npq_active_def npq_new_def)

lemma npq_ok_distinct:
  assumes "npq_ok d q"
  shows "distinct (map nb_id (npq_active q))"
proof -
  have key: "nb_key n = (d (nb_id n), nb_id n)" if "n \<in> set (npq_active q)" for n
    using that assms by (simp add: npq_ok_def nb_key_def)
  have "sorted_wrt (\<lambda>a b. dist_id_lt (nb_key a) (nb_key b)) (npq_active q)"
    using assms by (simp add: npq_ok_def npq_inv_def npq_keys_def sorted_wrt_map)
  then have "sorted_wrt (\<lambda>a b. nb_id a \<noteq> nb_id b) (npq_active q)"
    by (rule sorted_wrt_mono_rel[rotated]) (metis key dist_id_lt_irrefl)
  then show ?thesis
    by (simp add: distinct_map_filter sorted_wrt_iff_nth_less distinct_conv_nth) (metis nat_neq_iff)
qed

lemma closest_unexpanded_step:
  assumes "npq_inv q" "has_unexpanded_node q"
  obtains n q' where "closest_unexpanded q = Inr (n, q')" "npq_inv q'" "q_capacity q' = q_capacity q"
    "npq_active q' = (npq_active q)[q_cur q := n]" "nb_key n = nb_key (npq_active q ! q_cur q)"
    "nb_expanded n" "\<not> nb_expanded (npq_active q ! q_cur q)"
proof -
  let ?n = "(q_data q ! q_cur q)\<lparr>nb_expanded := True\<rparr>"
  let ?dat = "(q_data q)[q_cur q := ?n]"
  define q' where "q' = q\<lparr>q_data := ?dat, q_cur := npq_advance ?dat (q_size q) (q_cur q)\<rparr>"
  have cur: "q_cur q < q_size q" "q_cur q < length (q_data q)"
    using assms by (auto simp: has_unexpanded_node_def npq_inv_def)
  have res: "closest_unexpanded q = Inr (?n, q')"
    using cur by (simp add: closest_unexpanded_def q'_def Let_def)
  have act: "npq_active q' = (npq_active q)[q_cur q := ?n]"
    by (simp add: npq_active_def q'_def take_update_swap)
  have nth: "npq_active q ! q_cur q = q_data q ! q_cur q"
    using cur by (simp add: npq_active_def)
  have key: "nb_key ?n = nb_key (npq_active q ! q_cur q)"
    by (simp add: nb_key_def nth)
  have keys: "npq_keys q' = npq_keys q"
    using cur length_npq_active[OF assms(1)]
    by (simp add: npq_keys_def act map_update key) (metis list_update_id nth_map)
  have "npq_inv q'"
    unfolding npq_inv_def
  proof (intro conjI ballI allI impI)
    show "0 < q_capacity q'" "q_size q' \<le> q_capacity q'" "q_capacity q' < length (q_data q')"
      using assms(1) by (auto simp: npq_inv_def q'_def)
    show "sorted_wrt dist_id_lt (npq_keys q')"
      using assms(1) by (simp add: keys npq_inv_def)
    show "fnonneg (nb_dist n)" if "n \<in> set (npq_active q')" for n
    proof -
      have "nb_key n \<in> set (npq_keys q)"
        using that keys by (metis npq_keys_def image_eqI list.set_map)
      then show ?thesis
        using assms(1) by (auto simp: npq_keys_def nb_key_def npq_inv_def)
    qed
    have spec: "q_cur q \<le> q_cur q'" "q_cur q' \<le> q_size q"
      "\<And>i. q_cur q \<le> i \<Longrightarrow> i < q_cur q' \<Longrightarrow> nb_expanded (?dat ! i)"
      "q_cur q' < q_size q \<Longrightarrow> \<not> nb_expanded (?dat ! q_cur q')"
      using npq_advance_spec[of "q_cur q" "q_size q" ?dat] cur by (auto simp: q'_def)
    show "q_cur q' \<le> q_size q'"
      using spec(2) by (simp add: q'_def)
    show "nb_expanded (q_data q' ! i)" if "i < q_cur q'" for i
      using that spec(3)[of i] assms(1) by (cases "i < q_cur q") (auto simp: q'_def npq_inv_def)
    show "\<not> nb_expanded (q_data q' ! q_cur q')" if "q_cur q' < q_size q'"
      using that spec(4) by (simp add: q'_def)
  qed
  then show ?thesis
    using that[OF res] act key nth assms cur by (simp add: q'_def npq_inv_def)
qed

lemma nb_id_of_key: "nb_id n = snd (nb_key n)"
  by (simp add: nb_key_def)

lemma npq_ids_keys: "npq_ids q = snd ` set (npq_keys q)"
  by (simp add: npq_ids_def npq_keys_def nb_id_of_key image_image)

lemma has_unexpanded_iff:
  assumes "npq_inv q"
  shows "has_unexpanded_node q \<longleftrightarrow> npq_todo q \<noteq> {}"
proof
  assume "has_unexpanded_node q"
  then show "npq_todo q \<noteq> {}"
    using assms npq_inv_nth(1)[OF assms] by (auto simp: has_unexpanded_node_def npq_todo_def npq_inv_def)
next
  assume "npq_todo q \<noteq> {}"
  then obtain i where "i < q_size q" "\<not> nb_expanded (q_data q ! i)"
    using assms by (auto simp: npq_todo_def npq_active_def in_set_conv_nth npq_inv_def)
  then show "has_unexpanded_node q"
    using assms by (auto simp: has_unexpanded_node_def npq_inv_def not_less)
       (metis linorder_not_less order_less_le_trans)
qed

text \<open>The cursor stands on the least key that is not expanded.\<close>

lemma npq_cur_least:
  assumes "npq_inv q" "n \<in> set (npq_active q)" "\<not> nb_expanded n"
  shows "\<not> dist_id_lt (nb_key n) (nb_key (npq_active q ! q_cur q))"
proof -
  obtain i where i: "i < q_size q" "n = npq_active q ! i"
    using assms(1,2) length_npq_active by (metis in_set_conv_nth)
  have "nb_expanded (npq_active q ! j)" if "j < q_cur q" for j
    using that assms(1) by (auto simp: npq_inv_def npq_active_def)
  then have "q_cur q \<le> i"
    using assms(3) i(2) by (meson linorder_not_less)
  moreover have "dist_id_lt (nb_key (npq_active q ! j)) (nb_key (npq_active q ! i))" if "j < i" for j
    using that i assms(1) length_npq_active[OF assms(1)]
    by (auto simp: npq_inv_def npq_keys_def sorted_wrt_map sorted_wrt_iff_nth_less)
  ultimately show ?thesis
    using i(2) dist_id_lt_irrefl di.lt_asym by (metis nat_less_le)
qed

text \<open>Popping removes exactly one id from the work list, the one with the least key.\<close>

lemma npq_pop_todo:
  assumes "npq_ok d q" "has_unexpanded_node q"
  obtains n q' where "closest_unexpanded q = Inr (n, q')" "npq_ok d q'" "npq_ids q' = npq_ids q"
    "nb_id n \<in> npq_todo q" "npq_todo q' = npq_todo q - {nb_id n}" "nb_dist n = d (nb_id n)"
    "\<And>i. i \<in> npq_todo q \<Longrightarrow> \<not> dist_id_lt (d i, i) (nb_key n)" "npq_keys q' = npq_keys q"
    "npq_shut q' \<subseteq> insert (nb_id n) (npq_shut q)" "q_capacity q' = q_capacity q"
proof -
  from assms(1) have inv: "npq_inv q" by (simp add: npq_ok_def)
  have dist: "distinct (map nb_id (npq_active q))" using npq_ok_distinct[OF assms(1)] .
  obtain n q' where r: "closest_unexpanded q = Inr (n, q')" "npq_inv q'"
    "npq_active q' = (npq_active q)[q_cur q := n]" "nb_key n = nb_key (npq_active q ! q_cur q)"
    "nb_expanded n" "\<not> nb_expanded (npq_active q ! q_cur q)" "q_capacity q' = q_capacity q"
    using closest_unexpanded_step[OF inv assms(2)] .
  have cur: "q_cur q < length (npq_active q)"
    using assms(2) length_npq_active[OF inv] by (simp add: has_unexpanded_node_def)
  have id: "nb_id n = nb_id (npq_active q ! q_cur q)"
    by (simp add: nb_id_of_key r(4))
  have keys: "npq_keys q' = npq_keys q"
    unfolding npq_keys_def r(3) map_update r(4) by (metis cur list_update_id nth_map)
  have same: "nb_dist n = d (nb_id n)"
    using assms(1) cur id r(4) by (simp add: npq_ok_def nb_key_def)
  have ok: "npq_ok d q'"
    using assms(1) r(2,3) same set_update_subset_insert by (fastforce simp: npq_ok_def)
  have upd: "set (npq_active q') = insert n (set (npq_active q) - {npq_active q ! q_cur q})"
    using set_update_distinct[OF distinct_map[THEN iffD1, THEN conjunct1, OF dist] cur, of n]
    by (simp add: r(3))
  have "x = npq_active q ! q_cur q" if "x \<in> set (npq_active q)" "nb_id x = nb_id n" for x
    using dist that cur id by (metis distinct_map inj_onD nth_mem)
  then have todo: "npq_todo q' = npq_todo q - {nb_id n}"
    using upd r(5) id by (auto simp: npq_todo_def)
  have least: "\<not> dist_id_lt (d i, i) (nb_key n)" if "i \<in> npq_todo q" for i
    using that npq_cur_least[OF inv] assms(1) r(4) by (auto simp: npq_todo_def npq_ok_def nb_key_def)
  have "nb_id n \<in> npq_todo q"
    using cur r(6) id by (auto simp: npq_todo_def)
  moreover have "npq_ids q' = npq_ids q"
    by (simp add: npq_ids_keys keys)
  moreover have "npq_shut q' \<subseteq> insert (nb_id n) (npq_shut q)"
    using upd by (auto simp: npq_shut_def)
  ultimately show ?thesis
    using that r(1,7) ok todo same least keys by blast
qed

lemma npq_insert_todo:
  assumes "npq_ok d q" "fnonneg (d i)"
  obtains q' where "npq_insert q (mk_neighbor i (d i)) = Inr q'" "npq_ok d q'"
    "npq_ids q' \<subseteq> insert i (npq_ids q)" "npq_todo q' \<subseteq> insert i (npq_todo q)"
    "npq_keys q' = top_ins dist_id_lt (q_capacity q) (d i, i) (npq_keys q)"
    "q_capacity q' = q_capacity q" "npq_shut q' \<subseteq> npq_shut q"
proof -
  let ?n = "mk_neighbor i (d i)"
  have n: "nb_id ?n = i" "nb_dist ?n = d i" "nb_key ?n = (d i, i)"
    by (simp_all add: mk_neighbor_def nb_key_def)
  have "same_dist q ?n"
    using assms(1) by (auto simp: same_dist_def npq_ok_def n)
  then obtain q' where q': "npq_insert q ?n = Inr q'" "npq_inv q'"
    "npq_keys q' = top_ins dist_id_lt (q_capacity q) (d i, i) (npq_keys q)"
    "q_capacity q' = q_capacity q" "set (npq_active q') \<subseteq> insert ?n (set (npq_active q))"
    using npq_insert_step[of q ?n, unfolded n] assms unfolding npq_ok_def by blast
  moreover have "npq_ok d q'"
    using assms(1) q'(2,5) n by (fastforce simp: npq_ok_def)
  moreover have "npq_ids q' \<subseteq> insert i (npq_ids q)" "npq_todo q' \<subseteq> insert i (npq_todo q)"
    using q'(5) n by (auto simp: npq_ids_def npq_todo_def)
  moreover have "npq_shut q' \<subseteq> npq_shut q"
    using q'(5) by (auto simp: npq_shut_def mk_neighbor_def)
  ultimately show ?thesis using that by blast
qed

section \<open>The interface of the graph searches\<close>

text \<open>One query inserts candidates and pops them in the order of their keys. The laws bound what an
  insertion adds to the work list, which is what the termination of the searches rests on.\<close>

locale search_queue =
  fixes ins :: "nat \<Rightarrow> 'q \<Rightarrow> 'q res"
    and pop :: "'q \<Rightarrow> ('n \<times> 'q) res"
    and has :: "'q \<Rightarrow> bool"
    and name :: "'n \<Rightarrow> nat"
    and ids :: "'q \<Rightarrow> nat set"
    and todo :: "'q \<Rightarrow> nat set"
    and shut :: "'q \<Rightarrow> nat set"
    and ok :: "'q \<Rightarrow> bool"
    and good :: "nat \<Rightarrow> bool"
  assumes ins_ok: "ok q \<Longrightarrow> good i \<Longrightarrow>
      \<exists>q'. ins i q = Inr q' \<and> ok q' \<and> ids q' \<subseteq> insert i (ids q) \<and> todo q' \<subseteq> insert i (todo q) \<and>
        shut q' \<subseteq> shut q"
    and has_iff: "ok q \<Longrightarrow> has q \<longleftrightarrow> todo q \<noteq> {}"
    and pop_ok: "ok q \<Longrightarrow> has q \<Longrightarrow>
      \<exists>n q'. pop q = Inr (n, q') \<and> ok q' \<and> ids q' = ids q \<and> name n \<in> todo q \<and>
        todo q' = todo q - {name n} \<and> shut q' \<subseteq> insert (name n) (shut q)"
    and ids_split: "ids q = todo q \<union> shut q"
    and finite_ids: "finite (ids q)"
begin

lemma finite_todo: "finite (todo q)"
  using ids_split finite_ids by (metis finite_Un)

lemma ins_batch:
  assumes "ok q" "\<And>i. i \<in> set is \<Longrightarrow> good i"
  obtains q' where "rfold ins is q = Inr q'" "ok q'" "ids q' \<subseteq> set is \<union> ids q"
    "todo q' \<subseteq> set is \<union> todo q" "shut q' \<subseteq> shut q"
  using assms
proof (induction "is" arbitrary: q thesis)
  case Nil
  then show ?case by auto
next
  case (Cons i "is")
  obtain q1 where q1: "ins i q = Inr q1" "ok q1" "ids q1 \<subseteq> insert i (ids q)"
    "todo q1 \<subseteq> insert i (todo q)" "shut q1 \<subseteq> shut q"
    using ins_ok[of q i] Cons.prems(2,3) by auto
  obtain q2 where q2: "rfold ins is q1 = Inr q2" "ok q2" "ids q2 \<subseteq> set is \<union> ids q1"
    "todo q2 \<subseteq> set is \<union> todo q1" "shut q2 \<subseteq> shut q1"
    using Cons.IH[OF _ q1(2)] Cons.prems(3) by auto
  show ?case
    by (rule Cons.prems(1)[of q2]) (use q1 q2 in auto)
qed

lemma batch_measure:
  assumes "finite U" "set is \<subseteq> U - V" "n \<in> todo q" "todo q2 \<subseteq> set is \<union> (todo q - {n})"
  shows "2 * card (U - (V \<union> set is)) + card (todo q2) < 2 * card (U - V) + card (todo q)"
proof -
  have "card (todo q - {n}) < card (todo q)"
    by (rule card_Diff1_less[OF finite_todo assms(3)])
  moreover have "card (todo q2) \<le> card (set is \<union> (todo q - {n}))"
    using finite_todo by (intro card_mono[OF _ assms(4)]) simp
  moreover have "card (set is \<union> (todo q - {n})) \<le> card (set is) + card (todo q - {n})"
    by (rule card_Un_le)
  moreover have "card (U - V) = card (U - (V \<union> set is)) + card (set is)"
    using assms(1,2) by (subst card_Un_disjoint[symmetric]) (auto intro: arg_cong[where f = card])
  ultimately show ?thesis
    by linarith
qed

lemma pop_batch_decreases:
  assumes "ok q" "has q" "finite U"
  obtains n q1 where "pop q = Inr (n, q1)" "name n \<in> todo q"
    "\<And>is. (\<forall>i \<in> set is. good i) \<Longrightarrow> set is \<subseteq> U - V \<Longrightarrow>
       \<exists>q2. rfold ins is q1 = Inr q2 \<and> ok q2 \<and> todo q2 \<subseteq> set is \<union> (todo q - {name n}) \<and>
         shut q2 \<subseteq> insert (name n) (shut q) \<and>
         2 * card (U - (V \<union> set is)) + card (todo q2) < 2 * card (U - V) + card (todo q)"
proof -
  obtain n q1 where q1: "pop q = Inr (n, q1)" "ok q1" "name n \<in> todo q" "todo q1 = todo q - {name n}"
    "shut q1 \<subseteq> insert (name n) (shut q)"
    using pop_ok[OF assms(1,2)] by blast
  have "\<exists>q2. rfold ins is q1 = Inr q2 \<and> ok q2 \<and> todo q2 \<subseteq> set is \<union> (todo q - {name n}) \<and>
         shut q2 \<subseteq> insert (name n) (shut q) \<and>
         2 * card (U - (V \<union> set is)) + card (todo q2) < 2 * card (U - V) + card (todo q)"
    if good: "\<forall>i \<in> set is. good i" and new: "set is \<subseteq> U - V" for "is"
  proof -
    obtain q2 where q2: "rfold ins is q1 = Inr q2" "ok q2" "todo q2 \<subseteq> set is \<union> todo q1" "shut q2 \<subseteq> shut q1"
      using ins_batch[OF q1(2)] good by metis
    then have "todo q2 \<subseteq> set is \<union> (todo q - {name n})" "shut q2 \<subseteq> insert (name n) (shut q)"
      using q1(4,5) by blast+
    then show ?thesis
      using q2(1,2) batch_measure[OF assms(3) new q1(3)] by blast
  qed
  then show ?thesis
    using that q1(1,3) by blast
qed

end

definition npq_ins :: "(nat \<Rightarrow> fp) \<Rightarrow> nat \<Rightarrow> npq \<Rightarrow> npq res" where
  "npq_ins d i q = npq_insert q (mk_neighbor i (d i))"

interpretation sq: search_queue "npq_ins d" closest_unexpanded has_unexpanded_node nb_id npq_ids npq_todo
  npq_shut "npq_ok d" "\<lambda>i. fnonneg (d i)" for d
proof
  fix q i
  show "npq_ids q = npq_todo q \<union> npq_shut q" "finite (npq_ids q)"
    by (simp_all add: npq_ids_split) (simp_all add: npq_todo_def npq_shut_def)
  assume ok: "npq_ok d q"
  then show "has_unexpanded_node q \<longleftrightarrow> npq_todo q \<noteq> {}"
    using has_unexpanded_iff by (simp add: npq_ok_def)
  show "\<exists>q'. npq_ins d i q = Inr q' \<and> npq_ok d q' \<and> npq_ids q' \<subseteq> insert i (npq_ids q) \<and>
      npq_todo q' \<subseteq> insert i (npq_todo q) \<and> npq_shut q' \<subseteq> npq_shut q" if "fnonneg (d i)"
    using npq_insert_todo[OF ok that] unfolding npq_ins_def by metis
  show "\<exists>n q'. closest_unexpanded q = Inr (n, q') \<and> npq_ok d q' \<and> npq_ids q' = npq_ids q \<and>
      nb_id n \<in> npq_todo q \<and> npq_todo q' = npq_todo q - {nb_id n} \<and>
      npq_shut q' \<subseteq> insert (nb_id n) (npq_shut q)" if "has_unexpanded_node q"
    using npq_pop_todo[OF ok that] by metis
qed

section \<open>Properties\<close>

lemma npq_ins_keys:
  assumes "npq_ok d q" "\<And>i. i \<in> set is \<Longrightarrow> fnonneg (d i)"
  shows "\<exists>q'. rfold (npq_ins d) is q = Inr q' \<and> npq_ok d q' \<and> q_capacity q' = q_capacity q \<and>
     npq_keys q' = fold (top_ins dist_id_lt (q_capacity q)) (map (\<lambda>i. (d i, i)) is) (npq_keys q)"
  using assms
proof (induction "is" arbitrary: q)
  case Nil
  then show ?case by simp
next
  case (Cons i "is")
  obtain q1 where q1: "npq_ins d i q = Inr q1" "npq_ok d q1" "q_capacity q1 = q_capacity q"
    "npq_keys q1 = top_ins dist_id_lt (q_capacity q) (d i, i) (npq_keys q)"
    using npq_insert_todo[OF Cons.prems(1) Cons.prems(2)[of i]] unfolding npq_ins_def
    by (metis list.set_intros(1))
  obtain q2 where "rfold (npq_ins d) is q1 = Inr q2" "npq_ok d q2" "q_capacity q2 = q_capacity q1"
    "npq_keys q2 = fold (top_ins dist_id_lt (q_capacity q1)) (map (\<lambda>i. (d i, i)) is) (npq_keys q1)"
    using Cons.IH[OF q1(2)] Cons.prems(2) by auto
  then show ?case using q1 by simp
qed

text \<open>C18. A queue of capacity L > 0 into which any sequence of ids is inserted (with repetitions, in
  any order, each id with the non-negative distance d gives it) holds exactly the L least distinct
  (distance, id) pairs, in ascending order: the bounded insertion with its binary search, memmove
  and duplicate test equals sorting everything and cutting at L. No insertion fails.\<close>

theorem npq_insert_best:
  assumes "0 < L" "\<And>i. i \<in> set is \<Longrightarrow> fnonneg (d i)"
  shows "\<exists>q. rfold (\<lambda>i q. npq_insert q (mk_neighbor i (d i))) is (npq_new L) = Inr q \<and>
    npq_keys q = best_of dist_id_lt L (map (\<lambda>i. (d i, i)) is)"
proof -
  have eta: "(\<lambda>i q. npq_insert q (mk_neighbor i (d i))) = npq_ins d"
    by (simp add: npq_ins_def fun_eq_iff)
  have "fold (top_ins dist_id_lt L) (map (\<lambda>i. (d i, i)) is) [] = best_of dist_id_lt L (map (\<lambda>i. (d i, i)) is)"
    using assms(2) by (intro dit.fold_top_ins) auto
  moreover have "q_capacity (npq_new L) = L"
    by (simp add: npq_new_def)
  ultimately show ?thesis
    using npq_ins_keys[of d "npq_new L" "is"] npq_ok_new[OF assms(1)] assms(2) unfolding eta
    by (metis npq_keys_new)
qed

theorem npq_insert_best_witness:
  "\<exists>q. rfold (\<lambda>i q. npq_insert q (mk_neighbor i (Fin False (of_nat (i mod 3))))) [5, 4, 3, 4, 7] (npq_new 2) = Inr q \<and>
    npq_keys q = [(Fin False 0, 3), (Fin False 1, 4)]"
proof -
  have "best_of dist_id_lt 2 (map (\<lambda>i. (Fin False (of_nat (i mod 3)), i)) [5, 4, 3, 4, 7]) =
      [(Fin False 0, 3), (Fin False 1, 4)]"
    by code_simp
  then show ?thesis
    using npq_insert_best[of 2 "[5, 4, 3, 4, 7]" "\<lambda>i. Fin False (of_nat (i mod 3))"] by simp
qed

text \<open>Expansion: in a queue that holds the invariant for the distances of one query, with an
  unexpanded node left, \<open>closest_unexpanded\<close> returns a node that was not expanded and whose
  (distance, id) pair is the least of the unexpanded ones; it is the only one that leaves the work
  list, nothing is added or reordered, and the invariant (the cursor again on the first unexpanded
  entry) holds afterwards.\<close>

theorem closest_unexpanded_least:
  assumes "npq_ok d q" "has_unexpanded_node q"
  shows "\<exists>n q'. closest_unexpanded q = Inr (n, q') \<and> nb_id n \<in> npq_todo q \<and>
    (\<forall>i \<in> npq_todo q. \<not> dist_id_lt (d i, i) (nb_dist n, nb_id n)) \<and>
    npq_todo q' = npq_todo q - {nb_id n} \<and> npq_keys q' = npq_keys q \<and> npq_ok d q'"
  using npq_pop_todo[OF assms] unfolding nb_key_def by metis

theorem closest_unexpanded_least_witness:
  "\<exists>n q'. closest_unexpanded \<lparr>q_size = 2, q_capacity = 2, q_cur = 0,
      q_data = [mk_neighbor 7 (Fin False 1), mk_neighbor 4 (Fin False 4), mk_neighbor 0 fzero]\<rparr> = Inr (n, q') \<and>
    nb_id n = 7 \<and> npq_todo q' = {4}"
proof -
  let ?q = "\<lparr>q_size = 2, q_capacity = 2, q_cur = 0,
      q_data = [mk_neighbor 7 (Fin False 1), mk_neighbor 4 (Fin False 4), mk_neighbor 0 fzero]\<rparr>"
  let ?d = "\<lambda>i::nat. if i = 7 then Fin False 1 else Fin False 4"
  have act: "npq_active ?q = [mk_neighbor 7 (Fin False 1), mk_neighbor 4 (Fin False 4)]"
    by (simp add: npq_active_def)
  have todo: "npq_todo ?q = {7, 4}"
    unfolding npq_todo_def act by (force simp: mk_neighbor_def image_def)
  have ok: "npq_ok ?d ?q"
    unfolding npq_ok_def npq_inv_def npq_keys_def act
    by (auto simp: mk_neighbor_def nb_key_def dist_id_lt_def nth_Cons')
  have lt: "dist_id_lt (?d 7, 7) (?d 4, 4)"
    by (simp add: dist_id_lt_def)
  obtain n q' where n: "closest_unexpanded ?q = Inr (n, q')" "nb_id n \<in> {7, 4}"
    "\<not> dist_id_lt (?d 7, 7) (nb_dist n, nb_id n)" "npq_todo q' = {7, 4} - {nb_id n}"
    using closest_unexpanded_least[OF ok] todo by (auto simp: has_unexpanded_node_def)
  then have "n = mk_neighbor 7 (Fin False 1)\<lparr>nb_expanded := True\<rparr>"
    by (simp add: closest_unexpanded_def mk_neighbor_def Let_def)
  then show ?thesis using n by (auto simp: mk_neighbor_def)
qed

end
