(* ===== verification/Graph_Store.thy ===== *)
theory Graph_Store
  imports Bytes
begin

text \<open>
  \<open>src/in_mem_graph_store.cpp\<close>: the adjacency lists of the in-memory index with their update
  operations, \<open>save_graph\<close> and \<open>load_impl\<close>; and \<open>load_graph_to_adj_memindex\<close> of
  \<open>construction/our_construction.cpp\<close>, the second reader of the same file format. The file is
  a 24 byte header (file size, maximum degree, start point, frozen points) and one record per node
  (degree, neighbour ids). \<open>graph_bytes\<close> is the format's specification.
\<close>

section \<open>The store and its updates\<close>

record graph_store =
  gs_capacity :: nat
  gs_max_range :: nat
  gs_max_obs :: nat
  gs_graph :: "nat list list"

definition get_neighbours :: "graph_store \<Rightarrow> nat \<Rightarrow> nat list res" where
  "get_neighbours gs i = (if i < length (gs_graph gs) then Inr (gs_graph gs ! i) else Inl OutOfRange)"

definition note_degree :: "nat \<Rightarrow> graph_store \<Rightarrow> graph_store" where
  "note_degree n gs = (if gs_max_obs gs < n then gs\<lparr>gs_max_obs := u32 n\<rparr> else gs)"

definition add_neighbour :: "graph_store \<Rightarrow> nat \<Rightarrow> nat \<Rightarrow> graph_store res" where
  "add_neighbour gs i v =
     (if i < length (gs_graph gs) then
        let row = gs_graph gs ! i @ [v]
        in Inr (note_degree (length row) (gs\<lparr>gs_graph := (gs_graph gs)[i := row]\<rparr>))
      else Inl OutOfRange)"

definition clear_neighbours :: "graph_store \<Rightarrow> nat \<Rightarrow> graph_store res" where
  "clear_neighbours gs i =
     (if i < length (gs_graph gs) then Inr (gs\<lparr>gs_graph := (gs_graph gs)[i := []]\<rparr>) else Inl OutOfRange)"

definition swap_neighbours :: "graph_store \<Rightarrow> nat \<Rightarrow> nat \<Rightarrow> graph_store res" where
  "swap_neighbours gs a b =
     (if a < length (gs_graph gs) \<and> b < length (gs_graph gs) then
        Inr (gs\<lparr>gs_graph := (gs_graph gs)[a := gs_graph gs ! b, b := gs_graph gs ! a]\<rparr>)
      else Inl OutOfRange)"

definition set_neighbours :: "graph_store \<Rightarrow> nat \<Rightarrow> nat list \<Rightarrow> graph_store res" where
  "set_neighbours gs i row =
     (if i < length (gs_graph gs)
      then Inr (note_degree (length row) (gs\<lparr>gs_graph := (gs_graph gs)[i := row]\<rparr>))
      else Inl OutOfRange)"

definition resize_rows :: "nat \<Rightarrow> nat list list \<Rightarrow> nat list list" where
  "resize_rows n g = (if n \<le> length g then take n g else g @ replicate (n - length g) [])"

definition resize_graph :: "graph_store \<Rightarrow> nat \<Rightarrow> graph_store" where
  "resize_graph gs n = gs\<lparr>gs_graph := resize_rows n (gs_graph gs), gs_capacity := n\<rparr>"

definition clear_graph :: "graph_store \<Rightarrow> graph_store" where
  "clear_graph gs = gs\<lparr>gs_graph := []\<rparr>"

definition graph_store_new :: "nat \<Rightarrow> graph_store" where
  "graph_store_new total_pts =
     resize_graph \<lparr>gs_capacity = total_pts, gs_max_range = 0, gs_max_obs = 0, gs_graph = []\<rparr> total_pts"

section \<open>Writing\<close>

text \<open>One iteration of the loop of \<open>save_graph\<close>: the file so far, \<open>index_size\<close> and
  \<open>max_degree\<close>.\<close>

definition save_node :: "nat list \<Rightarrow> bfile \<times> nat \<times> nat \<Rightarrow> bfile \<times> nat \<times> nat" where
  "save_node row st =
     (case st of (out, index_size, max_degree) \<Rightarrow>
        let GK = u32 (length row)
        in (out @ le_bytes 4 GK @ enc32 (take GK row),
            u64 (index_size + 4 * u32 (GK + 1)),
            if length row > max_degree then u32 (length row) else max_degree))"

definition save_graph :: "graph_store \<Rightarrow> nat \<Rightarrow> nat \<Rightarrow> nat \<Rightarrow> (bfile \<times> nat) res" where
  "save_graph gs num_points num_frozen start =
     (if num_points \<le> length (gs_graph gs) then
        let out0 = le_bytes 8 24 @ le_bytes 4 (gs_max_obs gs) @ le_bytes 4 start @ le_bytes 8 num_frozen;
            (out, index_size, max_degree) = fold save_node (take num_points (gs_graph gs)) (out0, 24, 0)
        in Inr (pwrite (pwrite out 0 (le_bytes 8 index_size)) 8 (le_bytes 4 max_degree), index_size)
      else Inl OutOfRange)"

section \<open>Reading\<close>

text \<open>The loop of \<open>load_impl\<close>, a stream with exceptions enabled. It ends when
  \<open>bytes_read\<close> is exactly the size of the header; every other way out is an exception.\<close>

function load_nodes :: "bfile \<Rightarrow> nat \<Rightarrow> nat \<Rightarrow> nat \<Rightarrow> nat \<Rightarrow> graph_store \<Rightarrow> (nat \<times> graph_store) res" where
  "load_nodes f expected_file_size pos bytes_read nodes_read gs =
     (if bytes_read = expected_file_size then Inr (nodes_read, gs)
      else if length f < pos + 4 then Inl (Die ''short read'')
      else
        let k = le_nat (block f pos 4)
        in if length f < pos + 4 + 4 * k then Inl (Die ''short read'')
           else if length (gs_graph gs) \<le> nodes_read then Inl OutOfRange
           else load_nodes f expected_file_size (pos + 4 + 4 * k) (u64 (bytes_read + 4 * (k + 1)))
                  (u32 (nodes_read + 1))
                  (gs\<lparr>gs_graph := (gs_graph gs)[nodes_read := dec32 (block f (pos + 4) (4 * k))],
                      gs_max_range := (if k > gs_max_range gs then k else gs_max_range gs)\<rparr>))"
  by pat_completeness auto
termination
  by (relation "measure (\<lambda>(f, e, pos, b, n, gs). length f - pos)") auto

declare load_nodes.simps [simp del]

definition load_impl :: "graph_store \<Rightarrow> bfile \<Rightarrow> nat \<Rightarrow> ((nat \<times> nat \<times> nat) \<times> graph_store) res" where
  "load_impl gs f expected_num_points =
     rbind (read_exact f 0 8) (\<lambda>(expected_file_size, p1).
     rbind (read_exact f p1 4) (\<lambda>(max_observed, p2).
     rbind (read_exact f p2 4) (\<lambda>(start, p3).
     rbind (read_exact f p3 8) (\<lambda>(file_frozen_pts, p4).
       let gs1 = gs\<lparr>gs_max_obs := le_nat max_observed\<rparr>;
           gs2 = (if gs_capacity gs1 < expected_num_points then resize_graph gs1 expected_num_points else gs1)
       in rbind (load_nodes f (le_nat expected_file_size) p4 24 0 gs2) (\<lambda>(nodes_read, gs3).
            Inr ((nodes_read, le_nat start, le_nat file_frozen_pts), gs3))))))"

text \<open>The reader of the construction: it reads until the stream fails on a degree.
  The file is \<open>None\<close> when it cannot be opened; then the output parameters keep their values.\<close>

function adj_rows :: "bfile \<Rightarrow> nat \<Rightarrow> (nat list list \<times> nat \<times> nat) \<Rightarrow> (nat list list \<times> nat \<times> nat) res" where
  "adj_rows f pos st =
     (if length f < pos + 4 then Inr st
      else
        let deg = le_nat (block f pos 4)
        in if length f < pos + 4 + 4 * deg then Inl (Die ''short read'')
           else (case st of (adj, max_deg, edge_cnt) \<Rightarrow>
                   adj_rows f (pos + 4 + 4 * deg)
                     (adj @ [dec32 (block f (pos + 4) (4 * deg))], max max_deg deg, u64 (edge_cnt + deg))))"
  by pat_completeness auto
termination
  by (relation "measure (\<lambda>(f, pos, st). length f - pos)") auto

declare adj_rows.simps [simp del]

definition load_graph_to_adj_memindex ::
    "bfile option \<Rightarrow> nat \<Rightarrow> nat list list \<times> nat \<times> nat \<Rightarrow> (bool \<times> nat list list \<times> nat \<times> nat) res" where
  "load_graph_to_adj_memindex fo tsize old =
     (case fo of None \<Rightarrow> Inr (False, old) | Some f \<Rightarrow>
     rbind (read_exact f 0 8) (\<lambda>(index_size, p1).
     rbind (read_exact f p1 4) (\<lambda>(maxObserved, p2).
     rbind (read_exact f p2 4) (\<lambda>(entry_point, p3).
     rbind (read_exact f p3 8) (\<lambda>(num_frozen, p4).
     rbind (adj_rows f p4 ([], 0, 0)) (\<lambda>(adj, max_deg, edge_cnt).
       Inr (length adj = tsize, adj, max_deg, edge_cnt)))))))"

section \<open>The format\<close>

definition node_bytes :: "nat list \<Rightarrow> byte list" where
  "node_bytes row = le_bytes 4 (length row) @ enc32 row"

definition graph_bytes :: "nat list list \<Rightarrow> nat \<Rightarrow> nat \<Rightarrow> nat \<Rightarrow> bfile" where
  "graph_bytes rows max_degree start frozen =
     le_bytes 8 (24 + length (concat (map node_bytes rows))) @ le_bytes 4 max_degree @
     le_bytes 4 start @ le_bytes 8 frozen @ concat (map node_bytes rows)"

definition max_deg_of :: "nat list list \<Rightarrow> nat" where
  "max_deg_of rows = fold max (map length rows) 0"

text \<open>What the widths of the format hold: ids and degrees in 32 bits, the file size in 64.\<close>

definition rows_fit :: "nat list list \<Rightarrow> bool" where
  "rows_fit rows \<longleftrightarrow>
     (\<forall>row \<in> set rows. length row + 1 < 2 ^ 32 \<and> (\<forall>v \<in> set row. v < 2 ^ 32)) \<and>
     length rows < 2 ^ 32 \<and> 24 + length (concat (map node_bytes rows)) < 2 ^ 64"

lemma length_node_bytes [simp]: "length (node_bytes row) = 4 + 4 * length row"
  by (simp add: node_bytes_def)

lemma rows_fit_Cons: "rows_fit (row # rows) \<Longrightarrow> rows_fit rows"
  by (auto simp: rows_fit_def)

section \<open>Writer and readers against the format\<close>

lemma fold_save_node:
  assumes "rows_fit rows" "sz + length (concat (map node_bytes rows)) < 2 ^ 64"
  shows "fold save_node rows (out, sz, m) =
    (out @ concat (map node_bytes rows), sz + length (concat (map node_bytes rows)), fold max (map length rows) m)"
  using assms
proof (induction rows arbitrary: out sz m)
  case Nil
  then show ?case by simp
next
  case (Cons row rows)
  have len: "u32 (length row) = length row" "u32 (length row + 1) = length row + 1"
    using Cons.prems(1) by (auto simp: rows_fit_def u32_id)
  have "save_node row (out, sz, m) = (out @ node_bytes row, sz + (4 + 4 * length row), max (length row) m)"
    using Cons.prems(2) len(2)
    by (auto simp: save_node_def len(1) node_bytes_def u64_id max_def Let_def)
  then show ?case
    using Cons.IH[OF rows_fit_Cons[OF Cons.prems(1)]] Cons.prems(2)
    by (simp add: add.assoc)
qed

lemma save_graph_bytes:
  assumes "num_points \<le> length (gs_graph gs)" "rows_fit (take num_points (gs_graph gs))"
  shows "save_graph gs num_points frozen start =
    Inr (graph_bytes (take num_points (gs_graph gs)) (max_deg_of (take num_points (gs_graph gs))) start frozen,
         24 + length (concat (map node_bytes (take num_points (gs_graph gs)))))"
proof -
  let ?rows = "take num_points (gs_graph gs)"
  have "24 + length (concat (map node_bytes ?rows)) < 2 ^ 64"
    using assms(2) by (simp add: rows_fit_def)
  moreover have "pwrite (pwrite (le_bytes 8 a @ le_bytes 4 b @ rest) 0 (le_bytes 8 c)) 8 (le_bytes 4 e) =
      le_bytes 8 c @ le_bytes 4 e @ rest" for a b c e rest
    by (simp add: pwrite_def)
  ultimately show ?thesis
    using assms(1) fold_save_node[OF assms(2)]
    by (simp add: save_graph_def graph_bytes_def max_deg_of_def Let_def)
qed

lemma node_at:
  assumes "drop pos f = node_bytes row @ rest" "length row + 1 < 2 ^ 32" "\<And>v. v \<in> set row \<Longrightarrow> v < 2 ^ 32"
  shows "\<not> length f < pos + 4" "le_nat (block f pos 4) = length row"
    "\<not> length f < pos + 4 + 4 * length row" "dec32 (block f (pos + 4) (4 * length row)) = row"
    "drop (pos + 4 + 4 * length row) f = rest"
proof -
  have len: "length f - pos = 4 + 4 * length row + length rest"
    using arg_cong[OF assms(1), of length] by simp
  then show "\<not> length f < pos + 4" "\<not> length f < pos + 4 + 4 * length row"
    by linarith+
  show "le_nat (block f pos 4) = length row"
    using assms(2) by (simp add: block_def assms(1) node_bytes_def u32_id)
  have drop: "drop (pos + 4) f = enc32 row @ rest"
    using assms(1) by (simp add: node_bytes_def flip: drop_drop add.commute[of 4])
  then show "dec32 (block f (pos + 4) (4 * length row)) = row"
    using assms(3) by (simp add: block_def map_u32_id)
  show "drop (pos + 4 + 4 * length row) f = rest"
    using drop by (simp flip: drop_drop add: add.commute[of "pos + 4"])
qed

lemma rows_fit_head:
  assumes "rows_fit (row # rows)"
  shows "length row + 1 < 2 ^ 32" "\<And>v. v \<in> set row \<Longrightarrow> v < 2 ^ 32"
  using assms by (auto simp: rows_fit_def)

lemma load_nodes_format:
  assumes "rows_fit rows" "drop pos f = concat (map node_bytes rows)"
    and "E = b + length (concat (map node_bytes rows))" "E < 2 ^ 64"
    and "n + length rows \<le> length (gs_graph gs)" "n + length rows < 2 ^ 32"
  shows "load_nodes f E pos b n gs = Inr (n + length rows,
     gs\<lparr>gs_graph := blit (gs_graph gs) n rows, gs_max_range := fold max (map length rows) (gs_max_range gs)\<rparr>)"
  using assms
proof (induction rows arbitrary: pos b n gs)
  case Nil
  then show ?case by (simp add: load_nodes.simps blit_def)
next
  case (Cons row rows)
  note fit = rows_fit_head[OF Cons.prems(1)]
  have "drop pos f = node_bytes row @ concat (map node_bytes rows)"
    using Cons.prems(2) by simp
  note at = node_at[OF this fit]
  let ?gs = "gs\<lparr>gs_graph := (gs_graph gs)[n := row],
      gs_max_range := (if length row > gs_max_range gs then length row else gs_max_range gs)\<rparr>"
  have "load_nodes f E pos b n gs =
      load_nodes f E (pos + 4 + 4 * length row) (u64 (b + 4 * (length row + 1))) (u32 (n + 1)) ?gs"
    using Cons.prems(3,5) at(1-4) by (subst load_nodes.simps) (simp add: Let_def)
  also have "\<dots> = load_nodes f E (pos + 4 + 4 * length row) (b + (4 + 4 * length row)) (Suc n) ?gs"
    using Cons.prems(3,4,6) by (simp add: u64_id u32_id algebra_simps)
  also have "\<dots> = Inr (Suc n + length rows, ?gs\<lparr>gs_graph := blit (gs_graph ?gs) (Suc n) rows,
      gs_max_range := fold max (map length rows) (gs_max_range ?gs)\<rparr>)"
    using Cons.prems(3-6) by (intro Cons.IH[OF rows_fit_Cons[OF Cons.prems(1)] at(5)]) simp_all
  also have "blit (gs_graph ?gs) (Suc n) rows = blit (gs_graph gs) n (row # rows)"
    using Cons.prems(5) by (simp add: blit_def take_Suc_conv_app_nth)
  finally show ?case
    by (simp add: max_def)
qed

lemma adj_rows_format:
  assumes "rows_fit rows" "drop pos f = concat (map node_bytes rows)"
    and "e + sum_list (map length rows) < 2 ^ 64"
  shows "adj_rows f pos (adj, m, e) =
    Inr (adj @ rows, fold max (map length rows) m, e + sum_list (map length rows))"
  using assms
proof (induction rows arbitrary: pos adj m e)
  case Nil
  then show ?case by (simp add: adj_rows.simps)
next
  case (Cons row rows)
  have "drop pos f = node_bytes row @ concat (map node_bytes rows)"
    using Cons.prems(2) by simp
  note at = node_at[OF this rows_fit_head[OF Cons.prems(1)]]
  have e: "(e + length row) + sum_list (map length rows) < 2 ^ 64"
    using Cons.prems(3) by simp
  have "adj_rows f pos (adj, m, e) =
      adj_rows f (pos + 4 + 4 * length row) (adj @ [row], max m (length row), e + length row)"
    using Cons.prems(3) at(1-4) by (subst adj_rows.simps) (simp add: Let_def u64_id)
  also have "\<dots> = Inr ((adj @ [row]) @ rows, fold max (map length rows) (max m (length row)),
      (e + length row) + sum_list (map length rows))"
    by (rule Cons.IH[OF rows_fit_Cons[OF Cons.prems(1)] at(5) e])
  finally show ?case
    by (simp add: max.commute add.assoc)
qed

lemma read_header:
  fixes a maxd start frozen :: nat and rest :: bfile
  assumes "f = le_bytes 8 a @ le_bytes 4 maxd @ le_bytes 4 start @ le_bytes 8 frozen @ rest"
  shows "read_exact f 0 8 = Inr (le_bytes 8 a, 8)" "read_exact f 8 4 = Inr (le_bytes 4 maxd, 12)"
    "read_exact f 12 4 = Inr (le_bytes 4 start, 16)" "read_exact f 16 8 = Inr (le_bytes 8 frozen, 24)"
    "drop 24 f = rest"
  by (simp_all add: assms read_exact_def block_def)

lemma max_deg_of_lt: "rows_fit rows \<Longrightarrow> max_deg_of rows < 2 ^ 32"
proof -
  have "\<forall>row \<in> set rows. length row < 2 ^ 32 \<Longrightarrow> m < 2 ^ 32 \<Longrightarrow> fold max (map length rows) m < 2 ^ 32" for m
    by (induction rows arbitrary: m) auto
  then show "rows_fit rows \<Longrightarrow> max_deg_of rows < 2 ^ 32"
    unfolding max_deg_of_def rows_fit_def by (metis add_lessD1 zero_less_numeral zero_less_power)
qed

lemma sum_degrees_lt: "rows_fit rows \<Longrightarrow> sum_list (map length rows) < 2 ^ 64"
proof -
  have "sum_list (map length rows) \<le> length (concat (map node_bytes rows))"
    by (induction rows) auto
  then show "rows_fit rows \<Longrightarrow> sum_list (map length rows) < 2 ^ 64"
    by (simp add: rows_fit_def)
qed

lemma load_impl_format:
  assumes "rows_fit rows" "frozen < 2 ^ 64" "start < 2 ^ 32"
    and "length rows \<le> expected" "length (gs_graph gs) = gs_capacity gs"
  obtains gs' where
    "load_impl gs (graph_bytes rows (max_deg_of rows) start frozen) expected = Inr ((length rows, start, frozen), gs')"
    "take (length rows) (gs_graph gs') = rows" "gs_max_obs gs' = max_deg_of rows"
    "gs_max_range gs' = max (gs_max_range gs) (max_deg_of rows)"
    "gs_capacity gs' = max (gs_capacity gs) expected"
proof -
  let ?E = "24 + length (concat (map node_bytes rows))"
  have E: "?E < 2 ^ 64" "length rows < 2 ^ 32"
    using assms(1) by (auto simp: rows_fit_def)
  note hd = read_header[OF graph_bytes_def, of rows "max_deg_of rows" start frozen]
  define gs1 where "gs1 = gs\<lparr>gs_max_obs := max_deg_of rows\<rparr>"
  define gs2 where "gs2 = (if gs_capacity gs1 < expected then resize_graph gs1 expected else gs1)"
  have cap: "length rows \<le> length (gs_graph gs2)" "gs_max_range gs2 = gs_max_range gs"
    "gs_max_obs gs2 = max_deg_of rows" "gs_capacity gs2 = max (gs_capacity gs) expected"
    using assms(4,5) by (auto simp: gs2_def gs1_def resize_graph_def resize_rows_def)
  have foldmax: "fold max xs m = max m (fold max xs 0)" for xs and m :: nat
    by (induction xs arbitrary: m) (simp, metis fold_simps(2) max.assoc max.commute max_0L)
  define gs3 where "gs3 = gs2\<lparr>gs_graph := blit (gs_graph gs2) 0 rows,
      gs_max_range := fold max (map length rows) (gs_max_range gs2)\<rparr>"
  have "load_nodes (graph_bytes rows (max_deg_of rows) start frozen) ?E 24 24 0 gs2 = Inr (0 + length rows, gs3)"
    unfolding gs3_def using E cap(1) by (intro load_nodes_format[OF assms(1) hd(5)]) simp_all
  moreover have "load_impl gs (graph_bytes rows (max_deg_of rows) start frozen) expected =
      rbind (load_nodes (graph_bytes rows (max_deg_of rows) start frozen) ?E 24 24 0 gs2)
        (\<lambda>(nodes_read, gs3). Inr ((nodes_read, start, frozen), gs3))"
    using assms(2,3) E max_deg_of_lt[OF assms(1)]
    by (simp add: load_impl_def hd u64_id u32_id Let_def gs2_def gs1_def)
  ultimately have "load_impl gs (graph_bytes rows (max_deg_of rows) start frozen) expected =
      Inr ((length rows, start, frozen), gs3)"
    by simp
  moreover have "take (length rows) (gs_graph gs3) = rows"
    by (simp add: gs3_def blit_def)
  moreover have "gs_max_range gs3 = max (gs_max_range gs) (max_deg_of rows)"
    unfolding gs3_def max_deg_of_def using foldmax[of "map length rows" "gs_max_range gs"] by (simp add: cap(2))
  moreover have "gs_max_obs gs3 = max_deg_of rows" "gs_capacity gs3 = max (gs_capacity gs) expected"
    using cap(3,4) by (simp_all add: gs3_def)
  ultimately show ?thesis
    using that by blast
qed

section \<open>Updates\<close>

lemma note_degree_simps [simp]:
  "gs_graph (note_degree n gs) = gs_graph gs"
  "gs_capacity (note_degree n gs) = gs_capacity gs"
  by (simp_all add: note_degree_def)

definition store_ok :: "graph_store \<Rightarrow> bool" where
  "store_ok gs \<longleftrightarrow> length (gs_graph gs) = gs_capacity gs \<and>
     (\<forall>row \<in> set (gs_graph gs). length row \<le> gs_max_obs gs)"

lemma store_ok_note_degree:
  assumes "length (gs_graph gs) = gs_capacity gs" "length row < 2 ^ 32"
    and "\<forall>r \<in> set (gs_graph gs) - {row}. length r \<le> gs_max_obs gs"
  shows "store_ok (note_degree (length row) gs)"
  unfolding store_ok_def
proof (intro conjI ballI)
  fix r assume r: "r \<in> set (gs_graph (note_degree (length row) gs))"
  have "gs_max_obs (note_degree (length row) gs) = max (gs_max_obs gs) (length row)"
    using assms(2) by (auto simp: note_degree_def u32_id)
  then show "length r \<le> gs_max_obs (note_degree (length row) gs)"
    using assms(3) r by (cases "r = row") (auto simp: le_max_iff_disj)
qed (simp add: assms(1))

text \<open>The interface the graph algorithms use: what a read returns after a write, that writes stay in
  their row, and the invariant that the recorded maximum degree bounds every row.\<close>

locale neighbour_store =
  fixes nbrs :: "'s \<Rightarrow> nat \<Rightarrow> nat list res"
    and put :: "'s \<Rightarrow> nat \<Rightarrow> nat list \<Rightarrow> 's res"
    and push :: "'s \<Rightarrow> nat \<Rightarrow> nat \<Rightarrow> 's res"
    and points :: "'s \<Rightarrow> nat"
    and maxd :: "'s \<Rightarrow> nat"
    and ok :: "'s \<Rightarrow> bool"
  assumes nbrs_total: "i < points s \<longleftrightarrow> (\<exists>row. nbrs s i = Inr row)"
    and put_ok: "ok s \<Longrightarrow> i < points s \<Longrightarrow> length row < 2 ^ 32 \<Longrightarrow>
      \<exists>s'. put s i row = Inr s' \<and> ok s' \<and> points s' = points s \<and> maxd s \<le> maxd s' \<and>
        (\<forall>j. nbrs s' j = (if j = i then Inr row else nbrs s j))"
    and push_put: "i < points s \<Longrightarrow> nbrs s i = Inr row \<Longrightarrow> push s i v = put s i (row @ [v])"
    and ok_degree: "ok s \<Longrightarrow> nbrs s i = Inr row \<Longrightarrow> length row \<le> maxd s"
begin

text \<open>A sequence of writes leaves in each row the last list written to it, or the old one.\<close>

lemma puts_last:
  assumes "ok s" "\<forall>(i, row) \<in> set us. i < points s \<and> length row < 2 ^ 32"
  obtains s' where "rfold (\<lambda>(i, row) s. put s i row) us s = Inr s'" "ok s'" "points s' = points s"
    "\<And>j. nbrs s' j = (case map_of (rev us) j of Some row \<Rightarrow> Inr row | None \<Rightarrow> nbrs s j)"
  using assms
proof (induction us arbitrary: s thesis)
  case Nil
  then show ?case by simp
next
  case (Cons u us)
  obtain i row where u: "u = (i, row)" by (cases u)
  obtain s1 where s1: "put s i row = Inr s1" "ok s1" "points s1 = points s"
    "\<And>j. nbrs s1 j = (if j = i then Inr row else nbrs s j)"
    using put_ok[of s i row] Cons.prems(2,3) by (auto simp: u)
  obtain s2 where s2: "rfold (\<lambda>(i, row) s. put s i row) us s1 = Inr s2" "ok s2" "points s2 = points s1"
    "\<And>j. nbrs s2 j = (case map_of (rev us) j of Some row \<Rightarrow> Inr row | None \<Rightarrow> nbrs s1 j)"
    using Cons.IH[OF _ s1(2)] Cons.prems(3) s1(3) by auto
  have "nbrs s2 j = (case map_of (rev (u # us)) j of Some row \<Rightarrow> Inr row | None \<Rightarrow> nbrs s j)" for j
    using s2(4)[of j] s1(4)[of j] by (simp add: u map_add_def split: option.splits)
  then show ?case
    using Cons.prems(1)[of s2] s1 s2 by (simp add: u)
qed

end

interpretation gst: neighbour_store get_neighbours set_neighbours add_neighbour "\<lambda>gs. length (gs_graph gs)"
  gs_max_obs store_ok
proof
  fix s i row and v :: nat
  show "i < length (gs_graph s) \<longleftrightarrow> (\<exists>row. get_neighbours s i = Inr row)"
    by (simp add: get_neighbours_def)
  show "add_neighbour s i v = set_neighbours s i (row @ [v])"
    if "i < length (gs_graph s)" "get_neighbours s i = Inr row"
    using that by (auto simp: get_neighbours_def add_neighbour_def set_neighbours_def Let_def)
  show "length row \<le> gs_max_obs s" if "store_ok s" "get_neighbours s i = Inr row"
    using that by (auto simp: get_neighbours_def store_ok_def split: if_splits)
  assume a: "store_ok s" "i < length (gs_graph s)" "length row < 2 ^ 32"
  let ?s = "note_degree (length row) (s\<lparr>gs_graph := (gs_graph s)[i := row]\<rparr>)"
  have "set_neighbours s i row = Inr ?s"
    using a(2) by (simp add: set_neighbours_def)
  moreover have "store_ok ?s"
    using a set_update_subset_insert[of "gs_graph s" i row]
    by (intro store_ok_note_degree) (auto simp: store_ok_def)
  moreover have "gs_max_obs s \<le> gs_max_obs ?s"
    using a(3) by (auto simp: note_degree_def u32_id)
  moreover have "get_neighbours ?s j = (if j = i then Inr row else get_neighbours s j)" for j
    using a(2) by (simp add: get_neighbours_def)
  ultimately show "\<exists>s'. set_neighbours s i row = Inr s' \<and> store_ok s' \<and>
      length (gs_graph s') = length (gs_graph s) \<and> gs_max_obs s \<le> gs_max_obs s' \<and>
      (\<forall>j. get_neighbours s' j = (if j = i then Inr row else get_neighbours s j))"
    by simp
qed

section \<open>Properties\<close>



lemma save_then_adj:
  assumes "n \<le> length (gs_graph gs)" "rows_fit (take n (gs_graph gs))"
  shows "\<exists>f. save_graph gs n frozen start = Inr (f, length f) \<and>
    load_graph_to_adj_memindex (Some f) tsize old =
      Inr (n = tsize, take n (gs_graph gs), max_deg_of (take n (gs_graph gs)),
           sum_list (map length (take n (gs_graph gs))))"
proof -
  let ?rows = "take n (gs_graph gs)"
  let ?f = "graph_bytes ?rows (max_deg_of ?rows) start frozen"
  note hd = read_header[OF graph_bytes_def, of ?rows "max_deg_of ?rows" start frozen]
  have "adj_rows ?f 24 ([], 0, 0) = Inr ([] @ ?rows, max_deg_of ?rows, 0 + sum_list (map length ?rows))"
    using sum_degrees_lt[OF assms(2)] unfolding max_deg_of_def
    by (intro adj_rows_format[OF assms(2) hd(5)[unfolded max_deg_of_def]]) simp
  then have "load_graph_to_adj_memindex (Some ?f) tsize old =
      Inr (n = tsize, ?rows, max_deg_of ?rows, sum_list (map length ?rows))"
    using assms(1) by (simp add: load_graph_to_adj_memindex_def hd)
  moreover have "length ?f = 24 + length (concat (map node_bytes ?rows))"
    by (simp add: graph_bytes_def)
  ultimately show ?thesis
    using save_graph_bytes[OF assms, of frozen start] by simp
qed

text \<open>The construction's own reader agrees with the writer of the in-memory index: on a file
  written by \<open>save_graph\<close> it returns the same rows, their maximum degree and the number of edges,
  and it accepts the file exactly when the caller expected that many nodes.\<close>

theorem save_graph_adj_memindex:
  assumes "n \<le> length (gs_graph gs)" "rows_fit (take n (gs_graph gs))"
  shows "\<exists>f. save_graph gs n frozen start = Inr (f, length f) \<and>
    load_graph_to_adj_memindex (Some f) tsize old =
      Inr (n = tsize, take n (gs_graph gs), max_deg_of (take n (gs_graph gs)),
           sum_list (map length (take n (gs_graph gs))))"
  by (rule save_then_adj[OF assms])

theorem save_graph_adj_memindex_witness:
  "\<exists>f. save_graph \<lparr>gs_capacity = 2, gs_max_range = 0, gs_max_obs = 2, gs_graph = [[1], [0, 7]]\<rparr> 2 0 1 = Inr (f, length f) \<and>
    load_graph_to_adj_memindex (Some f) 3 ([], 0, 0) = Inr (False, [[1], [0, 7]], 2, 3)"
proof -
  have "rows_fit [[1], [0, 7]]" "max_deg_of [[1], [0, 7]] = 2"
    by (simp_all add: rows_fit_def max_deg_of_def)
  then show ?thesis
    using save_graph_adj_memindex[of 2 "\<lparr>gs_capacity = 2, gs_max_range = 0, gs_max_obs = 2, gs_graph = [[1], [0, 7]]\<rparr>" 0 1 3 "([], 0, 0)"]
    by (simp add: eval_nat_numeral)
qed

end
