(* ===== verification/Graph_Search.thy ===== *)
theory Graph_Search
  imports Neighbor_Queue Graph_Store Cstd
begin

text \<open>
  The greedy searches of the in-memory index (\<open>src/index.cpp\<close>): \<open>iterate_to_fixed_point\<close> and
  \<open>iterate_to_fixed_point_emit\<close>. Both expand the closest unexpanded candidate until none is
  left. The distance of a point to the query is an argument \<open>d\<close>; \<open>admit\<close> is the label
  filter (always true without one).
\<close>

record index =
  ix_max_points :: nat
  ix_num_frozen :: nat
  ix_start :: nat
  ix_graph :: graph_store

definition get_init_ids :: "index \<Rightarrow> nat list" where
  "get_init_ids ix =
     ix_start ix # filter (\<lambda>f. f \<noteq> ix_start ix) [u32 (ix_max_points ix)..<ix_max_points ix + ix_num_frozen ix]"

record search =
  sr_q :: npq
  sr_visited :: "nat list"
  sr_expanded :: "neighbor list"
  sr_hops :: nat
  sr_cmps :: nat

definition visit_init :: "(nat \<Rightarrow> fp) \<Rightarrow> nat \<Rightarrow> search \<Rightarrow> search res" where
  "visit_init d i st =
     (if i \<in> set (sr_visited st) then Inr st
      else rbind (npq_ins d i (sr_q st)) (\<lambda>q. Inr (st\<lparr>sr_q := q, sr_visited := i # sr_visited st\<rparr>)))"

text \<open>One turn of the loop: pop, collect the unvisited admitted neighbours, mark and insert them.
  \<open>keep\<close> is what happens to the list of expanded nodes.\<close>

definition expand_step ::
    "(nat \<Rightarrow> fp) \<Rightarrow> (nat \<Rightarrow> bool) \<Rightarrow> (nat \<Rightarrow> nat list res) \<Rightarrow> (neighbor \<Rightarrow> neighbor list \<Rightarrow> neighbor list) \<Rightarrow> search \<Rightarrow> search res" where
  "expand_step d admit nbrs keep st =
     rbind (closest_unexpanded (sr_q st)) (\<lambda>(n, q1).
     rbind (nbrs (nb_id n)) (\<lambda>ns.
       let id_scratch = filter (\<lambda>i. admit i \<and> i \<notin> set (sr_visited st)) ns
       in rbind (rfold (npq_ins d) id_scratch q1) (\<lambda>q2.
            Inr (st\<lparr>sr_q := q2, sr_visited := id_scratch @ sr_visited st,
                    sr_expanded := keep n (sr_expanded st), sr_hops := u32 (sr_hops st + 1),
                    sr_cmps := u32 (sr_cmps st + u32 (length id_scratch))\<rparr>))))"

text \<open>\<open>while (best_L_nodes.has_unexpanded_node())\<close>: \<open>None\<close> is a loop that does not end.\<close>

partial_function (option) search_loop ::
    "(nat \<Rightarrow> fp) \<Rightarrow> (nat \<Rightarrow> bool) \<Rightarrow> (nat \<Rightarrow> nat list res) \<Rightarrow> (neighbor \<Rightarrow> neighbor list \<Rightarrow> neighbor list) \<Rightarrow> search \<Rightarrow> search res option" where
  "search_loop d admit nbrs keep st =
     (if has_unexpanded_node (sr_q st) then
        let r = expand_step d admit nbrs keep st
        in if isl r then Some r else search_loop d admit nbrs keep (projr r)
      else Some (Inr st))"

definition emit_start :: "npq \<Rightarrow> nat \<Rightarrow> search" where
  "emit_start q L = \<lparr>sr_q = npq_reserve (npq_clear q) L, sr_visited = [], sr_expanded = [], sr_hops = 0, sr_cmps = 0\<rparr>"

text \<open>The result: the ids and distances emitted, in the order of expansion, and the final state.\<close>

definition iterate_to_fixed_point_emit ::
    "index \<Rightarrow> (nat \<Rightarrow> fp) \<Rightarrow> npq \<Rightarrow> nat \<Rightarrow> nat list \<Rightarrow> search res option" where
  "iterate_to_fixed_point_emit ix d q L init_ids =
     (case rfold (visit_init d) init_ids (emit_start q L) of
        Inl e \<Rightarrow> Some (Inl e)
      | Inr st \<Rightarrow> search_loop d (\<lambda>i. True) (get_neighbours (ix_graph ix)) (\<lambda>n xs. xs @ [n]) st)"

definition iterate_and_export_visited :: "index \<Rightarrow> (nat \<Rightarrow> fp) \<Rightarrow> npq \<Rightarrow> nat \<Rightarrow> (nat list \<times> fp list) res option" where
  "iterate_and_export_visited ix d q L =
     (case iterate_to_fixed_point_emit ix d (npq_reserve (npq_clear q) L) L (get_init_ids ix) of
        None \<Rightarrow> None
      | Some r \<Rightarrow> Some (rbind r (\<lambda>st. Inr (map nb_id (sr_expanded st), map nb_dist (sr_expanded st)))))"

definition visit_start :: "index \<Rightarrow> (nat \<Rightarrow> bool) \<Rightarrow> (nat \<Rightarrow> fp) \<Rightarrow> nat \<Rightarrow> search \<Rightarrow> search res" where
  "visit_start ix admit d i st =
     (if ix_max_points ix + ix_num_frozen ix \<le> i then Inl (ANNException (''Wrong loc'' @ dec_string i))
      else if \<not> admit i then Inr st
      else visit_init d i st)"

definition keep_expanded :: "bool \<Rightarrow> bool \<Rightarrow> neighbor \<Rightarrow> neighbor list \<Rightarrow> neighbor list" where
  "keep_expanded search_invocation use_filter n xs =
     (if search_invocation then xs
      else if use_filter \<and> nb_id n \<in> nb_id ` set xs then xs
      else xs @ [n])"

definition iterate_to_fixed_point ::
    "index \<Rightarrow> (nat \<Rightarrow> fp) \<Rightarrow> (nat \<Rightarrow> bool) \<Rightarrow> bool \<Rightarrow> bool \<Rightarrow> npq \<Rightarrow> neighbor list \<Rightarrow> nat \<Rightarrow> nat list \<Rightarrow> search res option" where
  "iterate_to_fixed_point ix d common use_filter search_invocation q expanded_nodes L init_ids =
     (if expanded_nodes \<noteq> [] then Some (Inl (ANNException ''ERROR: Clear scratch space before passing.''))
      else
        let admit = (\<lambda>i. use_filter \<longrightarrow> common i)
        in case rfold (visit_start ix admit d) init_ids
             \<lparr>sr_q = npq_reserve q L, sr_visited = [], sr_expanded = [], sr_hops = 0, sr_cmps = 0\<rparr> of
             Inl e \<Rightarrow> Some (Inl e)
           | Inr st \<Rightarrow>
               map_option (\<lambda>r. rbind r (\<lambda>s. Inr (s\<lparr>sr_hops := 0\<rparr>)))
                 (search_loop d admit (get_neighbours (ix_graph ix)) (keep_expanded search_invocation use_filter) st))"

section \<open>The invariant of the loop\<close>

text \<open>Edges the search may follow.\<close>

definition edge :: "(nat \<Rightarrow> nat list res) \<Rightarrow> (nat \<Rightarrow> bool) \<Rightarrow> nat \<Rightarrow> nat \<Rightarrow> bool" where
  "edge nbrs admit u v \<longleftrightarrow> (\<exists>ns. nbrs u = Inr ns \<and> v \<in> set ns \<and> admit v)"

text \<open>\<open>G\<close> is the set of points, closed under edges; \<open>S\<close> the entry points.\<close>

definition search_inv ::
    "nat \<Rightarrow> (nat \<Rightarrow> fp) \<Rightarrow> (nat \<Rightarrow> bool) \<Rightarrow> (nat \<Rightarrow> nat list res) \<Rightarrow> nat set \<Rightarrow> nat set \<Rightarrow> search \<Rightarrow> nat list \<Rightarrow> bool" where
  "search_inv L d admit nbrs G S st done \<longleftrightarrow>
     npq_ok d (sr_q st) \<and> q_capacity (sr_q st) = L \<and>
     npq_keys (sr_q st) = best_of dist_id_lt L (map (\<lambda>i. (d i, i)) (sr_visited st)) \<and>
     distinct done \<and> set done \<union> npq_ids (sr_q st) \<subseteq> set (sr_visited st) \<and> set done \<inter> npq_todo (sr_q st) = {} \<and>
     npq_shut (sr_q st) \<subseteq> set done \<and> set (sr_visited st) \<subseteq> G \<and>
     (\<forall>v \<in> set (sr_visited st). \<exists>s \<in> S. (edge nbrs admit)\<^sup>*\<^sup>* s v) \<and>
     (\<forall>u \<in> set done. \<forall>v. edge nbrs admit u v \<longrightarrow> v \<in> set (sr_visited st))"

definition graph_ok :: "(nat \<Rightarrow> fp) \<Rightarrow> (nat \<Rightarrow> nat list res) \<Rightarrow> nat set \<Rightarrow> bool" where
  "graph_ok d nbrs G \<longleftrightarrow>
     finite G \<and> (\<forall>u \<in> G. fnonneg (d u) \<and> (\<exists>ns. nbrs u = Inr ns \<and> set ns \<subseteq> G))"

lemma search_step:
  assumes inv: "search_inv L d admit nbrs G S st done" and g: "graph_ok d nbrs G" and has: "has_unexpanded_node (sr_q st)"
  obtains n st' where "expand_step d admit nbrs keep st = Inr st'" "search_inv L d admit nbrs G S st' (done @ [nb_id n])"
    "sr_expanded st' = keep n (sr_expanded st)" "nb_dist n = d (nb_id n)" "nb_id n \<in> G"
    "2 * card (G - set (sr_visited st')) + card (npq_todo (sr_q st')) <
     2 * card (G - set (sr_visited st)) + card (npq_todo (sr_q st))"
proof -
  let ?V = "sr_visited st"
  have I: "npq_ok d (sr_q st)" "q_capacity (sr_q st) = L"
    "npq_keys (sr_q st) = best_of dist_id_lt L (map (\<lambda>i. (d i, i)) ?V)" "distinct done"
    "set done \<union> npq_ids (sr_q st) \<subseteq> set ?V" "set done \<inter> npq_todo (sr_q st) = {}" "npq_shut (sr_q st) \<subseteq> set done"
    "set ?V \<subseteq> G" "\<forall>v \<in> set ?V. \<exists>s \<in> S. (edge nbrs admit)\<^sup>*\<^sup>* s v"
    "\<forall>u \<in> set done. \<forall>v. edge nbrs admit u v \<longrightarrow> v \<in> set ?V"
    using inv by (simp_all add: search_inv_def)
  have fin: "finite G" using g by (simp add: graph_ok_def)
  obtain n q1 where q1: "closest_unexpanded (sr_q st) = Inr (n, q1)" "nb_id n \<in> npq_todo (sr_q st)"
    "npq_ok d q1" "npq_keys q1 = npq_keys (sr_q st)" "q_capacity q1 = L" "nb_dist n = d (nb_id n)"
    using npq_pop_todo[OF I(1) has] I(2) by metis
  have nV: "nb_id n \<in> set ?V"
    using q1(2) I(5) npq_ids_split by blast
  obtain ns where ns: "nbrs (nb_id n) = Inr ns" "set ns \<subseteq> G"
    using g nV I(8) unfolding graph_ok_def by blast
  define new where "new = filter (\<lambda>i. admit i \<and> i \<notin> set ?V) ns"
  have new: "set new \<subseteq> G - set ?V" "\<forall>i \<in> set new. fnonneg (d i)"
    using ns(2) g by (auto simp: new_def graph_ok_def)
  have "\<exists>q2. rfold (npq_ins d) new q1 = Inr q2 \<and> npq_ok d q2 \<and>
    npq_todo q2 \<subseteq> set new \<union> (npq_todo (sr_q st) - {nb_id n}) \<and> npq_shut q2 \<subseteq> insert (nb_id n) (npq_shut (sr_q st)) \<and>
    2 * card (G - (set ?V \<union> set new)) + card (npq_todo q2) < 2 * card (G - set ?V) + card (npq_todo (sr_q st))"
    by (rule sq.pop_batch_decreases[OF I(1) has fin, of "set ?V"]) (use q1(1) new in auto)
  then obtain q2 where q2: "rfold (npq_ins d) new q1 = Inr q2" "npq_ok d q2"
    "npq_todo q2 \<subseteq> set new \<union> (npq_todo (sr_q st) - {nb_id n})" "npq_shut q2 \<subseteq> insert (nb_id n) (npq_shut (sr_q st))"
    "2 * card (G - (set ?V \<union> set new)) + card (npq_todo q2) < 2 * card (G - set ?V) + card (npq_todo (sr_q st))"
    by blast
  have nonneg: "fnonneg (d i)" if "i \<in> set ?V" for i
    using that I(8) g by (auto simp: graph_ok_def)
  have keys: "q_capacity q2 = L"
    "npq_keys q2 = best_of dist_id_lt L (map (\<lambda>i. (d i, i)) (new @ ?V))"
  proof -
    obtain q3 where "rfold (npq_ins d) new q1 = Inr q3" "q_capacity q3 = L"
      "npq_keys q3 = fold (top_ins dist_id_lt L) (map (\<lambda>i. (d i, i)) new) (npq_keys q1)"
      using npq_ins_keys[OF q1(3), of new] new(2) q1(5) by auto
    then have q3: "q_capacity q2 = L"
      "npq_keys q2 = fold (top_ins dist_id_lt L) (map (\<lambda>i. (d i, i)) new) (npq_keys q1)"
      using q2(1) by simp_all
    have "fold (top_ins dist_id_lt L) (map (\<lambda>i. (d i, i)) ?V) [] = best_of dist_id_lt L (map (\<lambda>i. (d i, i)) ?V)"
      using nonneg by (intro dit.fold_top_ins) auto
    then have "npq_keys q1 = fold (top_ins dist_id_lt L) (map (\<lambda>i. (d i, i)) ?V) []"
      using q1(4) I(3) by simp
    then have "npq_keys q2 = fold (top_ins dist_id_lt L) (map (\<lambda>i. (d i, i)) (?V @ new)) []"
      by (simp add: q3(2))
    also have "\<dots> = best_of dist_id_lt L (map (\<lambda>i. (d i, i)) (?V @ new))"
      using nonneg new(2) by (intro dit.fold_top_ins) auto
    also have "\<dots> = best_of dist_id_lt L (map (\<lambda>i. (d i, i)) (new @ ?V))"
      using nonneg new(2) by (intro dit.best_of_cong) auto
    finally show "q_capacity q2 = L" "npq_keys q2 = best_of dist_id_lt L (map (\<lambda>i. (d i, i)) (new @ ?V))"
      using q3(1) by simp_all
  qed
  define st' where "st' = st\<lparr>sr_q := q2, sr_visited := new @ ?V, sr_expanded := keep n (sr_expanded st),
      sr_hops := u32 (sr_hops st + 1), sr_cmps := u32 (sr_cmps st + u32 (length new))\<rparr>"
  have res: "expand_step d admit nbrs keep st = Inr st'"
    using q1(1) ns(1) q2(1) by (simp add: expand_step_def st'_def flip: new_def)
  have edges: "v \<in> set (new @ ?V)" if "edge nbrs admit (nb_id n) v" for v
    using that ns(1) by (auto simp: edge_def new_def)
  have reach: "\<exists>s \<in> S. (edge nbrs admit)\<^sup>*\<^sup>* s v" if "v \<in> set new" for v
  proof -
    have "edge nbrs admit (nb_id n) v"
      using that ns(1) by (auto simp: edge_def new_def)
    then show ?thesis
      using I(9) nV rtranclp.rtrancl_into_rtrancl by metis
  qed
  have sub: "npq_todo (sr_q st) \<subseteq> set ?V" "npq_shut (sr_q st) \<subseteq> set ?V"
    using I(5) npq_ids_split by blast+
  have "search_inv L d admit nbrs G S st' (done @ [nb_id n])"
    unfolding search_inv_def st'_def
  proof (simp, intro conjI ballI allI impI)
    show "npq_ok d q2" "q_capacity q2 = L"
      "npq_keys q2 = best_of dist_id_lt L (map (\<lambda>i. (d i, i)) new @ map (\<lambda>i. (d i, i)) ?V)"
      using q2(2) keys by simp_all
    show "distinct done" "nb_id n \<notin> set done"
      using I(4,6) q1(2) by auto
    show "nb_id n \<in> set new \<or> nb_id n \<in> set ?V" using nV by simp
    show "set done \<subseteq> set new \<union> set ?V" using I(5) by blast
    show "npq_ids q2 \<subseteq> set new \<union> set ?V"
      using q2(3,4) sub nV unfolding npq_ids_split by blast
    show "nb_id n \<notin> npq_todo q2"
      using q2(3) new(1) nV by blast
    show "set done \<inter> npq_todo q2 = {}"
      using q2(3) new(1) I(5,6) by blast
    show "npq_shut q2 \<subseteq> insert (nb_id n) (set done)"
      using q2(4) I(7) by blast
    show "set new \<subseteq> G" "set ?V \<subseteq> G"
      using new(1) I(8) by blast+
  qed (use edges reach I(9,10) in auto)
  moreover have "set (sr_visited st') = set ?V \<union> set new"
    by (auto simp: st'_def)
  moreover have "npq_todo (sr_q st') = npq_todo q2" "sr_expanded st' = keep n (sr_expanded st)"
    by (simp_all add: st'_def)
  ultimately show ?thesis
    using that[OF res] q2(5) q1(6) nV I(8) by auto
qed

text \<open>The loop ends, with nothing left to expand; \<open>P\<close> is any relation that \<open>keep\<close> maintains
  between the expanded nodes and the list of ids expanded so far.\<close>

lemma search_loop_spec:
  assumes g: "graph_ok d nbrs G"
    and keep: "\<And>n xs done. P xs done \<Longrightarrow> nb_dist n = d (nb_id n) \<Longrightarrow> nb_id n \<notin> set done \<Longrightarrow> P (keep n xs) (done @ [nb_id n])"
    and "search_inv L d admit nbrs G S st done" "P (sr_expanded st) done"
  shows "\<exists>st' done'. search_loop d admit nbrs keep st = Some (Inr st') \<and> search_inv L d admit nbrs G S st' done' \<and>
    P (sr_expanded st') done' \<and> npq_todo (sr_q st') = {}"
  using assms(3,4)
proof (induction "2 * card (G - set (sr_visited st)) + card (npq_todo (sr_q st))" arbitrary: st "done" rule: less_induct)
  case less
  have ok: "npq_inv (sr_q st)"
    using less.prems(1) by (simp add: search_inv_def npq_ok_def)
  show ?case
  proof (cases "has_unexpanded_node (sr_q st)")
    case False
    then have "search_loop d admit nbrs keep st = Some (Inr st)"
      by (subst search_loop.simps) simp
    then show ?thesis
      using less.prems has_unexpanded_iff[OF ok] False by blast
  next
    case True
    obtain n st' where st': "expand_step d admit nbrs keep st = Inr st'" "search_inv L d admit nbrs G S st' (done @ [nb_id n])"
      "sr_expanded st' = keep n (sr_expanded st)" "nb_dist n = d (nb_id n)"
      "2 * card (G - set (sr_visited st')) + card (npq_todo (sr_q st')) <
       2 * card (G - set (sr_visited st)) + card (npq_todo (sr_q st))"
      using search_step[OF less.prems(1) g True] by metis
    have "nb_id n \<notin> set done"
      using st'(2) by (simp add: search_inv_def)
    then have "P (sr_expanded st') (done @ [nb_id n])"
      using keep[OF less.prems(2) st'(4)] by (simp add: st'(3))
    moreover have "search_loop d admit nbrs keep st = search_loop d admit nbrs keep st'"
      using True st'(1) by (subst search_loop.simps) simp
    ultimately show ?thesis
      using less.hyps[OF st'(5,2)] by simp
  qed
qed

lemma search_inv_init:
  assumes g: "graph_ok d nbrs G" and "0 < L" "set ss \<subseteq> G"
  shows "\<exists>st. rfold (visit_init d) ss (emit_start q L) = Inr st \<and> search_inv L d admit nbrs G (set ss) st [] \<and>
    sr_expanded st = [] \<and> set ss \<subseteq> set (sr_visited st)"
proof -
  have start: "npq_ok d (sr_q (emit_start q L))" "npq_keys (sr_q (emit_start q L)) = []"
    "npq_ids (sr_q (emit_start q L)) = {}" "q_capacity (sr_q (emit_start q L)) = L"
    using npq_inv_clear_reserve[OF assms(2), of q]
    by (simp_all add: emit_start_def npq_ok_def npq_keys_def npq_ids_def)
      (simp_all add: npq_active_def npq_reserve_def npq_clear_def)
  have "\<exists>st. rfold (visit_init d) ss st0 = Inr st \<and> npq_ok d (sr_q st) \<and> q_capacity (sr_q st) = L \<and>
      npq_keys (sr_q st) = fold (top_ins dist_id_lt L) (map (\<lambda>i. (d i, i)) (rev (sr_visited st))) [] \<and>
      npq_ids (sr_q st) \<subseteq> set (sr_visited st) \<and> npq_shut (sr_q st) = {} \<and>
      set (sr_visited st) = set ss \<union> set (sr_visited st0) \<and> sr_expanded st = sr_expanded st0"
    if "set ss \<subseteq> G" "npq_ok d (sr_q st0)" "q_capacity (sr_q st0) = L"
      "npq_keys (sr_q st0) = fold (top_ins dist_id_lt L) (map (\<lambda>i. (d i, i)) (rev (sr_visited st0))) []"
      "npq_ids (sr_q st0) \<subseteq> set (sr_visited st0)" "npq_shut (sr_q st0) = {}" for ss st0
    using that
  proof (induction ss arbitrary: st0)
    case Nil
    then show ?case by simp
  next
    case (Cons s ss)
    show ?case
    proof (cases "s \<in> set (sr_visited st0)")
      case True
      have "rfold (visit_init d) (s # ss) st0 = rfold (visit_init d) ss st0"
        using True by (simp add: visit_init_def)
      then show ?thesis
        using Cons.IH[of st0] Cons.prems True by (auto simp: insert_absorb)
    next
      case False
      have "fnonneg (d s)" using Cons.prems(1) g by (simp add: graph_ok_def)
      then obtain q1 where q1: "npq_ins d s (sr_q st0) = Inr q1" "npq_ok d q1" "npq_ids q1 \<subseteq> insert s (npq_ids (sr_q st0))"
        "npq_keys q1 = top_ins dist_id_lt L (d s, s) (npq_keys (sr_q st0))" "q_capacity q1 = L"
        "npq_shut q1 \<subseteq> npq_shut (sr_q st0)"
        using npq_insert_todo[OF Cons.prems(2), of s] Cons.prems(3) unfolding npq_ins_def by metis
      let ?st = "st0\<lparr>sr_q := q1, sr_visited := s # sr_visited st0\<rparr>"
      have "rfold (visit_init d) (s # ss) st0 = rfold (visit_init d) ss ?st"
        using False q1(1) by (simp add: visit_init_def)
      moreover have "npq_keys (sr_q ?st) = fold (top_ins dist_id_lt L) (map (\<lambda>i. (d i, i)) (rev (sr_visited ?st))) []"
        using q1(4) Cons.prems(4) by simp
      ultimately show ?thesis
        using Cons.IH[of ?st] Cons.prems q1 by auto
    qed
  qed
  from this[OF assms(3) start(1,4)] start(2,3) obtain st where st:
    "rfold (visit_init d) ss (emit_start q L) = Inr st" "npq_ok d (sr_q st)" "q_capacity (sr_q st) = L"
    "npq_keys (sr_q st) = fold (top_ins dist_id_lt L) (map (\<lambda>i. (d i, i)) (rev (sr_visited st))) []"
    "npq_ids (sr_q st) \<subseteq> set (sr_visited st)" "npq_shut (sr_q st) = {}" "set (sr_visited st) = set ss" "sr_expanded st = []"
    using npq_ids_split by (auto simp: emit_start_def)
  have nonneg: "fnonneg (d i)" if "i \<in> set (sr_visited st)" for i
    using that st(7) assms(3) g by (auto simp: graph_ok_def)
  have "npq_keys (sr_q st) = best_of dist_id_lt L (map (\<lambda>i. (d i, i)) (rev (sr_visited st)))"
    unfolding st(4) using nonneg by (intro dit.fold_top_ins) auto
  also have "\<dots> = best_of dist_id_lt L (map (\<lambda>i. (d i, i)) (sr_visited st))"
    using nonneg by (intro dit.best_of_cong) auto
  finally show ?thesis
    using st assms(3) by (auto simp: search_inv_def)
qed

lemma emit_run:
  assumes "graph_ok d (get_neighbours (ix_graph ix)) G" "0 < L" "set ss \<subseteq> G"
  shows "\<exists>st. iterate_to_fixed_point_emit ix d q L ss = Some (Inr st) \<and>
    distinct (map nb_id (sr_expanded st)) \<and> (\<forall>n \<in> set (sr_expanded st). nb_dist n = d (nb_id n)) \<and>
    (\<forall>v \<in> set (sr_visited st). \<exists>s \<in> set ss. (edge (get_neighbours (ix_graph ix)) (\<lambda>i. True))\<^sup>*\<^sup>* s v) \<and>
    set (map nb_id (sr_expanded st)) \<subseteq> set (sr_visited st) \<and>
    (\<forall>n \<in> set (sr_expanded st). \<forall>v. edge (get_neighbours (ix_graph ix)) (\<lambda>i. True) (nb_id n) v \<longrightarrow> v \<in> set (sr_visited st)) \<and>
    npq_keys (sr_q st) = best_of dist_id_lt L (map (\<lambda>i. (d i, i)) (sr_visited st)) \<and>
    npq_ids (sr_q st) \<subseteq> set (map nb_id (sr_expanded st))"
proof -
  let ?nb = "get_neighbours (ix_graph ix)"
  let ?P = "\<lambda>xs done. done = map nb_id xs \<and> (\<forall>n \<in> set xs. nb_dist n = d (nb_id n))"
  obtain st0 where st0: "rfold (visit_init d) ss (emit_start q L) = Inr st0"
    "search_inv L d (\<lambda>i. True) ?nb G (set ss) st0 []" "sr_expanded st0 = []"
    using search_inv_init[OF assms] by blast
  obtain st' done' where st': "search_loop d (\<lambda>i. True) ?nb (\<lambda>n xs. xs @ [n]) st0 = Some (Inr st')"
    "search_inv L d (\<lambda>i. True) ?nb G (set ss) st' done'" "?P (sr_expanded st') done'" "npq_todo (sr_q st') = {}"
    using search_loop_spec[where P = ?P and keep = "\<lambda>n xs. xs @ [n]", OF assms(1) _ st0(2)] st0(3) by auto
  have "npq_ids (sr_q st') \<subseteq> set done'"
    using st'(2,4) by (simp add: search_inv_def npq_ids_split)
  then show ?thesis
    using st' st0(1) by (auto simp: iterate_to_fixed_point_emit_def search_inv_def)
qed

text \<open>The search that exports its visited nodes terminates and is a fixed point. On a graph
  whose points have non-negative distances to the query and whose edges stay inside the points, with
  L > 0 and entry points in the graph, it returns without error; the emitted ids are pairwise
  distinct, each with its own distance, and reachable from the entry points. Every neighbour of an
  emitted node was visited; the final list holds the L nearest of all visited points, and all of
  them were expanded.\<close>

theorem emit_fixed_point:
  assumes "graph_ok d (get_neighbours (ix_graph ix)) G" "0 < L" "set ss \<subseteq> G"
  shows "\<exists>st. iterate_to_fixed_point_emit ix d q L ss = Some (Inr st) \<and>
    distinct (map nb_id (sr_expanded st)) \<and> (\<forall>n \<in> set (sr_expanded st). nb_dist n = d (nb_id n)) \<and>
    (\<forall>v \<in> set (sr_visited st). \<exists>s \<in> set ss. (edge (get_neighbours (ix_graph ix)) (\<lambda>i. True))\<^sup>*\<^sup>* s v) \<and>
    set (map nb_id (sr_expanded st)) \<subseteq> set (sr_visited st) \<and>
    (\<forall>n \<in> set (sr_expanded st). \<forall>v. edge (get_neighbours (ix_graph ix)) (\<lambda>i. True) (nb_id n) v \<longrightarrow> v \<in> set (sr_visited st)) \<and>
    npq_keys (sr_q st) = best_of dist_id_lt L (map (\<lambda>i. (d i, i)) (sr_visited st)) \<and>
    npq_ids (sr_q st) \<subseteq> set (map nb_id (sr_expanded st))"
  by (rule emit_run[OF assms])

theorem emit_fixed_point_witness:
  "\<exists>st. iterate_to_fixed_point_emit \<lparr>ix_max_points = 2, ix_num_frozen = 0, ix_start = 0,
      ix_graph = \<lparr>gs_capacity = 2, gs_max_range = 0, gs_max_obs = 1, gs_graph = [[1], [0]]\<rparr>\<rparr>
      (\<lambda>i. Fin False (of_nat i)) (npq_new 0) 4 [0] = Some (Inr st) \<and> distinct (map nb_id (sr_expanded st))"
proof -
  let ?ix = "\<lparr>ix_max_points = 2, ix_num_frozen = 0, ix_start = 0,
      ix_graph = \<lparr>gs_capacity = 2, gs_max_range = 0, gs_max_obs = 1, gs_graph = [[1], [0]]\<rparr>\<rparr>"
  have "graph_ok (\<lambda>i. Fin False (of_nat i)) (get_neighbours (ix_graph ?ix)) {0, 1}"
    by (simp add: graph_ok_def get_neighbours_def)
  then show ?thesis
    using emit_fixed_point[of "\<lambda>i. Fin False (of_nat i)" ?ix "{0, 1}" 4 "[0]" "npq_new 0"] by auto
qed

section \<open>The search of the index build\<close>

lemma visit_start_unfiltered:
  "set ss \<subseteq> {..<ix_max_points ix + ix_num_frozen ix} \<Longrightarrow>
    rfold (visit_start ix (\<lambda>i. True) d) ss st = rfold (visit_init d) ss st"
proof (induction ss arbitrary: st)
  case Nil
  then show ?case by simp
next
  case (Cons s ss)
  then have "visit_start ix (\<lambda>i. True) d s st = visit_init d s st" for st
    by (simp add: visit_start_def)
  then show ?case
    using Cons by (cases "visit_init d s st") simp_all
qed

lemma iterate_run:
  assumes "graph_ok d (get_neighbours (ix_graph ix)) G" "0 < L" "set ss \<subseteq> G"
    and "G \<subseteq> {..<ix_max_points ix + ix_num_frozen ix}"
  shows "\<exists>st. iterate_to_fixed_point ix d common False search_invocation (npq_clear q) [] L ss = Some (Inr st) \<and>
    set (sr_visited st) \<subseteq> G \<and> npq_keys (sr_q st) = best_of dist_id_lt L (map (\<lambda>i. (d i, i)) (sr_visited st)) \<and>
    (if search_invocation then sr_expanded st = []
     else distinct (map nb_id (sr_expanded st)) \<and> npq_ids (sr_q st) \<subseteq> nb_id ` set (sr_expanded st) \<and>
       (\<forall>n \<in> set (sr_expanded st). nb_dist n = d (nb_id n) \<and> nb_id n \<in> set (sr_visited st) \<and>
          (\<forall>v. edge (get_neighbours (ix_graph ix)) (\<lambda>i. True) (nb_id n) v \<longrightarrow> v \<in> set (sr_visited st))))"
proof -
  let ?nb = "get_neighbours (ix_graph ix)" and ?keep = "keep_expanded search_invocation False"
  let ?P = "\<lambda>xs done. if search_invocation then xs = []
      else done = map nb_id xs \<and> (\<forall>n \<in> set xs. nb_dist n = d (nb_id n))"
  obtain st0 where st0: "rfold (visit_init d) ss (emit_start q L) = Inr st0"
    "search_inv L d (\<lambda>i. True) ?nb G (set ss) st0 []" "sr_expanded st0 = []"
    using search_inv_init[OF assms(1-3)] by blast
  have keep: "\<And>n xs done. ?P xs done \<Longrightarrow> nb_dist n = d (nb_id n) \<Longrightarrow> nb_id n \<notin> set done \<Longrightarrow>
      ?P (?keep n xs) (done @ [nb_id n])"
    by (auto simp: keep_expanded_def split: if_splits)
  obtain st' done' where st': "search_loop d (\<lambda>i. True) ?nb ?keep st0 = Some (Inr st')"
    "search_inv L d (\<lambda>i. True) ?nb G (set ss) st' done'" "?P (sr_expanded st') done'" "npq_todo (sr_q st') = {}"
  proof -
    have "?P (sr_expanded st0) []"
      using st0(3) by simp
    then show thesis
      using search_loop_spec[where P = ?P and keep = ?keep, OF assms(1) keep st0(2)] that by blast
  qed
  have run: "iterate_to_fixed_point ix d common False search_invocation (npq_clear q) [] L ss =
      Some (Inr (st'\<lparr>sr_hops := 0\<rparr>))"
    using st0(1) st'(1) visit_start_unfiltered[of ss ix d "emit_start q L"] assms(3,4)
    by (auto simp: iterate_to_fixed_point_def emit_start_def)
  have "npq_ids (sr_q st') \<subseteq> set done'"
    using st'(2,4) by (simp add: search_inv_def npq_ids_split)
  then show ?thesis
    using run st'(2,3) by (cases search_invocation) (auto simp: search_inv_def)
qed

text \<open>The pool handed to pruning.\<close>

lemma iterate_run_ids:
  assumes "graph_ok d (get_neighbours (ix_graph ix)) G" "0 < L" "set ss \<subseteq> G"
    and "G \<subseteq> {..<ix_max_points ix + ix_num_frozen ix}"
  shows "\<exists>st. iterate_to_fixed_point ix d common False False (npq_clear q) [] L ss = Some (Inr st) \<and>
    distinct (map nb_id (sr_expanded st)) \<and> (\<forall>n \<in> set (sr_expanded st). nb_id n < ix_max_points ix + ix_num_frozen ix)"
  using iterate_run[OF assms, of common False q] assms(4) by (auto simp: subset_iff)

text \<open>C33. The unfiltered search of the index (\<open>iterate_to_fixed_point\<close>, on cleared scratch space)
  terminates without error on such a graph, without leaving it; its list is the L nearest of the visited points, no
  visited point is missing a neighbour of an expanded one, and the pool handed to pruning is empty
  for a query and otherwise holds each expanded node once, among them the whole list.\<close>

theorem iterate_fixed_point:
  assumes "graph_ok d (get_neighbours (ix_graph ix)) G" "0 < L" "set ss \<subseteq> G"
    and "G \<subseteq> {..<ix_max_points ix + ix_num_frozen ix}"
  shows "\<exists>st. iterate_to_fixed_point ix d common False search_invocation (npq_clear q) [] L ss = Some (Inr st) \<and>
    set (sr_visited st) \<subseteq> G \<and> npq_keys (sr_q st) = best_of dist_id_lt L (map (\<lambda>i. (d i, i)) (sr_visited st)) \<and>
    (if search_invocation then sr_expanded st = []
     else distinct (map nb_id (sr_expanded st)) \<and> npq_ids (sr_q st) \<subseteq> nb_id ` set (sr_expanded st) \<and>
       (\<forall>n \<in> set (sr_expanded st). nb_dist n = d (nb_id n) \<and> nb_id n \<in> set (sr_visited st) \<and>
          (\<forall>v. edge (get_neighbours (ix_graph ix)) (\<lambda>i. True) (nb_id n) v \<longrightarrow> v \<in> set (sr_visited st))))"
  by (rule iterate_run[OF assms])

theorem iterate_fixed_point_witness:
  "\<exists>st. iterate_to_fixed_point \<lparr>ix_max_points = 2, ix_num_frozen = 0, ix_start = 0,
      ix_graph = \<lparr>gs_capacity = 2, gs_max_range = 0, gs_max_obs = 1, gs_graph = [[1], [0]]\<rparr>\<rparr>
      (\<lambda>i. Fin False (of_nat i)) (\<lambda>i. True) False True (npq_clear (npq_new 3)) [] 4 [0] = Some (Inr st) \<and> sr_expanded st = []"
proof -
  let ?ix = "\<lparr>ix_max_points = 2, ix_num_frozen = 0, ix_start = 0,
      ix_graph = \<lparr>gs_capacity = 2, gs_max_range = 0, gs_max_obs = 1, gs_graph = [[1], [0]]\<rparr>\<rparr>"
  have "graph_ok (\<lambda>i. Fin False (of_nat i)) (get_neighbours (ix_graph ?ix)) {0, 1}"
    by (simp add: graph_ok_def get_neighbours_def)
  then show ?thesis
    using iterate_fixed_point[of "\<lambda>i. Fin False (of_nat i)" ?ix "{0, 1}" 4 "[0]" "\<lambda>i. True" True "npq_new 3"] by auto
qed

end
