(* ===== verification/Occlude.thy ===== *)
theory Occlude
  imports Dist_Order Graph_Search
begin

text \<open>
  Pruning inside the construction (\<open>construction/our_construction.cpp\<close>): \<open>l2sqr\<close>, the
  accessor of a pair of partitions (\<open>PairAccessorPtr\<close>), the scratch \<open>Arena\<close> and
  \<open>occlude_list_ptr\<close>. The reference for the pruning rule is \<open>rng_prune\<close>: walk the candidates by
  ascending distance and keep one unless a kept one is at least as close to it as the query is.
\<close>

section \<open>Distances\<close>

text \<open>\<open>omp simd reduction\<close> lets the compiler split the sum over lanes; \<open>W\<close> is the number it chose
  (1 is the plain loop). Lane \<open>w\<close> adds the terms \<open>w\<close>, \<open>w + W\<close>, ...\<close>

definition sq_diff :: "fp \<Rightarrow> fp \<Rightarrow> fp" where
  "sq_diff x y = (let t = fsub Binary64 x y in fmul Binary64 t t)"

definition lane_sum :: "nat \<Rightarrow> nat \<Rightarrow> fp list \<Rightarrow> fp" where
  "lane_sum W w ts = fold (\<lambda>k acc. fadd Binary64 acc (ts ! k)) (filter (\<lambda>k. k mod W = w) [0..<length ts]) fzero"

definition l2sqr :: "nat \<Rightarrow> fp list \<Rightarrow> fp list \<Rightarrow> fp" where
  "l2sqr W a b =
     (let ts = map2 sq_diff a b
      in fconv Binary32 (fold (\<lambda>w acc. fadd Binary64 acc (lane_sum W w ts)) [0..<W] fzero))"

section \<open>A pair of partitions\<close>

record pair_acc =
  pa_idx_i :: index
  pa_vec_i :: "nat \<Rightarrow> fp list"
  pa_is :: nat
  pa_ie :: nat
  pa_idx_j :: index
  pa_vec_j :: "nat \<Rightarrow> fp list"
  pa_js :: nat
  pa_je :: nat

definition acc_get :: "pair_acc \<Rightarrow> nat \<Rightarrow> fp list option" where
  "acc_get acc gid =
     (if pa_is acc \<le> gid \<and> gid < pa_ie acc then Some (pa_vec_i acc (gid - pa_is acc))
      else if pa_js acc \<le> gid \<and> gid < pa_je acc then Some (pa_vec_j acc (gid - pa_js acc))
      else None)"

definition copy_neighbors_local :: "index \<Rightarrow> nat \<Rightarrow> nat list res" where
  "copy_neighbors_local ix local_id = get_neighbours (ix_graph ix) local_id"

definition load_self_neighbors_and_d2 :: "nat \<Rightarrow> pair_acc \<Rightarrow> nat \<Rightarrow> fp list \<Rightarrow> (nat \<times> fp) list res" where
  "load_self_neighbors_and_d2 W acc local_i q =
     rbind (copy_neighbors_local (pa_idx_i acc) local_i) (\<lambda>nbrs.
       Inr (map (\<lambda>lid. (u32 (pa_is acc + lid), l2sqr W q (pa_vec_i acc lid))) nbrs))"

definition load_self_neighbors_and_d2_j :: "nat \<Rightarrow> pair_acc \<Rightarrow> nat \<Rightarrow> fp list \<Rightarrow> (nat \<times> fp) list res" where
  "load_self_neighbors_and_d2_j W acc local_j q =
     rbind (copy_neighbors_local (pa_idx_j acc) local_j) (\<lambda>nbrs.
       Inr (map (\<lambda>lid. (u32 (pa_js acc + lid), l2sqr W q (pa_vec_j acc lid))) nbrs))"

section \<open>The arena\<close>

record arena =
  ar_cap :: nat
  ar_off :: nat

definition arena_fresh :: arena where
  "arena_fresh = \<lparr>ar_cap = 0, ar_off = 0\<rparr>"

text \<open>\<open>mem n\<close> says that \<open>posix_memalign\<close> has \<open>n\<close> bytes.\<close>

definition arena_ensure :: "(nat \<Rightarrow> bool) \<Rightarrow> nat \<Rightarrow> arena \<Rightarrow> arena res" where
  "arena_ensure mem need ar =
     (if need \<le> ar_cap ar then Inr ar
      else
        let min_cap = 16 * 1024; grow = max need (max min_cap (ar_cap ar + ar_cap ar div 2))
        in if mem grow then Inr (ar\<lparr>ar_cap := grow, ar_off := 0\<rparr>) else Inl BadAlloc)"

definition arena_reset :: "arena \<Rightarrow> arena" where
  "arena_reset ar = ar\<lparr>ar_off := 0\<rparr>"

text \<open>\<open>(off + (a - 1)) & ~(a - 1)\<close> for a power of two.\<close>

definition arena_alloc_raw :: "nat \<Rightarrow> nat \<Rightarrow> arena \<Rightarrow> (nat \<times> arena) res" where
  "arena_alloc_raw n a ar =
     (let p = (ar_off ar + (a - 1)) div a * a
      in if p + n > ar_cap ar then Inl BadAlloc else Inr (p, ar\<lparr>ar_off := p + n\<rparr>))"

definition arena_alloc_n :: "nat \<Rightarrow> nat \<Rightarrow> arena \<Rightarrow> (nat \<times> arena) res" where
  "arena_alloc_n sizeof_U n ar = arena_alloc_raw (n * sizeof_U) 64 ar"

section \<open>Occlusion\<close>

text \<open>The loop over the nodes already chosen: blocked, and the occlusion factor.\<close>

fun occ_scan :: "nat \<Rightarrow> (nat \<Rightarrow> fp list option) \<Rightarrow> fp \<Rightarrow> fp \<Rightarrow> fp list \<Rightarrow> nat list \<Rightarrow> fp \<Rightarrow> bool \<times> fp" where
  "occ_scan W get cur_alpha dst pv [] of1 = (False, of1)"
| "occ_scan W get cur_alpha dst pv (u # us) of1 =
     (case get u of
        None \<Rightarrow> occ_scan W get cur_alpha dst pv us of1
      | Some pu \<Rightarrow>
          let d_uv = l2sqr W pu pv
          in if fle d_uv (fmul Binary32 cur_alpha dst) then (True, of1)
             else
               let denom = (if fle d_uv fzero then fround Binary32 False (1 / 10 ^ 30) else d_uv);
                   of2 = fmax of1 (fdiv Binary32 dst denom)
               in if flt cur_alpha of2 then (True, of2) else occ_scan W get cur_alpha dst pv us of2)"

text \<open>One turn of the inner loop at position \<open>t\<close> of the pool: occlusion factors and result.\<close>

definition occ_turn ::
    "nat \<Rightarrow> (nat \<Rightarrow> fp list option) \<Rightarrow> nat \<Rightarrow> nat \<Rightarrow> fp \<Rightarrow> (fp \<times> nat) list \<Rightarrow> nat \<Rightarrow> fp list \<times> nat list \<Rightarrow> fp list \<times> nat list" where
  "occ_turn W get location degree cur_alpha pool t s =
     (case s of (ocf, out) \<Rightarrow>
        if \<not> length out < degree then s
        else if flt cur_alpha (ocf ! t) then s
        else
          let vid = snd (pool ! t)
          in if vid = location then (ocf[t := flt_max], out)
             else case get vid of
                 None \<Rightarrow> (ocf[t := flt_max], out)
               | Some pv \<Rightarrow>
                   let (blocked, of1) = occ_scan W get cur_alpha (fst (pool ! t)) pv out fzero
                   in (ocf[t := (if blocked then flt_max else of1)], if blocked then out else out @ [vid]))"

text \<open>\<open>while (cur_alpha <= alpha && out.size() < degree)\<close>; it need not end for a large alpha.\<close>

partial_function (option) occ_rounds ::
    "nat \<Rightarrow> (nat \<Rightarrow> fp list option) \<Rightarrow> nat \<Rightarrow> nat \<Rightarrow> fp \<Rightarrow> (fp \<times> nat) list \<Rightarrow> fp \<Rightarrow> fp list \<times> nat list \<Rightarrow> nat list option" where
  "occ_rounds W get location degree alpha pool cur_alpha s =
     (if fle cur_alpha alpha \<and> length (snd s) < degree then
        occ_rounds W get location degree alpha pool (fadd Binary32 cur_alpha fone)
          (fold (occ_turn W get location degree cur_alpha pool) [0..<length pool] s)
      else Some (snd s))"

definition occlude_list_ptr ::
    "nat \<Rightarrow> (nat \<Rightarrow> fp list option) \<Rightarrow> nat \<Rightarrow> (fp \<times> nat) list \<Rightarrow> fp \<Rightarrow> nat \<Rightarrow> nat list \<Rightarrow> arena \<Rightarrow> (nat list \<times> arena) res option" where
  "occlude_list_ptr W get location pool0 alpha degree out ar =
     (if pool0 = [] then Some (Inr (out, ar))
      else
        let pool = std_sort dist_id_lt pool0
        in case arena_alloc_n 4 (length pool) ar of
             Inl e \<Rightarrow> Some (Inl e)
           | Inr (p, ar') \<Rightarrow>
               map_option (\<lambda>r. Inr (r, ar'))
                 (occ_rounds W get location degree alpha pool fone (replicate (length pool) fzero, out)))"

section \<open>The reference\<close>

fun rng_prune :: "nat \<Rightarrow> (nat \<Rightarrow> fp list option) \<Rightarrow> nat \<Rightarrow> nat \<Rightarrow> (fp \<times> nat) list \<Rightarrow> nat list \<Rightarrow> nat list" where
  "rng_prune W get location degree [] out = out"
| "rng_prune W get location degree ((dst, v) # pool) out =
     (if \<not> length out < degree then out
      else if v = location \<or> get v = None \<or>
              (\<exists>u \<in> set out. get u \<noteq> None \<and> fle (l2sqr W (the (get u)) (the (get v))) dst)
           then rng_prune W get location degree pool out
           else rng_prune W get location degree pool (out @ [v]))"

section \<open>Distances are non-negative\<close>

definition fin_vec :: "fp list \<Rightarrow> bool" where
  "fin_vec v \<longleftrightarrow> (\<forall>x \<in> set v. is_fin x)"

lemma sq_diff_nonneg: "is_fin x \<Longrightarrow> is_fin y \<Longrightarrow> fnonneg (sq_diff x y)"
  by (simp add: sq_diff_def Let_def fmul_self_nonneg fsub_fin_not_nan)

lemma sq_diff_self: "is_fin x \<Longrightarrow> sq_diff x x = fzero"
  by (simp add: sq_diff_def fsub_self fround_def)

lemma fold_fadd_nonneg:
  "fnonneg acc \<Longrightarrow> \<forall>k \<in> set ks. fnonneg (g k) \<Longrightarrow> fnonneg (fold (\<lambda>k acc. fadd f acc (g k)) ks acc)"
  by (induction ks arbitrary: acc) (auto intro: fadd_nonneg)

lemma fold_fadd_zero: "\<forall>k \<in> set ks. g k = fzero \<Longrightarrow> fold (\<lambda>k acc. fadd f acc (g k)) ks fzero = fzero"
  by (induction ks) (auto simp: fround_def)

lemma lane_sum_nonneg: "\<forall>t \<in> set ts. fnonneg t \<Longrightarrow> fnonneg (lane_sum W w ts)"
  unfolding lane_sum_def by (intro fold_fadd_nonneg) auto

lemma sq_diffs_nonneg:
  "fin_vec a \<Longrightarrow> fin_vec b \<Longrightarrow> t \<in> set (map2 sq_diff a b) \<Longrightarrow> fnonneg t"
  by (auto simp: fin_vec_def in_set_zip intro!: sq_diff_nonneg)

lemma l2sqr_acc_nonneg:
  assumes "fin_vec a" "fin_vec b"
  shows "fnonneg (fold (\<lambda>w acc. fadd Binary64 acc (lane_sum W w (map2 sq_diff a b))) ws fzero)"
  using assms by (intro fold_fadd_nonneg ballI lane_sum_nonneg) (auto intro: sq_diffs_nonneg simp del: set_map)

lemma l2sqr_nonneg: "fin_vec a \<Longrightarrow> fin_vec b \<Longrightarrow> fnonneg (l2sqr W a b)"
  unfolding l2sqr_def Let_def by (intro fconv_nonneg l2sqr_acc_nonneg)

lemma l2sqr_wf: "fin_vec a \<Longrightarrow> fin_vec b \<Longrightarrow> wf_fp Binary32 (l2sqr W a b)"
  unfolding l2sqr_def Let_def using l2sqr_acc_nonneg by (intro fconv_wf) (metis fnonneg.simps(3))

lemma l2sqr_self:
  assumes "fin_vec a"
  shows "l2sqr W a a = fzero"
proof -
  have "map2 sq_diff a a ! k = fzero" if "k < length (map2 sq_diff a a)" for k
    using that assms by (simp add: fin_vec_def sq_diff_self)
  then have "lane_sum W w (map2 sq_diff a a) = fzero" for w
    unfolding lane_sum_def by (intro fold_fadd_zero) simp
  then show ?thesis
    unfolding l2sqr_def Let_def by (simp add: fold_fadd_zero fround_def)
qed

section \<open>Occlusion at \<open>alpha = 1\<close> is the reference rule\<close>

definition vecs_ok :: "(nat \<Rightarrow> fp list option) \<Rightarrow> bool" where
  "vecs_ok get \<longleftrightarrow> (\<forall>g v. get g = Some v \<longrightarrow> fin_vec v)"

definition pool_ok :: "(fp \<times> nat) list \<Rightarrow> bool" where
  "pool_ok pool \<longleftrightarrow> (\<forall>x \<in> set pool. fnonneg (fst x) \<and> wf_fp Binary32 (fst x))"

definition occluded :: "nat \<Rightarrow> (nat \<Rightarrow> fp list option) \<Rightarrow> fp \<Rightarrow> fp list \<Rightarrow> nat list \<Rightarrow> bool" where
  "occluded W get dst pv out \<longleftrightarrow> (\<exists>u \<in> set out. get u \<noteq> None \<and> fle (l2sqr W (the (get u)) pv) dst)"

lemma occ_scan_blocked:
  assumes "vecs_ok get" "fin_vec pv" "fnonneg dst" "wf_fp Binary32 dst" "\<not> flt fone of1" "\<not> is_nan of1"
  shows "fst (occ_scan W get fone dst pv out of1) \<longleftrightarrow> occluded W get dst pv out"
  using assms(5,6)
proof (induction out arbitrary: of1)
  case Nil
  then show ?case by (simp add: occluded_def)
next
  case (Cons u us)
  show ?case
  proof (cases "get u")
    case None
    then show ?thesis using Cons by (simp add: occluded_def)
  next
    case (Some pu)
    let ?d = "l2sqr W pu pv"
    have d: "fnonneg ?d" "fmul Binary32 fone dst = dst"
      using assms Some by (auto simp: vecs_ok_def l2sqr_nonneg fmul_one)
    show ?thesis
    proof (cases "fle ?d dst")
      case True
      then show ?thesis using Some d(2) by (simp add: occluded_def)
    next
      case False
      then have lt: "flt dst ?d"
        using not_fle[of ?d dst] d(1) assms(3) fnonneg_not_nan by blast
      then have "\<not> fle ?d fzero"
        using fle_zero_nonneg[OF assms(3)] fle_flt_trans flt_asym fle_flt_trans by (meson flt_fle_trans flt_irrefl)
      moreover have q: "\<not> flt fone (fdiv Binary32 dst ?d)" "\<not> is_nan (fdiv Binary32 dst ?d)"
        using fdiv_le_one[OF assms(3) d(1) lt] by blast+
      ultimately show ?thesis
        using Cons False Some d(2) by (simp add: occluded_def fmax_def Let_def)
    qed
  qed
qed

text \<open>Up to position \<open>k\<close> the loop has done what the reference does on the first \<open>k\<close> candidates; the
  occlusion factors ahead are still zero.\<close>

lemma rng_prune_append:
  "rng_prune W get loc degree (xs @ ys) out = rng_prune W get loc degree ys (rng_prune W get loc degree xs out)"
proof (induction xs arbitrary: out)
  case Nil
  then show ?case by simp
next
  case (Cons x xs)
  have full: "rng_prune W get loc degree zs o1 = o1" if "\<not> length o1 < degree" for zs o1
    using that by (cases zs) auto
  show ?case
    using Cons by (cases x) (auto simp: full)
qed

lemma occ_turn_reference:
  assumes "vecs_ok get" "pool_ok pool" "k < length pool" "ocf ! k = fzero" "length ocf = length pool"
  shows "snd (occ_turn W get loc degree fone pool k (ocf, out)) = rng_prune W get loc degree [pool ! k] out \<and>
    length (fst (occ_turn W get loc degree fone pool k (ocf, out))) = length pool \<and>
    (\<forall>i. i \<noteq> k \<longrightarrow> fst (occ_turn W get loc degree fone pool k (ocf, out)) ! i = ocf ! i)"
proof -
  obtain dst v where x: "pool ! k = (dst, v)" by (cases "pool ! k")
  have dst: "fnonneg dst" "wf_fp Binary32 dst"
    using assms(2,3) x unfolding pool_ok_def by (metis fst_conv nth_mem)+
  show ?thesis
  proof (cases "get v")
    case None
    then show ?thesis using assms(4,5) x by (simp add: occ_turn_def)
  next
    case (Some pv)
    have "fin_vec pv" using assms(1) Some by (simp add: vecs_ok_def)
    then have "fst (occ_scan W get fone dst pv out fzero) \<longleftrightarrow> occluded W get dst pv out"
      using occ_scan_blocked[OF assms(1) _ dst] by simp
    then show ?thesis
      using assms(4,5) x Some by (auto simp: occ_turn_def case_prod_beta Let_def occluded_def)
  qed
qed

lemma occ_round_reference:
  assumes "vecs_ok get" "pool_ok pool" "k \<le> length pool"
  shows "snd (fold (occ_turn W get loc degree fone pool) [0..<k] (replicate (length pool) fzero, out)) =
      rng_prune W get loc degree (take k pool) out \<and>
    length (fst (fold (occ_turn W get loc degree fone pool) [0..<k] (replicate (length pool) fzero, out))) = length pool \<and>
    (\<forall>i < length pool. k \<le> i \<longrightarrow>
       fst (fold (occ_turn W get loc degree fone pool) [0..<k] (replicate (length pool) fzero, out)) ! i = fzero)"
  using assms(3)
proof (induction k)
  case 0
  then show ?case by simp
next
  case (Suc k)
  obtain ocf o1 where s: "fold (occ_turn W get loc degree fone pool) [0..<k] (replicate (length pool) fzero, out) = (ocf, o1)"
    by force
  have k: "k < length pool" using Suc.prems by simp
  have IH: "o1 = rng_prune W get loc degree (take k pool) out" "length ocf = length pool"
    "\<And>i. i < length pool \<Longrightarrow> k \<le> i \<Longrightarrow> ocf ! i = fzero"
    using Suc s by auto
  note turn = occ_turn_reference[OF assms(1,2) k IH(3)[OF k order_refl] IH(2), of W loc degree o1]
  have "take (Suc k) pool = take k pool @ [pool ! k]"
    using k by (simp add: take_Suc_conv_app_nth)
  then show ?case
    using turn IH s by (simp add: rng_prune_append)
qed

lemma occlude_rng:
  assumes "vecs_ok get" "pool_ok pool"
  shows "occ_rounds W get loc degree fone pool fone (replicate (length pool) fzero, out) =
    Some (rng_prune W get loc degree pool out)"
proof (cases "length out < degree")
  case False
  then have "rng_prune W get loc degree pool out = out"
    by (cases pool) auto
  then show ?thesis using False by (subst occ_rounds.simps) simp
next
  case True
  let ?s = "fold (occ_turn W get loc degree fone pool) [0..<length pool] (replicate (length pool) fzero, out)"
  have two: "fround Binary32 False 2 = Fin False 2"
    by code_simp
  have "occ_rounds W get loc degree fone pool fone (replicate (length pool) fzero, out) =
      occ_rounds W get loc degree fone pool (Fin False 2) ?s"
    using True by (subst occ_rounds.simps) (simp add: two)
  also have "\<dots> = Some (snd ?s)"
    by (subst occ_rounds.simps) (simp add: fle_def)
  finally show ?thesis
    using occ_round_reference[OF assms order_refl, of W loc degree out] by simp
qed

section \<open>What the reference keeps\<close>

text \<open>The invariant of the walk, for the candidates seen so far.\<close>

definition rng_inv :: "nat \<Rightarrow> (nat \<Rightarrow> fp list option) \<Rightarrow> nat \<Rightarrow> nat \<Rightarrow> (fp \<times> nat) list \<Rightarrow> nat list \<Rightarrow> bool" where
  "rng_inv W get loc degree seen out \<longleftrightarrow>
     length out \<le> degree \<and> distinct out \<and> loc \<notin> set out \<and>
     (\<forall>v \<in> set out. get v \<noteq> None \<and> v \<in> snd ` set seen) \<and>
     (\<forall>i < length out. \<exists>dst. (dst, out ! i) \<in> set seen \<and>
        \<not> occluded W get dst (the (get (out ! i))) (take i out)) \<and>
     (length out < degree \<longrightarrow> (\<forall>(dst, v) \<in> set seen. v = loc \<or> get v = None \<or> v \<in> set out \<or>
        occluded W get dst (the (get v)) out))"

lemma occluded_mono: "occluded W get dst pv us \<Longrightarrow> set us \<subseteq> set vs \<Longrightarrow> occluded W get dst pv vs"
  by (auto simp: occluded_def)

lemma occluded_self:
  assumes "vecs_ok get" "v \<in> set out" "get v = Some pv" "fnonneg dst"
  shows "occluded W get dst pv out"
  using assms l2sqr_self[of pv W] fle_zero_nonneg[of dst] by (auto simp: occluded_def vecs_ok_def)

lemma rng_inv_step:
  assumes "vecs_ok get" "rng_inv W get loc degree seen out" "fnonneg dst"
  shows "rng_inv W get loc degree (seen @ [(dst, v)]) (rng_prune W get loc degree [(dst, v)] out)"
proof (cases "length out < degree \<and> v \<noteq> loc \<and> get v \<noteq> None \<and> \<not> occluded W get dst (the (get v)) out")
  case True
  then have new: "rng_prune W get loc degree [(dst, v)] out = out @ [v]"
    by (auto simp: occluded_def)
  have notin: "v \<notin> set out"
    using occluded_self[OF assms(1) _ _ assms(3), of v out] True by auto
  have I: "length out \<le> degree" "distinct out" "loc \<notin> set out" "\<forall>v \<in> set out. get v \<noteq> None \<and> v \<in> snd ` set seen"
    "\<forall>i < length out. \<exists>dst. (dst, out ! i) \<in> set seen \<and> \<not> occluded W get dst (the (get (out ! i))) (take i out)"
    "length out < degree \<longrightarrow> (\<forall>(dst, v) \<in> set seen. v = loc \<or> get v = None \<or> v \<in> set out \<or> occluded W get dst (the (get v)) out)"
    using assms(2) by (simp_all add: rng_inv_def)
  have "\<exists>d'. (d', (out @ [v]) ! i) \<in> set (seen @ [(dst, v)]) \<and>
      \<not> occluded W get d' (the (get ((out @ [v]) ! i))) (take i (out @ [v]))" if "i < length (out @ [v])" for i
  proof (cases "i < length out")
    case lt: True
    then show ?thesis using I(5) by (auto simp: nth_append)
  next
    case False
    then have "i = length out" using that by simp
    then show ?thesis using True by auto
  qed
  moreover have "case x of (d', w) \<Rightarrow> w = loc \<or> get w = None \<or> w \<in> set (out @ [v]) \<or> occluded W get d' (the (get w)) (out @ [v])"
    if "x \<in> set (seen @ [(dst, v)])" for x
    using that I(6) True occluded_mono[of W get _ _ out "out @ [v]"] by fastforce
  ultimately show ?thesis
    unfolding new rng_inv_def using I(1-4) notin True by auto
next
  case False
  then have same: "rng_prune W get loc degree [(dst, v)] out = out"
    by (auto simp: occluded_def)
  have "length out < degree \<Longrightarrow> v = loc \<or> get v = None \<or> occluded W get dst (the (get v)) out"
    using False by blast
  moreover have "\<exists>d'. (d', out ! i) \<in> set (seen @ [(dst, v)]) \<and> \<not> occluded W get d' (the (get (out ! i))) (take i out)"
    if "i < length out" for i
    using assms(2) that unfolding rng_inv_def by fastforce
  ultimately show ?thesis
    using assms(2) unfolding same rng_inv_def by auto
qed

lemma rng_inv_prune:
  assumes "vecs_ok get" "pool_ok pool"
  shows "rng_inv W get loc degree pool (rng_prune W get loc degree pool [])"
proof -
  have "rng_inv W get loc degree seen (rng_prune W get loc degree seen [])" if "pool_ok seen" for seen
    using that
  proof (induction seen rule: rev_induct)
    case Nil
    then show ?case by (simp add: rng_inv_def)
  next
    case (snoc x seen)
    obtain dst v where x: "x = (dst, v)" by (cases x)
    have "rng_inv W get loc degree seen (rng_prune W get loc degree seen [])" "fnonneg dst"
      using snoc x by (auto simp: pool_ok_def)
    from rng_inv_step[OF assms(1) this, of v] show ?case
      by (simp add: x rng_prune_append)
  qed
  then show ?thesis using assms(2) by blast
qed

section \<open>Properties\<close>

text \<open>C28. Pruning at alpha = 1 (the construction's setting) terminates and is the relative
  neighbourhood rule: on a pool with finite vectors and non-negative distances, when the arena has
  room for the occlusion factors, \<open>occlude_list_ptr\<close> returns exactly the reference walk over the
  pool sorted by (distance, id). The factor test, the guard for zero distances and the sentinel
  values never change the outcome.\<close>

theorem occlude_list_reference:
  assumes "vecs_ok get" "pool_ok pool" "pool \<noteq> []" "arena_alloc_n 4 (length pool) ar = Inr (p, ar')"
  shows "occlude_list_ptr W get loc pool fone degree out ar =
    Some (Inr (rng_prune W get loc degree (std_sort dist_id_lt pool) out, ar'))"
proof -
  have "pool_ok (std_sort dist_id_lt pool)"
    using assms(2) by (simp add: pool_ok_def)
  then show ?thesis
    using assms(3,4) occlude_rng[OF assms(1), of "std_sort dist_id_lt pool"] by (simp add: occlude_list_ptr_def)
qed

theorem occlude_list_reference_witness:
  "occlude_list_ptr 1 (\<lambda>g. if g < 3 then Some [Fin False (of_nat g)] else None) 0 [(Fin False 4, 2), (Fin False 1, 1)] fone 5 []
      \<lparr>ar_cap = 64, ar_off = 0\<rparr> = Some (Inr ([1], \<lparr>ar_cap = 64, ar_off = 8\<rparr>))"
proof -
  let ?get = "\<lambda>g :: nat. if g < 3 then Some [Fin False (of_nat g)] else None"
  have "vecs_ok ?get"
    by (auto simp: vecs_ok_def fin_vec_def)
  moreover have "representable Binary32 4" "representable Binary32 1"
    using representable_of_nat[of 4 Binary32] representable_of_nat[of 1 Binary32] by simp_all
  then have "pool_ok [(Fin False 4, 2), (Fin False 1, 1)]"
    by (simp add: pool_ok_def)
  moreover have "arena_alloc_n 4 2 \<lparr>ar_cap = 64, ar_off = 0\<rparr> = Inr (0, \<lparr>ar_cap = 64, ar_off = 8\<rparr>)"
    by (simp add: arena_alloc_n_def arena_alloc_raw_def)
  moreover have "l2sqr 1 [fone] [Fin False 2] = fone"
    by (simp add: l2sqr_def lane_sum_def sq_diff_def fsub_def)
  then have "rng_prune 1 ?get 0 5 (std_sort dist_id_lt [(Fin False 4, 2), (Fin False 1, 1)]) [] = [1]"
    by (simp add: dist_id_lt_def fle_def)
  ultimately show ?thesis
    using occlude_list_reference[of ?get "[(Fin False 4, 2), (Fin False 1, 1)]" "\<lparr>ar_cap = 64, ar_off = 0\<rparr>" 0
        "\<lparr>ar_cap = 64, ar_off = 8\<rparr>" 1 0 5 "[]"] by (simp add: numeral_2_eq_2)
qed

lemma occlude_out_inv:
  assumes "vecs_ok get" "pool_ok pool" "occlude_list_ptr W get loc pool fone degree [] ar = Some (Inr (out, ar'))"
  shows "rng_inv W get loc degree pool out"
proof (cases "pool = []")
  case True
  then show ?thesis using assms(3) by (simp add: occlude_list_ptr_def rng_inv_def)
next
  case False
  have ok: "pool_ok (std_sort dist_id_lt pool)"
    using assms(2) by (simp add: pool_ok_def)
  have "out = rng_prune W get loc degree (std_sort dist_id_lt pool) []"
    using False assms(3) occlude_rng[OF assms(1) ok, of W loc degree "[]"]
    by (auto simp: occlude_list_ptr_def Let_def split: sum.splits prod.splits)
  then show ?thesis
    using rng_inv_prune[OF assms(1) ok, of W loc degree] unfolding rng_inv_def by simp
qed

lemma occlude_returns:
  assumes "vecs_ok get" "pool_ok pool"
  shows "\<exists>r. occlude_list_ptr W get loc pool fone degree [] ar = Some r"
proof -
  have ok: "pool_ok (std_sort dist_id_lt pool)"
    using assms(2) by (simp add: pool_ok_def)
  show ?thesis
    using occlude_rng[OF assms(1) ok, of W loc degree "[]"]
    by (auto simp: occlude_list_ptr_def Let_def split: sum.splits prod.splits)
qed

text \<open>What pruning guarantees about the neighbours it keeps (fresh result list): at most
  \<open>degree\<close> of them, pairwise distinct even when the pool repeats an id, never the point itself, all
  from the pool and with a vector; no kept neighbour is occluded by an earlier one; and when the
  degree is not exhausted, every candidate that was dropped is occluded by a kept one.\<close>

theorem occlude_list_invariant:
  assumes "vecs_ok get" "pool_ok pool" "occlude_list_ptr W get loc pool fone degree [] ar = Some (Inr (out, ar'))"
  shows "length out \<le> degree \<and> distinct out \<and> loc \<notin> set out \<and>
    (\<forall>v \<in> set out. get v \<noteq> None \<and> v \<in> snd ` set pool) \<and>
    (\<forall>i < length out. \<exists>dst. (dst, out ! i) \<in> set pool \<and>
       \<not> occluded W get dst (the (get (out ! i))) (take i out)) \<and>
    (length out < degree \<longrightarrow> (\<forall>(dst, v) \<in> set pool. v = loc \<or> get v = None \<or> v \<in> set out \<or>
       occluded W get dst (the (get v)) out))"
  using occlude_out_inv[OF assms] unfolding rng_inv_def .

theorem occlude_list_invariant_witness:
  "\<exists>out ar'. occlude_list_ptr 1 (\<lambda>g. Some [Fin False (of_nat g)]) 0 [(fone, 1), (fone, 1)] fone 5 []
      \<lparr>ar_cap = 64, ar_off = 0\<rparr> = Some (Inr (out, ar')) \<and> distinct out"
proof -
  have v: "vecs_ok (\<lambda>g. Some [Fin False (of_nat g)])"
    by (auto simp: vecs_ok_def fin_vec_def)
  have "representable Binary32 1"
    using representable_of_nat[of 1 Binary32] by simp
  then have p: "pool_ok [(fone, 1), (fone, 1)]"
    by (simp add: pool_ok_def)
  have "\<exists>out ar'. occlude_list_ptr 1 (\<lambda>g. Some [Fin False (of_nat g)]) 0 [(fone, 1), (fone, 1)] fone 5 []
      \<lparr>ar_cap = 64, ar_off = 0\<rparr> = Some (Inr (out, ar'))"
    using occlude_rng[OF v, of "std_sort dist_id_lt [(fone, 1), (fone, 1)]"] p
    by (simp add: occlude_list_ptr_def arena_alloc_n_def arena_alloc_raw_def pool_ok_def del: std_sort.simps)
  then show ?thesis
    using occlude_list_invariant[OF v p] by blast
qed

text \<open>The arena request of the pair loop can be too small. For \<open>n\<close> candidates the loop ensures
  \<open>12 n\<close> bytes, then takes \<open>8 n\<close> bytes for the pool and, aligned up to 64, \<open>4 n\<close> bytes for the
  occlusion factors. Whenever the ensured capacity is exactly what was asked for and \<open>n\<close> is not a
  multiple of 8, the second allocation raises \<open>std::bad_alloc\<close> although memory is available.\<close>

theorem arena_shortfall:
  assumes "16384 \<le> 12 * n" "n mod 8 \<noteq> 0"
  shows "\<exists>ar p ar'. arena_ensure (\<lambda>b. True) (n * (8 + 4)) arena_fresh = Inr ar \<and>
    arena_alloc_n 8 n (arena_reset ar) = Inr (p, ar') \<and> arena_alloc_n 4 n ar' = Inl BadAlloc"
proof -
  let ?ar = "\<lparr>ar_cap = 12 * n, ar_off = 0\<rparr>"
  have e: "arena_ensure (\<lambda>b. True) (n * (8 + 4)) arena_fresh = Inr ?ar"
    using assms(1) by (simp add: arena_ensure_def arena_fresh_def Let_def)
  have a: "arena_alloc_n 8 n (arena_reset ?ar) = Inr (0, \<lparr>ar_cap = 12 * n, ar_off = 8 * n\<rparr>)"
    by (simp add: arena_alloc_n_def arena_alloc_raw_def arena_reset_def)
  obtain k r where n: "n = 8 * k + r" "r < 8" "0 < r"
    using assms(2) by (metis gr0I mod_less_divisor mult_div_mod_eq zero_less_numeral)
  have "(8 * n + 63) div 64 = k + 1"
    using n by (intro div_nat_eqI) simp_all
  then have "8 * n < (8 * n + 63) div 64 * 64"
    using n by simp
  then have "arena_alloc_n 4 n \<lparr>ar_cap = 12 * n, ar_off = 8 * n\<rparr> = Inl BadAlloc"
    by (simp add: arena_alloc_n_def arena_alloc_raw_def Let_def)
  then show ?thesis using e a by blast
qed

theorem arena_shortfall_witness:
  "\<exists>ar p ar'. arena_ensure (\<lambda>b. True) (1367 * (8 + 4)) arena_fresh = Inr ar \<and>
    arena_alloc_n 8 1367 (arena_reset ar) = Inr (p, ar') \<and> arena_alloc_n 4 1367 ar' = Inl BadAlloc"
  using arena_shortfall[of 1367] by simp

end
