(* ===== verification/Cross_Pairs.thy ===== *)
theory Cross_Pairs
  imports Bucket_Log Occlude
begin

text \<open>
  The stages of \<open>construction/our_construction.cpp\<close> that produce candidate records: the shards
  of the partitions, the dump of each subgraph's own edges, the anchors of a cross-pairs run, the
  search and pruning of one point against the other partition, and the loop over pairs with the
  reuse of loaded indices. A subindex is loaded by \<open>load\<close>, an argument; \<open>cmp\<close> is the distance
  kernel of its data store.
\<close>

section \<open>Shards\<close>

text \<open>The rows of partition \<open>t\<close> copied from the data file (8 byte header, rows of \<open>D\<close> floats) into a
  file of their own.\<close>

definition subshard :: "bfile \<Rightarrow> nat \<Rightarrow> nat \<Rightarrow> nat \<Rightarrow> nat \<Rightarrow> bfile res" where
  "subshard dat N D P t =
     (let off = make_offsets N P; ts = part_start off t; tsize = part_size off P N t;
          pitch = u64 (D * 4)
      in rbind (read_exact dat (u64 (8 + u64 (ts * pitch))) (u64 (tsize * pitch))) (\<lambda>(part, p).
           Inr (le_bytes 4 (u32 tsize) @ le_bytes 4 (u32 D) @ part)))"

section \<open>Self dump\<close>

definition self_dump_rec :: "nat \<Rightarrow> nat \<Rightarrow> nat list \<Rightarrow> bucket_rec option" where
  "self_dump_rec ts li nb =
     (let gid = u32 (ts + li); out = filter (\<lambda>v. v \<noteq> gid) (map (\<lambda>k. u32 (ts + k)) nb)
      in if nb = [] then None
         else if out = [] then None
         else Some \<lparr>r_gid = gid, r_ids = take (u16 (length out)) out\<rparr>)"

text \<open>The records of one partition, from its graph file.\<close>

definition self_dump_part :: "bfile option \<Rightarrow> nat \<Rightarrow> nat \<Rightarrow> bucket_rec list res" where
  "self_dump_part graph_file ts tsize =
     rbind (load_graph_to_adj_memindex graph_file tsize ([], 0, 0)) (\<lambda>(ok, adj, md, ec).
       if \<not> ok then Inl (Die ''load adj failed'')
       else Inr (List.map_filter (\<lambda>li. self_dump_rec ts li (adj ! li)) [0..<tsize]))"

section \<open>Anchors\<close>

definition anchor_range :: "args \<Rightarrow> (nat \<times> nat) res" where
  "anchor_range a =
     (let P = a_P a; dflt = (0, if 1 < P then P - 1 else 0)
      in if a_stage a = CROSS_PAIRS then
           rbind (if P < 2 then Inr (0, 0)
                  else if a_anchor_start a < 0 \<and> a_anchor_end a < 0 then Inr (0, P - 1)
                  else
                    let start = (if 0 \<le> a_anchor_start a then a_anchor_start a else 0);
                        end1 = (if 0 \<le> a_anchor_end a then a_anchor_end a else start)
                    in if start < 0 \<or> end1 < start \<or> int P - 1 \<le> end1
                       then Inl (Die ''invalid cross-pairs anchor range'')
                       else Inr (u32 (nat start), u32 (u32 (nat end1) + 1))) (\<lambda>r.
             if 0 \<le> a_target a then
               if a_anchor_start a < 0 \<or> a_anchor_end a < 0 \<or> a_anchor_start a \<noteq> a_anchor_end a
               then Inl (Die ''--target requires a single --anchor'')
               else if a_target a \<le> a_anchor_start a \<or> int P \<le> a_target a
               then Inl (Die ''--target must satisfy anchor < target < P'')
               else Inr r
             else Inr r)
         else Inr dflt)"

section \<open>One point against the other partition\<close>

text \<open>The pool: what the search visited (local ids of the other partition) and the point's own
  neighbours, without the point itself.\<close>

definition query_pool :: "nat \<Rightarrow> nat \<Rightarrow> nat list \<times> fp list \<Rightarrow> (nat \<times> fp) list \<Rightarrow> (fp \<times> nat) list" where
  "query_pool gid other_start visited self =
     filter (\<lambda>x. snd x \<noteq> gid) (map (\<lambda>(v, d). (d, u32 (other_start + v))) (zip (fst visited) (snd visited))) @
     filter (\<lambda>x. snd x \<noteq> gid) (map (\<lambda>(v, d). (d, v)) self)"

definition query_prune ::
    "nat \<Rightarrow> (nat \<Rightarrow> bool) \<Rightarrow> pair_acc \<Rightarrow> nat \<Rightarrow> nat \<Rightarrow> nat \<Rightarrow> nat list \<times> fp list \<Rightarrow> (nat \<times> fp) list \<Rightarrow> arena \<Rightarrow> (nat list \<times> arena) res option" where
  "query_prune W mem acc R gid other_start visited self ar =
     (let n = length (fst visited) + length self
      in if n = 0 then Some (Inr ([], ar))
         else case rbind (arena_ensure mem (n * (8 + 4)) ar) (\<lambda>ar1. arena_alloc_n 8 n (arena_reset ar1)) of
             Inl e \<Rightarrow> Some (Inl e)
           | Inr (p, ar2) \<Rightarrow>
               let pool = query_pool gid other_start visited self
               in if pool = [] then Some (Inr ([], ar2))
                  else occlude_list_ptr W (acc_get acc) gid pool fone R [] ar2)"

text \<open>Only ids of the other partition are written.\<close>

definition query_record :: "nat \<Rightarrow> nat \<Rightarrow> nat \<Rightarrow> nat list \<Rightarrow> bucket_rec option" where
  "query_record gid s e pruned =
     (let w = filter (\<lambda>v. s \<le> v \<and> v < e) pruned
      in if w = [] then None else Some \<lparr>r_gid = gid, r_ids = take (u16 (length w)) w\<rparr>)"

text \<open>The body of the first loop (points of partition i search partition j) and of the second.\<close>

definition pair_query_i ::
    "nat \<Rightarrow> (nat \<Rightarrow> bool) \<Rightarrow> (fp list \<Rightarrow> fp list \<Rightarrow> fp) \<Rightarrow> npq \<Rightarrow> nat \<Rightarrow> nat \<Rightarrow> pair_acc \<Rightarrow> nat \<Rightarrow> arena \<Rightarrow> (bucket_rec option \<times> arena) res option" where
  "pair_query_i W mem cmp q0 L R acc li ar =
     (let gid = u32 (pa_is acc + li); q = pa_vec_i acc li
      in case iterate_and_export_visited (pa_idx_j acc) (\<lambda>v. cmp q (pa_vec_j acc v)) q0 L of
           None \<Rightarrow> None
         | Some (Inl e) \<Rightarrow> Some (Inl e)
         | Some (Inr visited) \<Rightarrow>
             (case load_self_neighbors_and_d2 W acc li q of
                Inl e \<Rightarrow> Some (Inl e)
              | Inr self \<Rightarrow>
                  map_option (\<lambda>r. rbind r (\<lambda>(pruned, ar').
                      Inr (query_record gid (pa_js acc) (pa_je acc) pruned, ar')))
                    (query_prune W mem acc R gid (pa_js acc) visited self ar)))"

definition pair_query_j ::
    "nat \<Rightarrow> (nat \<Rightarrow> bool) \<Rightarrow> (fp list \<Rightarrow> fp list \<Rightarrow> fp) \<Rightarrow> npq \<Rightarrow> nat \<Rightarrow> nat \<Rightarrow> pair_acc \<Rightarrow> nat \<Rightarrow> arena \<Rightarrow> (bucket_rec option \<times> arena) res option" where
  "pair_query_j W mem cmp q0 L R acc lj ar =
     (let gid = u32 (pa_js acc + lj); q = pa_vec_j acc lj
      in case iterate_and_export_visited (pa_idx_i acc) (\<lambda>v. cmp q (pa_vec_i acc v)) q0 L of
           None \<Rightarrow> None
         | Some (Inl e) \<Rightarrow> Some (Inl e)
         | Some (Inr visited) \<Rightarrow>
             (case load_self_neighbors_and_d2_j W acc lj q of
                Inl e \<Rightarrow> Some (Inl e)
              | Inr self \<Rightarrow>
                  map_option (\<lambda>r. rbind r (\<lambda>(pruned, ar').
                      Inr (query_record gid (pa_is acc) (pa_ie acc) pruned, ar')))
                    (query_prune W mem acc R gid (pa_is acc) visited self ar)))"

section \<open>The loop over pairs\<close>

text \<open>\<open>l_cached\<close> is \<open>cached_next_u\<close>; \<open>l_done\<close> records, for every processed pair, the two indices used.\<close>

record 'x pair_state =
  l_cached :: "'x option"
  l_considered :: nat
  l_processed :: nat
  l_done :: "((nat \<times> nat) \<times> 'x \<times> 'x) list"

text \<open>Which index is kept for the next anchor.\<close>

definition keep_next :: "args \<Rightarrow> nat \<Rightarrow> nat \<Rightarrow> 'x \<Rightarrow> 'x option \<Rightarrow> 'x option" where
  "keep_next a i j u_j cached =
     (if 0 \<le> a_target a then cached else if j = i + 1 then Some u_j else cached)"

definition pair_turn ::
    "args \<Rightarrow> cross_mask \<Rightarrow> (nat \<Rightarrow> 'x res) \<Rightarrow> nat \<Rightarrow> 'x \<Rightarrow> nat \<Rightarrow> 'x pair_state \<Rightarrow> 'x pair_state res" where
  "pair_turn a msk load i u_i j st =
     (if 0 \<le> a_target a \<and> j \<noteq> u32 (nat (a_target a)) then Inr st
      else
        let st1 = st\<lparr>l_considered := u64 (l_considered st + 1)\<rparr>
        in if \<not> cross_pair_selected msk (a_P a) i j then Inr st1
           else
             rbind (load j) (\<lambda>u_j.
               Inr (st1\<lparr>l_processed := u64 (l_processed st + 1), l_done := l_done st @ [((i, j), u_i, u_j)],
                        l_cached := keep_next a i j u_j (l_cached st)\<rparr>)))"

definition anchor_turn ::
    "args \<Rightarrow> cross_mask \<Rightarrow> (nat \<Rightarrow> 'x res) \<Rightarrow> nat \<Rightarrow> 'x pair_state \<Rightarrow> 'x pair_state res" where
  "anchor_turn a msk load i st =
     rbind (case l_cached st of Some u \<Rightarrow> Inr u | None \<Rightarrow> load i) (\<lambda>u_i.
       rfold (pair_turn a msk load i u_i) (rev [i + 1..<a_P a]) (st\<lparr>l_cached := None\<rparr>))"

definition cross_pairs :: "args \<Rightarrow> cross_mask \<Rightarrow> (nat \<Rightarrow> 'x res) \<Rightarrow> 'x pair_state res" where
  "cross_pairs a msk load =
     rbind (anchor_range a) (\<lambda>(anchor_begin, anchor_end_exclusive).
       rfold (anchor_turn a msk load) [anchor_begin..<anchor_end_exclusive]
         \<lparr>l_cached = None, l_considered = 0, l_processed = 0, l_done = []\<rparr>)"

section \<open>What one query writes\<close>

lemma fp_pool_ok:
  assumes "\<forall>d \<in> set (snd visited). fnonneg d \<and> wf_fp Binary32 d" "\<forall>d \<in> snd ` set self. fnonneg d \<and> wf_fp Binary32 d"
  shows "pool_ok (query_pool gid os visited self)"
  using assms by (auto simp: pool_ok_def query_pool_def dest!: set_zip_rightD)

lemma query_prune_out:
  assumes "vecs_ok (acc_get acc)"
    "\<forall>d \<in> set (snd visited). fnonneg d \<and> wf_fp Binary32 d" "\<forall>d \<in> snd ` set self. fnonneg d \<and> wf_fp Binary32 d"
  shows "\<exists>r. query_prune W mem acc R gid os visited self ar = Some r \<and>
    (\<forall>out ar'. r = Inr (out, ar') \<longrightarrow> rng_inv W (acc_get acc) gid R (query_pool gid os visited self) out)"
proof -
  note ok = fp_pool_ok[OF assms(2,3), of gid os]
  have nil: "rng_inv W (acc_get acc) gid R [] []" by (simp add: rng_inv_def)
  show ?thesis
  proof (cases "length (fst visited) + length self = 0")
    case True
    then show ?thesis using nil by (simp add: query_prune_def query_pool_def)
  next
    case False
    show ?thesis
    proof (cases "rbind (arena_ensure mem ((length (fst visited) + length self) * (8 + 4)) ar)
        (\<lambda>ar1. arena_alloc_n 8 (length (fst visited) + length self) (arena_reset ar1))")
      case (Inl e)
      then show ?thesis using False unfolding query_prune_def Let_def by auto
    next
      case (Inr pa)
      obtain p ar2 where pa: "pa = (p, ar2)" by (cases pa)
      have eq: "query_prune W mem acc R gid os visited self ar =
          (if query_pool gid os visited self = [] then Some (Inr ([], ar2))
           else occlude_list_ptr W (acc_get acc) gid (query_pool gid os visited self) fone R [] ar2)"
        using False Inr pa unfolding query_prune_def Let_def by auto
      have "\<exists>r. occlude_list_ptr W (acc_get acc) gid (query_pool gid os visited self) fone R [] ar2 = Some r"
        using occlude_returns[OF assms(1) ok] by blast
      then show ?thesis
        using eq nil occlude_out_inv[OF assms(1) ok] by auto
    qed
  qed
qed

definition index_closed :: "index \<Rightarrow> nat set \<Rightarrow> bool" where
  "index_closed ix G \<longleftrightarrow> finite G \<and> set (get_init_ids ix) \<subseteq> G \<and>
     (\<forall>u \<in> G. \<exists>ns. get_neighbours (ix_graph ix) u = Inr ns \<and> set ns \<subseteq> G)"

definition l2_kernel :: "(fp list \<Rightarrow> fp list \<Rightarrow> fp) \<Rightarrow> bool" where
  "l2_kernel cmp \<longleftrightarrow> (\<forall>a b. fin_vec a \<longrightarrow> fin_vec b \<longrightarrow> fnonneg (cmp a b) \<and> wf_fp Binary32 (cmp a b))"

definition acc_finite :: "pair_acc \<Rightarrow> bool" where
  "acc_finite acc \<longleftrightarrow> (\<forall>k. fin_vec (pa_vec_i acc k) \<and> fin_vec (pa_vec_j acc k))"

lemma acc_finite_vecs_ok: "acc_finite acc \<Longrightarrow> vecs_ok (acc_get acc)"
  by (auto simp: acc_finite_def vecs_ok_def acc_get_def split: if_splits)

lemma export_run:
  assumes "index_closed ix G" "0 < L" "l2_kernel cmp" "fin_vec q" "\<forall>k. fin_vec (vec k)"
  shows "\<exists>visited. iterate_and_export_visited ix (\<lambda>v. cmp q (vec v)) q0 L = Some (Inr visited) \<and>
    distinct (fst visited) \<and> length (fst visited) = length (snd visited) \<and>
    (\<forall>d \<in> set (snd visited). fnonneg d \<and> wf_fp Binary32 d)"
proof -
  let ?d = "\<lambda>v. cmp q (vec v)"
  have g: "graph_ok ?d (get_neighbours (ix_graph ix)) G" and i: "set (get_init_ids ix) \<subseteq> G"
    using assms by (auto simp: graph_ok_def index_closed_def l2_kernel_def)
  obtain st where st: "iterate_to_fixed_point_emit ix ?d (npq_reserve (npq_clear q0) L) L (get_init_ids ix) = Some (Inr st)"
    "distinct (map nb_id (sr_expanded st))" "\<forall>n \<in> set (sr_expanded st). nb_dist n = ?d (nb_id n)"
    using emit_run[OF g assms(2) i, of "npq_reserve (npq_clear q0) L"] by blast
  moreover have "\<forall>d \<in> set (map nb_dist (sr_expanded st)). fnonneg d \<and> wf_fp Binary32 d"
    using st(3) assms(3-5) by (auto simp: l2_kernel_def)
  ultimately show ?thesis
    by (simp add: iterate_and_export_visited_def)
qed

text \<open>What a record written by a query against partition \<open>[s, e)\<close> looks like.\<close>

definition cross_rec_ok :: "nat \<Rightarrow> nat \<Rightarrow> nat \<Rightarrow> nat \<Rightarrow> bucket_rec \<Rightarrow> bool" where
  "cross_rec_ok R gid s e rec \<longleftrightarrow> r_gid rec = gid \<and> r_ids rec \<noteq> [] \<and> length (r_ids rec) \<le> R \<and>
     distinct (r_ids rec) \<and> gid \<notin> set (r_ids rec) \<and> set (r_ids rec) \<subseteq> {s..<e}"

lemma query_record_ok:
  assumes "rng_inv W get gid R pool out" "R < 2 ^ 16" "query_record gid s e out = Some rec"
  shows "cross_rec_ok R gid s e rec \<and> set (r_ids rec) = set out \<inter> {s..<e}"
proof -
  let ?w = "filter (\<lambda>v. s \<le> v \<and> v < e) out"
  have len: "length ?w \<le> R"
    using assms(1) le_trans[OF length_filter_le] by (auto simp: rng_inv_def)
  then have "rec = \<lparr>r_gid = gid, r_ids = ?w\<rparr>" "?w \<noteq> []"
    using assms(2,3) by (auto simp: query_record_def Let_def u16_id split: if_splits)
  then show ?thesis
    using assms(1) len by (auto simp: cross_rec_ok_def rng_inv_def)
qed

text \<open>The common body of both directions.\<close>

lemma query_run:
  assumes "vecs_ok (acc_get acc)" "index_closed ix G" "0 < L" "R < 2 ^ 16" "l2_kernel cmp" "fin_vec q" "\<forall>k. fin_vec (vec k)"
    and self: "\<forall>ns. selfr = Inr ns \<longrightarrow> (\<forall>d \<in> snd ` set ns. fnonneg d \<and> wf_fp Binary32 d)"
  shows "\<exists>r. (case iterate_and_export_visited ix (\<lambda>v. cmp q (vec v)) q0 L of
           None \<Rightarrow> None
         | Some (Inl e) \<Rightarrow> Some (Inl e)
         | Some (Inr visited) \<Rightarrow>
             (case selfr of
                Inl e \<Rightarrow> Some (Inl e)
              | Inr self \<Rightarrow>
                  map_option (\<lambda>r. rbind r (\<lambda>(pruned, ar'). Inr (query_record gid s e pruned, ar')))
                    (query_prune W mem acc R gid s visited self ar))) = Some r \<and>
    (\<forall>rec ar'. r = Inr (Some rec, ar') \<longrightarrow> cross_rec_ok R gid s e rec)"
proof -
  obtain visited where v: "iterate_and_export_visited ix (\<lambda>v. cmp q (vec v)) q0 L = Some (Inr visited)"
    "\<forall>d \<in> set (snd visited). fnonneg d \<and> wf_fp Binary32 d"
    using export_run[OF assms(2,3,5-7)] by blast
  show ?thesis
  proof (cases selfr)
    case (Inl e)
    then show ?thesis using v(1) by simp
  next
    case (Inr ns)
    obtain r where r: "query_prune W mem acc R gid s visited ns ar = Some r"
      "\<forall>out ar'. r = Inr (out, ar') \<longrightarrow> rng_inv W (acc_get acc) gid R (query_pool gid s visited ns) out"
      using query_prune_out[OF assms(1) v(2), of ns W mem R gid s ar] self Inr by blast
    show ?thesis
      using v(1) Inr r query_record_ok[OF _ assms(4)] by (cases r) auto
  qed
qed

lemma self_distances:
  assumes "acc_finite acc"
  shows "load_self_neighbors_and_d2 W acc li (pa_vec_i acc li) = Inr ns \<Longrightarrow> \<forall>d \<in> snd ` set ns. fnonneg d \<and> wf_fp Binary32 d"
    and "load_self_neighbors_and_d2_j W acc li (pa_vec_j acc li) = Inr ns \<Longrightarrow> \<forall>d \<in> snd ` set ns. fnonneg d \<and> wf_fp Binary32 d"
  using assms by (auto simp: load_self_neighbors_and_d2_def load_self_neighbors_and_d2_j_def acc_finite_def
      rbind_eq_Inr_iff l2sqr_nonneg l2sqr_wf)

text \<open>C38. The body of the pair loop, both directions. For finite vectors, a distance kernel that
  returns non-negative floats, indices whose edges stay inside them, L > 0 and R < 2^16, searching
  one point against the other partition always returns (with a record, without one, or with the
  error of the arena or the graph store); a record written carries the global id of the point, and
  between 1 and R ids, pairwise distinct, all of the other partition and never the point itself.\<close>

theorem pair_query_records:
  assumes "acc_finite acc" "l2_kernel cmp" "0 < L" "R < 2 ^ 16"
    "index_closed (pa_idx_i acc) Gi" "index_closed (pa_idx_j acc) Gj"
  shows "(\<exists>r. pair_query_i W mem cmp q0 L R acc li ar = Some r \<and>
      (\<forall>rec ar'. r = Inr (Some rec, ar') \<longrightarrow> cross_rec_ok R (u32 (pa_is acc + li)) (pa_js acc) (pa_je acc) rec)) \<and>
    (\<exists>r. pair_query_j W mem cmp q0 L R acc lj ar = Some r \<and>
      (\<forall>rec ar'. r = Inr (Some rec, ar') \<longrightarrow> cross_rec_ok R (u32 (pa_js acc + lj)) (pa_is acc) (pa_ie acc) rec))"
proof -
  note ok = acc_finite_vecs_ok[OF assms(1)]
  have fin: "\<forall>k. fin_vec (pa_vec_i acc k)" "\<forall>k. fin_vec (pa_vec_j acc k)"
    using assms(1) by (auto simp: acc_finite_def)
  have si: "\<forall>ns. load_self_neighbors_and_d2 W acc li (pa_vec_i acc li) = Inr ns \<longrightarrow> (\<forall>d \<in> snd ` set ns. fnonneg d \<and> wf_fp Binary32 d)"
    and sj: "\<forall>ns. load_self_neighbors_and_d2_j W acc lj (pa_vec_j acc lj) = Inr ns \<longrightarrow> (\<forall>d \<in> snd ` set ns. fnonneg d \<and> wf_fp Binary32 d)"
    using self_distances[OF assms(1)] by blast+
  show ?thesis
    unfolding pair_query_i_def pair_query_j_def Let_def
    using query_run[OF ok assms(6,3,4,2) fin(1)[rule_format] fin(2) si]
      query_run[OF ok assms(5,3,4,2) fin(2)[rule_format] fin(1) sj] by blast
qed

definition two_points :: index where
  "two_points = \<lparr>ix_max_points = 2, ix_num_frozen = 0, ix_start = 0,
     ix_graph = \<lparr>gs_capacity = 2, gs_max_range = 0, gs_max_obs = 1, gs_graph = [[1], [0]]\<rparr>\<rparr>"

theorem pair_query_records_witness:
  "\<exists>r. pair_query_i 1 (\<lambda>k. True) (l2sqr 1) (npq_new 0) 4 2
     \<lparr>pa_idx_i = two_points, pa_vec_i = (\<lambda>k. [fone]), pa_is = 0, pa_ie = 2,
      pa_idx_j = two_points, pa_vec_j = (\<lambda>k. [fzero]), pa_js = 2, pa_je = 4\<rparr> 0 arena_fresh = Some r"
proof -
  let ?acc = "\<lparr>pa_idx_i = two_points, pa_vec_i = (\<lambda>k. [fone]), pa_is = 0, pa_ie = 2,
      pa_idx_j = two_points, pa_vec_j = (\<lambda>k. [fzero]), pa_js = 2, pa_je = 4\<rparr>"
  have "acc_finite ?acc" by (simp add: acc_finite_def fin_vec_def)
  moreover have "l2_kernel (l2sqr 1)" by (simp add: l2_kernel_def l2sqr_nonneg l2sqr_wf)
  moreover have "index_closed two_points {0, 1}"
    by (auto simp: index_closed_def two_points_def get_init_ids_def get_neighbours_def u32_def)
  ultimately show ?thesis
    using pair_query_records[of ?acc "l2sqr 1" 4 2 "{0, 1}" "{0, 1}" 1 "\<lambda>k. True" "npq_new 0" 0 arena_fresh 0] by auto
qed

section \<open>Shards and self dump\<close>

lemma shard_blocks:
  assumes "k \<le> length sz" "8 + sum_list sz * w \<le> length dat"
  shows "concat (map (\<lambda>t. block dat (8 + sum_list (take t sz) * w) (sz ! t * w)) [0..<k]) = block dat 8 (sum_list (take k sz) * w)"
  using assms(1)
proof (induction k)
  case 0
  then show ?case by simp
next
  case (Suc k)
  then show ?case
    using block_split[of dat 8 "sum_list (take k sz) * w" "sz ! k * w"]
    by (simp add: sum_list_take_Suc add_mult_distrib)
qed

text \<open>Sharding: for a data file that is as long as its header says, every shard is written, with
  its own header and exactly the rows of its partition; put together in partition order the payloads
  of the shards are the payload of the data file, so no row is lost or duplicated.\<close>

theorem subshards_cover:
  assumes "0 < P" "length dat = 8 + N * (D * 4)" "length dat < 2 ^ 64" "0 < D" "N < 2 ^ 32" "D < 2 ^ 32"
  shows "\<exists>parts. length parts = P \<and> concat parts = drop 8 dat \<and>
    (\<forall>t < P. subshard dat N D P t =
       Inr (le_bytes 4 (part_size (make_offsets N P) P N t) @ le_bytes 4 D @ parts ! t) \<and>
       parts ! t = block dat (8 + part_start (make_offsets N P) t * (D * 4)) (part_size (make_offsets N P) P N t * (D * 4)))"
proof -
  let ?sz = "part_sizes N P" and ?w = "D * 4"
  let ?part = "\<lambda>t. block dat (8 + sum_list (take t ?sz) * ?w) (?sz ! t * ?w)"
  have len: "length ?sz = P" by (simp add: part_sizes_def)
  have N: "N < 2 ^ 64" using assms(5) by simp
  have in_file: "8 + sum_list (take t ?sz) * ?w + ?sz ! t * ?w \<le> length dat" if "t < P" for t
    using that sum_list_take_le[of "Suc t" ?sz] sum_part_sizes[OF assms(1), of N] len
    by (simp add: assms(2) sum_list_take_Suc flip: add_mult_distrib)
  have sh: "subshard dat N D P t = Inr (le_bytes 4 (?sz ! t) @ le_bytes 4 D @ ?part t)" if t: "t < P" for t
  proof -
    note b = part_bounds[OF assms(1) N t]
    have "?sz ! t \<le> N" using b(4) b(2) len t by (simp add: sum_list_take_Suc)
    then have "?sz ! t < 2 ^ 32" using assms(5) by linarith
    moreover have "8 + sum_list (take t ?sz) * ?w < 2 ^ 64" "?sz ! t * ?w < 2 ^ 64"
      using in_file[OF t] assms(3) by linarith+
    moreover have "?w < 2 ^ 64"
      using assms(6) by simp
    moreover have "sum_list (take t ?sz) * ?w < 2 ^ 64"
      using in_file[OF t] assms(3) by linarith
    ultimately show ?thesis
      using in_file[OF t] assms(6) b(1,3)
      by (simp add: subshard_def Let_def read_exact_def u64_id u32_id del: power_numeral)
  qed
  have "concat (map ?part [0..<P]) = drop 8 dat"
    using shard_blocks[of P ?sz ?w dat] sum_part_sizes[OF assms(1), of N] len assms(2)
    by (simp add: block_def)
  then show ?thesis
    using sh part_bounds[OF assms(1) N] by (intro exI[of _ "map ?part [0..<P]"]) simp
qed

theorem subshards_cover_witness:
  "subshard (replicate 8 0 @ replicate 12 1) 3 1 2 1 = Inr (le_bytes 4 1 @ le_bytes 4 1 @ replicate 4 1)"
proof -
  have o: "make_offsets 3 2 = [0, 2]"
    by (simp add: make_offsets_def u64_def upt_conv_Cons)
  have "part_start [0, 2] 1 = 2" "part_size [0, 2] 2 3 1 = 1"
    by (simp_all add: part_start_def part_size_def part_end_def sub64_id)
  then show ?thesis
    using subshards_cover[of 2 "replicate 8 0 @ replicate 12 1" 3 1] unfolding o
    by (auto simp: block_def)
qed

lemma self_dump_run:
  assumes "n \<le> length (gs_graph gs)" "rows_fit (take n (gs_graph gs))"
    "\<forall>row \<in> set (take n (gs_graph gs)). set row \<subseteq> {..<n} \<and> length row < 2 ^ 16" "ts + n < 2 ^ 32"
  shows "\<exists>f. save_graph gs n frozen start = Inr (f, length f) \<and>
    (n \<noteq> tsize \<longrightarrow> self_dump_part (Some f) ts tsize = Inl (Die ''load adj failed'')) \<and>
    (n = tsize \<longrightarrow> self_dump_part (Some f) ts tsize =
      Inr (map (\<lambda>li. \<lparr>r_gid = ts + li, r_ids = map ((+) ts) (filter (\<lambda>v. v \<noteq> li) (gs_graph gs ! li))\<rparr>)
        (filter (\<lambda>li. filter (\<lambda>v. v \<noteq> li) (gs_graph gs ! li) \<noteq> []) [0..<n])))"
proof -
  obtain f where f: "save_graph gs n frozen start = Inr (f, length f)"
    "load_graph_to_adj_memindex (Some f) tsize ([], 0, 0) =
      Inr (n = tsize, take n (gs_graph gs), max_deg_of (take n (gs_graph gs)), sum_list (map length (take n (gs_graph gs))))"
    using save_then_adj[OF assms(1,2)] by blast
  have rec: "self_dump_rec ts li (gs_graph gs ! li) =
      (if filter (\<lambda>v. v \<noteq> li) (gs_graph gs ! li) = [] then None
       else Some \<lparr>r_gid = ts + li, r_ids = map ((+) ts) (filter (\<lambda>v. v \<noteq> li) (gs_graph gs ! li))\<rparr>)" if li: "li < n" for li
  proof -
    let ?row = "gs_graph gs ! li"
    have "?row \<in> set (take n (gs_graph gs))"
      using assms(1) li by (auto simp: in_set_conv_nth)
    then have row: "set ?row \<subseteq> {..<n}" "length ?row < 2 ^ 16"
      using assms(3) by blast+
    then have m: "map (\<lambda>k. u32 (ts + k)) ?row = map ((+) ts) ?row"
      using assms(4) by (auto simp: u32_id)
    have fl: "filter (\<lambda>v. v \<noteq> ts + li) (map ((+) ts) ?row) = map ((+) ts) (filter (\<lambda>v. v \<noteq> li) ?row)"
      by (simp add: filter_map comp_def)
    have "length (filter (\<lambda>v. v \<noteq> li) ?row) < 2 ^ 16"
      using row(2) le_less_trans[OF length_filter_le] by blast
    then have "u16 (length (map ((+) ts) (filter (\<lambda>v. v \<noteq> li) ?row))) = length (map ((+) ts) (filter (\<lambda>v. v \<noteq> li) ?row))"
      by (simp add: u16_id)
    moreover have "u32 (ts + li) = ts + li"
      using assms(4) li by (simp add: u32_id)
    ultimately show ?thesis
      unfolding self_dump_rec_def Let_def m by (simp only: fl) auto
  qed
  have "List.map_filter (\<lambda>li. self_dump_rec ts li (take n (gs_graph gs) ! li)) is =
      map (\<lambda>li. \<lparr>r_gid = ts + li, r_ids = map ((+) ts) (filter (\<lambda>v. v \<noteq> li) (gs_graph gs ! li))\<rparr>)
        (filter (\<lambda>li. filter (\<lambda>v. v \<noteq> li) (gs_graph gs ! li) \<noteq> []) is)" if "set is \<subseteq> {..<n}" for "is"
    using that by (induction "is") (auto simp: map_filter_simps rec)
  from this[of "[0..<n]"] have "List.map_filter (\<lambda>li. self_dump_rec ts li (take n (gs_graph gs) ! li)) [0..<n] =
      map (\<lambda>li. \<lparr>r_gid = ts + li, r_ids = map ((+) ts) (filter (\<lambda>v. v \<noteq> li) (gs_graph gs ! li))\<rparr>)
        (filter (\<lambda>li. filter (\<lambda>v. v \<noteq> li) (gs_graph gs ! li) \<noteq> []) [0..<n])"
    by (simp add: subset_iff)
  then show ?thesis
    using f by (auto simp: self_dump_part_def)
qed

text \<open>The self dump of a partition: from the graph file that the subindex build saved it emits,
  for exactly the points with a neighbour other than themselves, one record with the point's global
  id and all its other neighbours as global ids of the same partition; a file with another number of
  nodes is refused.\<close>

theorem self_dump_of_saved:
  assumes "n \<le> length (gs_graph gs)" "rows_fit (take n (gs_graph gs))"
    "\<forall>row \<in> set (take n (gs_graph gs)). set row \<subseteq> {..<n} \<and> length row < 2 ^ 16" "ts + n < 2 ^ 32"
  shows "\<exists>f. save_graph gs n frozen start = Inr (f, length f) \<and>
    (n \<noteq> tsize \<longrightarrow> self_dump_part (Some f) ts tsize = Inl (Die ''load adj failed'')) \<and>
    (n = tsize \<longrightarrow> self_dump_part (Some f) ts tsize =
      Inr (map (\<lambda>li. \<lparr>r_gid = ts + li, r_ids = map ((+) ts) (filter (\<lambda>v. v \<noteq> li) (gs_graph gs ! li))\<rparr>)
        (filter (\<lambda>li. filter (\<lambda>v. v \<noteq> li) (gs_graph gs ! li) \<noteq> []) [0..<n])))"
  by (rule self_dump_run[OF assms])

theorem self_dump_of_saved_witness:
  "\<exists>f. save_graph \<lparr>gs_capacity = 2, gs_max_range = 0, gs_max_obs = 2, gs_graph = [[1], [1]]\<rparr> 2 0 0 = Inr (f, length f) \<and>
    self_dump_part (Some f) 5 2 = Inr [\<lparr>r_gid = 5, r_ids = [6]\<rparr>]"
proof -
  let ?gs = "\<lparr>gs_capacity = 2, gs_max_range = 0, gs_max_obs = 2, gs_graph = [[1], [1 :: nat]]\<rparr>"
  have "rows_fit [[1], [1]]" by (simp add: rows_fit_def)
  then have "\<exists>f. save_graph ?gs 2 0 0 = Inr (f, length f) \<and> self_dump_part (Some f) 5 2 =
      Inr (map (\<lambda>li. \<lparr>r_gid = 5 + li, r_ids = map ((+) 5) (filter (\<lambda>v. v \<noteq> li) (gs_graph ?gs ! li))\<rparr>)
        (filter (\<lambda>li. filter (\<lambda>v. v \<noteq> li) (gs_graph ?gs ! li) \<noteq> []) [0..<2]))"
    using self_dump_of_saved[of 2 ?gs 5 0 0 2] by simp
  then show ?thesis
    by (simp add: upt_conv_Cons)
qed

section \<open>Which pairs are processed, with which indices\<close>

definition pairs_of :: "args \<Rightarrow> cross_mask \<Rightarrow> nat \<Rightarrow> nat list" where
  "pairs_of a msk i = filter (\<lambda>j. (0 \<le> a_target a \<longrightarrow> j = u32 (nat (a_target a))) \<and> cross_pair_selected msk (a_P a) i j)
     (rev [i + 1..<a_P a])"

lemma pair_turns:
  assumes "\<forall>k. load k = Inr (ix k)" "l_cached st0 = None"
  shows "\<exists>st. rfold (pair_turn a msk load i (ix i)) js st0 = Inr st \<and>
    l_done st = l_done st0 @ map (\<lambda>j. ((i, j), ix i, ix j))
      (filter (\<lambda>j. (0 \<le> a_target a \<longrightarrow> j = u32 (nat (a_target a))) \<and> cross_pair_selected msk (a_P a) i j) js) \<and>
    (l_cached st = None \<or> l_cached st = Some (ix (i + 1)))"
proof -
  have "\<exists>st. rfold (pair_turn a msk load i (ix i)) js st1 = Inr st \<and>
    l_done st = l_done st1 @ map (\<lambda>j. ((i, j), ix i, ix j))
      (filter (\<lambda>j. (0 \<le> a_target a \<longrightarrow> j = u32 (nat (a_target a))) \<and> cross_pair_selected msk (a_P a) i j) js) \<and>
    (l_cached st = None \<or> l_cached st = Some (ix (i + 1)))"
    if "l_cached st1 = None \<or> l_cached st1 = Some (ix (i + 1))" for st1
    using that
  proof (induction js arbitrary: st1)
    case Nil
    then show ?case by simp
  next
    case (Cons j js)
    have "\<exists>st2. pair_turn a msk load i (ix i) j st1 = Inr st2 \<and>
      (l_cached st2 = None \<or> l_cached st2 = Some (ix (i + 1))) \<and>
      l_done st2 = l_done st1 @ (if (0 \<le> a_target a \<longrightarrow> j = u32 (nat (a_target a))) \<and> cross_pair_selected msk (a_P a) i j
         then [((i, j), ix i, ix j)] else [])"
      using Cons.prems assms(1) by (auto simp: pair_turn_def keep_next_def Let_def)
    then obtain st2 where st2: "pair_turn a msk load i (ix i) j st1 = Inr st2"
      "l_cached st2 = None \<or> l_cached st2 = Some (ix (i + 1))"
      "l_done st2 = l_done st1 @ (if (0 \<le> a_target a \<longrightarrow> j = u32 (nat (a_target a))) \<and> cross_pair_selected msk (a_P a) i j
         then [((i, j), ix i, ix j)] else [])"
      by blast
    then show ?case
      using Cons.IH[OF st2(2)] by auto
  qed
  then show ?thesis using assms(2) by blast
qed

lemma anchor_turns:
  assumes "\<forall>k. load k = Inr (ix k)"
  shows "l_cached st0 = None \<or> l_cached st0 = Some (ix b) \<Longrightarrow>
    \<exists>st. rfold (anchor_turn a msk load) [b..<e] st0 = Inr st \<and>
      l_done st = l_done st0 @ concat (map (\<lambda>i. map (\<lambda>j. ((i, j), ix i, ix j)) (pairs_of a msk i)) [b..<e])"
proof (induction "e - b" arbitrary: b st0)
  case 0
  then show ?case by simp
next
  case (Suc k)
  have be: "b < e" using Suc.hyps(2) by simp
  have u: "(case l_cached st0 of Some u \<Rightarrow> Inr u | None \<Rightarrow> load b) = Inr (ix b)"
    using Suc.prems assms by auto
  obtain st1 where st1: "rfold (pair_turn a msk load b (ix b)) (rev [b + 1..<a_P a]) (st0\<lparr>l_cached := None\<rparr>) = Inr st1"
    "l_done st1 = l_done st0 @ map (\<lambda>j. ((b, j), ix b, ix j)) (pairs_of a msk b)"
    "l_cached st1 = None \<or> l_cached st1 = Some (ix (b + 1))"
    using pair_turns[OF assms, of "st0\<lparr>l_cached := None\<rparr>" a msk b "rev [b + 1..<a_P a]"] by (auto simp: pairs_of_def)
  have k: "k = e - Suc b" using Suc.hyps(2) by simp
  have c: "l_cached st1 = None \<or> l_cached st1 = Some (ix (Suc b))" using st1(3) by simp
  obtain st2 where "rfold (anchor_turn a msk load) [Suc b..<e] st1 = Inr st2"
    "l_done st2 = l_done st1 @ concat (map (\<lambda>i. map (\<lambda>j. ((i, j), ix i, ix j)) (pairs_of a msk i)) [Suc b..<e])"
    using Suc.hyps(1)[OF k c] by blast
  moreover have "rfold (anchor_turn a msk load) [b..<e] st0 = rfold (anchor_turn a msk load) [Suc b..<e] st1"
    using be u st1(1) by (simp add: upt_conv_Cons anchor_turn_def)
  ultimately show ?case
    using be st1(2) by (simp add: upt_conv_Cons)
qed

lemma cross_pairs_done:
  assumes "\<forall>k. load k = Inr (ix k)" "anchor_range a = Inr (b, e)"
  shows "\<exists>st. cross_pairs a msk load = Inr st \<and>
    l_done st = concat (map (\<lambda>i. map (\<lambda>j. ((i, j), ix i, ix j)) (pairs_of a msk i)) [b..<e])"
  using anchor_turns[OF assms(1), of "\<lparr>l_cached = None, l_considered = 0, l_processed = 0, l_done = []\<rparr>" b a msk e] assms(2)
  by (auto simp: cross_pairs_def)

text \<open>C22. The pair loop: in a full run (stage all or pair-processing) whose subindices load, every
  unordered pair of distinct partitions that the mask selects is processed exactly once, as (i, j)
  with i < j, and the two indices used are those of partitions i and j; handing the index of
  partition i + 1 on to the next anchor never confuses partitions.\<close>

theorem cross_pairs_once:
  assumes "\<forall>k. load k = Inr (ix k)" "a_stage a \<noteq> CROSS_PAIRS" "a_target a < 0"
  shows "\<exists>st. cross_pairs a msk load = Inr st \<and> distinct (map fst (l_done st)) \<and>
    set (map fst (l_done st)) = {(i, j). i < j \<and> j < a_P a \<and> cross_pair_selected msk (a_P a) i j} \<and>
    (\<forall>((i, j), u, v) \<in> set (l_done st). u = ix i \<and> v = ix j)"
proof -
  have r: "anchor_range a = Inr (0, if 1 < a_P a then a_P a - 1 else 0)"
    using assms(2) by (simp add: anchor_range_def Let_def)
  obtain st where st: "cross_pairs a msk load = Inr st"
    "l_done st = concat (map (\<lambda>i. map (\<lambda>j. ((i, j), ix i, ix j)) (pairs_of a msk i)) [0..<if 1 < a_P a then a_P a - 1 else 0])"
    using cross_pairs_done[of load ix a 0 "if 1 < a_P a then a_P a - 1 else 0" msk] assms(1) r by auto
  have p: "pairs_of a msk i = filter (cross_pair_selected msk (a_P a) i) (rev [i + 1..<a_P a])" for i
    using assms(3) by (simp add: pairs_of_def)
  have fst: "map fst (l_done st) = concat (map (\<lambda>i. map (Pair i) (pairs_of a msk i)) [0..<if 1 < a_P a then a_P a - 1 else 0])"
    unfolding st(2) map_concat by (simp add: comp_def)
  have "distinct (concat (map (\<lambda>i. map (Pair i) (pairs_of a msk i)) is))" if "distinct is" for "is"
    using that by (induction "is") (auto simp: p distinct_map inj_on_def)
  then have "distinct (map fst (l_done st))"
    unfolding fst by simp
  moreover have "set (map fst (l_done st)) = {(i, j). i < j \<and> j < a_P a \<and> cross_pair_selected msk (a_P a) i j}"
  proof (rule set_eqI)
    fix x :: "nat \<times> nat"
    obtain i j where x: "x = (i, j)" by (cases x)
    have "x \<in> set (map fst (l_done st)) \<longleftrightarrow> i < (if 1 < a_P a then a_P a - 1 else 0) \<and> j \<in> set (pairs_of a msk i)"
      unfolding fst x by auto
    also have "\<dots> \<longleftrightarrow> i < j \<and> j < a_P a \<and> cross_pair_selected msk (a_P a) i j"
      by (auto simp: p)
    finally show "x \<in> set (map fst (l_done st)) \<longleftrightarrow> x \<in> {(i, j). i < j \<and> j < a_P a \<and> cross_pair_selected msk (a_P a) i j}"
      by (simp add: x)
  qed
  moreover have "\<forall>((i, j), u, v) \<in> set (l_done st). u = ix i \<and> v = ix j"
    by (auto simp: st(2))
  ultimately show ?thesis
    using st(1) by blast
qed

theorem cross_pairs_once_witness:
  "\<exists>st. cross_pairs (args_default\<lparr>a_P := 3\<rparr>) \<lparr>m_enabled = False, m_selected_pairs = 0, m_selected = []\<rparr> (\<lambda>k. Inr k) = Inr st \<and>
    set (map fst (l_done st)) = {(0, 1), (0, 2), (1, 2)}"
proof -
  have "{(i, j). i < j \<and> j < (3 :: nat)} = {(0, 1), (0, 2), (1, 2)}"
    by auto
  then show ?thesis
    using cross_pairs_once[of "\<lambda>k. Inr k" "\<lambda>k. k" "args_default\<lparr>a_P := 3\<rparr>" "\<lparr>m_enabled = False, m_selected_pairs = 0, m_selected = []\<rparr>"]
    by (auto simp: args_default_def cross_pair_selected_def)
qed

end
