(* ===== verification/Os_Write.thy ===== *)
theory Os_Write
  imports Bytes
begin

text \<open>
  The write loops of the construction tools: \<open>while (done < bytes) { n = write(...); if (n < 0) die(...);
  done += n; }\<close>. The operating system's answer is the argument \<open>wr off want\<close>, the count returned for
  \<open>want\<close> bytes at \<open>off\<close>. A loop whose writes make no progress does not return (\<open>None\<close>).
\<close>

partial_function (option) pwrite_all ::
    "string \<Rightarrow> (nat \<Rightarrow> nat \<Rightarrow> int) \<Rightarrow> nat \<Rightarrow> bfile \<Rightarrow> nat \<Rightarrow> byte list \<Rightarrow> nat \<Rightarrow> bfile res option" where
  "pwrite_all msg wr cap f off buf did =
     (if did < length buf then
        let n = wr (off + did) (min cap (length buf - did))
        in if n < 0 then Some (Inl (Die msg))
           else pwrite_all msg wr cap (pwrite f (off + did) (block buf did (nat n))) off buf (did + nat n)
      else Some (Inr f))"

text \<open>A disk that works: every call transfers between one byte and all of them.\<close>

definition io_mode :: "(nat \<Rightarrow> nat \<Rightarrow> int) \<Rightarrow> bool" where
  "io_mode wr \<longleftrightarrow> (\<forall>off want. 0 < want \<longrightarrow> 0 < wr off want \<and> wr off want \<le> int want)"

lemma pwrite_pwrite: "pwrite (pwrite f off xs) (off + length xs) ys = pwrite f off (xs @ ys)"
proof -
  let ?p = "take off f @ replicate (off - length f) 0"
  have p: "length ?p = off" by simp
  have "pwrite f off xs = (?p @ xs) @ drop (off + length xs) f"
    by (simp add: pwrite_def)
  moreover have "length (?p @ xs) = off + length xs"
    using p by simp
  ultimately show ?thesis
    by (simp add: pwrite_def ac_simps)
qed

lemma pwrite_all_content:
  assumes "io_mode wr" "0 < cap" "off \<le> length f"
  shows "pwrite_all msg wr cap f off buf 0 = Some (Inr (pwrite f off buf))"
proof -
  have "pwrite_all msg wr cap (pwrite f off (take k buf)) off buf k = Some (Inr (pwrite f off buf))"
    if "k \<le> length buf" for k
    using that
  proof (induction "length buf - k" arbitrary: k rule: less_induct)
    case less
    show ?case
    proof (cases "k < length buf")
      case False
      then have "k = length buf" using less.prems by simp
      then show ?thesis by (subst pwrite_all.simps) simp
    next
      case True
      define n where "n = wr (off + k) (min cap (length buf - k))"
      have "0 < min cap (length buf - k)" using True assms(2) by simp
      then have "0 < n \<and> n \<le> int (min cap (length buf - k))"
        using assms(1) unfolding io_mode_def n_def by blast
      then have n: "0 < n" "k + nat n \<le> length buf" "length buf - (k + nat n) < length buf - k"
        using True by linarith+
      have len: "length (take k buf) = k" using less.prems by simp
      have "pwrite (pwrite f off (take k buf)) (off + k) (block buf k (nat n)) = pwrite f off (take k buf @ block buf k (nat n))"
        using pwrite_pwrite[of f off "take k buf" "block buf k (nat n)"] unfolding len .
      also have "take k buf @ block buf k (nat n) = take (k + nat n) buf"
        by (simp add: block_def take_add)
      finally have "pwrite (pwrite f off (take k buf)) (off + k) (block buf k (nat n)) = pwrite f off (take (k + nat n) buf)" .
      then show ?thesis
        using less.hyps[OF n(3,2)] True n(1) by (subst pwrite_all.simps) (simp flip: n_def)
    qed
  qed
  from this[of 0] show ?thesis
    using assms(3) by (simp add: pwrite_def)
qed

lemma pwrite_all_append:
  "io_mode wr \<Longrightarrow> 0 < cap \<Longrightarrow> pwrite_all msg wr cap f (length f) buf 0 = Some (Inr (f @ buf))"
  by (simp add: pwrite_all_content pwrite_end)

end
