(* ===== verification/Reverse_Edge.thy ===== *)
theory Reverse_Edge
  imports Cand_File Graph_Store Config Os_Write Partition
begin

text \<open>
  \<open>construction/reverse_edge_logic.cpp\<close>: from a directed graph file it writes candidate files in which
  every point has its own neighbours and the points that point to it. The graph is read once to count
  nodes, once to count candidates, and once per stripe of points that fits the memory budget.
  \<open>wi\<close> and \<open>ws\<close> are the operating system's answers to the writes of \<open>cand.idx\<close> and \<open>cand.ids\<close>.
\<close>

section \<open>Arguments\<close>

record re_args =
  re_graph_path :: string
  re_data_path :: string
  re_out_prefix :: string
  re_R :: nat
  re_P :: nat
  re_safety_frac :: fp
  re_max_mib :: nat
  re_memory_budget_bytes :: nat
  re_verbose :: bool

definition re_args_default :: re_args where
  "re_args_default = \<lparr>re_graph_path = [], re_data_path = [], re_out_prefix = [], re_R = 32, re_P = 0,
     re_safety_frac = fround Binary32 False (1 / 20), re_max_mib = 1536, re_memory_budget_bytes = 0, re_verbose = True\<rparr>"

definition re_flags :: "(string \<times> (string \<Rightarrow> re_args \<Rightarrow> re_args res)) list" where
  "re_flags =
     [(''--graph='', \<lambda>v a. Inr (a\<lparr>re_graph_path := v\<rparr>)),
      (''--data='', \<lambda>v a. Inr (a\<lparr>re_data_path := v\<rparr>)),
      (''--out-prefix='', \<lambda>v a. Inr (a\<lparr>re_out_prefix := v\<rparr>)),
      (''--R='', \<lambda>v a. rbind (stoull v) (\<lambda>n. Inr (a\<lparr>re_R := u32 n\<rparr>))),
      (''--P='', \<lambda>v a. rbind (stoull v) (\<lambda>n. Inr (a\<lparr>re_P := u32 n\<rparr>))),
      (''--safety-frac='', \<lambda>v a. rbind (stof v) (\<lambda>x. Inr (a\<lparr>re_safety_frac := x\<rparr>))),
      (''--max-mib='', \<lambda>v a. rbind (stoull v) (\<lambda>n. Inr (a\<lparr>re_max_mib := n\<rparr>))),
      (''--memory-budget-bytes='', \<lambda>v a. rbind (stoull v) (\<lambda>n. Inr (a\<lparr>re_memory_budget_bytes := n\<rparr>)))]"

text \<open>\<open>--quiet\<close> is compared as a whole; none of the keys is a prefix of it.\<close>

definition re_parse_flags :: "string list \<Rightarrow> re_args \<Rightarrow> re_args res" where
  "re_parse_flags argv a =
     rfold (\<lambda>s a. if s = ''--quiet'' then Inr (a\<lparr>re_verbose := False\<rparr>) else flag_chain re_flags s a) (drop 1 argv) a"

text \<open>The head of \<open>main\<close>: \<open>Inr None\<close> is the usage message (exit status 1).\<close>

definition re_main_args :: "string list \<Rightarrow> re_args option res" where
  "re_main_args argv =
     (if length argv < 2 then Inr None
      else rbind (re_parse_flags argv re_args_default) (\<lambda>a.
        if re_graph_path a = [] \<or> re_data_path a = [] \<or> re_out_prefix a = [] then Inl (Die ''missing required flags'')
        else if re_P a = 0 then Inl (Die ''please pass --P=<partitions>'')
        else Inr (Some a)))"

section \<open>Reading the graph\<close>

definition read_u32 :: "bfile \<Rightarrow> nat \<Rightarrow> (nat \<times> nat) res" where
  "read_u32 f p = rbind (read_exact f p 4) (\<lambda>(bs, p'). Inr (le_nat bs, p'))"

text \<open>\<open>seekg\<close> past the end of a file succeeds; the next read fails.\<close>

definition skip_bytes :: "nat \<Rightarrow> nat \<Rightarrow> nat" where
  "skip_bytes p n = p + n"

function count_nodes :: "bfile \<Rightarrow> nat \<Rightarrow> nat \<Rightarrow> nat res" where
  "count_nodes f p N =
     (if length f \<le> p then Inr N
      else case read_u32 f p of
             Inl e \<Rightarrow> Inl e
           | Inr (deg, p1) \<Rightarrow> count_nodes f (skip_bytes p1 (deg * 4)) (u64 (N + 1)))"
  by pat_completeness auto
termination
  by (relation "measure (\<lambda>(f, p, N). length f - p)")
    (auto simp: read_u32_def read_exact_def skip_bytes_def rbind_eq_Inr_iff split: if_splits)

declare count_nodes.simps [simp del]

definition count_node :: "bfile \<Rightarrow> nat \<Rightarrow> nat \<Rightarrow> nat \<times> nat list \<Rightarrow> (nat \<times> nat list) res" where
  "count_node f N u st =
     rbind (read_u32 f (fst st)) (\<lambda>(deg, p1).
       rfold (\<lambda>i (p, cnt). rbind (read_u32 f p) (\<lambda>(v, p').
                if N \<le> v then Inl (Die ''neighbor id out of range'')
                else Inr (p', cnt[v := u32 (cnt ! v + 1)])))
         [0..<deg] (p1, (snd st)[u := u32 (snd st ! u + deg)]))"

definition off_elems_of :: "nat list \<Rightarrow> nat list" where
  "off_elems_of cnt = map u64 (prefix_sums 0 cnt)"

section \<open>The index file\<close>

definition re_row_block :: nat where "re_row_block = 2 ^ 20"

function write_row_blocks :: "(nat \<Rightarrow> nat \<Rightarrow> int) \<Rightarrow> nat list \<Rightarrow> nat list \<Rightarrow> nat \<Rightarrow> nat \<Rightarrow> bfile \<Rightarrow> bfile res option" where
  "write_row_blocks wi off cnt N base idx =
     (if base < N then
        let rows_this = min re_row_block (N - base);
            rows = concat (map (\<lambda>i. cand_idx_row (u64 (off ! (base + i) * 4)) (cnt ! (base + i))) [0..<rows_this])
        in case pwrite_all ''write cand.idx rows'' wi (length rows) idx (length idx) rows 0 of
             Some (Inr idx') \<Rightarrow> write_row_blocks wi off cnt N (base + re_row_block) idx'
           | r \<Rightarrow> r
      else Some (Inr idx))"
  by pat_completeness auto
termination
  by (relation "measure (\<lambda>(wi, off, cnt, N, base, idx). N - base)") (auto simp: re_row_block_def)

declare write_row_blocks.simps [simp del]

text \<open>A single \<open>write\<close> that must take everything.\<close>

definition write_once :: "(nat \<Rightarrow> nat \<Rightarrow> int) \<Rightarrow> string \<Rightarrow> bfile \<Rightarrow> nat \<Rightarrow> byte list \<Rightarrow> bfile res" where
  "write_once wr msg f off bs = (if wr off (length bs) = int (length bs) then Inr (pwrite f off bs) else Inl (Die msg))"

definition prepare_ids :: "(nat \<Rightarrow> nat \<Rightarrow> int) \<Rightarrow> nat \<Rightarrow> bfile res" where
  "prepare_ids ws total_ids =
     rbind (write_once ws ''write cand.ids hdr'' [] 0 (cand_ids_hdr total_ids)) (\<lambda>ids.
       if total_ids \<noteq> 0 then write_once ws ''prealloc write'' ids (32 + total_ids * 4 - 1) [0] else Inr ids)"

section \<open>Stripes\<close>

definition ids_bytes_of :: "nat list \<Rightarrow> nat \<Rightarrow> nat \<Rightarrow> nat" where
  "ids_bytes_of off lo hi = u64 (sub64 (off ! hi) (off ! lo) * 4)"

definition re_budget :: "re_args \<Rightarrow> nat \<Rightarrow> nat \<Rightarrow> nat res" where
  "re_budget a N D =
     (if 0 < re_memory_budget_bytes a then Inr (re_memory_budget_bytes a)
      else
        let num = f_of_nat X87; mul = fmul X87;
            per_node = fadd X87 (mul (num D) (num 4)) (mul (num (re_R a)) (num 4))
        in case f_to_u64 (fdiv X87 (mul (mul (num 2) (num N)) per_node) (num (re_P a))) of
             None \<Rightarrow> Inl OutOfRange | Some b \<Rightarrow> Inr b)"

definition re_safety :: "re_args \<Rightarrow> nat \<Rightarrow> nat res" where
  "re_safety a budget =
     (case f_to_u64 (fmul X87 (f_of_nat X87 budget) (re_safety_frac a)) of None \<Rightarrow> Inl OutOfRange | Some s \<Rightarrow> Inr s)"

definition dyn_overhead :: "nat \<Rightarrow> nat \<Rightarrow> nat" where
  "dyn_overhead N U = u64 (u64 (4 * N + 8 * (N + 1)) + 8 * U + 4 * 1024 * 1024)"

definition avail_for_U :: "nat \<Rightarrow> nat \<Rightarrow> nat \<Rightarrow> nat \<Rightarrow> nat \<Rightarrow> nat" where
  "avail_for_U budget safety max_mib N U =
     (if U = 0 then 0
      else
        let avail = (if safety < budget then budget - safety else 0)
        in if avail \<le> dyn_overhead N U then 0
           else
             case f_to_u64 (fmul X87 (f_of_nat X87 (avail - dyn_overhead N U)) (Fin False (3 / 4))) of
               None \<Rightarrow> 0
             | Some avail2 \<Rightarrow>
                 if avail2 = 0 then 0
                 else if max_mib \<noteq> 0 then min avail2 (u64 (max_mib * 1024 * 1024)) else avail2)"

text \<open>The binary search; \<open>lo < L\<close> always holds.\<close>

function pick_search :: "(nat \<Rightarrow> nat) \<Rightarrow> nat list \<Rightarrow> nat \<Rightarrow> nat \<Rightarrow> nat \<Rightarrow> nat \<Rightarrow> nat" where
  "pick_search avail off lo L R best =
     (if L \<le> R \<and> lo < L then
        let mid = (L + R) div 2; av = avail (mid - lo)
        in if av = 0 then pick_search avail off lo L (mid - 1) best
           else if ids_bytes_of off lo mid \<le> av then pick_search avail off lo (mid + 1) R mid
           else pick_search avail off lo L (mid - 1) best
      else best)"
  by pat_completeness auto
termination
  by (relation "measure (\<lambda>(avail, off, lo, L, R, best). R + 1 - L)") auto

declare pick_search.simps [simp del]

definition pick_hi :: "(nat \<Rightarrow> nat) \<Rightarrow> nat list \<Rightarrow> nat \<Rightarrow> nat \<Rightarrow> nat" where
  "pick_hi avail off N lo = pick_search avail off lo (lo + 1) N (lo + 1)"

text \<open>A copy to the cursor of a key. The forward copy is not checked by the program (leaving the buffer
  is undefined); the reverse copy is.\<close>

definition put_bytes :: "nat \<Rightarrow> err \<times> nat \<times> byte list \<Rightarrow> byte list \<times> nat list \<Rightarrow> (byte list \<times> nat list) res" where
  "put_bytes stripe_bytes x s =
     (case x of (e, k, bs) \<Rightarrow>
        if stripe_bytes < snd s ! k + length bs then Inl e
        else Inr (blit (fst s) (snd s ! k) bs, (snd s)[k := u64 (snd s ! k + length bs)]))"

definition stripe_node ::
    "bfile \<Rightarrow> nat \<Rightarrow> nat \<Rightarrow> nat \<Rightarrow> nat \<Rightarrow> nat \<times> byte list \<times> nat list \<Rightarrow> (nat \<times> byte list \<times> nat list) res" where
  "stripe_node f lo hi stripe_bytes u st =
     rbind (read_u32 f (fst st)) (\<lambda>(deg, p1).
     rbind (if deg = 0 then Inr ([], p1) else read_exact f p1 (deg * 4)) (\<lambda>(bs, p2).
     rbind (if lo \<le> u \<and> u < hi then put_bytes stripe_bytes (OutOfRange, u - lo, bs) (snd st) else Inr (snd st)) (\<lambda>s1.
     rbind (rfold (\<lambda>v s. if lo \<le> v \<and> v < hi then put_bytes stripe_bytes (Die ''cursor overflow'', v - lo, le_bytes 4 u) s else Inr s)
              (dec32 bs) s1) (\<lambda>s2. Inr (p2, s2)))))"

definition resize_bytes :: "byte list \<Rightarrow> nat \<Rightarrow> byte list" where
  "resize_bytes buf n = take n buf @ replicate (n - length buf) 0"

definition fill_stripe :: "bfile \<Rightarrow> nat \<Rightarrow> nat list \<Rightarrow> nat \<Rightarrow> nat \<Rightarrow> byte list \<Rightarrow> byte list res" where
  "fill_stripe f N off lo hi old =
     (let stripe_bytes = ids_bytes_of off lo hi;
          cur0 = map (\<lambda>u. u64 (sub64 (off ! u) (off ! lo) * 4)) [lo..<hi]
      in rbind (rfold (stripe_node f lo hi stripe_bytes) [0..<N] (24, resize_bytes old stripe_bytes, cur0)) (\<lambda>(p, buf, cur).
           if list_all (\<lambda>u. cur ! (u - lo) = u64 (sub64 (off ! (u + 1)) (off ! lo) * 4)) [lo..<hi]
           then Inr buf else Inl (Die ''stripe fill mismatch'')))"

function stripes_loop ::
    "(nat \<Rightarrow> nat \<Rightarrow> int) \<Rightarrow> (nat \<Rightarrow> nat) \<Rightarrow> bfile \<Rightarrow> nat \<Rightarrow> nat list \<Rightarrow> nat \<Rightarrow> byte list \<Rightarrow> bfile \<Rightarrow> bfile res option" where
  "stripes_loop ws avail f N off lo buf ids =
     (if lo < N then
        let h = pick_hi avail off N lo; hi = (if h \<le> lo then lo + 1 else h)
        in if ids_bytes_of off lo hi = 0 then stripes_loop ws avail f N off hi buf ids
           else case fill_stripe f N off lo hi buf of
                  Inl e \<Rightarrow> Some (Inl e)
                | Inr buf' \<Rightarrow>
                    (case pwrite_all ''pwrite stripe cand.ids'' ws (64 * 1024 * 1024) ids (32 + off ! lo * 4) buf' 0 of
                       Some (Inr ids') \<Rightarrow> stripes_loop ws avail f N off hi buf' ids'
                     | r \<Rightarrow> r)
      else Some (Inr ids))"
  by pat_completeness auto
termination
  by (relation "measure (\<lambda>(ws, avail, f, N, off, lo, buf, ids). N - lo)") auto

declare stripes_loop.simps [simp del]

section \<open>The tool\<close>

definition reverse_edges ::
    "(nat \<Rightarrow> nat \<Rightarrow> int) \<Rightarrow> (nat \<Rightarrow> nat \<Rightarrow> int) \<Rightarrow> re_args \<Rightarrow> bfile \<Rightarrow> bfile \<Rightarrow> (bfile \<times> bfile) res option" where
  "reverse_edges wi ws a dat f =
     (case rbind (read_u32 dat 0) (\<lambda>(n32, p1).
           rbind (read_u32 dat p1) (\<lambda>(d32, p2).
           rbind (read_exact f 0 24) (\<lambda>(hdr, p).
           rbind (count_nodes f p 0) (\<lambda>N.
             if N = 0 then Inl (Die ''graph seems empty'')
             else
               rbind (re_budget a N d32) (\<lambda>budget.
               rbind (re_safety a budget) (\<lambda>safety.
               rbind (rfold (count_node f N) [0..<N] (24, replicate N 0)) (\<lambda>(p', cnt).
               rbind (write_once wi ''write cand.idx hdr'' [] 0 (cand_idx_hdr N)) (\<lambda>idx0.
                 Inr (N, budget, safety, cnt, idx0))))))))) of
        Inl e \<Rightarrow> Some (Inl e)
      | Inr (N, budget, safety, cnt, idx0) \<Rightarrow>
          (let off = off_elems_of cnt; avail = avail_for_U budget safety (re_max_mib a) N
           in case write_row_blocks wi off cnt N 0 idx0 of
                None \<Rightarrow> None
              | Some (Inl e) \<Rightarrow> Some (Inl e)
              | Some (Inr idx) \<Rightarrow>
                  (case prepare_ids ws (off ! N) of
                     Inl e \<Rightarrow> Some (Inl e)
                   | Inr ids0 \<Rightarrow>
                       if avail 1 = 0 \<or> avail 1 < ids_bytes_of off 0 1
                       then Some (Inl (Die ''insufficient memory for even a single-node stripe.''))
                       else map_option (\<lambda>r. rbind r (\<lambda>ids. Inr (idx, ids))) (stripes_loop ws avail f N off 0 [] ids0))))"

section \<open>The specification\<close>

text \<open>The candidates of \<open>v\<close>: walking the nodes in order, its own neighbours when the walk reaches \<open>v\<close>,
  and \<open>u\<close> once for every edge from \<open>u\<close> to \<open>v\<close>.\<close>

fun sym_from :: "nat \<Rightarrow> nat list list \<Rightarrow> nat \<Rightarrow> nat list" where
  "sym_from u [] v = []"
| "sym_from u (row # rows) v = (if u = v then row else []) @ map (\<lambda>x. u) (filter (\<lambda>w. w = v) row) @ sym_from (Suc u) rows v"

definition sym_lists :: "nat list list \<Rightarrow> nat list list" where
  "sym_lists rows = map (sym_from 0 rows) [0..<length rows]"

lemma length_sym_lists [simp]: "length (sym_lists rows) = length rows"
  by (simp add: sym_lists_def)

lemma sym_from_set:
  "w \<in> set (sym_from u rows v) \<longleftrightarrow>
     (u \<le> v \<and> v < u + length rows \<and> w \<in> set (rows ! (v - u))) \<or>
     (u \<le> w \<and> w < u + length rows \<and> v \<in> set (rows ! (w - u)))"
proof (induction u rows v rule: sym_from.induct)
  case (1 u v)
  then show ?case by simp
next
  case (2 u row rows v)
  have split: "u \<le> x \<and> x < u + length (row # rows) \<and> P ((row # rows) ! (x - u)) \<longleftrightarrow>
      x = u \<and> P row \<or> Suc u \<le> x \<and> x < Suc u + length rows \<and> P (rows ! (x - Suc u))" for x P
    by (cases "x = u") (auto simp: nth_Cons')
  show ?case
    unfolding split[of v "\<lambda>r. w \<in> set r"] split[of w "\<lambda>r. v \<in> set r"] using 2 by auto
qed

section \<open>The counting pass\<close>

lemma read_u32_node:
  assumes "drop p f = le_bytes 4 x @ rest" "x < 2 ^ 32"
  shows "read_u32 f p = Inr (x, p + 4)" "drop (p + 4) f = rest"
proof -
  have "length (drop p f) = 4 + length rest"
    unfolding assms(1) by simp
  then have "p + 4 \<le> length f"
    unfolding length_drop by linarith
  then show "read_u32 f p = Inr (x, p + 4)"
    using assms by (simp add: read_u32_def read_exact_def block_def u32_id)
  show "drop (p + 4) f = rest"
    using arg_cong[OF assms(1), of "drop 4"] by (simp add: add.commute)
qed

lemma rows_fit_row: "rows_fit rows \<Longrightarrow> row \<in> set rows \<Longrightarrow> length row < 2 ^ 32 \<and> (\<forall>v \<in> set row. v < 2 ^ 32)"
  by (auto simp: rows_fit_def)

lemma count_nodes_rows:
  assumes "rows_fit rows" "drop p f = concat (map node_bytes rows)" "N + length rows < 2 ^ 64" "p \<le> length f"
  shows "count_nodes f p N = Inr (N + length rows)"
  using assms
proof (induction rows arbitrary: p N)
  case Nil
  then show ?case by (subst count_nodes.simps) simp
next
  case (Cons row rows)
  note fit = rows_fit_head[OF Cons.prems(1)]
  have d: "drop p f = node_bytes row @ concat (map node_bytes rows)"
    using Cons.prems(2) by simp
  have r: "read_u32 f p = Inr (length row, p + 4)"
    using read_u32_node(1)[of p f "length row" "enc32 row @ concat (map node_bytes rows)"] d fit(1) by (simp add: node_bytes_def)
  have lt: "\<not> length f \<le> p"
    using node_at(1)[OF d fit] by simp
  have "count_nodes f p N = count_nodes f (p + 4 + 4 * length row) (N + 1)"
    using r lt Cons.prems(3) by (subst count_nodes.simps) (simp add: skip_bytes_def u64_id mult.commute)
  then show ?case
    using Cons.IH[OF rows_fit_Cons[OF Cons.prems(1)] node_at(5)[OF d fit], of "N + 1"] Cons.prems(3) node_at(3)[OF d fit] by simp
qed

definition count_items :: "nat \<Rightarrow> nat list \<Rightarrow> nat items" where
  "count_items u row = (u, row) # map (\<lambda>v. (v, [u])) row"

lemma count_step_u32:
  "fst x < length cs \<Longrightarrow> (map u32 cs)[fst x := u32 (map u32 cs ! fst x + length (snd x))] = map u32 (count_step x cs)"
  by (simp add: count_step_def map_update u32_def mod_simps)

lemma length_fold_count_step [simp]: "length (fold count_step items cs) = length cs"
  by (induction items arbitrary: cs) (auto simp: count_step_def)

lemma count_neighbours:
  assumes "drop p f = enc32 row @ rest" "\<forall>v \<in> set row. v < N" "N < 2 ^ 32" "length cs = N" "length is = length row"
  shows "rfold (\<lambda>i (p, cnt). rbind (read_u32 f p) (\<lambda>(v, p').
            if N \<le> v then Inl (Die ''neighbor id out of range'') else Inr (p', cnt[v := u32 (cnt ! v + 1)])))
          is (p, map u32 cs) =
    Inr (p + 4 * length row, map u32 (fold count_step (map (\<lambda>v. (v, [u])) row) cs))"
  using assms
proof (induction row arbitrary: p cs "is")
  case Nil
  then show ?case by simp
next
  case (Cons v row)
  obtain i is' where i: "is = i # is'" using Cons.prems(5) by (cases "is") auto
  have v: "v < N" "v < 2 ^ 32" using Cons.prems(2,3) by auto
  note r = read_u32_node[of p f v "enc32 row @ rest"]
  have "(map u32 cs)[v := u32 (map u32 cs ! v + 1)] = map u32 (count_step (v, [u]) cs)"
    using count_step_u32[of "(v, [u])" cs] v(1) Cons.prems(4) by simp
  then show ?case
    using r v Cons.prems Cons.IH[of "p + 4" "count_step (v, [u]) cs" is'] by (simp add: i count_step_def add.commute)
qed

lemma count_node_row:
  assumes "drop p f = node_bytes row @ rest" "\<forall>v \<in> set row. v < N" "N < 2 ^ 32" "length cs = N" "u < N" "length row < 2 ^ 32"
  shows "count_node f N u (p, map u32 cs) = Inr (p + 4 + 4 * length row, map u32 (fold count_step (count_items u row) cs))"
proof -
  have d: "drop p f = le_bytes 4 (length row) @ enc32 row @ rest"
    using assms(1) by (simp add: node_bytes_def)
  note r = read_u32_node[OF d assms(6)]
  have "(map u32 cs)[u := u32 (map u32 cs ! u + length row)] = map u32 (count_step (u, row) cs)"
    using count_step_u32[of "(u, row)" cs] assms(4,5) by simp
  moreover have "length (count_step (u, row) cs) = N"
    using assms(4) by (simp add: count_step_def)
  ultimately show ?thesis
    using r(1) count_neighbours[OF r(2) assms(2,3), of "count_step (u, row) cs" "[0..<length row]" u]
    by (simp add: count_node_def count_items_def)
qed

fun all_items :: "nat \<Rightarrow> nat list list \<Rightarrow> nat items" where
  "all_items u [] = []"
| "all_items u (row # rows) = count_items u row @ all_items (Suc u) rows"

lemma chunks_reverse: "chunks (map (\<lambda>v. (v, [u])) row) k = map (\<lambda>x. u) (filter (\<lambda>w. w = k) row)"
  by (induction row) (auto simp: chunks_Cons)

lemma chunks_all_items: "chunks (all_items u rows) k = sym_from u rows k"
  by (induction u rows k rule: sym_from.induct) (auto simp: count_items_def chunks_append chunks_Cons chunks_reverse)

lemma count_pass_rows:
  assumes "drop p f = concat (map node_bytes rows) @ rest" "rows_fit rows" "\<forall>row \<in> set rows. \<forall>v \<in> set row. v < N" "N < 2 ^ 32"
    "length cs = N" "u + length rows \<le> N"
  shows "\<exists>p'. rfold (count_node f N) [u..<u + length rows] (p, map u32 cs) = Inr (p', map u32 (fold count_step (all_items u rows) cs))"
  using assms
proof (induction rows arbitrary: p cs u)
  case Nil
  then show ?case by simp
next
  case (Cons row rows)
  have d: "drop p f = node_bytes row @ concat (map node_bytes rows) @ rest"
    using Cons.prems(1) by simp
  note fit = rows_fit_head[OF Cons.prems(2)]
  have "[u..<u + length (row # rows)] = u # [Suc u..<Suc u + length rows]"
    by (simp add: upt_rec[of u] Suc_le_eq)
  moreover have "count_node f N u (p, map u32 cs) = Inr (p + 4 + 4 * length row, map u32 (fold count_step (count_items u row) cs))"
    using Cons.prems fit(1) by (intro count_node_row[OF d]) auto
  ultimately show ?case
    using Cons.IH[OF node_at(5)[OF d fit] rows_fit_Cons[OF Cons.prems(2)], of "fold count_step (count_items u row) cs" "Suc u"] Cons.prems(3-6)
    by simp
qed

section \<open>One stripe\<close>

lemma rfold_put:
  assumes keys: "\<forall>x \<in> set (map snd marks). fst x < U" and cur: "length cur0 = U" "\<forall>u < U. cur0 ! u = seg U (map snd marks) u"
    and bound: "seg U (map snd marks) U \<le> sb" "sb < 2 ^ 64"
  shows "rfold (put_bytes sb) marks (out0, cur0) = Inr (fold scatter_step (map snd marks) (out0, cur0))"
proof -
  have "rfold (put_bytes sb) pre (out0, cur0) = Inr (fold scatter_step (map snd pre) (out0, cur0))" if "marks = pre @ post" for pre post
    using that
  proof (induction pre arbitrary: post rule: rev_induct)
    case Nil
    then show ?case by simp
  next
    case (snoc x pre)
    obtain e k bs where x: "x = (e, k, bs)" by (cases x)
    obtain o1 c1 where s: "fold scatter_step (map snd pre) (out0, cur0) = (o1, c1)" by force
    have k: "k < U" using keys snoc.prems x by auto
    have "\<forall>x \<in> set (map snd pre). fst x < length cur0"
      using keys snoc.prems cur(1) by auto
    then have c1: "c1 ! k = seg U (map snd marks) k + length (chunks (map snd pre) k)"
      using scatter_cursor[of "map snd pre" cur0 out0] s k cur by auto
    have "length (chunks (map snd pre) k) + length bs \<le> length (chunks (map snd marks) k)"
      using snoc.prems x by (simp add: chunks_append chunks_Cons)
    then have "c1 ! k + length bs \<le> seg U (map snd marks) (Suc k)"
      using c1 seg_Suc[OF k, of "map snd marks"] by simp
    also have "\<dots> \<le> seg U (map snd marks) U"
      using k by (intro seg_mono) simp
    finally have fits: "c1 ! k + length bs \<le> sb" "c1 ! k + length bs < 2 ^ 64"
      using bound by linarith+
    then have "put_bytes sb x (o1, c1) = Inr (scatter_step (snd x) (o1, c1))"
      by (simp add: x put_bytes_def scatter_step_def u64_id del: power_numeral)
    then show ?case
      using snoc.IH[of "x # post"] snoc.prems s by (simp add: rfold_append)
  qed
  from this[of marks "[]"] show ?thesis by simp
qed

definition marks :: "nat \<Rightarrow> nat \<Rightarrow> nat \<Rightarrow> nat list \<Rightarrow> (err \<times> nat \<times> byte list) list" where
  "marks lo hi u row = (if lo \<le> u \<and> u < hi then [(OutOfRange, u - lo, enc32 row)] else []) @
     map (\<lambda>v. (Die ''cursor overflow'', v - lo, le_bytes 4 u)) (filter (\<lambda>v. lo \<le> v \<and> v < hi) row)"

fun all_marks :: "nat \<Rightarrow> nat \<Rightarrow> nat \<Rightarrow> nat list list \<Rightarrow> (err \<times> nat \<times> byte list) list" where
  "all_marks lo hi u [] = []"
| "all_marks lo hi u (row # rows) = marks lo hi u row @ all_marks lo hi (Suc u) rows"

lemma all_marks_keys: "\<forall>x \<in> set (map snd (all_marks lo hi u rows)). fst x < hi - lo"
  by (induction lo hi u rows rule: all_marks.induct) (auto simp: marks_def)

lemma chunks_marks:
  assumes "k < hi - lo"
  shows "chunks (map snd (marks lo hi u row)) k = enc32 ((if u = lo + k then row else []) @ map (\<lambda>x. u) (filter (\<lambda>w. w = lo + k) row))"
proof -
  have "chunks (map snd (map (\<lambda>v. (Die ''cursor overflow'', v - lo, le_bytes 4 u)) (filter (\<lambda>v. lo \<le> v \<and> v < hi) row))) k =
      enc32 (map (\<lambda>x. u) (filter (\<lambda>w. w = lo + k) row))"
    using assms by (induction row) (auto simp: chunks_Cons)
  moreover have "chunks (map snd (if lo \<le> u \<and> u < hi then [(OutOfRange, u - lo, enc32 row)] else [])) k =
      enc32 (if u = lo + k then row else [])"
    using assms by (auto simp: chunks_Cons)
  ultimately show ?thesis
    by (simp add: marks_def chunks_append del: if_split)
qed

lemma chunks_all_marks: "k < hi - lo \<Longrightarrow> chunks (map snd (all_marks lo hi u rows)) k = enc32 (sym_from u rows (lo + k))"
  by (induction lo hi u rows rule: all_marks.induct) (simp_all add: chunks_append chunks_marks)

lemma rfold_if_filter: "rfold (\<lambda>v s. if P v then g (h v) s else Inr s) vs s = rfold g (map h (filter P vs)) s"
proof (induction vs arbitrary: s)
  case Nil
  then show ?case by simp
next
  case (Cons v vs)
  have "rfold (\<lambda>v s. if P v then g (h v) s else Inr s) vs = rfold g (map h (filter P vs))"
    using Cons by blast
  then show ?case by simp
qed

lemma stripe_node_row:
  assumes "drop p f = node_bytes row @ rest" "length row + 1 < 2 ^ 32" "\<And>v. v \<in> set row \<Longrightarrow> v < 2 ^ 32"
  shows "stripe_node f lo hi sb u (p, s) = rbind (rfold (put_bytes sb) (marks lo hi u row) s) (\<lambda>s'. Inr (p + 4 + 4 * length row, s'))"
proof -
  have d: "drop p f = le_bytes 4 (length row) @ enc32 row @ rest"
    using assms(1) by (simp add: node_bytes_def)
  have lt: "length row < 2 ^ 32" using assms(2) by simp
  note r = read_u32_node[OF d lt]
  have "p + 4 + 4 * length row \<le> length f"
    using node_at(3)[OF assms] by simp
  then have "(if length row = 0 then Inr ([], p + 4) else read_exact f (p + 4) (length row * 4)) = Inr (enc32 row, p + 4 + 4 * length row)"
    using r(2) by (simp add: read_exact_def block_def mult.commute)
  moreover have "map u32 row = row"
    using assms(3) by (simp add: map_u32_id)
  ultimately show ?thesis
    using r(1) rfold_if_filter[of "\<lambda>v. lo \<le> v \<and> v < hi" "put_bytes sb" "\<lambda>v. (Die ''cursor overflow'', v - lo, le_bytes 4 u)" row]
    by (cases "lo \<le> u \<and> u < hi") (auto simp: stripe_node_def marks_def split: sum.splits simp: rbind_def)
qed

lemma stripe_pass:
  assumes "drop p f = concat (map node_bytes rows) @ rest" "rows_fit rows"
  shows "\<exists>p'. rfold (stripe_node f lo hi sb) [u..<u + length rows] (p, s) =
    rbind (rfold (put_bytes sb) (all_marks lo hi u rows) s) (\<lambda>s'. Inr (p', s'))"
  using assms
proof (induction rows arbitrary: p s u)
  case Nil
  then show ?case by simp
next
  case (Cons row rows)
  have d: "drop p f = node_bytes row @ concat (map node_bytes rows) @ rest"
    using Cons.prems(1) by simp
  note fit = rows_fit_head[OF Cons.prems(2)]
  have "[u..<u + length (row # rows)] = u # [Suc u..<Suc u + length rows]"
    by (simp add: upt_rec[of u] Suc_le_eq)
  then have step: "rfold (stripe_node f lo hi sb) [u..<u + length (row # rows)] (p, s) =
      rbind (rfold (put_bytes sb) (marks lo hi u row) s)
        (\<lambda>s'. rfold (stripe_node f lo hi sb) [Suc u..<Suc u + length rows] (p + 4 + 4 * length row, s'))"
    using stripe_node_row[OF d fit, of lo hi sb u s] by (cases "rfold (put_bytes sb) (marks lo hi u row) s") simp_all
  show ?case
  proof (cases "rfold (put_bytes sb) (marks lo hi u row) s")
    case (Inl e)
    then show ?thesis using step by (simp add: rfold_append)
  next
    case (Inr s')
    then show ?thesis
      using step Cons.IH[OF node_at(5)[OF d fit] rows_fit_Cons[OF Cons.prems(2)], of "Suc u" s'] by (simp add: rfold_append)
  qed
qed

text \<open>The offsets of the lists to be written.\<close>

definition list_off :: "'a list list \<Rightarrow> nat \<Rightarrow> nat" where
  "list_off ls i = length (concat (take i ls))"

lemma list_off_Suc: "i < length ls \<Longrightarrow> list_off ls (Suc i) = list_off ls i + length (ls ! i)"
  by (simp add: list_off_def take_Suc_conv_app_nth)

lemma list_off_mono: "i \<le> j \<Longrightarrow> list_off ls i \<le> list_off ls j"
proof -
  assume "i \<le> j"
  then have "take j ls = take i ls @ take (j - i) (drop i ls)"
    by (metis le_add_diff_inverse take_add)
  then show ?thesis by (simp add: list_off_def)
qed

lemma list_off_le: "list_off ls i \<le> length (concat ls)"
  using list_off_mono[of i "max i (length ls)" ls] by (simp add: list_off_def)

definition offs_ok :: "nat list list \<Rightarrow> nat list \<Rightarrow> bool" where
  "offs_ok ls off \<longleftrightarrow> (\<forall>i \<le> length ls. off ! i = list_off ls i) \<and> 4 * length (concat ls) < 2 ^ 63"

lemma offs_bytes:
  assumes "offs_ok ls off" "i \<le> j" "j \<le> length ls"
  shows "u64 (sub64 (off ! j) (off ! i) * 4) = 4 * (list_off ls j - list_off ls i)" "off ! i = list_off ls i"
    "4 * list_off ls j < 2 ^ 63"
proof -
  have o: "off ! i = list_off ls i" "off ! j = list_off ls j"
    using assms by (auto simp: offs_ok_def)
  show lt: "4 * list_off ls j < 2 ^ 63"
    using assms(1) list_off_le[of ls j] unfolding offs_ok_def by linarith
  then have "sub64 (off ! j) (off ! i) = list_off ls j - list_off ls i"
    unfolding o using list_off_mono[OF assms(2), of ls] by (intro sub64_id) simp_all
  then show "u64 (sub64 (off ! j) (off ! i) * 4) = 4 * (list_off ls j - list_off ls i)"
    using lt by (simp add: u64_id)
  show "off ! i = list_off ls i" by (fact o(1))
qed

lemma enc32_concat: "enc32 (concat xss) = concat (map enc32 xss)"
  by (induction xss) auto

lemma seg_marks:
  assumes "lo \<le> hi" "hi \<le> length rows" "k \<le> hi - lo"
  shows "seg (hi - lo) (map snd (all_marks lo hi 0 rows)) k = 4 * (list_off (sym_lists rows) (lo + k) - list_off (sym_lists rows) lo)"
  using assms(3)
proof (induction k)
  case 0
  then show ?case by (simp add: seg_def)
next
  case (Suc k)
  have "list_off (sym_lists rows) (lo + Suc k) = list_off (sym_lists rows) (lo + k) + length (sym_from 0 rows (lo + k))"
    using Suc.prems assms list_off_Suc[of "lo + k" "sym_lists rows"] by (simp add: sym_lists_def)
  moreover have "list_off (sym_lists rows) lo \<le> list_off (sym_lists rows) (lo + k)"
    by (simp add: list_off_mono)
  ultimately show ?case
    using Suc by (simp add: seg_Suc chunks_all_marks)
qed

lemma fill_stripe_rows:
  assumes "f = graph_bytes rows md start frozen" "rows_fit rows" "offs_ok (sym_lists rows) off" "lo < hi" "hi \<le> length rows"
  shows "fill_stripe f (length rows) off lo hi old = Inr (enc32 (concat (map (sym_from 0 rows) [lo..<hi])))"
proof -
  let ?ls = "sym_lists rows" and ?U = "hi - lo" and ?items = "map snd (all_marks lo hi 0 rows)"
  let ?sb = "ids_bytes_of off lo hi" and ?cur0 = "map (\<lambda>u. u64 (sub64 (off ! u) (off ! lo) * 4)) [lo..<hi]"
  let ?buf0 = "resize_bytes old ?sb"
  have lohi: "lo \<le> hi" using assms(4) by simp
  have sb: "?sb = 4 * (list_off ?ls hi - list_off ?ls lo)" "?sb < 2 ^ 64"
    using offs_bytes[OF assms(3) lohi] assms(5) unfolding ids_bytes_of_def by simp_all
  have seg: "seg ?U ?items k = 4 * (list_off ?ls (lo + k) - list_off ?ls lo)" if "k \<le> ?U" for k
    using seg_marks[OF lohi assms(5) that] .
  have cur0: "length ?cur0 = ?U" "\<forall>u < ?U. ?cur0 ! u = seg ?U ?items u"
    using seg offs_bytes(1)[OF assms(3)] assms(5) by simp_all
  have segU: "seg ?U ?items ?U = ?sb"
    using seg[of ?U] lohi sb(1) by simp
  have len: "length ?buf0 = seg ?U ?items ?U"
    by (simp add: segU resize_bytes_def)
  have put: "rfold (put_bytes ?sb) (all_marks lo hi 0 rows) (?buf0, ?cur0) = Inr (fold scatter_step ?items (?buf0, ?cur0))"
    using segU sb(2) by (intro rfold_put[OF all_marks_keys cur0]) simp_all
  obtain buf cur where fs: "fold scatter_step ?items (?buf0, ?cur0) = (buf, cur)" by force
  have sc: "buf = by_key ?U ?items" "\<And>u. u < ?U \<Longrightarrow> cur ! u = seg ?U ?items (Suc u)"
    using scatter_by_key[OF all_marks_keys len, of ?cur0] cur0 fs by auto
  have dr: "drop 24 f = concat (map node_bytes rows) @ []"
    by (simp add: assms(1) graph_bytes_def)
  obtain p' where pass: "rfold (stripe_node f lo hi ?sb) [0..<length rows] (24, ?buf0, ?cur0) = Inr (p', buf, cur)"
    using stripe_pass[OF dr assms(2), of lo hi ?sb 0 "(?buf0, ?cur0)"] put fs by auto
  have chk: "list_all (\<lambda>u. cur ! (u - lo) = u64 (sub64 (off ! (u + 1)) (off ! lo) * 4)) [lo..<hi]"
    unfolding list_all_iff
  proof
    fix u assume "u \<in> set [lo..<hi]"
    then have u: "lo \<le> u" "u < hi" by auto
    then have "cur ! (u - lo) = 4 * (list_off ?ls (Suc u) - list_off ?ls lo)"
      using sc(2)[of "u - lo"] seg[of "Suc (u - lo)"] by simp
    then show "cur ! (u - lo) = u64 (sub64 (off ! (u + 1)) (off ! lo) * 4)"
      using offs_bytes(1)[OF assms(3), of lo "u + 1"] u assms(5) by simp
  qed
  have "by_key ?U ?items = concat (map (\<lambda>k. enc32 (sym_from 0 rows (lo + k))) [0..<?U])"
    unfolding by_key_def by (intro arg_cong[where f = concat] map_cong refl) (simp add: chunks_all_marks)
  also have "\<dots> = enc32 (concat (map (\<lambda>k. sym_from 0 rows (lo + k)) [0..<?U]))"
    by (simp add: enc32_concat comp_def)
  also have "map (\<lambda>k. sym_from 0 rows (lo + k)) [0..<?U] = map (sym_from 0 rows) [lo..<hi]"
    using lohi by (intro nth_equalityI) auto
  finally show ?thesis
    using pass chk sc(1) by (simp add: fill_stripe_def)
qed

section \<open>All stripes\<close>

text \<open>The invariant of the binary search: the best so far fits, or it is a single point.\<close>

definition pick_ok :: "(nat \<Rightarrow> nat) \<Rightarrow> nat list \<Rightarrow> nat \<Rightarrow> nat \<Rightarrow> nat \<Rightarrow> bool" where
  "pick_ok avail off N lo hi \<longleftrightarrow> lo < hi \<and> hi \<le> N \<and> (hi = lo + 1 \<or> ids_bytes_of off lo hi \<le> avail (hi - lo) \<and> 0 < avail (hi - lo))"

lemma pick_search_ok:
  assumes "pick_ok avail off N lo best" "R \<le> N"
  shows "pick_ok avail off N lo (pick_search avail off lo L R best)"
  using assms
proof (induction avail off lo L R best rule: pick_search.induct)
  case (1 avail off lo L R best)
  show ?case
  proof (cases "L \<le> R \<and> lo < L")
    case False
    then show ?thesis using "1.prems" by (subst pick_search.simps) auto
  next
    case True
    let ?mid = "(L + R) div 2"
    have mid: "lo < ?mid" "?mid \<le> R" using True by linarith+
    consider "avail (?mid - lo) = 0" | "avail (?mid - lo) \<noteq> 0" "ids_bytes_of off lo ?mid \<le> avail (?mid - lo)"
      | "avail (?mid - lo) \<noteq> 0" "\<not> ids_bytes_of off lo ?mid \<le> avail (?mid - lo)" by blast
    then show ?thesis
    proof cases
      case 1
      then show ?thesis
        using "1.IH"(1)[OF True refl refl] "1.prems" mid True by (subst pick_search.simps) simp
    next
      case 2
      have "pick_ok avail off N lo ?mid"
        using 2 mid "1.prems"(2) by (simp add: pick_ok_def)
      then show ?thesis
        using "1.IH"(2)[OF True refl refl 2] "1.prems" True 2 by (subst pick_search.simps) (simp add: Let_def)
    next
      case 3
      then show ?thesis
        using "1.IH"(3)[OF True refl refl 3] "1.prems" mid True by (subst pick_search.simps) simp
    qed
  qed
qed

lemma pick_hi_ok: "lo < N \<Longrightarrow> pick_ok avail off N lo (pick_hi avail off N lo)"
  unfolding pick_hi_def by (rule pick_search_ok) (simp_all add: pick_ok_def)

lemma take_sym_lists:
  assumes "lo \<le> hi" "hi \<le> length rows"
  shows "take hi (sym_lists rows) = take lo (sym_lists rows) @ map (sym_from 0 rows) [lo..<hi]"
proof -
  have "[0..<hi] = [0..<lo] @ [lo..<hi]"
    using assms(1) by (metis le0 upt_add_eq_append le_add_diff_inverse add_0)
  then show ?thesis
    using assms by (simp add: sym_lists_def take_map)
qed

text \<open>The file while stripes are written: the lists below \<open>lo\<close>, zeros for the rest.\<close>

definition ids_upto :: "nat list list \<Rightarrow> nat \<Rightarrow> bfile" where
  "ids_upto ls lo = cand_ids_hdr (length (concat ls)) @ enc32 (concat (take lo ls)) @ replicate (4 * (length (concat ls) - list_off ls lo)) 0"

lemma length_ids_upto: "length (ids_upto ls lo) = 32 + 4 * length (concat ls)"
  using list_off_le[of ls lo] by (simp add: ids_upto_def list_off_def algebra_simps)

lemma ids_upto_next:
  assumes "lo \<le> hi" "hi \<le> length rows"
  shows "pwrite (ids_upto (sym_lists rows) lo) (32 + list_off (sym_lists rows) lo * 4) (enc32 (concat (map (sym_from 0 rows) [lo..<hi]))) =
    ids_upto (sym_lists rows) hi"
proof -
  let ?ls = "sym_lists rows" and ?new = "enc32 (concat (map (sym_from 0 rows) [lo..<hi]))"
  let ?pre = "cand_ids_hdr (length (concat ?ls)) @ enc32 (concat (take lo ?ls))"
  have pre: "length ?pre = 32 + list_off ?ls lo * 4"
    by (simp add: list_off_def)
  have hi: "list_off ?ls hi = list_off ?ls lo + length (concat (map (sym_from 0 rows) [lo..<hi]))"
    unfolding list_off_def take_sym_lists[OF assms] by simp
  have "pwrite (ids_upto ?ls lo) (length ?pre) ?new = ?pre @ ?new @ replicate (4 * (length (concat ?ls) - list_off ?ls hi)) 0"
    by (simp add: ids_upto_def pwrite_def hi diff_mult_distrib2 add_mult_distrib2)
  then show ?thesis
    unfolding pre by (simp add: ids_upto_def take_sym_lists[OF assms])
qed

lemma stripes_loop_rows:
  assumes "f = graph_bytes rows md start frozen" "rows_fit rows" "offs_ok (sym_lists rows) off" "io_mode ws" "lo \<le> length rows"
  shows "stripes_loop ws avail f (length rows) off lo buf (ids_upto (sym_lists rows) lo) = Some (Inr (cand_ids_file (sym_lists rows)))"
  using assms(5)
proof (induction "length rows - lo" arbitrary: lo buf rule: less_induct)
  case less
  let ?ls = "sym_lists rows"
  show ?case
  proof (cases "lo < length rows")
    case False
    then have "take lo ?ls = ?ls" "list_off ?ls lo = length (concat ?ls)"
      by (simp_all add: list_off_def)
    then show ?thesis
      using False by (subst stripes_loop.simps) (simp add: ids_upto_def cand_ids_file_def)
  next
    case True
    define hi where "hi = pick_hi avail off (length rows) lo"
    have hi: "lo < hi" "hi \<le> length rows"
      using pick_hi_ok[OF True, of avail off] by (simp_all add: pick_ok_def hi_def)
    have IH: "stripes_loop ws avail f (length rows) off hi b (ids_upto ?ls hi) = Some (Inr (cand_ids_file ?ls))" for b
      using less.hyps[of hi b] hi True by simp
    have bytes: "ids_bytes_of off lo hi = 4 * (list_off ?ls hi - list_off ?ls lo)" "off ! lo = list_off ?ls lo"
      using offs_bytes[OF assms(3), of lo hi] hi unfolding ids_bytes_of_def by simp_all
    note next_ids = ids_upto_next[OF less_imp_le[OF hi(1)] hi(2)]
    show ?thesis
    proof (cases "ids_bytes_of off lo hi = 0")
      case zero: True
      have "list_off ?ls hi = list_off ?ls lo + length (concat (map (sym_from 0 rows) [lo..<hi]))"
        unfolding list_off_def take_sym_lists[OF less_imp_le[OF hi(1)] hi(2)] by simp
      then have "concat (map (sym_from 0 rows) [lo..<hi]) = []"
        using zero bytes(1) by simp
      then have "ids_upto ?ls hi = ids_upto ?ls lo"
        using next_ids list_off_le[of ?ls lo] by (simp add: pwrite_def length_ids_upto del: concat_eq_Nil_conv)
      then show ?thesis
        using IH True zero hi by (subst stripes_loop.simps) (simp flip: hi_def)
    next
      case False
      have "32 + list_off ?ls lo * 4 \<le> length (ids_upto ?ls lo)"
        using list_off_le[of ?ls lo] by (simp add: length_ids_upto)
      then show ?thesis
        using IH True False hi fill_stripe_rows[OF assms(1-3) hi, of buf] bytes(2) next_ids pwrite_all_content[OF assms(4)]
        by (subst stripes_loop.simps) (simp add: Let_def flip: hi_def)
    qed
  qed
qed

section \<open>The tool writes the candidate files of the symmetric graph\<close>

lemma idx_rows_block:
  assumes "b + n \<le> length ls"
  shows "idx_rows (list_off ls b) (take n (drop b ls)) =
    concat (map (\<lambda>i. cand_idx_row (4 * list_off ls (b + i)) (length (ls ! (b + i)))) [0..<n])"
  using assms
proof (induction n)
  case 0
  then show ?case by simp
next
  case (Suc n)
  have "take (Suc n) (drop b ls) = take n (drop b ls) @ [ls ! (b + n)]"
    using Suc.prems by (simp add: take_Suc_conv_app_nth)
  moreover have "list_off ls b + length (concat (take n (drop b ls))) = list_off ls (b + n)"
    by (simp add: list_off_def take_add)
  ultimately show ?case
    using Suc by (simp add: idx_rows_append)
qed

lemma write_row_blocks_rows:
  assumes "io_mode wi" "offs_ok ls off" "cnt = map length ls"
  shows "write_row_blocks wi off cnt (length ls) base (cand_idx_hdr (length ls) @ idx_rows 0 (take base ls)) = Some (Inr (cand_idx_file ls))"
proof (induction "length ls - base" arbitrary: base rule: less_induct)
  case less
  show ?case
  proof (cases "base < length ls")
    case False
    then show ?thesis by (subst write_row_blocks.simps) (simp add: cand_idx_file_def)
  next
    case True
    let ?idx = "cand_idx_hdr (length ls) @ idx_rows 0 (take base ls)"
    define n where "n = min re_row_block (length ls - base)"
    have n: "0 < n" "base + n \<le> length ls"
      using True by (auto simp: n_def re_row_block_def)
    have "map (\<lambda>i. cand_idx_row (u64 (off ! (base + i) * 4)) (cnt ! (base + i))) [0..<n] =
        map (\<lambda>i. cand_idx_row (4 * list_off ls (base + i)) (length (ls ! (base + i)))) [0..<n]"
    proof (intro map_cong refl)
      fix i assume "i \<in> set [0..<n]"
      then have i: "base + i < length ls" using n(2) by simp
      then show "cand_idx_row (u64 (off ! (base + i) * 4)) (cnt ! (base + i)) = cand_idx_row (4 * list_off ls (base + i)) (length (ls ! (base + i)))"
        using offs_bytes(2,3)[OF assms(2) order_refl, of "base + i"] assms(3) by (simp add: u64_id mult.commute)
    qed
    then have rows: "concat (map (\<lambda>i. cand_idx_row (u64 (off ! (base + i) * 4)) (cnt ! (base + i))) [0..<n]) =
        idx_rows (list_off ls base) (take n (drop base ls))"
      unfolding idx_rows_block[OF n(2)] by (rule arg_cong)
    have cap: "0 < length (idx_rows (list_off ls base) (take n (drop base ls)))"
      using n by simp
    have "take (base + re_row_block) ls = take base ls @ take n (drop base ls)"
      unfolding n_def by (simp add: take_add min_def)
    then have new: "?idx @ idx_rows (list_off ls base) (take n (drop base ls)) =
        cand_idx_hdr (length ls) @ idx_rows 0 (take (base + re_row_block) ls)"
      by (simp add: idx_rows_append list_off_def)
    have "length ls - (base + re_row_block) < length ls - base"
      using True by (simp add: re_row_block_def)
    then show ?thesis
      using less[of "base + re_row_block"] True
      by (subst write_row_blocks.simps) (simp only: Let_def rows pwrite_all_append[OF assms(1) cap] new if_True option.case sum.case flip: n_def)
  qed
qed

lemma counts_rows:
  assumes "f = graph_bytes rows md start frozen" "rows_fit rows" "\<forall>row \<in> set rows. \<forall>v \<in> set row. v < length rows"
    "cand_fits (sym_lists rows)"
  shows "\<exists>p'. rfold (count_node f (length rows)) [0..<length rows] (24, replicate (length rows) 0) = Inr (p', map length (sym_lists rows))"
    and "offs_ok (sym_lists rows) (off_elems_of (map length (sym_lists rows)))"
proof -
  let ?N = "length rows" and ?ls = "sym_lists rows"
  have N: "?N < 2 ^ 32" using assms(2) by (simp add: rows_fit_def)
  have dr: "drop 24 f = concat (map node_bytes rows) @ []"
    by (simp add: assms(1) graph_bytes_def)
  have keys: "\<forall>x \<in> set (all_items u rs). fst x < ?N" if "u + length rs \<le> ?N" "\<forall>row \<in> set rs. \<forall>v \<in> set row. v < ?N" for u rs
    using that by (induction u rs rule: all_items.induct) (auto simp: count_items_def)
  have "fold count_step (all_items 0 rows) (replicate ?N 0) = chunk_counts ?N (all_items 0 rows)"
    using keys[of 0 rows] assms(3) by (intro fold_count_step) simp
  moreover have "map u32 (chunk_counts ?N (all_items 0 rows)) = map length ?ls"
  proof (rule nth_equalityI)
    fix i assume "i < length (map u32 (chunk_counts ?N (all_items 0 rows)))"
    then have i: "i < ?N" by simp
    then have "sym_from 0 rows i \<in> set ?ls" by (simp add: sym_lists_def)
    then have "length (sym_from 0 rows i) < 2 ^ 32" using assms(4) by (simp add: cand_fits_def)
    then show "map u32 (chunk_counts ?N (all_items 0 rows)) ! i = map length ?ls ! i"
      using i by (simp add: chunks_all_items sym_lists_def u32_id)
  qed simp
  moreover have "u32 0 = 0" by (simp add: u32_def)
  ultimately show "\<exists>p'. rfold (count_node f ?N) [0..<?N] (24, replicate ?N 0) = Inr (p', map length ?ls)"
    using count_pass_rows[OF dr assms(2,3) N, of "replicate ?N 0" 0] by simp
  have "off_elems_of (map length ?ls) ! i = list_off ?ls i" if "i \<le> ?N" for i
  proof -
    have "list_off ?ls i < 2 ^ 64"
      using list_off_le[of ?ls i] assms(4) by (simp add: cand_fits_def)
    then show ?thesis
      using that by (simp add: off_elems_of_def nth_prefix_sums take_map list_off_def length_concat u64_id)
  qed
  then show "offs_ok ?ls (off_elems_of (map length ?ls))"
    using assms(4) by (simp add: offs_ok_def cand_fits_def)
qed

lemma prepare_ids_zero:
  assumes "io_mode ws" "ws 0 32 = 32"
  shows "prepare_ids ws (length (concat ls)) = Inr (ids_upto ls 0)"
proof -
  have one: "ws off 1 = 1" for off
  proof -
    have "0 < ws off 1 \<and> ws off 1 \<le> int 1"
      using assms(1) unfolding io_mode_def by (meson zero_less_one)
    then show ?thesis by simp
  qed
  let ?t = "length (concat ls)"
  have hdr: "pwrite [] 0 (cand_ids_hdr ?t) = cand_ids_hdr ?t" by (simp add: pwrite_def)
  show ?thesis
  proof (cases "?t = 0")
    case True
    then show ?thesis
      using assms(2) by (simp add: prepare_ids_def write_once_def hdr ids_upto_def list_off_def del: length_concat)
  next
    case False
    then have "4 * ?t = Suc (4 * ?t - 1)" by simp
    then have "replicate (4 * ?t - 1) 0 @ [0] = replicate (4 * ?t) (0 :: byte)"
      by (metis replicate_append_same replicate_Suc)
    then have "pwrite (cand_ids_hdr ?t) (32 + ?t * 4 - 1) [0] = cand_ids_hdr ?t @ replicate (4 * ?t) 0"
      using False unfolding length_greater_0_conv[symmetric] by (simp add: pwrite_def mult.commute Suc_le_eq)
    then show ?thesis
      using False assms(2) one by (simp add: prepare_ids_def write_once_def hdr ids_upto_def list_off_def)
  qed
qed

text \<open>C6. The reverse edge tool is correct: on a graph file whose ids are nodes and whose totals fit the
  formats, with a disk that takes the writes (in pieces of any size) and a budget that passes the
  feasibility check, the tool terminates and writes exactly the candidate files of the symmetric
  graph. The list of a point holds its own neighbours and the source of every edge into it, so it
  contains \<open>w\<close> iff there is an edge from \<open>v\<close> to \<open>w\<close> or from \<open>w\<close> to \<open>v\<close>. How the points are cut into
  stripes (budget, safety fraction, cap) plays no part in the result.\<close>

theorem reverse_edges_symmetric:
  assumes "f = graph_bytes rows md start frozen" "rows_fit rows" "rows \<noteq> []"
    "\<forall>row \<in> set rows. \<forall>v \<in> set row. v < length rows" "cand_fits (sym_lists rows)"
    "io_mode wi" "io_mode ws" "wi 0 32 = 32" "ws 0 32 = 32" "8 \<le> length dat"
    "re_budget a (length rows) (le_nat (block dat 4 4)) = Inr budget" "re_safety a budget = Inr safety"
    "4 * length (sym_from 0 rows 0) \<le> avail_for_U budget safety (re_max_mib a) (length rows) 1"
    "0 < avail_for_U budget safety (re_max_mib a) (length rows) 1"
  shows "\<exists>idx ids. reverse_edges wi ws a dat f = Some (Inr (idx, ids)) \<and>
    idx = cand_idx_file (sym_lists rows) \<and> ids = cand_ids_file (sym_lists rows) \<and>
    (\<forall>v < length rows. cand_list_at idx ids v = sym_from 0 rows v \<and>
       set (cand_list_at idx ids v) = set (rows ! v) \<union> {w. w < length rows \<and> v \<in> set (rows ! w)})"
proof -
  let ?N = "length rows" and ?ls = "sym_lists rows"
  let ?off = "off_elems_of (map length ?ls)" and ?avail = "avail_for_U budget safety (re_max_mib a) ?N"
  have N: "?N < 2 ^ 32" using assms(2) by (simp add: rows_fit_def)
  have f: "drop 24 f = concat (map node_bytes rows)" "24 \<le> length f"
    by (simp_all add: assms(1) graph_bytes_def)
  obtain p' where cnt: "rfold (count_node f ?N) [0..<?N] (24, replicate ?N 0) = Inr (p', map length ?ls)"
    using counts_rows(1)[OF assms(1,2,4,5)] by blast
  note offs = counts_rows(2)[OF assms(1,2,4,5)]
  have nodes: "count_nodes f 24 0 = Inr ?N"
    using count_nodes_rows[OF assms(2) f(1), of 0] N f(2) by simp
  have total: "?off ! ?N = length (concat ?ls)"
    using offs_bytes(2)[OF offs order_refl, of ?N] by (simp add: list_off_def)
  have N1: "0 < ?N" "Suc 0 \<le> ?N" using assms(3) by (cases rows; simp)+
  then have "list_off ?ls 1 = length (sym_from 0 rows 0)" "list_off ?ls 0 = 0"
    using list_off_Suc[of 0 ?ls] by (simp_all add: list_off_def sym_lists_def)
  then have first: "ids_bytes_of ?off 0 1 = 4 * length (sym_from 0 rows 0)"
    using offs_bytes(1)[OF offs, of 0 1] N1 by (simp add: ids_bytes_of_def)
  have hdr: "pwrite [] 0 (cand_idx_hdr ?N) = cand_idx_hdr ?N @ idx_rows 0 (take 0 ?ls)"
    by (simp add: pwrite_def)
  have idx: "write_row_blocks wi ?off (map length ?ls) ?N 0 (cand_idx_hdr ?N @ idx_rows 0 (take 0 ?ls)) = Some (Inr (cand_idx_file ?ls))"
    using write_row_blocks_rows[OF assms(6) offs refl, of 0] by simp
  have ids: "stripes_loop ws ?avail f ?N ?off 0 [] (ids_upto ?ls 0) = Some (Inr (cand_ids_file ?ls))"
    by (rule stripes_loop_rows[OF assms(1,2) offs assms(7)]) simp
  have data: "read_u32 dat 0 = Inr (le_nat (block dat 0 4), 4)" "read_u32 dat 4 = Inr (le_nat (block dat 4 4), 8)"
    using assms(10) by (simp_all add: read_u32_def read_exact_def)
  have "reverse_edges wi ws a dat f = Some (Inr (cand_idx_file ?ls, cand_ids_file ?ls))"
    using assms(3,8,11-14) nodes f(2) cnt idx ids total first data prepare_ids_zero[OF assms(7,9), of ?ls]
    by (simp add: reverse_edges_def read_exact_def write_once_def hdr Let_def)
  moreover have "cand_list_at (cand_idx_file ?ls) (cand_ids_file ?ls) v = sym_from 0 rows v" if "v < ?N" for v
    using cand_list_at_file[OF _ assms(5), of v] that by (simp add: sym_lists_def)
  moreover have "set (sym_from 0 rows v) = set (rows ! v) \<union> {w. w < ?N \<and> v \<in> set (rows ! w)}" if "v < ?N" for v
    using that by (auto simp: sym_from_set)
  ultimately show ?thesis by simp
qed

theorem reverse_edges_symmetric_witness:
  "\<exists>idx ids. reverse_edges (\<lambda>off want. int want) (\<lambda>off want. int want)
      (re_args_default\<lparr>re_safety_frac := Fin False 0, re_memory_budget_bytes := 4198440\<rparr>)
      (replicate 8 0) (graph_bytes [[1], []] 1 0 0) = Some (Inr (idx, ids)) \<and> set (cand_list_at idx ids 1) = {0}"
proof -
  let ?a = "re_args_default\<lparr>re_safety_frac := Fin False 0, re_memory_budget_bytes := 4198440\<rparr>"
  let ?rows = "[[1], []] :: nat list list"
  have r: "fround X87 False 4096 = Fin False 4096" "fround X87 False 3072 = Fin False 3072"
    using fround_exact[OF representable_of_nat[of 4096 X87]] fround_exact[OF representable_of_nat[of 3072 X87]] by simp_all
  have "f_of_nat X87 4198440 = Fin False 4198440"
    using fround_exact[OF representable_of_nat[of 4198440 X87], of False] by (simp add: f_of_nat_def)
  then have sf: "re_safety ?a 4198440 = Inr 0"
    by (simp add: re_safety_def fround_def)
  have av: "avail_for_U 4198440 0 (re_max_mib ?a) 2 1 = 3072"
    using r by (simp add: avail_for_U_def dyn_overhead_def u64_def f_of_nat_def re_args_default_def)
  have "sym_lists ?rows = [[1], [0]]" by (simp add: sym_lists_def upt_rec numeral_2_eq_2)
  then have "cand_fits (sym_lists ?rows)" "rows_fit ?rows" "io_mode (\<lambda>off want. int want)"
    by (simp_all add: cand_fits_def rows_fit_def io_mode_def)
  moreover have "re_budget ?a (length ?rows) (le_nat (block (replicate 8 0) 4 4)) = Inr 4198440"
    by (simp add: re_budget_def)
  ultimately show ?thesis
    using reverse_edges_symmetric[of "graph_bytes ?rows 1 0 0" ?rows 1 0 0 "\<lambda>off want. int want" "\<lambda>off want. int want"
        "replicate 8 0" ?a 4198440 0] sf av by (auto simp: numeral_2_eq_2 less_Suc_eq)
qed

text \<open>The stripe chosen by the binary search: never empty, never past the last point, and unless it
  is the single point that guarantees progress its bytes fit the memory left after the overhead of
  that many cursors, also below the cap when one is set.\<close>

theorem pick_hi_fits:
  assumes "lo < N" "hi = pick_hi (avail_for_U budget safety max_mib N) off N lo" "hi \<noteq> lo + 1"
  shows "lo < hi \<and> hi \<le> N \<and> ids_bytes_of off lo hi \<le> avail_for_U budget safety max_mib N (hi - lo) \<and>
    (max_mib \<noteq> 0 \<longrightarrow> ids_bytes_of off lo hi \<le> u64 (max_mib * 1024 * 1024)) \<and>
    dyn_overhead N (hi - lo) < budget - safety"
proof -
  let ?av = "avail_for_U budget safety max_mib N (hi - lo)"
  have ok: "lo < hi" "hi \<le> N" "ids_bytes_of off lo hi \<le> ?av" "0 < ?av"
    using pick_hi_ok[OF assms(1), of "avail_for_U budget safety max_mib N" off] assms(2,3) by (auto simp: pick_ok_def)
  have "max_mib \<noteq> 0 \<longrightarrow> ?av \<le> u64 (max_mib * 1024 * 1024)" "dyn_overhead N (hi - lo) < budget - safety"
    using ok(4) by (auto simp: avail_for_U_def Let_def split: if_splits option.splits)
  then show ?thesis using ok by auto
qed

theorem pick_hi_fits_witness:
  "\<exists>hi. hi = pick_hi (avail_for_U 4198440 0 0 2) [0, 1, 2] 2 0 \<and> hi = 2 \<and> ids_bytes_of [0, 1, 2] 0 hi \<le> avail_for_U 4198440 0 0 2 hi"
proof -
  let ?av = "avail_for_U 4198440 0 0 2"
  have r: "fround X87 False 4096 = Fin False 4096" "fround X87 False 3072 = Fin False 3072"
    "fround X87 False 4088 = Fin False 4088" "fround X87 False 3066 = Fin False 3066"
    using fround_exact[OF representable_of_nat[of 4096 X87]] fround_exact[OF representable_of_nat[of 3072 X87]]
      fround_exact[OF representable_of_nat[of 4088 X87]] fround_exact[OF representable_of_nat[of 3066 X87]] by simp_all
  then have av: "?av 1 = 3072" "?av 2 = 3066"
    by (simp_all add: avail_for_U_def dyn_overhead_def u64_def f_of_nat_def)
  have b: "ids_bytes_of [0, 1, 2] 0 1 = 4" "ids_bytes_of [0, 1, 2] 0 2 = 8"
    by (simp_all add: ids_bytes_of_def u64_def sub64_def)
  have "pick_search ?av [0, 1, 2] 0 1 2 1 = pick_search ?av [0, 1, 2] 0 2 2 1"
    using av(1) b(1) by (subst pick_search.simps) (simp add: Let_def numeral_2_eq_2[symmetric])
  also have "\<dots> = pick_search ?av [0, 1, 2] 0 3 2 2"
    using av(2) b(2) by (subst pick_search.simps) (simp add: Let_def numeral_3_eq_3[symmetric])
  also have "\<dots> = 2" by (subst pick_search.simps) simp
  finally have "2 = pick_hi ?av [0, 1, 2] 2 0" by (simp add: pick_hi_def)
  then show ?thesis
    using pick_hi_fits[of 0 2 2 4198440 0 0 "[0, 1, 2]"] by auto
qed

end
