(* ===== verification/Pq_Prune.thy ===== *)
theory Pq_Prune
  imports Reverse_Edge Occlude
begin

text \<open>
  \<open>construction/our_pruning.cpp\<close>: prunes the candidate list of every point with distances between
  product-quantised codes and writes the graph file of the in-memory index. Candidates are streamed
  in batches that fit a memory budget. \<open>rd\<close>, \<open>ri\<close> and \<open>wr\<close> are the operating system's answers to
  \<open>pread\<close> on \<open>cand.ids\<close>, \<open>pread\<close> on \<open>cand.idx\<close> and \<open>pwrite\<close> on the graph.
\<close>

section \<open>Arguments\<close>

record pp_args =
  pp_data_path :: string
  pp_cand_prefix :: string
  pp_out_graph :: string
  pp_pivots_path :: string
  pp_codes_path :: string
  pp_QD :: nat
  pp_R :: nat
  pp_T :: nat
  pp_P :: nat
  pp_threads :: nat
  pp_p_val :: fp
  pp_safety_frac :: fp
  pp_reuse :: int
  pp_chunk_bytes :: nat
  pp_memory_budget_bytes :: nat

definition pp_args_default :: pp_args where
  "pp_args_default = \<lparr>pp_data_path = [], pp_cand_prefix = [], pp_out_graph = [], pp_pivots_path = [],
     pp_codes_path = [], pp_QD = 0, pp_R = 32, pp_T = 1, pp_P = 0, pp_threads = 0,
     pp_p_val = fround Binary32 False (1 / 20), pp_safety_frac = fround Binary32 False (1 / 20),
     pp_reuse = 1, pp_chunk_bytes = 0, pp_memory_budget_bytes = 0\<rparr>"

definition pp_flags :: "(string \<times> (string \<Rightarrow> pp_args \<Rightarrow> pp_args res)) list" where
  "pp_flags =
     [(''--data='', \<lambda>v a. Inr (a\<lparr>pp_data_path := v\<rparr>)),
      (''--cand-prefix='', \<lambda>v a. Inr (a\<lparr>pp_cand_prefix := v\<rparr>)),
      (''--out='', \<lambda>v a. Inr (a\<lparr>pp_out_graph := v\<rparr>)),
      (''--pivots='', \<lambda>v a. Inr (a\<lparr>pp_pivots_path := v\<rparr>)),
      (''--codes='', \<lambda>v a. Inr (a\<lparr>pp_codes_path := v\<rparr>)),
      (''--QD='', \<lambda>v a. rbind (stoull v) (\<lambda>n. Inr (a\<lparr>pp_QD := u32 n\<rparr>))),
      (''--R='', \<lambda>v a. rbind (stoull v) (\<lambda>n. Inr (a\<lparr>pp_R := u32 n\<rparr>))),
      (''--T='', \<lambda>v a. rbind (stoull v) (\<lambda>n. Inr (a\<lparr>pp_T := u32 n\<rparr>))),
      (''--P='', \<lambda>v a. rbind (stoull v) (\<lambda>n. Inr (a\<lparr>pp_P := u32 n\<rparr>))),
      (''--threads='', \<lambda>v a. rbind (stoull v) (\<lambda>n. Inr (a\<lparr>pp_threads := u32 n\<rparr>))),
      (''--pval='', \<lambda>v a. rbind (stof v) (\<lambda>x. Inr (a\<lparr>pp_p_val := x\<rparr>))),
      (''--reuse='', \<lambda>v a. Inr (a\<lparr>pp_reuse := atoi v\<rparr>)),
      (''--safety-frac='', \<lambda>v a. rbind (stof v) (\<lambda>x. Inr (a\<lparr>pp_safety_frac := x\<rparr>))),
      (''--chunk-bytes='', \<lambda>v a. rbind (stoull v) (\<lambda>n. Inr (a\<lparr>pp_chunk_bytes := n\<rparr>))),
      (''--memory-budget-bytes='', \<lambda>v a. rbind (stoull v) (\<lambda>n. Inr (a\<lparr>pp_memory_budget_bytes := n\<rparr>)))]"

definition pp_parse_flags :: "string list \<Rightarrow> pp_args \<Rightarrow> pp_args res" where
  "pp_parse_flags argv a = rfold (flag_chain pp_flags) (drop 1 argv) a"

definition pp_main_args :: "string list \<Rightarrow> pp_args option res" where
  "pp_main_args argv =
     (if length argv < 2 then Inr None
      else rbind (pp_parse_flags argv pp_args_default) (\<lambda>a.
        if pp_data_path a = [] \<or> pp_cand_prefix a = [] \<or> pp_out_graph a = [] then Inl (Die ''missing required flags'')
        else if pp_P a = 0 then Inl (Die ''please pass --P=<partitions> for mem budget'')
        else Inr (Some (a\<lparr>pp_safety_frac := (if flt (pp_safety_frac a) fzero then fzero else pp_safety_frac a),
               pp_pivots_path := (if pp_pivots_path a = [] then pp_cand_prefix a @ ''pq_pivots.bin'' else pp_pivots_path a),
               pp_codes_path := (if pp_codes_path a = [] then pp_cand_prefix a @ ''pq_compressed.bin'' else pp_codes_path a)\<rparr>))))"

section \<open>Product-quantised distances\<close>

text \<open>The value of a \<open>float\<close> from its 32 bits.\<close>

definition f32_of_bits :: "nat \<Rightarrow> fp" where
  "f32_of_bits n =
     (let s = odd (n div 2 ^ 31); e = (n div 2 ^ 23) mod 256; m = n mod 2 ^ 23
      in if e = 255 then (if m = 0 then Inf s else NaN)
         else if e = 0 then Fin s (of_nat m * pow2 (- 149))
         else Fin s (of_nat (2 ^ 23 + m) * pow2 (int e - 150)))"

definition NUM_CENTROIDS :: nat where "NUM_CENTROIDS = 256"

record pq_sym =
  pq_pivots :: "fp list"
  pq_chunk_off :: "nat list"
  pq_codes :: "nat list"
  pq_N :: nat
  pq_D :: nat
  pq_QD :: nat
  pq_cc :: "fp list list"

definition pq_sym_empty :: pq_sym where
  "pq_sym_empty = \<lparr>pq_pivots = [], pq_chunk_off = [], pq_codes = [], pq_N = 0, pq_D = 0, pq_QD = 0, pq_cc = []\<rparr>"

text \<open>The 40 byte head holds two integers and four offsets; blocks 0 (pivots) and 2 (chunk offsets) are
  read. A seek outside the file makes the next read short.\<close>

definition load_pivots_with_offsets :: "bfile \<Rightarrow> pq_sym \<Rightarrow> pq_sym res" where
  "load_pivots_with_offsets f pq =
     rbind (read_exact f 0 40) (\<lambda>(hd, p).
       let m0 = le_nat (block hd 8 8); m2 = le_nat (block hd 24 8)
       in rbind (read_u32 f m0) (\<lambda>(r0, p1).
          rbind (read_u32 f p1) (\<lambda>(D, p2).
            if r0 \<noteq> NUM_CENTROIDS then Inl (Die ''pivots rows != 256'')
            else
              rbind (read_exact f p2 (NUM_CENTROIDS * D * 4)) (\<lambda>(pv, p3).
              rbind (read_u32 f m2) (\<lambda>(r, q1).
              rbind (read_u32 f q1) (\<lambda>(c, q2).
                if c \<noteq> 1 then Inl (Die ''chunkOffsets dims second != 1'')
                else
                  rbind (read_exact f q2 (r * 4)) (\<lambda>(co, q3).
                    if r < 2 then Inl (Die ''chunkOffsets too short'')
                    else Inr (pq\<lparr>pq_D := D, pq_pivots := map f32_of_bits (dec32 pv),
                                 pq_chunk_off := dec32 co, pq_QD := r - 1\<rparr>))))))))"

definition load_codes_bin :: "bfile \<Rightarrow> pq_sym \<Rightarrow> pq_sym res" where
  "load_codes_bin f pq =
     rbind (read_u32 f 0) (\<lambda>(npts, p1).
     rbind (read_u32 f p1) (\<lambda>(nch, p2).
     rbind (read_exact f p2 (npts * nch)) (\<lambda>(cs, p3).
       Inr (pq\<lparr>pq_N := npts, pq_QD := nch, pq_codes := map unat cs\<rparr>))))"

definition lut_entry :: "fp list \<Rightarrow> nat \<Rightarrow> nat \<Rightarrow> nat \<Rightarrow> nat \<Rightarrow> nat \<Rightarrow> fp" where
  "lut_entry pivots D off len a b =
     fconv Binary32 (fold (\<lambda>k acc.
         let t = fsub Binary64 (pivots ! (a * D + off + k)) (pivots ! (b * D + off + k))
         in fadd Binary64 acc (fmul Binary64 t t)) [0..<len] fzero)"

text \<open>Reading outside \<open>pivots\<close> is undefined; the last centroid reaches furthest.\<close>

definition build_lut :: "pq_sym \<Rightarrow> nat \<Rightarrow> fp list res" where
  "build_lut pq m =
     (let off = pq_chunk_off pq ! m; len = sub32 (pq_chunk_off pq ! (m + 1)) off
      in if 0 < len \<and> length (pq_pivots pq) < (NUM_CENTROIDS - 1) * pq_D pq + off + len then Inl OutOfRange
         else Inr (map (\<lambda>i. lut_entry (pq_pivots pq) (pq_D pq) off len (i div NUM_CENTROIDS) (i mod NUM_CENTROIDS))
                     [0..<NUM_CENTROIDS * NUM_CENTROIDS]))"

definition build_cc_luts :: "pq_sym \<Rightarrow> pq_sym res" where
  "build_cc_luts pq =
     (if length (pq_chunk_off pq) \<noteq> pq_QD pq + 1 then Inl (Die ''chunk_off/QD mismatch'')
      else rbind (rfold (\<lambda>m ccs. rbind (build_lut pq m) (\<lambda>l. Inr (ccs @ [l]))) [0..<pq_QD pq] []) (\<lambda>ccs.
        Inr (pq\<lparr>pq_cc := ccs\<rparr>)))"

text \<open>For points below \<open>N\<close>.\<close>

definition pq_dist :: "pq_sym \<Rightarrow> nat \<Rightarrow> nat \<Rightarrow> fp" where
  "pq_dist pq u v =
     fconv Binary32 (fold (\<lambda>m acc. fadd Binary64 acc
         (pq_cc pq ! m ! (pq_codes pq ! (u * pq_QD pq + m) * NUM_CENTROIDS + pq_codes pq ! (v * pq_QD pq + m))))
       [0..<pq_QD pq] fzero)"

definition bytes_in_ram :: "pq_sym \<Rightarrow> nat" where
  "bytes_in_ram pq = u64 (length (pq_pivots pq) * 4 + length (pq_chunk_off pq) * 4 + length (pq_codes pq) +
     pq_QD pq * NUM_CENTROIDS * NUM_CENTROIDS * 4)"

section \<open>Pruning one point\<close>

text \<open>The inner loop: how many kept points occlude \<open>v\<close>, counted up to \<open>T\<close>.\<close>

fun occ_by :: "(nat \<Rightarrow> nat \<Rightarrow> fp) \<Rightarrow> int \<Rightarrow> nat \<Rightarrow> fp \<Rightarrow> nat list \<Rightarrow> int \<Rightarrow> int" where
  "occ_by dst T v dv [] n = n"
| "occ_by dst T v dv (s # ss) n =
     (if fle (dst s v) dv then (if T \<le> n + 1 then n + 1 else occ_by dst T v dv ss (n + 1))
      else occ_by dst T v dv ss n)"

fun t_prune :: "(nat \<Rightarrow> nat \<Rightarrow> fp) \<Rightarrow> nat \<Rightarrow> int \<Rightarrow> (fp \<times> nat) list \<Rightarrow> nat list \<Rightarrow> nat list" where
  "t_prune dst R T [] out = out"
| "t_prune dst R T ((dv, v) # pool) out =
     (if \<not> length out < R then out
      else t_prune dst R T pool (if occ_by dst T v dv out 0 < T then out @ [v] else out))"

fun fill_prune :: "nat \<Rightarrow> (fp \<times> nat) list \<Rightarrow> nat list \<Rightarrow> nat list" where
  "fill_prune R [] out = out"
| "fill_prune R ((dv, v) # pool) out =
     (if \<not> length out < R then out else fill_prune R pool (if v \<in> set out then out else out @ [v]))"

definition prune_pool :: "(nat \<Rightarrow> nat \<Rightarrow> fp) \<Rightarrow> nat \<Rightarrow> nat \<Rightarrow> nat list \<Rightarrow> (fp \<times> nat) list" where
  "prune_pool dst N u cand = std_sort dist_id_lt (map (\<lambda>v. (dst (u32 u) v, v)) (filter (\<lambda>v. v < N \<and> v \<noteq> u32 u) cand))"

definition prune_node :: "(nat \<Rightarrow> nat \<Rightarrow> fp) \<Rightarrow> nat \<Rightarrow> nat \<Rightarrow> nat \<Rightarrow> nat \<Rightarrow> nat list \<Rightarrow> nat list" where
  "prune_node dst N R T u cand =
     (let pool = prune_pool dst N u cand; out = t_prune dst R (wrap_int (int T)) pool []
      in if length out < R then fill_prune R pool out else out)"

section \<open>Budgets\<close>

definition pp_budget :: "pp_args \<Rightarrow> nat \<Rightarrow> nat \<Rightarrow> nat res" where
  "pp_budget a N D =
     (if 0 < pp_memory_budget_bytes a then Inr (pp_memory_budget_bytes a)
      else
        let num = f_of_nat X87; mul = fmul X87;
            per_node = fadd X87 (mul (num D) (num 4)) (mul (num (pp_R a)) (num 4))
        in case f_to_u64 (mul (fdiv X87 (mul (num N) per_node) (num (pp_P a))) (num 2)) of
             None \<Rightarrow> Inl OutOfRange | Some b \<Rightarrow> Inr b)"

definition mem_avail :: "pp_args \<Rightarrow> nat \<Rightarrow> nat \<Rightarrow> nat res" where
  "mem_avail a budget pq_bytes =
     (case f_to_u64 (fmul X87 (f_of_nat X87 budget) (pp_safety_frac a)) of
        None \<Rightarrow> Inl OutOfRange
      | Some safety \<Rightarrow>
          if u64 (pq_bytes + safety) < budget then Inr (sub64 (sub64 budget pq_bytes) safety)
          else Inl (Die ''PQ resident bytes exceed mem budget. Streaming optimization cannot fix this if PQ itself is too big.''))"

definition meta_batch_rows :: "nat \<Rightarrow> nat res" where
  "meta_batch_rows avail =
     (case f_to_u64 (fmul Binary64 (f_of_nat Binary64 avail) (fround Binary64 False (1 / 10))) of
        None \<Rightarrow> Inl OutOfRange
      | Some target \<Rightarrow>
          let r0 = target div 16; r1 = (if r0 < 10000 then 10000 else r0)
          in Inr (if 10000000 < r1 then 10000000 else r1))"

definition PRUNE_BATCH_MAX_BYTES :: nat where "PRUNE_BATCH_MAX_BYTES = 768 * 1024 * 1024"

text \<open>The subtraction is on \<open>uint64_t\<close> and unguarded.\<close>

definition batch_budget :: "pp_args \<Rightarrow> nat \<Rightarrow> nat \<Rightarrow> nat res" where
  "batch_budget a avail meta_rows =
     (let left = sub64 avail (u64 (meta_rows * 16))
      in case f_to_u64 (fmul X87 (f_of_nat X87 left) (Fin False (1 / 2))) of
           None \<Rightarrow> Inl OutOfRange
         | Some e0 \<Rightarrow>
             let e1 = (if 0 < pp_chunk_bytes a then min e0 (pp_chunk_bytes a) else e0);
                 e2 = min e1 PRUNE_BATCH_MAX_BYTES
             in if e2 = 0 then Inl (Die ''effective pruning batch budget is zero'') else Inr e2)"

section \<open>Batches\<close>

definition row_end :: "nat \<times> nat \<Rightarrow> nat" where
  "row_end r = u64 (fst r + snd r * 4)"

definition off_min_of :: "(nat \<times> nat) list \<Rightarrow> nat" where
  "off_min_of rows = fold (\<lambda>r m. if fst r < m then fst r else m) rows (2 ^ 64 - 1)"

definition off_max_of :: "(nat \<times> nat) list \<Rightarrow> nat" where
  "off_max_of rows = fold (\<lambda>r m. if m < row_end r then row_end r else m) rows 0"

definition span_bytes :: "(nat \<times> nat) list \<Rightarrow> nat" where
  "span_bytes rows = (if off_min_of rows < off_max_of rows then off_max_of rows - off_min_of rows else 0)"

text \<open>The binary search; \<open>0 < lo\<close> always holds.\<close>

function batch_search :: "nat \<Rightarrow> nat \<Rightarrow> (nat \<times> nat) list \<Rightarrow> nat \<Rightarrow> nat \<Rightarrow> nat \<Rightarrow> nat" where
  "batch_search budget R rows lo hi best =
     (if lo \<le> hi \<and> 0 < lo then
        let k = (lo + hi) div 2;
            need = u64 (span_bytes (take k rows) + 2 * k * (R * 4 + 4))
        in if need \<le> budget then batch_search budget R rows (k + 1) hi k
           else batch_search budget R rows lo (k - 1) best
      else best)"
  by pat_completeness auto
termination
  by (relation "measure (\<lambda>(budget, R, rows, lo, hi, best). hi + 1 - lo)") auto

declare batch_search.simps [simp del]

definition pick_batch_k_local :: "nat \<Rightarrow> nat \<Rightarrow> (nat \<times> nat) list \<Rightarrow> nat" where
  "pick_batch_k_local budget R rows = batch_search budget R rows 1 (length rows) 1"

text \<open>\<open>pread\<close> returns at most what the file has.\<close>

definition pread_count :: "(nat \<Rightarrow> nat \<Rightarrow> int) \<Rightarrow> bfile \<Rightarrow> nat \<Rightarrow> nat \<Rightarrow> int" where
  "pread_count rd f off want = min (rd off want) (int (length f - off))"

function pread_all :: "(nat \<Rightarrow> nat \<Rightarrow> int) \<Rightarrow> bfile \<Rightarrow> nat \<Rightarrow> nat \<Rightarrow> nat \<Rightarrow> byte list \<Rightarrow> byte list res" where
  "pread_all rd f off n got buf =
     (if got < n then
        let rn = pread_count rd f (off + got) (n - got)
        in if rn \<le> 0 then Inl (Die ''pread ids batch'')
           else pread_all rd f off n (got + nat rn) (blit buf got (block f (off + got) (nat rn)))
      else Inr buf)"
  by pat_completeness auto
termination
  by (relation "measure (\<lambda>(rd, f, off, n, got, buf). n - got)") auto

declare pread_all.simps [simp del]

text \<open>The candidates of one row inside the chunk that was read; outside it the access is undefined.\<close>

definition row_cand :: "byte list \<Rightarrow> nat \<Rightarrow> nat \<times> nat \<Rightarrow> nat list res" where
  "row_cand chunk off_min r =
     (let rel = sub64 (fst r) off_min
      in if snd r \<noteq> 0 \<and> length chunk < rel + 4 * snd r then Inl OutOfRange
         else Inr (dec32 (block chunk rel (4 * snd r))))"

definition serialize :: "nat list list \<Rightarrow> byte list" where
  "serialize outs = concat (map (\<lambda>row. le_bytes 4 (length row) @ (if row = [] then [] else enc32 row)) outs)"

text \<open>What the loops share: distance, number of points, degree and threshold.\<close>

record prune_env =
  pe_dist :: "nat \<Rightarrow> nat \<Rightarrow> fp"
  pe_N :: nat
  pe_R :: nat
  pe_T :: nat
  pe_budget :: nat

record prune_out =
  po_file :: bfile
  po_off :: nat
  po_max_deg :: nat

definition prune_rows :: "prune_env \<Rightarrow> byte list \<Rightarrow> nat \<Rightarrow> nat \<Rightarrow> (nat \<times> nat) list \<Rightarrow> nat list list res" where
  "prune_rows e chunk off_min u0 rows =
     rfold (\<lambda>i outs. rbind (row_cand chunk off_min (rows ! i)) (\<lambda>cand.
              Inr (outs @ [prune_node (pe_dist e) (pe_N e) (pe_R e) (pe_T e) (u0 + i) cand])))
       [0..<length rows] []"

definition prune_batch ::
    "(nat \<Rightarrow> nat \<Rightarrow> int) \<Rightarrow> (nat \<Rightarrow> nat \<Rightarrow> int) \<Rightarrow> prune_env \<Rightarrow> bfile \<Rightarrow> nat \<Rightarrow> (nat \<times> nat) list \<Rightarrow> prune_out \<Rightarrow> prune_out res option" where
  "prune_batch rd wr e ids u0 rows st =
     (let mn = off_min_of rows; span = span_bytes rows
      in case rbind (if 0 < span then pread_all rd ids (32 + mn) span 0 (replicate span 0) else Inr []) (\<lambda>chunk.
                prune_rows e chunk mn u0 rows) of
           Inl er \<Rightarrow> Some (Inl er)
         | Inr outs \<Rightarrow>
             let bytes = serialize outs
             in map_option (\<lambda>r. rbind r (\<lambda>f. Inr \<lparr>po_file = f, po_off = po_off st + length bytes,
                     po_max_deg = fold (\<lambda>row m. max m (length row)) outs (po_max_deg st)\<rparr>))
                  (pwrite_all ''pwrite batch'' wr (64 * 1024 * 1024) (po_file st) (po_off st) bytes 0))"

lemma batch_search_pos: "0 < best \<Longrightarrow> 0 < batch_search budget R rows lo hi best"
proof (induction budget R rows lo hi best rule: batch_search.induct)
  case (1 budget R rows lo hi best)
  show ?case
  proof (cases "lo \<le> hi \<and> 0 < lo")
    case False
    then show ?thesis using "1.prems" by (subst batch_search.simps) auto
  next
    case True
    let ?k = "(lo + hi) div 2"
    have "0 < ?k" using True by linarith
    then show ?thesis
      using "1.IH"(1)[OF True refl refl] "1.IH"(2)[OF True refl refl] "1.prems" True
      by (subst batch_search.simps) (auto simp: Let_def)
  qed
qed

lemma pick_batch_pos: "0 < pick_batch_k_local budget R rows"
  by (simp add: pick_batch_k_local_def batch_search_pos)

function inner_loop ::
    "(nat \<Rightarrow> nat \<Rightarrow> int) \<Rightarrow> (nat \<Rightarrow> nat \<Rightarrow> int) \<Rightarrow> prune_env \<Rightarrow> bfile \<Rightarrow> nat \<Rightarrow> (nat \<times> nat) list \<Rightarrow> prune_out \<Rightarrow> prune_out res option" where
  "inner_loop rd wr e ids u0 rows st =
     (if rows = [] then Some (Inr st)
      else
        let k = pick_batch_k_local (pe_budget e) (pe_R e) rows
        in case prune_batch rd wr e ids u0 (take k rows) st of
             Some (Inr st') \<Rightarrow> inner_loop rd wr e ids (u0 + k) (drop k rows) st'
           | r \<Rightarrow> r)"
  by pat_completeness auto
termination
  by (relation "measure (\<lambda>(rd, wr, e, ids, u0, rows, st). length rows)") (auto simp: pick_batch_pos)

declare inner_loop.simps [simp del]

definition meta_rows_of :: "byte list \<Rightarrow> nat \<Rightarrow> (nat \<times> nat) list" where
  "meta_rows_of bs n = map (\<lambda>i. (le_nat (block bs (16 * i) 8), le_nat (block bs (16 * i + 8) 4))) [0..<n]"

text \<open>The outer loop; \<open>meta_rows\<close> is at least 10000.\<close>

function outer_loop ::
    "(nat \<Rightarrow> nat \<Rightarrow> int) \<Rightarrow> (nat \<Rightarrow> nat \<Rightarrow> int) \<Rightarrow> (nat \<Rightarrow> nat \<Rightarrow> int) \<Rightarrow> prune_env \<Rightarrow> nat \<Rightarrow> bfile \<Rightarrow> bfile \<Rightarrow> nat \<Rightarrow> prune_out \<Rightarrow> prune_out res option" where
  "outer_loop rd ri wr e meta_rows idx ids u st =
     (if u < pe_N e \<and> 0 < meta_rows then
        let n = min (pe_N e - u) meta_rows; want = n * 16; off = 32 + u * 16
        in if pread_count ri idx off want \<noteq> int want then Some (Inl (Die ''read meta batch failed''))
           else case inner_loop rd wr e ids u (meta_rows_of (block idx off want) n) st of
                  Some (Inr st') \<Rightarrow> outer_loop rd ri wr e meta_rows idx ids (u + n) st'
                | r \<Rightarrow> r
      else Some (Inr st))"
  by pat_completeness auto
termination
  by (relation "measure (\<lambda>(rd, ri, wr, e, meta_rows, idx, ids, u, st). pe_N e - u)") auto

declare outer_loop.simps [simp del]

definition graph_hdr :: "nat \<Rightarrow> nat \<Rightarrow> byte list" where
  "graph_hdr isz maxObs = le_bytes 8 isz @ le_bytes 4 maxObs @ le_bytes 4 0 @ le_bytes 8 0"

text \<open>From the output file with its provisional header to the finished graph.\<close>

definition prune_stream ::
    "(nat \<Rightarrow> nat \<Rightarrow> int) \<Rightarrow> (nat \<Rightarrow> nat \<Rightarrow> int) \<Rightarrow> (nat \<Rightarrow> nat \<Rightarrow> int) \<Rightarrow> prune_env \<Rightarrow> nat \<Rightarrow> bfile \<Rightarrow> bfile \<Rightarrow> bfile \<Rightarrow> bfile res option" where
  "prune_stream rd ri wr e meta_rows idx ids f0 =
     map_option (\<lambda>r. rbind r (\<lambda>st. write_once wr ''rewrite header'' (po_file st) 0 (graph_hdr (po_off st) (po_max_deg st))))
       (outer_loop rd ri wr e meta_rows idx ids 0 \<lparr>po_file = f0, po_off = 24, po_max_deg = 0\<rparr>)"

text \<open>The tool from the loaded files on: \<open>pivots\<close> and \<open>codes\<close> are the files of the product
  quantisation, generated before when they are missing.\<close>

definition load_pq :: "bfile \<Rightarrow> bfile \<Rightarrow> pq_sym res" where
  "load_pq pivots codes =
     rbind (load_pivots_with_offsets pivots pq_sym_empty) (\<lambda>pq1.
     rbind (load_codes_bin codes pq1) build_cc_luts)"

definition our_pruning ::
    "(nat \<Rightarrow> nat \<Rightarrow> int) \<Rightarrow> (nat \<Rightarrow> nat \<Rightarrow> int) \<Rightarrow> (nat \<Rightarrow> nat \<Rightarrow> int) \<Rightarrow> pp_args \<Rightarrow> bfile \<Rightarrow> bfile \<Rightarrow> bfile \<Rightarrow> bfile \<Rightarrow> bfile res option" where
  "our_pruning rd ri wr a pivots codes idx ids =
     (case rbind (load_pq pivots codes) (\<lambda>pq.
           rbind (pp_budget a (pq_N pq) (pq_D pq)) (\<lambda>budget.
           rbind (mem_avail a budget (bytes_in_ram pq)) (\<lambda>avail.
           if pread_count ri idx 0 32 \<noteq> 32 then Inl (Die ''read cand.idx header'')
           else
             rbind (write_once wr ''write header'' [] 0 (graph_hdr 0 (pp_R a))) (\<lambda>f0.
             rbind (meta_batch_rows avail) (\<lambda>rows.
             rbind (batch_budget a avail rows) (\<lambda>eff. Inr (pq, rows, eff, f0))))))) of
        Inl er \<Rightarrow> Some (Inl er)
      | Inr (pq, rows, eff, f0) \<Rightarrow>
          prune_stream rd ri wr \<lparr>pe_dist = pq_dist pq, pe_N = pq_N pq, pe_R = pp_R a, pe_T = pp_T a, pe_budget = eff\<rparr>
            rows idx ids f0)"

section \<open>Reading a batch\<close>

lemma pread_all_content:
  assumes "io_mode rd" "off + n \<le> length f" "length buf = n" "got \<le> n" "take got buf = block f off got"
  shows "pread_all rd f off n got buf = Inr (block f off n)"
  using assms
proof (induction rd f off n got buf rule: pread_all.induct)
  case (1 rd f off n got buf)
  show ?case
  proof (cases "got < n")
    case False
    then show ?thesis
      using "1.prems" by (subst pread_all.simps) simp
  next
    case True
    define rn where "rn = pread_count rd f (off + got) (n - got)"
    have "0 < rd (off + got) (n - got) \<and> rd (off + got) (n - got) \<le> int (n - got)"
      using "1.prems"(1) True unfolding io_mode_def by (meson zero_less_diff)
    then have rn: "0 < rn" "got + nat rn \<le> n"
      using True "1.prems"(2) unfolding rn_def pread_count_def by linarith+
    let ?buf = "blit buf got (block f (off + got) (nat rn))"
    have len: "length (block f (off + got) (nat rn)) = nat rn"
      using rn(2) "1.prems"(2) by simp
    have "take (got + nat rn) ?buf = take got buf @ block f (off + got) (nat rn)"
      using "1.prems"(3) rn(2) True len by (simp add: blit_def take_add)
    also have "\<dots> = block f off (got + nat rn)"
      using "1.prems"(5) by (simp add: block_split)
    finally have "pread_all rd f off n (got + nat rn) ?buf = Inr (block f off n)"
      using "1.IH"[OF True rn_def] rn "1.prems" len by simp
    then show ?thesis
      using True rn(1) by (subst pread_all.simps) (simp add: Let_def flip: rn_def)
  qed
qed

lemma off_min_Min: "off_min_of rows = Min (set ((2 ^ 64 - 1) # map fst rows))"
proof -
  have "(\<lambda>r :: nat \<times> nat. \<lambda>m. if fst r < m then fst r else m) = min \<circ> fst"
    by (auto simp: fun_eq_iff min_def)
  then show ?thesis
    by (simp only: off_min_of_def Min.set_eq_fold fold_map)
qed

lemma off_max_Max: "off_max_of rows = Max (set (0 # map row_end rows))"
proof -
  have "(\<lambda>r m. if m < row_end r then row_end r else m) = max \<circ> row_end"
    by (auto simp: fun_eq_iff max_def)
  then show ?thesis
    by (simp only: off_max_of_def Max.set_eq_fold fold_map)
qed

lemma off_min_le: "r \<in> set rows \<Longrightarrow> off_min_of rows \<le> fst r"
  unfolding off_min_Min by (intro Min_le) auto

lemma off_max_ge: "r \<in> set rows \<Longrightarrow> row_end r \<le> off_max_of rows"
  unfolding off_max_Max by (intro Max_ge) auto

lemma off_max_le: "(\<And>r. r \<in> set rows \<Longrightarrow> row_end r \<le> b) \<Longrightarrow> off_max_of rows \<le> b"
  unfolding off_max_Max by (intro Max.boundedI) auto

section \<open>A batch prunes its rows\<close>

definition row_of :: "nat list list \<Rightarrow> nat \<Rightarrow> nat \<times> nat" where
  "row_of ls i = (4 * list_off ls i, length (ls ! i))"

lemma row_of_bounds:
  assumes "cand_fits ls" "i < length ls"
  shows "row_end (row_of ls i) = fst (row_of ls i) + 4 * snd (row_of ls i)" "row_end (row_of ls i) \<le> 4 * length (concat ls)"
    "4 * length (concat ls) < 2 ^ 63"
proof -
  show lt: "4 * length (concat ls) < 2 ^ 63"
    using assms(1) by (simp add: cand_fits_def)
  have e: "4 * list_off ls (Suc i) \<le> 4 * length (concat ls)"
    using list_off_le[of ls "Suc i"] by simp
  then have "4 * list_off ls i + length (ls ! i) * 4 < 2 ^ 64"
    using lt list_off_Suc[OF assms(2)] by simp
  then show "row_end (row_of ls i) = fst (row_of ls i) + 4 * snd (row_of ls i)"
    by (simp add: row_end_def row_of_def u64_id mult.commute del: power_numeral)
  then show "row_end (row_of ls i) \<le> 4 * length (concat ls)"
    using e list_off_Suc[OF assms(2)] by (simp add: row_of_def)
qed

lemma off_max_rows:
  assumes "cand_fits ls" "\<forall>r \<in> set rows. \<exists>i < length ls. r = row_of ls i"
  shows "off_max_of rows \<le> 4 * length (concat ls)"
proof (rule off_max_le)
  fix r assume "r \<in> set rows"
  then obtain i where i: "i < length ls" "r = row_of ls i" using assms(2) by blast
  show "row_end r \<le> 4 * length (concat ls)"
    using row_of_bounds(2)[OF assms(1) i(1)] unfolding i(2) .
qed

lemma cand_bytes_at:
  assumes "cand_fits ls" "i < length ls"
  shows "dec32 (block (cand_ids_file ls) (32 + fst (row_of ls i)) (4 * snd (row_of ls i))) = ls ! i"
  using cand_list_at_file[OF assms(2,1)] cand_row_at_file[OF assms(2,1)]
  by (simp add: cand_list_at_def row_of_def list_off_def)

lemma length_cand_ids_file: "length (cand_ids_file ls) = 32 + 4 * length (concat ls)"
  by (simp add: cand_ids_file_def)

definition batch_chunk :: "bfile \<Rightarrow> (nat \<times> nat) list \<Rightarrow> byte list" where
  "batch_chunk ids rows = block ids (32 + off_min_of rows) (span_bytes rows)"

lemma batch_read:
  assumes "cand_fits ls" "io_mode rd" "\<forall>r \<in> set rows. \<exists>i < length ls. r = row_of ls i"
  shows "(if 0 < span_bytes rows then pread_all rd (cand_ids_file ls) (32 + off_min_of rows) (span_bytes rows) 0 (replicate (span_bytes rows) 0)
     else Inr []) = Inr (batch_chunk (cand_ids_file ls) rows)"
proof (cases "0 < span_bytes rows")
  case False
  then show ?thesis by (simp add: batch_chunk_def)
next
  case True
  have "off_max_of rows \<le> 4 * length (concat ls)"
    by (rule off_max_rows[OF assms(1,3)])
  then have "32 + off_min_of rows + span_bytes rows \<le> length (cand_ids_file ls)"
    using True unfolding span_bytes_def length_cand_ids_file by (auto split: if_splits)
  then have "pread_all rd (cand_ids_file ls) (32 + off_min_of rows) (span_bytes rows) 0 (replicate (span_bytes rows) 0) =
      Inr (batch_chunk (cand_ids_file ls) rows)"
    using pread_all_content[OF assms(2), of "32 + off_min_of rows" "span_bytes rows" "cand_ids_file ls" "replicate (span_bytes rows) 0" 0]
    by (simp add: batch_chunk_def)
  then show ?thesis using True by simp
qed

lemma row_cand_list:
  assumes "cand_fits ls" "\<forall>r \<in> set rows. \<exists>i < length ls. r = row_of ls i" "row_of ls i \<in> set rows" "i < length ls"
  shows "row_cand (batch_chunk (cand_ids_file ls) rows) (off_min_of rows) (row_of ls i) = Inr (ls ! i)"
proof (cases "ls ! i = []")
  case True
  then show ?thesis by (simp add: row_cand_def row_of_def)
next
  case False
  let ?r = "row_of ls i" and ?ids = "cand_ids_file ls"
  note b = row_of_bounds[OF assms(1,4)]
  have mn: "off_min_of rows \<le> fst ?r" using off_min_le[OF assms(3)] .
  have mx: "fst ?r + 4 * snd ?r \<le> off_max_of rows" using off_max_ge[OF assms(3)] b(1) by simp
  have pos: "0 < snd ?r" using False by (simp add: row_of_def)
  have rel: "sub64 (fst ?r) (off_min_of rows) = fst ?r - off_min_of rows"
    using mn b by (intro sub64_id) auto
  have span: "span_bytes rows = off_max_of rows - off_min_of rows"
    using mn mx pos by (simp add: span_bytes_def)
  then have in_span: "fst ?r - off_min_of rows + 4 * snd ?r \<le> span_bytes rows"
    using mn mx by simp
  have "off_max_of rows \<le> 4 * length (concat ls)"
    by (rule off_max_rows[OF assms(1,2)])
  then have "32 + off_min_of rows + span_bytes rows \<le> length ?ids"
    using span mn mx pos unfolding length_cand_ids_file by linarith
  then have len: "length (batch_chunk ?ids rows) = span_bytes rows"
    by (simp add: batch_chunk_def)
  have "block (batch_chunk ?ids rows) (fst ?r - off_min_of rows) (4 * snd ?r) = block ?ids (32 + fst ?r) (4 * snd ?r)"
    using in_span mn unfolding batch_chunk_def by (simp add: block_slice)
  then show ?thesis
    using in_span len cand_bytes_at[OF assms(1,4)] by (simp add: row_cand_def rel)
qed

section \<open>The loops\<close>

definition pruned :: "prune_env \<Rightarrow> nat list list \<Rightarrow> nat \<Rightarrow> nat list" where
  "pruned e ls u = prune_node (pe_dist e) (pe_N e) (pe_R e) (pe_T e) u (ls ! u)"

text \<open>The state after the points below \<open>u\<close>.\<close>

definition out_upto :: "prune_env \<Rightarrow> nat list list \<Rightarrow> nat \<Rightarrow> prune_out" where
  "out_upto e ls u =
     (let rows = map (pruned e ls) [0..<u]; f = graph_hdr 0 (pe_R e) @ concat (map node_bytes rows)
      in \<lparr>po_file = f, po_off = length f, po_max_deg = max_deg_of rows\<rparr>)"

lemma serialize_nodes: "serialize outs = concat (map node_bytes outs)"
  unfolding serialize_def node_bytes_def by (intro arg_cong[where f = concat] map_cong) auto

lemma rows_are_rows: "u + k \<le> length ls \<Longrightarrow> \<forall>r \<in> set (map (row_of ls) [u..<u + k]). \<exists>i < length ls. r = row_of ls i"
  by (metis (no_types, lifting) atLeastLessThan_iff imageE less_le_trans list.set_map set_upt)

lemma prune_rows_list:
  assumes "cand_fits ls" "rows = map (row_of ls) [u..<u + k]" "u + k \<le> length ls"
  shows "prune_rows e (batch_chunk (cand_ids_file ls) rows) (off_min_of rows) u rows = Inr (map (pruned e ls) [u..<u + k])"
proof -
  have mem: "\<forall>r \<in> set rows. \<exists>i < length ls. r = row_of ls i"
    unfolding assms(2) by (rule rows_are_rows[OF assms(3)])
  let ?f = "\<lambda>i outs. rbind (row_cand (batch_chunk (cand_ids_file ls) rows) (off_min_of rows) (rows ! i)) (\<lambda>cand.
      Inr (outs @ [prune_node (pe_dist e) (pe_N e) (pe_R e) (pe_T e) (u + i) cand]))"
  have "rfold ?f [0..<j] [] = Inr (map (pruned e ls) [u..<u + j])" if "j \<le> k" for j
    using that
  proof (induction j)
    case 0
    then show ?case by simp
  next
    case (Suc j)
    have nth: "rows ! j = row_of ls (u + j)" using Suc.prems assms(2) by simp
    then have "row_cand (batch_chunk (cand_ids_file ls) rows) (off_min_of rows) (rows ! j) = Inr (ls ! (u + j))"
      unfolding nth using Suc.prems assms(2,3) by (intro row_cand_list[OF assms(1) mem]) auto
    then show ?case
      using Suc by (simp add: rfold_append pruned_def)
  qed
  from this[of k] show ?thesis
    using assms(2) by (simp add: prune_rows_def)
qed

lemma fold_max_deg: "fold (\<lambda>row m. max m (length row)) outs (max_deg_of rows) = max_deg_of (rows @ outs)"
proof -
  have "(\<lambda>row m. max m (length row)) = max \<circ> (length :: nat list \<Rightarrow> nat)"
    by (auto simp: fun_eq_iff max.commute)
  then show ?thesis by (simp add: max_deg_of_def fold_map)
qed

lemma prune_batch_step:
  assumes "cand_fits ls" "io_mode rd" "io_mode wr" "u + k \<le> length ls"
  shows "prune_batch rd wr e (cand_ids_file ls) u (map (row_of ls) [u..<u + k]) (out_upto e ls u) = Some (Inr (out_upto e ls (u + k)))"
proof -
  let ?rows = "map (row_of ls) [u..<u + k]" and ?new = "map (pruned e ls) [u..<u + k]"
  note mem = rows_are_rows[OF assms(4)]
  have read: "rbind (if 0 < span_bytes ?rows then pread_all rd (cand_ids_file ls) (32 + off_min_of ?rows) (span_bytes ?rows) 0 (replicate (span_bytes ?rows) 0)
      else Inr []) (\<lambda>chunk. prune_rows e chunk (off_min_of ?rows) u ?rows) = Inr ?new"
    by (simp only: batch_read[OF assms(1,2) mem] rbind_simps prune_rows_list[OF assms(1) refl assms(4)])
  have "[0..<u + k] = [0..<u] @ [u..<u + k]"
    by (rule upt_add_eq_append) simp
  then have rows: "map (pruned e ls) [0..<u + k] = map (pruned e ls) [0..<u] @ ?new"
    by simp
  have wrote: "pwrite_all ''pwrite batch'' wr (64 * 1024 * 1024) (po_file (out_upto e ls u)) (po_off (out_upto e ls u)) (serialize ?new) 0 =
      Some (Inr (po_file (out_upto e ls u) @ serialize ?new))"
    unfolding out_upto_def Let_def prune_out.select_convs by (rule pwrite_all_append[OF assms(3)]) simp
  have deg: "fold (\<lambda>row m. max m (length row)) ?new (po_max_deg (out_upto e ls u)) = po_max_deg (out_upto e ls (u + k))"
    using fold_max_deg[of ?new "map (pruned e ls) [0..<u]"] by (simp add: out_upto_def Let_def rows)
  have "prune_batch rd wr e (cand_ids_file ls) u ?rows (out_upto e ls u) =
      Some (Inr \<lparr>po_file = po_file (out_upto e ls u) @ serialize ?new, po_off = po_off (out_upto e ls u) + length (serialize ?new),
        po_max_deg = po_max_deg (out_upto e ls (u + k))\<rparr>)"
    unfolding prune_batch_def Let_def read sum.case wrote deg by simp
  then show ?thesis
    by (simp add: out_upto_def Let_def rows serialize_nodes)
qed

lemma batch_search_le: "best \<le> b \<Longrightarrow> hi \<le> b \<Longrightarrow> batch_search budget R rows lo hi best \<le> b"
proof (induction budget R rows lo hi best rule: batch_search.induct)
  case (1 budget R rows lo hi best)
  show ?case
  proof (cases "lo \<le> hi \<and> 0 < lo")
    case False
    then show ?thesis using "1.prems" by (subst batch_search.simps) auto
  next
    case True
    have "(lo + hi) div 2 \<le> hi" using True by linarith
    then show ?thesis
      using "1.IH"(1)[OF True refl refl] "1.IH"(2)[OF True refl refl] "1.prems" True
      by (subst batch_search.simps) (auto simp: Let_def)
  qed
qed

lemma inner_loop_rows:
  assumes "cand_fits ls" "io_mode rd" "io_mode wr"
  shows "u + n \<le> length ls \<Longrightarrow>
    inner_loop rd wr e (cand_ids_file ls) u (map (row_of ls) [u..<u + n]) (out_upto e ls u) = Some (Inr (out_upto e ls (u + n)))"
proof (induction n arbitrary: u rule: less_induct)
  case (less n)
  show ?case
  proof (cases "n = 0")
    case True
    then show ?thesis by (subst inner_loop.simps) simp
  next
    case False
    let ?rows = "map (row_of ls) [u..<u + n]"
    define k where "k = pick_batch_k_local (pe_budget e) (pe_R e) ?rows"
    have k: "0 < k" "k \<le> n"
      using False batch_search_le[of 1 n "length ?rows" "pe_budget e" "pe_R e" ?rows 1] pick_batch_pos[of "pe_budget e" "pe_R e" ?rows]
      by (simp_all add: k_def pick_batch_k_local_def)
    have split: "take k ?rows = map (row_of ls) [u..<u + k]" "drop k ?rows = map (row_of ls) [u + k..<u + k + (n - k)]"
      using k by (simp_all add: take_map drop_map)
    have "prune_batch rd wr e (cand_ids_file ls) u (take k ?rows) (out_upto e ls u) = Some (Inr (out_upto e ls (u + k)))"
      unfolding split using less.prems k by (intro prune_batch_step[OF assms]) simp
    moreover have "inner_loop rd wr e (cand_ids_file ls) (u + k) (drop k ?rows) (out_upto e ls (u + k)) = Some (Inr (out_upto e ls (u + n)))"
      unfolding split using less.IH[of "n - k" "u + k"] less.prems k by simp
    moreover have "?rows \<noteq> []" using False by simp
    ultimately show ?thesis
      by (subst inner_loop.simps) (simp add: Let_def flip: k_def)
  qed
qed

lemma meta_rows_cand:
  assumes "cand_fits ls" "u + n \<le> length ls"
  shows "meta_rows_of (block (cand_idx_file ls) (32 + u * 16) (n * 16)) n = map (row_of ls) [u..<u + n]"
proof (rule nth_equalityI)
  fix i assume "i < length (meta_rows_of (block (cand_idx_file ls) (32 + u * 16) (n * 16)) n)"
  then have i: "i < n" by (simp add: meta_rows_of_def)
  have "block (block (cand_idx_file ls) (32 + u * 16) (n * 16)) (16 * i) 8 = block (cand_idx_file ls) (32 + 16 * (u + i)) 8"
    "block (block (cand_idx_file ls) (32 + u * 16) (n * 16)) (16 * i + 8) 4 = block (cand_idx_file ls) (32 + 16 * (u + i) + 8) 4"
    using i by (simp_all add: block_slice algebra_simps)
  then show "meta_rows_of (block (cand_idx_file ls) (32 + u * 16) (n * 16)) n ! i = map (row_of ls) [u..<u + n] ! i"
    using i assms(2) cand_row_at_file[OF _ assms(1), of "u + i"] by (simp add: meta_rows_of_def cand_row_at_def row_of_def list_off_def)
qed (simp add: meta_rows_of_def)

lemma outer_loop_rows:
  assumes "cand_fits ls" "io_mode rd" "io_mode wr" "\<forall>off want. ri off want = int want" "0 < meta_rows" "pe_N e = length ls"
  shows "u \<le> length ls \<Longrightarrow>
    outer_loop rd ri wr e meta_rows (cand_idx_file ls) (cand_ids_file ls) u (out_upto e ls u) = Some (Inr (out_upto e ls (length ls)))"
proof (induction "length ls - u" arbitrary: u rule: less_induct)
  case less
  show ?case
  proof (cases "u < length ls")
    case False
    then show ?thesis using less.prems assms(6) by (subst outer_loop.simps) simp
  next
    case True
    define n where "n = min (length ls - u) meta_rows"
    have n: "0 < n" "u + n \<le> length ls"
      using True assms(5) by (auto simp: n_def)
    have "length (cand_idx_file ls) = 32 + 16 * length ls"
      by (simp add: cand_idx_file_def)
    then have cnt: "pread_count ri (cand_idx_file ls) (32 + u * 16) (n * 16) = int (n * 16)"
      using n assms(4) by (simp add: pread_count_def)
    have IH: "outer_loop rd ri wr e meta_rows (cand_idx_file ls) (cand_ids_file ls) (u + n) (out_upto e ls (u + n)) =
        Some (Inr (out_upto e ls (length ls)))"
      using less.hyps[of "u + n"] n True by simp
    show ?thesis
      using IH cnt inner_loop_rows[OF assms(1-3) n(2)] meta_rows_cand[OF assms(1) n(2)] True assms(5,6)
      by (subst outer_loop.simps) (simp add: Let_def flip: n_def)
  qed
qed

text \<open>C7. The pruning tool computes the same graph whatever its batches: given candidate files of the
  lists \<open>ls\<close>, a disk whose reads of ids and writes may come in pieces, and any batch budget and number
  of rows per metadata read, the stream terminates and leaves exactly the graph file (header with
  the file size and the maximum degree, one record per point) of the lists pruned point by point.\<close>

theorem prune_stream_graph:
  assumes "cand_fits ls" "io_mode rd" "io_mode wr" "\<forall>off want. ri off want = int want" "0 < meta_rows" "pe_N e = length ls"
    "wr 0 24 = 24"
  shows "prune_stream rd ri wr e meta_rows (cand_idx_file ls) (cand_ids_file ls) (graph_hdr 0 (pe_R e)) =
    Some (Inr (graph_bytes (map (\<lambda>u. prune_node (pe_dist e) (pe_N e) (pe_R e) (pe_T e) u (ls ! u)) [0..<length ls])
      (max_deg_of (map (\<lambda>u. prune_node (pe_dist e) (pe_N e) (pe_R e) (pe_T e) u (ls ! u)) [0..<length ls])) 0 0))"
proof -
  let ?rows = "map (pruned e ls) [0..<length ls]"
  have rows: "map (\<lambda>u. prune_node (pe_dist e) (pe_N e) (pe_R e) (pe_T e) u (ls ! u)) [0..<length ls] = ?rows"
    by (simp add: pruned_def)
  have len: "length (graph_hdr a b) = 24" for a b
    by (simp add: graph_hdr_def)
  have start: "out_upto e ls 0 = \<lparr>po_file = graph_hdr 0 (pe_R e), po_off = 24, po_max_deg = 0\<rparr>"
    by (simp add: out_upto_def max_deg_of_def len)
  have loop: "outer_loop rd ri wr e meta_rows (cand_idx_file ls) (cand_ids_file ls) 0 \<lparr>po_file = graph_hdr 0 (pe_R e), po_off = 24, po_max_deg = 0\<rparr> =
      Some (Inr (out_upto e ls (length ls)))"
    using outer_loop_rows[OF assms(1-6), of 0] start by simp
  have "pwrite (graph_hdr 0 (pe_R e) @ body) 0 (graph_hdr a b) = graph_hdr a b @ body" for a b body
    by (simp add: pwrite_def len)
  then show ?thesis
    unfolding rows prune_stream_def loop using assms(7)
    by (simp add: write_once_def len out_upto_def Let_def graph_bytes_def graph_hdr_def)
qed

theorem prune_stream_graph_witness:
  "\<exists>f. prune_stream (\<lambda>off want. 1) (\<lambda>off want. int want) (\<lambda>off want. int want)
      \<lparr>pe_dist = (\<lambda>u v. fone), pe_N = 2, pe_R = 4, pe_T = 1, pe_budget = 1\<rparr> 10000
      (cand_idx_file [[1], [0]]) (cand_ids_file [[1], [0]]) (graph_hdr 0 4) = Some (Inr f)"
proof -
  have "cand_fits [[1], [0]]" "io_mode (\<lambda>off want. 1)" "io_mode (\<lambda>off want. int want)"
    by (simp_all add: cand_fits_def io_mode_def)
  then show ?thesis
    using prune_stream_graph[of "[[1], [0]]" "\<lambda>off want. 1" "\<lambda>off want. int want" "\<lambda>off want. int want" 10000
        "\<lparr>pe_dist = (\<lambda>u v. fone), pe_N = 2, pe_R = 4, pe_T = 1, pe_budget = 1\<rparr>"] by simp
qed

section \<open>What one point keeps\<close>

lemma occ_by_count:
  "n < T \<Longrightarrow> occ_by dst T v dv out n < T \<longleftrightarrow> n + int (length (filter (\<lambda>s. fle (dst s v) dv) out)) < T"
  by (induction out arbitrary: n) auto

lemma occ_by_one: "occ_by dst 1 v dv out 0 < 1 \<longleftrightarrow> (\<forall>s \<in> set out. \<not> fle (dst s v) dv)"
  by (simp add: occ_by_count filter_empty_conv)

text \<open>Both passes keep a list without repetitions, when a point occludes its own copies.\<close>

lemma t_prune_distinct:
  assumes "\<forall>(dv, v) \<in> set pool. fle (dst v v) dv" "distinct out" "length out \<le> R"
  shows "distinct (t_prune dst R 1 pool out) \<and> length (t_prune dst R 1 pool out) \<le> R \<and>
    set (t_prune dst R 1 pool out) \<subseteq> set out \<union> snd ` set pool"
  using assms
proof (induction pool arbitrary: out)
  case Nil
  then show ?case by simp
next
  case (Cons x pool)
  obtain dv v where x: "x = (dv, v)" by (cases x)
  show ?case
  proof (cases "length out < R \<and> (\<forall>s \<in> set out. \<not> fle (dst s v) dv)")
    case True
    then have "v \<notin> set out" using Cons.prems(1) x by auto
    then have "distinct (out @ [v])" "length (out @ [v]) \<le> R" using Cons.prems(2) True by auto
    then show ?thesis using Cons.IH[of "out @ [v]"] Cons.prems(1) True occ_by_one[of dst v dv out] by (auto simp: x)
  next
    case False
    then show ?thesis using Cons occ_by_one[of dst v dv out] by (auto simp: x)
  qed
qed

lemma fill_prune_card:
  assumes "distinct out" "length out \<le> R"
  shows "distinct (fill_prune R pool out) \<and> length (fill_prune R pool out) = min R (card (set out \<union> snd ` set pool)) \<and>
    set (fill_prune R pool out) \<subseteq> set out \<union> snd ` set pool"
  using assms
proof (induction pool arbitrary: out)
  case Nil
  then show ?case by (simp add: distinct_card)
next
  case (Cons x pool)
  obtain dv v where x: "x = (dv, v)" by (cases x)
  show ?case
  proof (cases "length out < R")
    case False
    then have "length out = R" using Cons.prems by simp
    moreover have "card (set out) \<le> card (set out \<union> snd ` set (x # pool))"
      by (intro card_mono) auto
    ultimately show ?thesis using Cons.prems(1) by (auto simp: x distinct_card)
  next
    case True
    let ?out = "if v \<in> set out then out else out @ [v]"
    have "distinct ?out" "length ?out \<le> R" using Cons.prems True by auto
    moreover have "set ?out \<union> snd ` set pool = set out \<union> snd ` set (x # pool)" by (auto simp: x)
    ultimately show ?thesis using Cons.IH[of ?out] True by (simp add: x)
  qed
qed

text \<open>What the pruning tool keeps of a candidate list at the default threshold T = 1, for distances
  that are non-negative numbers and zero between a point and itself: no repetition even when the
  list repeats ids, never the point itself, only candidates that are points, and exactly as many as
  the degree bound and the number of distinct candidates allow.\<close>

theorem prune_node_degree:
  assumes "\<forall>x y. fnonneg (dst x y)" "\<forall>x. dst x x = fzero" "u < 2 ^ 32"
  shows "distinct (prune_node dst N R 1 u cand) \<and> set (prune_node dst N R 1 u cand) \<subseteq> {v \<in> set cand. v < N \<and> v \<noteq> u} \<and>
    length (prune_node dst N R 1 u cand) = min R (card {v \<in> set cand. v < N \<and> v \<noteq> u})"
proof -
  let ?pool = "prune_pool dst N u cand" and ?C = "{v \<in> set cand. v < N \<and> v \<noteq> u}"
  let ?out = "t_prune dst R 1 ?pool []"
  have pool: "snd ` set ?pool = ?C"
    using assms(3) by (auto simp: prune_pool_def u32_id image_image)
  have "\<forall>(dv, v) \<in> set ?pool. fle (dst v v) dv"
    using assms(1,2) by (auto simp: prune_pool_def fle_zero_nonneg)
  then have out: "distinct ?out" "length ?out \<le> R" "set ?out \<subseteq> ?C"
    using t_prune_distinct[of ?pool dst "[]" R] pool by auto
  have w: "wrap_int 1 = 1" by (simp add: wrap_int_def)
  show ?thesis
  proof (cases "length ?out < R")
    case True
    then show ?thesis
      using fill_prune_card[OF out(1,2), of ?pool] out(3) pool by (auto simp: prune_node_def Let_def w Un_absorb1)
  next
    case False
    then have "length ?out = R" using out(2) by simp
    moreover have "card (set ?out) \<le> card ?C" using out(3) by (intro card_mono) auto
    ultimately show ?thesis
      using out False by (auto simp: prune_node_def Let_def w distinct_card)
  qed
qed

theorem prune_node_degree_witness:
  "length (prune_node (\<lambda>x y. if x = y then fzero else fone) 4 2 1 0 [1, 1, 2, 0, 9]) = 2"
proof -
  have "{v \<in> set [1, 1, 2, 0, 9]. v < 4 \<and> v \<noteq> 0} = {1, 2 :: nat}" by auto
  then show ?thesis
    using prune_node_degree[of "\<lambda>x y. if x = y then fzero else fone" 0 4 2 "[1, 1, 2, 0, 9]"] by simp
qed

text \<open>With a threshold of two or more the first pass can keep the same id twice: a candidate that
  occurs twice in the list (as after the reverse edge tool when two points point to each other) is
  occluded only once by its first copy, so both copies are written to the graph.\<close>

theorem prune_node_duplicates:
  assumes "2 \<le> T" "T < 2 ^ 31" "2 \<le> R" "v < N" "v \<noteq> u" "u < 2 ^ 32"
  shows "prune_node dst N R T u [v, v] = [v, v]"
proof -
  have w: "wrap_int (int T) = int T" using assms(2) by (simp add: wrap_int_def)
  have "prune_pool dst N u [v, v] = [(dst u v, v), (dst u v, v)]"
    using assms by (simp add: prune_pool_def u32_id)
  then show ?thesis
    using assms(1,3) by (simp add: prune_node_def Let_def w)
qed

theorem prune_node_duplicates_witness: "prune_node (\<lambda>x y. fzero) 3 8 2 0 [1, 1] = [1, 1]"
  using prune_node_duplicates[of 2 8 1 3 0 "\<lambda>x y. fzero"] by simp

section \<open>The quantised distance\<close>

lemma square_sub_commute:
  assumes "is_fin x" "is_fin y"
  shows "fmul f (fsub f x y) (fsub f x y) = fmul f (fsub f y x) (fsub f y x)"
proof -
  obtain s m t n where xy: "x = Fin s m" "y = Fin t n"
    using assms by (cases x; cases y) auto
  let ?v = "fval x - fval y"
  have sub: "fsub f x y = (if ?v = 0 then Fin (s \<and> \<not> t) 0 else fround f (?v < 0) \<bar>?v\<bar>)"
    "fsub f y x = (if ?v = 0 then Fin (t \<and> \<not> s) 0 else fround f (\<not> ?v < 0) \<bar>?v\<bar>)"
    by (auto simp: fsub_def xy Let_def abs_if algebra_simps)
  have "fmul f (fround f a \<bar>?v\<bar>) (fround f a \<bar>?v\<bar>) = fmul f (fround f b \<bar>?v\<bar>) (fround f b \<bar>?v\<bar>)" for a b
    by (simp add: fround_def Let_def)
  then show ?thesis
    unfolding sub by simp
qed

lemma lut_entry_metric:
  assumes "\<forall>k < len. is_fin (pv ! (a * D + off + k)) \<and> is_fin (pv ! (b * D + off + k))"
  shows "lut_entry pv D off len a b = lut_entry pv D off len b a" "fnonneg (lut_entry pv D off len a b)"
    "lut_entry pv D off len a a = fzero"
proof -
  let ?sq = "\<lambda>x y. fmul Binary64 (fsub Binary64 x y) (fsub Binary64 x y)"
  have def: "lut_entry pv D off len a b = fconv Binary32 (fold (\<lambda>k acc. fadd Binary64 acc (?sq (pv ! (a * D + off + k)) (pv ! (b * D + off + k)))) [0..<len] fzero)" for a b
    by (simp add: lut_entry_def Let_def)
  have "fold (\<lambda>k acc. fadd Binary64 acc (?sq (pv ! (a * D + off + k)) (pv ! (b * D + off + k)))) [0..<len] fzero =
      fold (\<lambda>k acc. fadd Binary64 acc (?sq (pv ! (b * D + off + k)) (pv ! (a * D + off + k)))) [0..<len] fzero"
    using assms by (intro fold_cong refl) (simp add: square_sub_commute)
  then show "lut_entry pv D off len a b = lut_entry pv D off len b a"
    by (simp only: def)
  show "fnonneg (lut_entry pv D off len a b)"
    unfolding def using assms by (intro fconv_nonneg fold_fadd_nonneg) (auto simp: fmul_self_nonneg fsub_fin_not_nan)
  have "fold (\<lambda>k acc. fadd Binary64 acc (?sq (pv ! (a * D + off + k)) (pv ! (a * D + off + k)))) [0..<len] fzero = fzero"
    using assms by (intro fold_fadd_zero) (auto simp: fsub_self fround_def)
  then show "lut_entry pv D off len a a = fzero"
    by (simp only: def) (simp add: fround_def)
qed

lemma rfold_append_results:
  "rfold (\<lambda>m xs. rbind (g m) (\<lambda>x. Inr (xs @ [x]))) ms acc = Inr ys \<Longrightarrow>
    \<exists>zs. ys = acc @ zs \<and> length zs = length ms \<and> (\<forall>i < length ms. g (ms ! i) = Inr (zs ! i))"
proof (induction ms arbitrary: acc)
  case Nil
  then show ?case by simp
next
  case (Cons m ms)
  obtain z where z: "g m = Inr z" "rfold (\<lambda>m xs. rbind (g m) (\<lambda>x. Inr (xs @ [x]))) ms (acc @ [z]) = Inr ys"
    using Cons.prems by (auto simp: rbind_eq_Inr_iff)
  obtain zs where "ys = (acc @ [z]) @ zs" "length zs = length ms" "\<forall>i < length ms. g (ms ! i) = Inr (zs ! i)"
    using Cons.IH[OF z(2)] by blast
  then have "ys = acc @ (z # zs)" "length (z # zs) = length (m # ms)" "\<forall>i < length (m # ms). g ((m # ms) ! i) = Inr ((z # zs) ! i)"
    using z(1) by (auto simp: nth_Cons')
  then show ?case by blast
qed

lemma cc_entry:
  assumes "build_cc_luts pq = Inr pq'" "\<forall>x \<in> set (pq_pivots pq). is_fin x" "m < pq_QD pq" "a < 256" "b < 256"
  shows "pq_cc pq' ! m ! (a * 256 + b) = pq_cc pq' ! m ! (b * 256 + a) \<and> fnonneg (pq_cc pq' ! m ! (a * 256 + b)) \<and>
    pq_cc pq' ! m ! (a * 256 + a) = fzero"
proof -
  obtain ccs where ccs: "rfold (\<lambda>m ccs. rbind (build_lut pq m) (\<lambda>l. Inr (ccs @ [l]))) [0..<pq_QD pq] [] = Inr ccs" "pq' = pq\<lparr>pq_cc := ccs\<rparr>"
    using assms(1) by (auto simp: build_cc_luts_def rbind_eq_Inr_iff split: if_splits)
  have lut: "build_lut pq m = Inr (ccs ! m)"
    using rfold_append_results[OF ccs(1)] assms(3) by auto
  let ?off = "pq_chunk_off pq ! m" and ?len = "sub32 (pq_chunk_off pq ! (m + 1)) (pq_chunk_off pq ! m)"
  let ?e = "lut_entry (pq_pivots pq) (pq_D pq) ?off ?len"
  have len: "?len = 0 \<or> 255 * pq_D pq + ?off + ?len \<le> length (pq_pivots pq)"
    and cc: "ccs ! m = map (\<lambda>i. ?e (i div 256) (i mod 256)) [0..<256 * 256]"
    using lut by (auto simp: build_lut_def Let_def NUM_CENTROIDS_def split: if_splits)
  have ent: "ccs ! m ! (x * 256 + y) = ?e x y" if "x < 256" "y < 256" for x y
    unfolding cc using that by simp
  have fin: "\<forall>k < ?len. is_fin (pq_pivots pq ! (x * pq_D pq + ?off + k))" if "x < 256" for x
  proof (intro allI impI)
    fix k assume "k < ?len"
    moreover have "x * pq_D pq \<le> 255 * pq_D pq" using that by (intro mult_right_mono) auto
    ultimately have "x * pq_D pq + ?off + k < length (pq_pivots pq)" using len by linarith
    then show "is_fin (pq_pivots pq ! (x * pq_D pq + ?off + k))" using assms(2) by simp
  qed
  have "?e a b = ?e b a \<and> fnonneg (?e a b) \<and> ?e a a = fzero"
    using lut_entry_metric[of ?len "pq_pivots pq" a "pq_D pq" ?off b] fin[OF assms(4)] fin[OF assms(5)] by blast
  moreover have "pq_cc pq' = ccs" by (simp add: ccs(2))
  ultimately show ?thesis
    using ent[OF assms(4,5)] ent[OF assms(5,4)] ent[OF assms(4,4)] by metis
qed

text \<open>The symmetric distance between codes is one: with finite centroids, tables that could be built
  and codes of a byte, the distance is symmetric, a non-negative number, and zero from a point to
  itself. These are the conditions under which pruning never repeats a neighbour.\<close>

theorem pq_dist_symmetric:
  assumes "build_cc_luts pq = Inr pq'" "\<forall>x \<in> set (pq_pivots pq). is_fin x"
    "\<forall>m < pq_QD pq. pq_codes pq ! (u * pq_QD pq + m) < 256 \<and> pq_codes pq ! (v * pq_QD pq + m) < 256"
  shows "pq_dist pq' u v = pq_dist pq' v u \<and> fnonneg (pq_dist pq' u v) \<and> pq_dist pq' u u = fzero"
proof -
  let ?c = "\<lambda>w m. pq_codes pq ! (w * pq_QD pq + m)"
  have pq': "pq_codes pq' = pq_codes pq" "pq_QD pq' = pq_QD pq"
    using assms(1) by (auto simp: build_cc_luts_def rbind_eq_Inr_iff split: if_splits)
  have def: "pq_dist pq' x y = fconv Binary32 (fold (\<lambda>m acc. fadd Binary64 acc (pq_cc pq' ! m ! (?c x m * 256 + ?c y m))) [0..<pq_QD pq] fzero)" for x y
    by (simp add: pq_dist_def pq' NUM_CENTROIDS_def)
  note e = cc_entry[OF assms(1,2)]
  have "fold (\<lambda>m acc. fadd Binary64 acc (pq_cc pq' ! m ! (?c u m * 256 + ?c v m))) [0..<pq_QD pq] fzero =
      fold (\<lambda>m acc. fadd Binary64 acc (pq_cc pq' ! m ! (?c v m * 256 + ?c u m))) [0..<pq_QD pq] fzero"
    using e assms(3) by (intro fold_cong refl) auto
  then have "pq_dist pq' u v = pq_dist pq' v u" by (simp only: def)
  moreover have "fnonneg (pq_dist pq' u v)"
    unfolding def using e assms(3) by (intro fconv_nonneg fold_fadd_nonneg) auto
  moreover have "fold (\<lambda>m acc. fadd Binary64 acc (pq_cc pq' ! m ! (?c u m * 256 + ?c u m))) [0..<pq_QD pq] fzero = fzero"
    using e assms(3) by (intro fold_fadd_zero) auto
  ultimately show ?thesis by (simp only: def) (simp add: fround_def)
qed

theorem pq_dist_symmetric_witness:
  "\<exists>pq'. build_cc_luts \<lparr>pq_pivots = replicate 256 fone, pq_chunk_off = [0, 1], pq_codes = [3, 7], pq_N = 2, pq_D = 1, pq_QD = 1, pq_cc = []\<rparr> = Inr pq' \<and>
    pq_dist pq' 0 1 = pq_dist pq' 1 0"
proof -
  let ?pq = "\<lparr>pq_pivots = replicate 256 fone, pq_chunk_off = [0, 1], pq_codes = [3, 7], pq_N = 2, pq_D = 1, pq_QD = 1, pq_cc = []\<rparr>"
  have "sub32 1 0 = 1" by (simp add: sub32_id)
  then have "\<exists>l. build_lut ?pq 0 = Inr l"
    by (simp add: build_lut_def NUM_CENTROIDS_def Let_def)
  then have "\<exists>pq'. build_cc_luts ?pq = Inr pq'"
    by (auto simp: build_cc_luts_def)
  then show ?thesis
    using pq_dist_symmetric[of ?pq _ 0 1] by auto
qed

section \<open>The batch budget\<close>

text \<open>The memory left for batches is computed by an unguarded subtraction. When the product
  quantisation leaves fewer bytes than the metadata buffer takes (16 bytes for each of at least
  10000 rows), the difference wraps around and the batch budget becomes the largest one, 768 MiB (or
  \<open>--chunk-bytes\<close>), instead of an error.\<close>

theorem batch_budget_wraps:
  assumes "avail < 160000" "pp_chunk_bytes a = 0"
  shows "meta_batch_rows avail = Inr 10000 \<and> batch_budget a avail 10000 = Inr PRUNE_BATCH_MAX_BYTES"
proof
  have n: "f_of_nat Binary64 avail = Fin False (of_nat avail)"
    using fround_exact[OF representable_of_nat[of avail Binary64], of False] assms(1) by (simp add: f_of_nat_def)
  obtain t where t: "fround Binary64 False (1 / 10) = Fin False t" "0 \<le> t" "t \<le> 1 / 8"
    using fround_le_pow2[of "1 / 10" "- 3" Binary64] by (auto simp: pow2_def)
  have "of_nat avail * t \<le> 160000 * (1 / 8)"
    using assms(1) t(2,3) by (intro mult_mono) simp_all
  then have "of_nat avail * t \<le> pow2 15"
    by (simp add: pow2_def)
  then obtain m where m: "fround Binary64 False (of_nat avail * t) = Fin False m" "0 \<le> m" "m \<le> pow2 15"
    using fround_le_pow2[of "of_nat avail * t" 15 Binary64] t(2) by auto
  then have "nat \<lfloor>m\<rfloor> \<le> 2 ^ 15"
    by (simp add: pow2_def nat_le_iff floor_le_iff)
  then have "nat \<lfloor>m\<rfloor> div 16 < 10000"
    by (simp add: div_less_iff_less_mult)
  moreover have "m < 2 ^ 64"
    using m(3) by (simp add: pow2_def)
  ultimately show "meta_batch_rows avail = Inr 10000"
    by (simp add: meta_batch_rows_def n t(1) m(1) Let_def)
next
  define left where "left = avail + (2 ^ 64 - 160000)"
  have sub: "sub64 avail (u64 (10000 * 16)) = left"
    using assms(1) by (simp add: sub64_def u64_def left_def)
  have left: "left < 2 ^ 64" "2 ^ 64 - 160000 \<le> left"
    using assms(1) by (simp_all add: left_def)
  have n: "f_of_nat X87 left = Fin False (of_nat left)"
    using fround_exact[OF representable_of_nat[of left X87], of False] left(1) by (simp add: f_of_nat_def)
  have lt: "(of_nat left :: rat) < 2 ^ 64"
    using left(1) by (simp add: numeral_less_iff flip: of_nat_less_iff)
  have "representable X87 (of_nat left * pow2 (- 1))"
    unfolding representable_def
  proof (rule exI[of _ left], rule exI[of _ "- 1"], intro conjI)
    have "of_nat left * pow2 (- 1) < pow2 64"
      using lt by (simp add: pow2_def)
    also have "\<dots> \<le> pow2 (emax X87 + 1)" by (intro pow2_mono) simp
    finally show "of_nat left * pow2 (- 1) < pow2 (emax X87 + 1)" .
  qed (use left(1) in simp_all)
  then have half: "fround X87 False (of_nat left * (1 / 2)) = Fin False (of_nat left * (1 / 2))"
    using fround_exact by (simp add: pow2_def)
  have "f_to_u64 (fmul X87 (f_of_nat X87 left) (Fin False (1 / 2))) = Some (nat \<lfloor>of_nat left * (1 / 2) :: rat\<rfloor>)"
    using half lt unfolding n by simp
  moreover have "\<lfloor>of_nat left * (1 / 2) :: rat\<rfloor> = int (left div 2)"
    by (simp add: floor_divide_of_nat_eq[of left 2, simplified])
  ultimately have "f_to_u64 (fmul X87 (f_of_nat X87 left) (Fin False (1 / 2))) = Some (left div 2)"
    by simp
  moreover have "PRUNE_BATCH_MAX_BYTES \<le> left div 2"
    using left(2) by (simp add: PRUNE_BATCH_MAX_BYTES_def)
  ultimately show "batch_budget a avail 10000 = Inr PRUNE_BATCH_MAX_BYTES"
    using assms(2) unfolding batch_budget_def Let_def sub by (simp add: min_def PRUNE_BATCH_MAX_BYTES_def)
qed

theorem batch_budget_wraps_witness: "batch_budget pp_args_default 1 10000 = Inr PRUNE_BATCH_MAX_BYTES"
  using batch_budget_wraps[of 1 pp_args_default] by (simp add: pp_args_default_def)

end
