(* ===== verification/Cached_Io.thy ===== *)
theory Cached_Io
  imports Bytes
begin

text \<open>
  The streams of \<open>create_disk_layout\<close>: \<open>cached_ifstream\<close> and \<open>cached_ofstream\<close> of
  \<open>include/cached_io.h\<close>, and a plain \<open>std::ifstream\<close> without exceptions, whose failed reads leave
  the destination alone. \<open>byte_source\<close> is what a client of a sequential reader relies on; both
  readers are instances, so the cache is invisible to the client.
\<close>

section \<open>The cached reader\<close>

record cifs =
  ci_file :: bfile
  ci_pos :: nat
  ci_cache :: "byte list"
  ci_cur :: nat

definition cifs_open :: "bfile \<Rightarrow> nat \<Rightarrow> cifs" where
  "cifs_open f cacheSize =
     (let c = min cacheSize (length f)
      in \<lparr>ci_file = f, ci_pos = c, ci_cache = block f 0 c, ci_cur = 0\<rparr>)"

definition cifs_read :: "cifs \<Rightarrow> nat \<Rightarrow> (byte list \<times> cifs) res" where
  "cifs_read s n =
     (let cache_size = length (ci_cache s); cached_bytes = cache_size - ci_cur s
      in if n \<le> cached_bytes then
           Inr (block (ci_cache s) (ci_cur s) n, s\<lparr>ci_cur := ci_cur s + n\<rparr>)
         else if n - cached_bytes > length (ci_file s) - ci_pos s then
           Inl (ANNException ''Reading beyond end of file'')
         else
           let bs = block (ci_cache s) (ci_cur s) cached_bytes @ block (ci_file s) (ci_pos s) (n - cached_bytes);
               pos = ci_pos s + (n - cached_bytes);
               size_left = length (ci_file s) - pos
           in if size_left \<ge> cache_size
              then Inr (bs, s\<lparr>ci_cache := block (ci_file s) pos cache_size, ci_pos := pos + cache_size, ci_cur := 0\<rparr>)
              else Inr (bs, s\<lparr>ci_pos := pos, ci_cur := cache_size\<rparr>))"

text \<open>What is still to be read: the rest of the cache, then the rest of the file.\<close>

definition cifs_rest :: "cifs \<Rightarrow> byte list" where
  "cifs_rest s = drop (ci_cur s) (ci_cache s) @ drop (ci_pos s) (ci_file s)"

definition cifs_ok :: "cifs \<Rightarrow> bool" where
  "cifs_ok s \<longleftrightarrow> ci_cur s \<le> length (ci_cache s) \<and> ci_pos s \<le> length (ci_file s)"

lemma cifs_open_ok: "cifs_ok (cifs_open f c)" "cifs_rest (cifs_open f c) = f"
  by (simp_all add: cifs_ok_def cifs_rest_def cifs_open_def block_def Let_def)

lemma cifs_read_ok:
  assumes "cifs_ok s" "n \<le> length (cifs_rest s)"
  shows "\<exists>s'. cifs_read s n = Inr (take n (cifs_rest s), s') \<and> cifs_ok s' \<and> cifs_rest s' = drop n (cifs_rest s)"
proof -
  let ?c = "length (ci_cache s) - ci_cur s"
  show ?thesis
  proof (cases "n \<le> ?c")
    case True
    then have "ci_cur s + n \<le> length (ci_cache s)"
      using assms(1) unfolding cifs_ok_def by linarith
    then show ?thesis
      using assms True by (simp add: cifs_read_def cifs_rest_def cifs_ok_def block_def add.commute)
  next
    case False
    let ?m = "n - ?c"
    have m: "?m \<le> length (ci_file s) - ci_pos s" "ci_pos s + ?m \<le> length (ci_file s)"
      using assms False by (simp_all add: cifs_rest_def cifs_ok_def)
    have parts: "take n (cifs_rest s) = block (ci_cache s) (ci_cur s) ?c @ block (ci_file s) (ci_pos s) ?m"
      "drop n (cifs_rest s) = drop (ci_pos s + ?m) (ci_file s)"
      using False by (simp_all add: cifs_rest_def block_def add.commute)
    show ?thesis
    proof (cases "length (ci_file s) - (ci_pos s + ?m) \<ge> length (ci_cache s)")
      case True
      let ?s = "s\<lparr>ci_cache := block (ci_file s) (ci_pos s + ?m) (length (ci_cache s)),
          ci_pos := ci_pos s + ?m + length (ci_cache s), ci_cur := 0\<rparr>"
      have "cifs_read s n = Inr (take n (cifs_rest s), ?s)"
        unfolding parts cifs_read_def Let_def using True False m(1) by simp
      moreover have "cifs_ok ?s"
        using True m(2) by (simp add: cifs_ok_def)
      moreover have "cifs_rest ?s = drop n (cifs_rest s)"
      proof -
        have "take c (drop p f) @ drop (p + c) f = drop p f" for p c and f :: bfile
          by (metis append_take_drop_id drop_drop add.commute)
        then show ?thesis
          unfolding parts by (simp add: cifs_rest_def block_def)
      qed
      ultimately show ?thesis by blast
    next
      case False2: False
      let ?s = "s\<lparr>ci_pos := ci_pos s + ?m, ci_cur := length (ci_cache s)\<rparr>"
      have "cifs_read s n = Inr (take n (cifs_rest s), ?s)"
        unfolding parts cifs_read_def Let_def using False2 False m(1) by simp
      moreover have "cifs_ok ?s" "cifs_rest ?s = drop n (cifs_rest s)"
        unfolding parts using m(2) by (simp_all add: cifs_ok_def cifs_rest_def)
      ultimately show ?thesis by blast
    qed
  qed
qed

lemma cifs_read_short:
  assumes "cifs_ok s" "length (cifs_rest s) < n"
  shows "cifs_read s n = Inl (ANNException ''Reading beyond end of file'')"
  using assms by (auto simp: cifs_read_def cifs_rest_def cifs_ok_def Let_def)

section \<open>A plain stream\<close>

record ifs =
  if_file :: bfile
  if_pos :: nat
  if_fail :: bool

definition ifs_open :: "bfile \<Rightarrow> ifs" where
  "ifs_open f = \<lparr>if_file = f, if_pos = 0, if_fail = False\<rparr>"

text \<open>\<open>in.read(p, n)\<close> stores the bytes that are there; a short read sets the fail bit, and a stream
  with the fail bit set stores nothing.\<close>

definition ifs_read :: "ifs \<Rightarrow> nat \<Rightarrow> byte list \<times> ifs" where
  "ifs_read s n =
     (if if_fail s then ([], s)
      else let bs = block (if_file s) (if_pos s) n
           in (bs, s\<lparr>if_pos := if_pos s + length bs, if_fail := length bs < n\<rparr>))"

text \<open>\<open>in.seekg(n, in.cur)\<close>.\<close>

definition ifs_skip :: "ifs \<Rightarrow> nat \<Rightarrow> ifs" where
  "ifs_skip s n = (if if_fail s then s else s\<lparr>if_pos := if_pos s + n\<rparr>)"

definition ifs_rest :: "ifs \<Rightarrow> byte list" where
  "ifs_rest s = drop (if_pos s) (if_file s)"

lemma ifs_read_ok:
  assumes "\<not> if_fail s" "n \<le> length (ifs_rest s)"
  shows "\<exists>s'. ifs_read s n = (take n (ifs_rest s), s') \<and> \<not> if_fail s' \<and> ifs_rest s' = drop n (ifs_rest s)"
  using assms by (simp add: ifs_read_def ifs_rest_def block_def add.commute Let_def)

section \<open>The interface\<close>

locale byte_source =
  fixes rd :: "'s \<Rightarrow> nat \<Rightarrow> (byte list \<times> 's) res"
    and rest :: "'s \<Rightarrow> byte list"
    and ok :: "'s \<Rightarrow> bool"
  assumes rd_ok: "ok s \<Longrightarrow> n \<le> length (rest s) \<Longrightarrow>
    \<exists>s'. rd s n = Inr (take n (rest s), s') \<and> ok s' \<and> rest s' = drop n (rest s)"
begin

text \<open>A read of exactly the next record.\<close>

lemma rd_record:
  assumes "ok s" "rest s = bs @ mr" "n = length bs"
  obtains s' where "rd s n = Inr (bs, s')" "ok s'" "rest s' = mr"
  using rd_ok[of s n] assms by auto

text \<open>Reads of the sizes of consecutive records return the records.\<close>

lemma rd_records:
  assumes "ok s" "rest s = concat bss @ mr"
  shows "\<exists>s'. rfold (\<lambda>n (acc, s). rbind (rd s n) (\<lambda>(bs, s'). Inr (acc @ [bs], s'))) (map length bss) (acc, s) =
    Inr (acc @ bss, s') \<and> ok s' \<and> rest s' = mr"
  using assms
proof (induction bss arbitrary: s acc)
  case Nil
  then show ?case by simp
next
  case (Cons bs bss)
  obtain s1 where s1: "rd s (length bs) = Inr (bs, s1)" "ok s1" "rest s1 = concat bss @ mr"
    using rd_record[OF Cons.prems(1), of bs "concat bss @ mr" "length bs"] Cons.prems(2) by auto
  show ?case
    using Cons.IH[OF s1(2,3), of "acc @ [bs]"] s1(1) by simp
qed

end

interpretation cif: byte_source cifs_read cifs_rest cifs_ok
  by unfold_locales (rule cifs_read_ok)

interpretation pif: byte_source "\<lambda>s n. Inr (ifs_read s n)" ifs_rest "\<lambda>s. \<not> if_fail s"
  by unfold_locales (use ifs_read_ok in auto)

section \<open>The cached writer\<close>

record cofs =
  co_file :: bfile
  co_cache :: "byte list"
  co_cur :: nat
  co_fsize :: nat

text \<open>\<open>mem\<close> is what \<open>new char[cache_size]\<close> returned.\<close>

definition cofs_open :: "byte list \<Rightarrow> cofs" where
  "cofs_open mem = \<lparr>co_file = [], co_cache = mem, co_cur = 0, co_fsize = 0\<rparr>"

definition cofs_write :: "cofs \<Rightarrow> byte list \<Rightarrow> cofs" where
  "cofs_write s bs =
     (if length bs \<le> length (co_cache s) - co_cur s then
        s\<lparr>co_cache := blit (co_cache s) (co_cur s) bs, co_cur := co_cur s + length bs\<rparr>
      else
        s\<lparr>co_file := co_file s @ take (co_cur s) (co_cache s) @ bs,
          co_fsize := u64 (u64 (co_fsize s + co_cur s) + length bs),
          co_cache := replicate (length (co_cache s)) 0, co_cur := 0\<rparr>)"

definition flush_cache :: "cofs \<Rightarrow> cofs" where
  "flush_cache s =
     s\<lparr>co_file := co_file s @ take (co_cur s) (co_cache s), co_fsize := u64 (co_fsize s + co_cur s),
       co_cache := replicate (length (co_cache s)) 0, co_cur := 0\<rparr>"

definition cofs_close :: "cofs \<Rightarrow> cofs" where
  "cofs_close s = (if co_cur s > 0 then flush_cache s else s)"

text \<open>What the client has written so far.\<close>

definition cofs_all :: "cofs \<Rightarrow> byte list" where
  "cofs_all s = co_file s @ take (co_cur s) (co_cache s)"

definition cofs_ok :: "cofs \<Rightarrow> bool" where
  "cofs_ok s \<longleftrightarrow> co_cur s \<le> length (co_cache s) \<and> co_fsize s = u64 (length (co_file s))"

lemma cofs_open_ok: "cofs_ok (cofs_open mem)" "cofs_all (cofs_open mem) = []"
  by (simp_all add: cofs_ok_def cofs_all_def cofs_open_def u64_def)

lemma cofs_write_ok:
  assumes "cofs_ok s"
  shows "cofs_ok (cofs_write s bs)" "cofs_all (cofs_write s bs) = cofs_all s @ bs"
  using assms
  by (auto simp: cofs_ok_def cofs_all_def cofs_write_def blit_def u64_def mod_simps add.assoc)

lemma cofs_close_ok:
  assumes "cofs_ok s"
  shows "co_file (cofs_close s) = cofs_all s" "co_fsize (cofs_close s) = u64 (length (cofs_all s))"
  using assms by (auto simp: cofs_ok_def cofs_all_def cofs_close_def flush_cache_def u64_def mod_simps)

lemma cofs_writes_ok:
  assumes "cofs_ok s"
  shows "cofs_ok (fold (\<lambda>bs t. cofs_write t bs) bss s)" "cofs_all (fold (\<lambda>bs t. cofs_write t bs) bss s) = cofs_all s @ concat bss"
  using assms by (induction bss arbitrary: s) (auto simp: cofs_write_ok)

section \<open>Properties\<close>



text \<open>The cached writer is a sequential writer: after any sequence of writes and \<open>close\<close>, the file is
  the concatenation of what was written, and the size it reports is the file's, whatever the cache size
  and the contents of the fresh cache.\<close>

theorem cached_ofstream_sequential:
  "co_file (cofs_close (fold (\<lambda>bs s. cofs_write s bs) bss (cofs_open mem))) = concat bss \<and>
   co_fsize (cofs_close (fold (\<lambda>bs s. cofs_write s bs) bss (cofs_open mem))) = u64 (length (concat bss))"
  using cofs_close_ok[OF cofs_writes_ok(1)[OF cofs_open_ok(1), of bss mem]]
  by (simp add: cofs_writes_ok(2)[OF cofs_open_ok(1)] cofs_open_ok(2))

end
