(* ===== verification/Aligned_Reader.thy ===== *)
theory Aligned_Reader
  imports Bytes
begin

text \<open>
  \<open>src/linux_aligned_file_reader.cpp\<close> with the libaio engine, and the base class of
  \<open>include/aligned_file_reader.h\<close>: batches of aligned reads into one scratch memory, and the table of
  I/O contexts per thread with its thread-local cache. The kernel's answers (\<open>io_setup\<close>,
  \<open>io_submit\<close>, \<open>io_getevents\<close>) are arguments.
\<close>

section \<open>Batches of reads\<close>

text \<open>The destination \<open>buf\<close> is an index into the scratch memory the requests of a batch share.\<close>

record aligned_read =
  ar_offset :: nat
  ar_len :: nat
  ar_buf :: nat

definition MAX_EVENTS :: nat where "MAX_EVENTS = 1024"

text \<open>One asynchronous \<open>pread\<close>: near the end of the file fewer bytes than asked for arrive, which the
  code does not look at. A request that does not fit the memory is an access outside it.\<close>

definition aio_pread :: "bfile \<Rightarrow> aligned_read \<Rightarrow> byte list \<Rightarrow> byte list res" where
  "aio_pread f r mem =
     (let bs = block f (ar_offset r) (ar_len r)
      in if ar_buf r + length bs \<le> length mem then Inr (blit mem (ar_buf r) bs) else Inl OutOfRange)"

text \<open>One chunk of at most \<open>MAX_EVENTS\<close> requests; \<open>sub\<close> and \<open>got\<close> are the results of \<open>io_submit\<close> and
  \<open>io_getevents\<close>. There are no retries (\<open>n_retries = 0\<close>): a wrong count ends the process.\<close>

definition execute_chunk :: "(nat \<Rightarrow> nat \<Rightarrow> int) \<Rightarrow> (nat \<Rightarrow> nat \<Rightarrow> int) \<Rightarrow> bfile \<Rightarrow> aligned_read list \<Rightarrow> nat \<Rightarrow> byte list \<Rightarrow> byte list res" where
  "execute_chunk sub got f read_reqs iter mem =
     (let n_ops = min (length read_reqs - iter * MAX_EVENTS) MAX_EVENTS;
          cbs = map (\<lambda>j. read_reqs ! (j + iter * MAX_EVENTS)) [0..<n_ops]
      in if sub iter n_ops \<noteq> int n_ops then Inl (Die ''io_submit() failed'')
         else if got iter n_ops \<noteq> int n_ops then Inl (Die ''io_getevents() failed'')
         else rfold (aio_pread f) cbs mem)"

definition execute_io :: "(nat \<Rightarrow> nat \<Rightarrow> int) \<Rightarrow> (nat \<Rightarrow> nat \<Rightarrow> int) \<Rightarrow> bfile \<Rightarrow> aligned_read list \<Rightarrow> byte list \<Rightarrow> byte list res" where
  "execute_io sub got f read_reqs mem =
     rfold (execute_chunk sub got f read_reqs) [0..<div_up (length read_reqs) MAX_EVENTS] mem"

text \<open>A kernel that accepts and completes every request.\<close>

definition aio_up :: "(nat \<Rightarrow> nat \<Rightarrow> int) \<Rightarrow> bool" where
  "aio_up answer \<longleftrightarrow> (\<forall>iter n. answer iter n = int n)"

lemma chunk_eq_block:
  "execute_chunk sub got f reqs iter mem =
     (let cbs = block reqs (iter * MAX_EVENTS) MAX_EVENTS; n = length cbs
      in if sub iter n \<noteq> int n then Inl (Die ''io_submit() failed'')
         else if got iter n \<noteq> int n then Inl (Die ''io_getevents() failed'')
         else rfold (aio_pread f) cbs mem)"
proof -
  let ?n = "min (length reqs - iter * MAX_EVENTS) MAX_EVENTS"
  have len: "length (block reqs (iter * MAX_EVENTS) MAX_EVENTS) = ?n"
    by (simp add: block_def min.commute)
  have "map (\<lambda>j. reqs ! (j + iter * MAX_EVENTS)) [0..<?n] = block reqs (iter * MAX_EVENTS) MAX_EVENTS"
    by (rule nth_equalityI) (auto simp: block_def add.commute)
  then show ?thesis
    by (simp add: execute_chunk_def Let_def len)
qed

lemma rfold_chunks:
  assumes "\<And>iter m. g iter m = rfold h (block reqs (iter * k) k) m"
  shows "rfold g [0..<n] mem = rfold h (take (n * k) reqs) mem"
proof (induction n)
  case 0
  then show ?case by simp
next
  case (Suc n)
  have "rfold g [n] m = rfold h (block reqs (n * k) k) m" for m
  proof -
    have "rfold g [n] m = g n m" by (cases "g n m") simp_all
    then show ?thesis by (simp add: assms)
  qed
  then have "rfold g [n] = rfold h (block reqs (n * k) k)" ..
  then have "rfold g [0..<Suc n] mem = rbind (rfold h (take (n * k) reqs) mem) (rfold h (block reqs (n * k) k))"
    by (simp add: rfold_append Suc del: rfold.simps)
  also have "\<dots> = rfold h (take (n * k) reqs @ block reqs (n * k) k) mem"
    by (simp add: rfold_append)
  also have "take (n * k) reqs @ block reqs (n * k) k = take (Suc n * k) reqs"
    by (simp add: block_def flip: take_add) (simp add: add.commute)
  finally show ?case .
qed

text \<open>Cutting a batch into chunks changes nothing.\<close>

lemma execute_io_all:
  assumes "aio_up sub" "aio_up got"
  shows "execute_io sub got f reqs mem = rfold (aio_pread f) reqs mem"
proof -
  have "execute_chunk sub got f reqs iter m = rfold (aio_pread f) (block reqs (iter * MAX_EVENTS) MAX_EVENTS) m" for iter m
    using assms by (simp add: chunk_eq_block aio_up_def Let_def)
  then have "execute_io sub got f reqs mem =
      rfold (aio_pread f) (take (div_up (length reqs) MAX_EVENTS * MAX_EVENTS) reqs) mem"
    unfolding execute_io_def by (rule rfold_chunks)
  also have "take (div_up (length reqs) MAX_EVENTS * MAX_EVENTS) reqs = reqs"
    using div_up_mult_ge[of MAX_EVENTS "length reqs"] by (simp add: MAX_EVENTS_def)
  finally show ?thesis .
qed

text \<open>Requests in slots of a fixed stride do not disturb each other. \<open>slot_reqs\<close> is the batch the clients
  build: request \<open>k\<close> reads \<open>rq k = (offset, len)\<close> into slot \<open>k\<close>.\<close>

definition slot_reqs :: "(nat \<times> nat) list \<Rightarrow> nat \<Rightarrow> nat \<Rightarrow> aligned_read list" where
  "slot_reqs rq base stride =
     map (\<lambda>k. \<lparr>ar_offset = fst (rq ! k), ar_len = snd (rq ! k), ar_buf = base + k * stride\<rparr>) [0..<length rq]"

lemma slots_read:
  assumes "\<forall>k < length rq. length (block f (fst (rq ! k)) (snd (rq ! k))) \<le> stride" "length rq * stride \<le> length mem"
  shows "\<exists>mem'. rfold (aio_pread f) (slot_reqs rq 0 stride) mem = Inr mem' \<and> length mem' = length mem \<and>
    (\<forall>k < length rq. let bs = block f (fst (rq ! k)) (snd (rq ! k)) in take (length bs) (drop (k * stride) mem') = bs)"
  using assms
proof (induction rq rule: rev_induct)
  case Nil
  then show ?case by (simp add: slot_reqs_def)
next
  case (snoc r rq)
  let ?n = "length rq"
  have pre: "\<forall>k < ?n. length (block f (fst (rq ! k)) (snd (rq ! k))) \<le> stride"
    "length (block f (fst r) (snd r)) \<le> stride"
  proof -
    show "\<forall>k < ?n. length (block f (fst (rq ! k)) (snd (rq ! k))) \<le> stride"
    proof (intro allI impI)
      fix k assume "k < ?n"
      then show "length (block f (fst (rq ! k)) (snd (rq ! k))) \<le> stride"
        using snoc.prems(1)[rule_format, of k] by (simp add: nth_append)
    qed
    show "length (block f (fst r) (snd r)) \<le> stride"
      using snoc.prems(1)[rule_format, of ?n] by simp
  qed
  obtain m where m: "rfold (aio_pread f) (slot_reqs rq 0 stride) mem = Inr m" "length m = length mem"
    "\<forall>k < ?n. let bs = block f (fst (rq ! k)) (snd (rq ! k)) in take (length bs) (drop (k * stride) m) = bs"
    using snoc.IH[OF pre(1)] snoc.prems(2) by auto
  let ?b = "block f (fst r) (snd r)"
  let ?m = "blit m (?n * stride) ?b"
  have fit: "?n * stride + length ?b \<le> length m"
    using snoc.prems(2) pre(2) m(2) by simp
  have split: "slot_reqs (rq @ [r]) 0 stride =
      slot_reqs rq 0 stride @ [\<lparr>ar_offset = fst r, ar_len = snd r, ar_buf = ?n * stride\<rparr>]"
    by (auto simp: slot_reqs_def nth_append)
  have "rfold (aio_pread f) (slot_reqs (rq @ [r]) 0 stride) mem = Inr ?m"
    using m(1) fit by (simp add: split rfold_append aio_pread_def Let_def)
  moreover have "length ?m = length mem"
    using fit m(2) by simp
  moreover have "let bs = block f (fst ((rq @ [r]) ! k)) (snd ((rq @ [r]) ! k)) in take (length bs) (drop (k * stride) ?m) = bs"
    if k: "k < length (rq @ [r])" for k
  proof (cases "k = ?n")
    case True
    then show ?thesis
      using block_blit_same[OF fit] by (simp add: block_def)
  next
    case False
    then have k: "k < ?n" using that by simp
    let ?bk = "block f (fst (rq ! k)) (snd (rq ! k))"
    have "k * stride + length ?bk \<le> k * stride + stride"
      using pre(1) k by simp
    also have "k * stride + stride \<le> ?n * stride"
      using k by (metis Suc_leI add.commute mult_Suc mult_le_mono1)
    finally have "block ?m (k * stride) (length ?bk) = block m (k * stride) (length ?bk)"
      using fit by (intro block_blit_before)
    then show ?thesis
      using m(3) k by (simp add: Let_def block_def nth_append)
  qed
  ultimately show ?case by blast
qed

section \<open>Contexts per thread\<close>

text \<open>\<open>rd_ctx\<close> is \<open>ctx_map\<close>, \<open>rd_cached\<close> the thread-local pair \<open>t_cached_reader_ptr\<close> and
  \<open>t_cached_io_ctx\<close> (\<open>Some\<close> when the pointer is this reader), \<open>rd_live\<close> the kernel's contexts that have
  been set up and not destroyed.\<close>

record reader =
  rd_ctx :: "nat \<Rightarrow> nat option"
  rd_cached :: "nat \<Rightarrow> nat option"
  rd_live :: "nat set"

definition reader_new :: reader where
  "reader_new = \<lparr>rd_ctx = Map.empty, rd_cached = Map.empty, rd_live = {}\<rparr>"

definition is_thread_registered :: "nat \<Rightarrow> reader \<Rightarrow> bool" where
  "is_thread_registered t s \<longleftrightarrow> rd_ctx s t \<noteq> None"

text \<open>\<open>io\<close> is what \<open>io_setup\<close> does: an error code or a fresh context.\<close>

definition register_thread :: "int + nat \<Rightarrow> nat \<Rightarrow> reader \<Rightarrow> reader res" where
  "register_thread io t s =
     (if rd_ctx s t \<noteq> None then
        Inl (ANNException ''register_thread() called more than once from the same thread for the same reader'')
      else case io of
        Inl ret \<Rightarrow> Inl (ANNException (if ret = - 11 then ''io_setup() failed with EAGAIN'' else ''io_setup() failed''))
      | Inr c \<Rightarrow> Inr (s\<lparr>rd_ctx := (rd_ctx s)(t \<mapsto> c), rd_live := insert c (rd_live s)\<rparr>))"

definition ensure_thread_registered :: "int + nat \<Rightarrow> nat \<Rightarrow> reader \<Rightarrow> reader res" where
  "ensure_thread_registered io t s = (if is_thread_registered t s then Inr s else register_thread io t s)"

definition get_ctx :: "nat \<Rightarrow> reader \<Rightarrow> (nat \<times> reader) res" where
  "get_ctx t s =
     (case rd_cached s t of
        Some c \<Rightarrow> Inr (c, s)
      | None \<Rightarrow>
          (case rd_ctx s t of
             None \<Rightarrow> Inl (ANNException ''get_ctx() called from an unregistered thread'')
           | Some c \<Rightarrow> Inr (c, s\<lparr>rd_cached := (rd_cached s)(t \<mapsto> c)\<rparr>)))"

definition deregister_thread :: "nat \<Rightarrow> reader \<Rightarrow> reader res" where
  "deregister_thread t s =
     rbind (get_ctx t s) (\<lambda>(c, s1).
       Inr (s1\<lparr>rd_live := rd_live s1 - {c}, rd_ctx := (rd_ctx s1)(t := None), rd_cached := (rd_cached s1)(t := None)\<rparr>))"

definition deregister_all_threads :: "reader \<Rightarrow> reader" where
  "deregister_all_threads s = s\<lparr>rd_live := rd_live s - ran (rd_ctx s), rd_ctx := Map.empty\<rparr>"

text \<open>The life of a reader: calls of its operations by any threads in any order, and calls of another
  reader's \<open>get_ctx\<close>, which overwrite the thread's cache. \<open>io_setup\<close> never returns a context in use.\<close>

inductive reader_step :: "reader \<Rightarrow> reader \<Rightarrow> bool" where
  ensure: "c \<notin> rd_live s \<Longrightarrow> ensure_thread_registered (Inr c) t s = Inr s' \<Longrightarrow> reader_step s s'"
| get: "get_ctx t s = Inr (c, s') \<Longrightarrow> reader_step s s'"
| dereg: "deregister_thread t s = Inr s' \<Longrightarrow> reader_step s s'"
| other: "reader_step s (s\<lparr>rd_cached := (rd_cached s)(t := None)\<rparr>)"

inductive reader_reach :: "reader \<Rightarrow> bool" where
  start: "reader_reach reader_new"
| step: "reader_reach s \<Longrightarrow> reader_step s s' \<Longrightarrow> reader_reach s'"

definition ctx_inv :: "reader \<Rightarrow> bool" where
  "ctx_inv s \<longleftrightarrow> (\<forall>t c. rd_cached s t = Some c \<longrightarrow> rd_ctx s t = Some c) \<and>
     (\<forall>t c. rd_ctx s t = Some c \<longrightarrow> c \<in> rd_live s) \<and>
     (\<forall>t u c. rd_ctx s t = Some c \<longrightarrow> rd_ctx s u = Some c \<longrightarrow> t = u)"

lemma get_ctx_inv:
  assumes "ctx_inv s" "get_ctx t s = Inr (c, s')"
  shows "ctx_inv s'" "rd_ctx s t = Some c" "rd_ctx s' = rd_ctx s" "rd_live s' = rd_live s"
  using assms by (auto simp: get_ctx_def ctx_inv_def split: option.splits if_splits)

lemma reader_step_inv:
  assumes "reader_step s s'" "ctx_inv s"
  shows "ctx_inv s'"
  using assms(1)
proof cases
  case (ensure c t)
  then show ?thesis
    using assms(2)
    by (auto simp: ensure_thread_registered_def is_thread_registered_def register_thread_def ctx_inv_def split: if_splits)
next
  case (get t c)
  then show ?thesis using get_ctx_inv[OF assms(2)] by blast
next
  case (dereg t)
  then obtain c s1 where s1: "get_ctx t s = Inr (c, s1)"
    "s' = s1\<lparr>rd_live := rd_live s1 - {c}, rd_ctx := (rd_ctx s1)(t := None), rd_cached := (rd_cached s1)(t := None)\<rparr>"
    by (auto simp: deregister_thread_def rbind_eq_Inr_iff)
  note g = get_ctx_inv[OF assms(2) s1(1)]
  have c: "rd_ctx s1 t = Some c" using g(2,3) by simp
  have I: "\<And>u d. rd_cached s1 u = Some d \<Longrightarrow> rd_ctx s1 u = Some d" "\<And>u d. rd_ctx s1 u = Some d \<Longrightarrow> d \<in> rd_live s1"
    "\<And>u v d. rd_ctx s1 u = Some d \<Longrightarrow> rd_ctx s1 v = Some d \<Longrightarrow> u = v"
    using g(1) by (auto simp: ctx_inv_def)
  show ?thesis
    unfolding ctx_inv_def s1(2) using I(1,2) I(3)[OF c] by (auto intro: I(3))
next
  case (other t)
  then show ?thesis using assms(2) by (auto simp: ctx_inv_def)
qed

lemma reader_reach_inv: "reader_reach s \<Longrightarrow> ctx_inv s"
  by (induction rule: reader_reach.induct) (auto simp: reader_step_inv, simp add: ctx_inv_def reader_new_def)

section \<open>Properties\<close>

text \<open>Batched reads: with a kernel that serves every request, a batch of any size whose requests fit
  their slots leaves in each slot the bytes of the file at the request's offset, untouched by the other
  requests and by the cut into chunks of \<open>MAX_EVENTS\<close>.\<close>

theorem batch_read_slots:
  assumes "aio_up sub" "aio_up got" "\<forall>k < length rq. snd (rq ! k) \<le> stride" "length rq * stride \<le> length mem"
  shows "\<exists>mem'. execute_io sub got f (slot_reqs rq 0 stride) mem = Inr mem' \<and>
    (\<forall>k < length rq. let bs = block f (fst (rq ! k)) (snd (rq ! k)) in take (length bs) (drop (k * stride) mem') = bs)"
proof -
  have "\<forall>k < length rq. length (block f (fst (rq ! k)) (snd (rq ! k))) \<le> stride"
    using assms(3) by (auto simp: block_def min.coboundedI1)
  then show ?thesis
    using slots_read[OF _ assms(4)] execute_io_all[OF assms(1,2)] by (metis (no_types, lifting))
qed

theorem batch_read_slots_witness:
  "\<exists>mem'. execute_io (\<lambda>i n. int n) (\<lambda>i n. int n) [1, 2, 3, 4] (slot_reqs [(2, 2), (0, 1)] 0 2) [0, 0, 0, 0] = Inr mem' \<and>
    take 2 (drop 0 mem') = [3, 4] \<and> take 1 (drop 2 mem') = [1 :: byte]"
proof -
  have up: "aio_up (\<lambda>i n. int n)" by (simp add: aio_up_def)
  have fit: "\<forall>k < length [(2 :: nat, 2 :: nat), (0, 1)]. snd ([(2 :: nat, 2 :: nat), (0, 1)] ! k) \<le> 2"
    by (simp add: All_less_Suc numeral_2_eq_2)
  show ?thesis
    using batch_read_slots[OF up up fit, of "[0, 0, 0, 0]" "[1, 2, 3, 4]"]
    by (auto simp: All_less_Suc block_def Let_def numeral_2_eq_2)
qed



text \<open>\<open>deregister_all_threads\<close> leaves the thread-local caches alone: a thread that used the reader
  before it, and registers again after it, is handed the destroyed context and not the one it has just
  registered.\<close>

theorem deregister_all_stale:
  "\<exists>s1 s2 s3. ensure_thread_registered (Inr 7) 1 reader_new = Inr s1 \<and> get_ctx 1 s1 = Inr (7, s2) \<and>
     ensure_thread_registered (Inr 8) 1 (deregister_all_threads s2) = Inr s3 \<and>
     rd_ctx s3 1 = Some 8 \<and> get_ctx 1 s3 = Inr (7, s3) \<and> 7 \<notin> rd_live s3"
  by (simp add: ensure_thread_registered_def is_thread_registered_def register_thread_def get_ctx_def
      deregister_all_threads_def reader_new_def)

end
