(* ===== verification/Disk_Source.thy ===== *)
theory Disk_Source
  imports Aligned_Reader Cstd
begin

text \<open>
  \<open>search/ours_data_interfaces.cpp\<close>: the metadata of a disk index, and the four sources that turn a
  node id into an aligned read and find the node's data in what was read. Pointers into a buffer are
  the buffer from there on; reading outside it is \<open>OutOfRange\<close>. \<open>record_source\<close> is the contract of
  the abstract classes \<open>GraphSource\<close> and \<open>VectorSource\<close>.
\<close>

section \<open>Macros and constants\<close>

definition ROUND_UP :: "nat \<Rightarrow> nat \<Rightarrow> nat" where
  "ROUND_UP x y = u64 ((x div y + (if x mod y \<noteq> 0 then 1 else 0)) * y)"

definition DIV_ROUND_UP :: "nat \<Rightarrow> nat \<Rightarrow> nat" where
  "DIV_ROUND_UP x y = x div y + (if x mod y \<noteq> 0 then 1 else 0)"

definition SECTOR_LEN :: nat where "SECTOR_LEN = 4096"

lemma div_up_mod: "0 < y \<Longrightarrow> div_up x y = x div y + (if x mod y \<noteq> 0 then 1 else 0)"
proof -
  assume y: "0 < y"
  have x: "x = x div y * y + x mod y" by simp
  have "(x div y * y + x mod y + (y - 1)) div y = x div y + (x mod y + (y - 1)) div y"
    using y by (metis add.assoc add.commute div_mult_self3 not_gr_zero)
  moreover have "(x mod y + (y - 1)) div y = (if x mod y \<noteq> 0 then 1 else 0)"
  proof (cases "x mod y = 0")
    case False
    have "x mod y < y" using y by simp
    then have eq: "x mod y + (y - 1) = (x mod y - 1) + y" and lt: "x mod y - 1 < y"
      using False by linarith+
    have "((x mod y - 1) + y) div y = (x mod y - 1) div y + 1"
      using y by (intro div_add_self2) simp
    then show ?thesis unfolding eq using False div_less[OF lt] by (simp only: if_True not_False_eq_True)
  qed (use y in simp)
  moreover have "x + y - 1 = x div y * y + x mod y + (y - 1)"
    using x y by linarith
  ultimately show ?thesis
    by (simp only: div_up_def)
qed

lemma ROUND_UP_eq: "0 < y \<Longrightarrow> x + y \<le> 2 ^ 64 \<Longrightarrow> ROUND_UP x y = round_up_nat x y"
  using round_up_less[of y x] div_up_mod[of y x] unfolding ROUND_UP_def round_up_nat_def by (metis less_le_trans u64_id)

lemma DIV_ROUND_UP_eq: "0 < y \<Longrightarrow> DIV_ROUND_UP x y = div_up x y"
  by (simp add: DIV_ROUND_UP_def div_up_mod)

lemma round_up_mono: "0 < a \<Longrightarrow> x \<le> y \<Longrightarrow> round_up_nat x a \<le> round_up_nat y a"
  by (meson le_trans round_up_dvd round_up_ge round_up_least)

section \<open>Metadata\<close>

record disk_metadata =
  dm_num_points :: nat
  dm_data_dim :: nat
  dm_medoid :: nat
  dm_max_node_len :: nat
  dm_nnodes_per_sector :: nat
  dm_frozen_num :: nat
  dm_frozen_loc :: nat
  dm_append_reorder :: nat

definition enc64 :: "nat list \<Rightarrow> byte list" where
  "enc64 xs = concat (map (le_bytes 8) xs)"

fun dec64 :: "nat \<Rightarrow> byte list \<Rightarrow> nat list" where
  "dec64 0 bs = []"
| "dec64 (Suc n) bs = le_nat (take 8 bs) # dec64 n (drop 8 bs)"

text \<open>\<open>load_bin<uint64_t>\<close> on a stream with exceptions: the array, \<open>npts\<close> and \<open>dim\<close>. \<open>what\<close> is the text of
  the stream's exception.\<close>

definition load_bin64 :: "string \<Rightarrow> bfile option \<Rightarrow> (nat list \<times> nat \<times> nat) res" where
  "load_bin64 what fo =
     (case fo of
        None \<Rightarrow> Inl (ANNException what)
      | Some f \<Rightarrow>
          if length f < 8 then Inl (ANNException what)
          else
            let npts = le_nat (block f 0 4); dm = le_nat (block f 4 4)
            in if length f < 8 + npts * dm * 8 then Inl (ANNException what)
               else Inr (dec64 (npts * dm) (block f 8 (npts * dm * 8)), npts, dm))"

text \<open>The result is the metadata (\<open>return true\<close>) or the error text (\<open>return false\<close>).\<close>

definition load_disk_index_metadata :: "string \<Rightarrow> bfile option \<Rightarrow> string + disk_metadata" where
  "load_disk_index_metadata what fo =
     (case load_bin64 what fo of
        Inl e \<Rightarrow> Inl what
      | Inr (meta, meta_count, meta_dim) \<Rightarrow>
          if meta_dim \<noteq> 1 then Inl (''metadata dim must be 1, got '' @ dec_string meta_dim)
          else if meta_count < 4 then Inl (''metadata must contain at least 4 uint64 entries, got '' @ dec_string meta_count)
          else
            let entry = (\<lambda>i. if meta_count > i then meta ! i else 0);
                parsed = \<lparr>dm_num_points = meta ! 0, dm_data_dim = meta ! 1, dm_medoid = meta ! 2,
                  dm_max_node_len = meta ! 3, dm_nnodes_per_sector = entry 4, dm_frozen_num = entry 5,
                  dm_frozen_loc = entry 6, dm_append_reorder = entry 7\<rparr>
            in if dm_num_points parsed = 0 then Inl ''num_points must be > 0''
               else if dm_data_dim parsed = 0 then Inl ''data_dim must be > 0''
               else if dm_max_node_len parsed = 0 then Inl ''max_node_len must be > 0''
               else if dm_medoid parsed \<ge> dm_num_points parsed then
                 Inl (''medoid '' @ dec_string (dm_medoid parsed) @ '' is out of range for num_points '' @
                      dec_string (dm_num_points parsed))
               else Inr parsed)"

lemma length_enc64 [simp]: "length (enc64 xs) = 8 * length xs"
  by (induction xs) (auto simp: enc64_def)

lemma dec64_enc64: "dec64 (length xs) (enc64 xs @ bs) = map u64 xs"
  by (induction xs) (auto simp: enc64_def)

lemma load_bin64_enc:
  assumes "length xs < 2 ^ 32"
  shows "load_bin64 what (Some (le_bytes 4 (length xs) @ le_bytes 4 1 @ enc64 xs @ bs)) = Inr (map u64 xs, length xs, 1)"
  using assms dec64_enc64[of xs "[]"] by (simp add: load_bin64_def block_def Let_def u32_id)

section \<open>DiskANNGraphSource\<close>

record disk_source =
  ds_max_node_len :: nat
  ds_max_degree :: nat
  ds_bytes_per_point :: nat
  ds_nnodes_per_sector :: nat

text \<open>The constructors; a node length of 0 is a division by zero.\<close>

definition disk_source_new :: "nat \<Rightarrow> nat \<Rightarrow> nat \<Rightarrow> disk_source res" where
  "disk_source_new max_node_len max_degree disk_bytes_per_point =
     (if max_node_len = 0 then Inl (Die ''division by zero'')
      else Inr \<lparr>ds_max_node_len = max_node_len, ds_max_degree = max_degree, ds_bytes_per_point = disk_bytes_per_point,
        ds_nnodes_per_sector = (if max_node_len \<le> 4096 then 4096 div max_node_len else 0)\<rparr>)"

definition abs_offset :: "disk_source \<Rightarrow> nat \<Rightarrow> nat" where
  "abs_offset s node_id =
     (if ds_nnodes_per_sector s > 0 then
        let sector_idx = node_id div ds_nnodes_per_sector s; idx_in_sector = node_id mod ds_nnodes_per_sector s
        in u64 ((sector_idx + 1) * 4096 + idx_in_sector * ds_max_node_len s)
      else
        let aligned_node_len = u64 (u64 (ds_max_node_len s + 4095) div 4096 * 4096)
        in u64 (4096 + node_id * aligned_node_len))"

definition prepare_node_read :: "disk_source \<Rightarrow> nat \<Rightarrow> nat \<times> nat" where
  "prepare_node_read s node_id =
     (let off = abs_offset s node_id;
          sector_start = off div SECTOR_LEN * SECTOR_LEN;
          sector_end = u64 (off + ds_max_node_len s + SECTOR_LEN - 1) div SECTOR_LEN * SECTOR_LEN
      in (sector_start, u32 (sub64 sector_end sector_start)))"

text \<open>A count at \<open>p\<close>, cut to \<open>maxd\<close>, and that many ids behind it.\<close>

definition counted_ids :: "nat \<Rightarrow> byte list \<Rightarrow> nat \<Rightarrow> nat list res" where
  "counted_ids maxd buf p =
     (if length buf < p + 4 then Inl OutOfRange
      else
        let k = le_nat (block buf p 4); k = (if k > maxd then maxd else k)
        in if length buf < p + 4 + 4 * k then Inl OutOfRange
           else Inr (dec32 (block buf (p + 4) (4 * k))))"

definition parse_neighbors :: "disk_source \<Rightarrow> nat \<Rightarrow> byte list \<Rightarrow> nat list res" where
  "parse_neighbors s node_id buf =
     (let off = abs_offset s node_id;
          sector_start = off div SECTOR_LEN * SECTOR_LEN;
          buf_offset = off - sector_start
      in counted_ids (ds_max_degree s) buf (buf_offset + ds_bytes_per_point s))"

definition get_neighbors_ptr :: "disk_source \<Rightarrow> nat \<Rightarrow> byte list \<Rightarrow> nat list res" where
  "get_neighbors_ptr s node_id buf =
     (let offset_in_buf = (if ds_nnodes_per_sector s > 0
        then u64 (node_id mod ds_nnodes_per_sector s * ds_max_node_len s) else 0)
      in counted_ids (ds_max_degree s) buf (offset_in_buf + ds_bytes_per_point s))"

definition get_read_buffer_size :: "disk_source \<Rightarrow> nat" where
  "get_read_buffer_size s = u32 (ROUND_UP (u64 (ds_max_node_len s + SECTOR_LEN)) SECTOR_LEN)"

section \<open>DiskANNVectorSource\<close>

text \<open>It has the same node length and the same number of nodes per sector; the degree is not used.\<close>

definition vec_prepare_batch_read :: "disk_source \<Rightarrow> nat list \<Rightarrow> (nat \<times> nat) list" where
  "vec_prepare_batch_read s ids =
     map (\<lambda>node_id.
       let off = abs_offset s node_id;
           sector_start = off div SECTOR_LEN * SECTOR_LEN;
           sector_end = u64 (off + ds_max_node_len s + SECTOR_LEN - 1) div SECTOR_LEN * SECTOR_LEN
       in (sector_start, u32 (sub64 sector_end sector_start))) ids"

text \<open>\<open>get_vector_ptr\<close> and the copy of \<open>n\<close> bytes its callers make.\<close>

definition get_vector :: "disk_source \<Rightarrow> nat \<Rightarrow> byte list \<Rightarrow> nat \<Rightarrow> byte list res" where
  "get_vector s node_id buf n =
     (let off = abs_offset s node_id;
          sector_start = off div SECTOR_LEN * SECTOR_LEN;
          buf_offset = off - sector_start
      in if length buf < buf_offset + n then Inl OutOfRange else Inr (block buf buf_offset n))"

definition vec_read_buffer_size :: "disk_source \<Rightarrow> nat" where
  "vec_read_buffer_size s = u32 (ROUND_UP (u64 (ds_max_node_len s + SECTOR_LEN)) SECTOR_LEN)"

section \<open>FixedGraphSource\<close>

record fixed_source =
  fs_max_degree :: nat
  fs_node_size_bytes :: nat

definition fixed_source_new :: "nat \<Rightarrow> fixed_source" where
  "fixed_source_new max_degree = \<lparr>fs_max_degree = max_degree, fs_node_size_bytes = 4 + max_degree * 4\<rparr>"

definition fixed_diff :: "fixed_source \<Rightarrow> nat \<Rightarrow> nat \<times> nat" where
  "fixed_diff s node_id =
     (let off = u64 (16 + node_id * fs_node_size_bytes s); aligned_off = off div 512 * 512
      in (aligned_off, off - aligned_off))"

definition fixed_prepare_node_read :: "fixed_source \<Rightarrow> nat \<Rightarrow> nat \<times> nat" where
  "fixed_prepare_node_read s node_id =
     (let (aligned_off, diff) = fixed_diff s node_id
      in (aligned_off, u32 (ROUND_UP (u64 (diff + fs_node_size_bytes s)) 512)))"

definition fixed_parse_neighbors :: "fixed_source \<Rightarrow> nat \<Rightarrow> byte list \<Rightarrow> nat list res" where
  "fixed_parse_neighbors s node_id buf = counted_ids (fs_max_degree s) buf (snd (fixed_diff s node_id))"

definition fixed_get_neighbors_ptr :: "fixed_source \<Rightarrow> nat \<Rightarrow> byte list \<Rightarrow> nat list res" where
  "fixed_get_neighbors_ptr s node_id buf = counted_ids (fs_max_degree s) buf (snd (fixed_diff s node_id))"

definition fixed_get_read_buffer_size :: "fixed_source \<Rightarrow> nat" where
  "fixed_get_read_buffer_size s = u32 (ROUND_UP (u64 (fs_node_size_bytes s + 512)) 512)"

section \<open>BinVectorSource\<close>

definition bin_vec_size :: "nat \<Rightarrow> nat" where
  "bin_vec_size dm = u64 (dm * 4)"

definition bin_diff :: "nat \<Rightarrow> nat \<Rightarrow> nat \<times> nat" where
  "bin_diff vec_size_bytes i =
     (let off = u64 (8 + i * vec_size_bytes); aligned_off = off div 512 * 512
      in (aligned_off, off - aligned_off))"

definition bin_prepare_batch_read :: "nat \<Rightarrow> nat list \<Rightarrow> (nat \<times> nat) list" where
  "bin_prepare_batch_read vec_size_bytes ids =
     map (\<lambda>i. let (aligned_off, diff) = bin_diff vec_size_bytes i
       in (aligned_off, u32 (ROUND_UP (u64 (diff + vec_size_bytes)) 512))) ids"

definition bin_get_vector :: "nat \<Rightarrow> nat \<Rightarrow> byte list \<Rightarrow> nat \<Rightarrow> byte list res" where
  "bin_get_vector vec_size_bytes i buf n =
     (let diff = snd (bin_diff vec_size_bytes i)
      in if length buf < diff + n then Inl OutOfRange else Inr (block buf diff n))"

definition bin_get_read_buffer_size :: "nat \<Rightarrow> nat" where
  "bin_get_read_buffer_size vec_size_bytes = u32 (ROUND_UP vec_size_bytes 512)"

section \<open>Where a node is\<close>

text \<open>The layout in plain arithmetic: nodes packed into sectors behind a header sector, or each node in
  whole sectors of its own.\<close>

definition node_off :: "nat \<Rightarrow> nat \<Rightarrow> nat" where
  "node_off len i =
     (if len \<le> 4096 then (i div (4096 div len) + 1) * 4096 + i mod (4096 div len) * len
      else 4096 + i * round_up_nat len 4096)"

definition disk_source_ok :: "disk_source \<Rightarrow> bool" where
  "disk_source_ok s \<longleftrightarrow> 0 < ds_max_node_len s \<and> ds_max_node_len s + 8192 \<le> 2 ^ 32 \<and>
     ds_bytes_per_point s + 4 + 4 * ds_max_degree s \<le> ds_max_node_len s \<and>
     ds_nnodes_per_sector s = (if ds_max_node_len s \<le> 4096 then 4096 div ds_max_node_len s else 0)"

lemma slot_in_sector:
  fixes len :: nat
  assumes "0 < len" "len \<le> 4096"
  shows "0 < 4096 div len" "i mod (4096 div len) * len + len \<le> 4096"
proof -
  show pos: "0 < 4096 div len"
    using assms by (simp add: div_greater_zero_iff)
  have "i mod (4096 div len) + 1 \<le> 4096 div len"
    using mod_less_divisor[OF pos, of i] by linarith
  then have "(i mod (4096 div len) + 1) * len \<le> 4096 div len * len"
    by (rule mult_le_mono1)
  also have "\<dots> \<le> 4096"
    by (rule div_times_less_eq_dividend)
  finally show "i mod (4096 div len) * len + len \<le> 4096"
    by simp
qed

lemma node_off_bound:
  assumes "0 < len" "len + 8192 \<le> 2 ^ 32" "i < 2 ^ 32"
  shows "node_off len i + len + 4096 \<le> 2 ^ 64"
proof (cases "len \<le> 4096")
  case True
  have "i div (4096 div len) \<le> i" by simp
  then have "i div (4096 div len) * 4096 \<le> 2 ^ 32 * 4096" using assms(3) by linarith
  then show ?thesis
    using slot_in_sector(2)[OF assms(1) True, of i] True assms(3) by (simp add: node_off_def)
next
  case False
  have "round_up_nat len 4096 < len + 4096" by (rule round_up_less) simp
  then have r: "round_up_nat len 4096 \<le> 2 ^ 32 - 4096" using assms(2) by simp
  have "i * round_up_nat len 4096 \<le> (2 ^ 32 - 1) * (2 ^ 32 - 4096)"
    using assms(3) r by (intro mult_le_mono) simp_all
  then show ?thesis
    using False assms(2) by (simp add: node_off_def)
qed

lemma abs_offset_eq:
  assumes "disk_source_ok s" "i < 2 ^ 32"
  shows "abs_offset s i = node_off (ds_max_node_len s) i"
proof -
  let ?l = "ds_max_node_len s"
  have l: "0 < ?l" "?l + 8192 \<le> 2 ^ 32"
    using assms(1) by (simp_all add: disk_source_ok_def)
  note b = node_off_bound[OF l assms(2)]
  show ?thesis
  proof (cases "?l \<le> 4096")
    case True
    then have "ds_nnodes_per_sector s = 4096 div ?l" "0 < 4096 div ?l"
      using assms(1) slot_in_sector(1)[OF l(1)] by (simp_all add: disk_source_ok_def)
    moreover have "u64 (node_off ?l i) = node_off ?l i"
      using b l by (intro u64_id) linarith
    ultimately show ?thesis
      using True by (simp add: abs_offset_def node_off_def Let_def)
  next
    case False
    then have n: "ds_nnodes_per_sector s = 0"
      using assms(1) by (simp add: disk_source_ok_def)
    have "round_up_nat ?l 4096 < ?l + 4096" by (rule round_up_less) simp
    then have "u64 (u64 (?l + 4095) div 4096 * 4096) = round_up_nat ?l 4096"
      using l(2) by (simp add: u64_id round_up_nat_def div_up_def)
    moreover have "u64 (node_off ?l i) = node_off ?l i"
      using b l by (intro u64_id) linarith
    ultimately show ?thesis
      using False n by (simp add: abs_offset_def node_off_def)
  qed
qed

text \<open>Where the node starts in the buffer, and how much is read.\<close>

lemma node_in_buf:
  fixes s i
  defines "len \<equiv> ds_max_node_len s" and "off \<equiv> abs_offset s i"
  assumes "disk_source_ok s" "i < 2 ^ 32"
  shows "off - off div 4096 * 4096 = (if ds_nnodes_per_sector s > 0 then i mod ds_nnodes_per_sector s * len else 0)"
    "prepare_node_read s i = (off div 4096 * 4096, if len \<le> 4096 then 4096 else round_up_nat len 4096)"
proof -
  have l: "0 < len" "len + 8192 \<le> 2 ^ 32"
    using assms(3) by (simp_all add: disk_source_ok_def len_def)
  have off: "off = node_off len i"
    using abs_offset_eq[OF assms(3,4)] by (simp add: off_def len_def)
  note b = node_off_bound[OF l assms(4)]
  have wrap: "u64 (off + len + 4096 - 1) = off + len + 4096 - 1"
    using b l(1) off by (intro u64_id) linarith
  have prep: "prepare_node_read s i = (off div 4096 * 4096, u32 (sub64 ((off + len + 4095) div 4096 * 4096) (off div 4096 * 4096)))"
    using wrap by (simp add: prepare_node_read_def SECTOR_LEN_def off_def len_def Let_def ac_simps)
  have sub: "sub64 ((off + len + 4095) div 4096 * 4096) (off div 4096 * 4096) =
      (off + len + 4095) div 4096 * 4096 - off div 4096 * 4096"
  proof (rule sub64_id)
    show "off div 4096 * 4096 \<le> (off + len + 4095) div 4096 * 4096"
      by (intro mult_le_mono1 div_le_mono) simp
    have "(off + len + 4095) div 4096 * 4096 \<le> off + len + 4095" by simp
    then show "(off + len + 4095) div 4096 * 4096 < 2 ^ 64" using b off by linarith
  qed
  show "off - off div 4096 * 4096 = (if ds_nnodes_per_sector s > 0 then i mod ds_nnodes_per_sector s * len else 0)" (is ?A)
    and "prepare_node_read s i = (off div 4096 * 4096, if len \<le> 4096 then 4096 else round_up_nat len 4096)" (is ?B)
  proof -
    have "?A \<and> ?B"
    proof (cases "len \<le> 4096")
      case True
      let ?q = "i div (4096 div len) + 1" and ?r = "i mod (4096 div len) * len"
      have n: "ds_nnodes_per_sector s = 4096 div len" "0 < 4096 div len"
        using assms(3) True slot_in_sector(1)[OF l(1)] by (simp_all add: disk_source_ok_def len_def)
      have r: "?r + len \<le> 4096" by (rule slot_in_sector(2)[OF l(1) True])
      have o: "off = ?r + ?q * 4096" using True by (simp add: off node_off_def)
      have "off div 4096 = ?q" using r l(1) unfolding o by (subst div_mult_self1) simp_all
      moreover have "(off + len + 4095) div 4096 = ?q + 1"
      proof -
        have e: "off + len + 4095 = (?r + len - 1) + (?q + 1) * 4096" using o l(1) by simp
        show ?thesis using r l(1) unfolding e by (subst div_mult_self1) simp_all
      qed
      ultimately show ?thesis
        using n True o prep sub by (simp add: u32_id)
    next
      case False
      have n: "ds_nnodes_per_sector s = 0"
        using assms(3) False by (simp add: disk_source_ok_def len_def)
      let ?q = "1 + i * div_up len 4096"
      have o: "off = ?q * 4096" using False by (simp add: off node_off_def round_up_nat_def)
      have "(off + len + 4095) div 4096 = ?q + div_up len 4096"
      proof -
        have e: "off + len + 4095 = (len + 4095) + ?q * 4096" using o by simp
        show ?thesis unfolding e by (subst div_mult_self1) (simp_all add: div_up_def)
      qed
      moreover have "round_up_nat len 4096 < 2 ^ 32"
        using round_up_less[of 4096 len] l(2) by simp
      ultimately show ?thesis
        using n False o prep sub by (simp add: u32_id round_up_nat_def algebra_simps)
    qed
    then show ?A ?B by blast+
  qed
qed

section \<open>The contract of a source\<close>

text \<open>\<open>holds s f adj\<close> says that \<open>f\<close> stores the records \<open>adj\<close> (adjacency lists, or vectors) in the source's
  layout. The source promises that the read of a record fits the buffer size it announces, and that the
  record is found in any buffer that starts with the bytes read.\<close>

locale record_source =
  fixes prep :: "'s \<Rightarrow> nat \<Rightarrow> nat \<times> nat"
    and ptr :: "'s \<Rightarrow> nat \<Rightarrow> byte list \<Rightarrow> 'v res"
    and bufsz :: "'s \<Rightarrow> nat"
    and holds :: "'s \<Rightarrow> bfile \<Rightarrow> 'v list \<Rightarrow> bool"
  assumes fits: "holds s f adj \<Longrightarrow> i < length adj \<Longrightarrow> snd (prep s i) \<le> bufsz s"
    and found: "holds s f adj \<Longrightarrow> i < length adj \<Longrightarrow> bs = block f (fst (prep s i)) (snd (prep s i)) \<Longrightarrow>
      take (length bs) buf = bs \<Longrightarrow> ptr s i buf = Inr (adj ! i)"
begin

text \<open>A batch of nodes read into slots at least as large as the announced size.\<close>

lemma batch:
  assumes "holds s f adj" "\<forall>i \<in> set ids. i < length adj" "bufsz s \<le> per" "length ids * per \<le> length mem"
  shows "\<exists>mem'. rfold (aio_pread f) (slot_reqs (map (prep s) ids) 0 per) mem = Inr mem' \<and> length mem' = length mem \<and>
    (\<forall>k < length ids. ptr s (ids ! k) (drop (k * per) mem') = Inr (adj ! (ids ! k)))"
proof -
  let ?rq = "map (prep s) ids"
  have in_range: "ids ! k < length adj" if "k < length ids" for k
    using that assms(2) by simp
  have "\<forall>k < length ?rq. length (block f (fst (?rq ! k)) (snd (?rq ! k))) \<le> per"
    using fits[OF assms(1) in_range] assms(3) by (fastforce simp: length_block_min)
  moreover have "length ?rq * per \<le> length mem"
    using assms(4) by simp
  ultimately obtain mem' where mem': "rfold (aio_pread f) (slot_reqs ?rq 0 per) mem = Inr mem'" "length mem' = length mem"
    "\<forall>k < length ?rq. let bs = block f (fst (?rq ! k)) (snd (?rq ! k)) in take (length bs) (drop (k * per) mem') = bs"
    using slots_read by blast
  have "ptr s (ids ! k) (drop (k * per) mem') = Inr (adj ! (ids ! k))" if "k < length ids" for k
    using that mem'(3) by (intro found[OF assms(1) in_range[OF that] refl]) (simp add: Let_def)
  then show ?thesis
    using mem'(1,2) by blast
qed

end

lemma counted_ids_found:
  assumes "block buf p (4 + 4 * length ns) = le_bytes 4 (length ns) @ enc32 ns"
    and "length ns \<le> maxd" "length ns < 2 ^ 32" "\<forall>v \<in> set ns. v < 2 ^ 32"
  shows "counted_ids maxd buf p = Inr ns"
proof -
  have len: "p + 4 + 4 * length ns \<le> length buf"
    using arg_cong[OF assms(1), of length] by (simp add: length_block_min min_def split: if_splits)
  have "block buf p 4 = block (block buf p (4 + 4 * length ns)) 0 4"
    by (simp add: block_slice)
  then have k: "le_nat (block buf p 4) = length ns"
    unfolding assms(1) using assms(3) by (simp add: block_def u32_id)
  have "block buf (p + 4) (4 * length ns) = block (block buf p (4 + 4 * length ns)) 4 (4 * length ns)"
    by (simp add: block_slice)
  then have "dec32 (block buf (p + 4) (4 * length ns)) = ns"
    unfolding assms(1) using assms(4) by (simp add: block_def map_u32_id)
  then show ?thesis
    using k len assms(2) by (simp add: counted_ids_def Let_def)
qed

lemma block_take: "i + k \<le> m \<Longrightarrow> block (take m xs) i k = block xs i k"
  by (simp add: block_def drop_take min_def)

text \<open>A block of the file that lies within the bytes read is in the buffer, at its distance from the start.\<close>

lemma block_in_buf:
  assumes "take (length (block f start len)) buf = block f start len" "start \<le> off" "off + n \<le> start + len"
    and "off + n \<le> length f"
  shows "block buf (off - start) n = block f off n"
proof -
  let ?b = "block f start len"
  have n: "off - start + n \<le> length ?b"
    unfolding length_block_min using assms(2-4) by linarith
  have "block buf (off - start) n = block (take (length ?b) buf) (off - start) n"
    by (rule block_take[OF n, symmetric])
  also have "\<dots> = block f off n"
    using assms(1-3) by (simp add: block_slice)
  finally show ?thesis .
qed

text \<open>The combined layout: each node is its vector, its degree and its neighbours.\<close>

definition disk_node :: "bfile \<Rightarrow> disk_source \<Rightarrow> nat \<Rightarrow> byte list \<Rightarrow> nat list \<Rightarrow> bool" where
  "disk_node f s i v ns \<longleftrightarrow>
     block f (node_off (ds_max_node_len s) i) (ds_bytes_per_point s + (4 + 4 * length ns)) =
       v @ le_bytes 4 (length ns) @ enc32 ns \<and> length v = ds_bytes_per_point s \<and>
     length ns \<le> ds_max_degree s \<and> (\<forall>w \<in> set ns. w < 2 ^ 32)"

definition disk_graph :: "disk_source \<Rightarrow> bfile \<Rightarrow> nat list list \<Rightarrow> bool" where
  "disk_graph s f adj \<longleftrightarrow> disk_source_ok s \<and> length adj \<le> 2 ^ 32 \<and> (\<forall>i < length adj. \<exists>v. disk_node f s i v (adj ! i))"

lemma disk_node_buf:
  assumes "disk_source_ok s" "i < 2 ^ 32" "disk_node f s i v ns"
    and "take (length (block f (fst (prepare_node_read s i)) (snd (prepare_node_read s i)))) buf =
         block f (fst (prepare_node_read s i)) (snd (prepare_node_read s i))"
  shows "block buf (abs_offset s i - abs_offset s i div 4096 * 4096) (ds_bytes_per_point s + (4 + 4 * length ns)) =
    v @ le_bytes 4 (length ns) @ enc32 ns"
proof -
  let ?len = "ds_max_node_len s" and ?off = "abs_offset s i" and ?n = "ds_bytes_per_point s + (4 + 4 * length ns)"
  note in_buf = node_in_buf[OF assms(1,2)]
  have ok: "0 < ?len" "?n \<le> ?len" "?off = node_off ?len i"
    using assms(1,3) abs_offset_eq[OF assms(1,2)] by (auto simp: disk_source_ok_def disk_node_def)
  have node: "block f ?off ?n = v @ le_bytes 4 (length ns) @ enc32 ns"
    using assms(3) ok(3) by (simp add: disk_node_def)
  have "?off + ?n \<le> length f"
    using arg_cong[OF node, of length] assms(3) by (simp add: disk_node_def length_block_min min_def split: if_splits)
  moreover have "?off - ?off div 4096 * 4096 + ?len \<le> snd (prepare_node_read s i)"
    using in_buf assms(1) slot_in_sector(2)[OF ok(1), of i] round_up_ge[of 4096 ?len]
    by (auto simp: disk_source_ok_def)
  moreover have "?off div 4096 * 4096 \<le> ?off" by simp
  ultimately have "block buf (?off - ?off div 4096 * 4096) ?n = block f ?off ?n"
    using assms(4) ok(2) unfolding in_buf(2) fst_conv snd_conv by (intro block_in_buf) (assumption | linarith)+
  then show ?thesis using node by simp
qed

lemma disk_read_size: "disk_source_ok s \<Longrightarrow> get_read_buffer_size s = round_up_nat (ds_max_node_len s + 4096) 4096"
  using round_up_less[of 4096 "ds_max_node_len s + 4096"]
  by (simp add: get_read_buffer_size_def SECTOR_LEN_def disk_source_ok_def ROUND_UP_eq u64_id u32_id)

lemma disk_read_fits:
  assumes "disk_source_ok s" "i < 2 ^ 32"
  shows "snd (prepare_node_read s i) \<le> get_read_buffer_size s"
  using node_in_buf(2)[OF assms] round_up_mono[of 4096 "ds_max_node_len s" "ds_max_node_len s + 4096"]
    round_up_ge[of 4096 "ds_max_node_len s + 4096"]
  by (auto simp: disk_read_size[OF assms(1)])

lemma ptr_eq_parse:
  assumes "disk_source_ok s" "i < 2 ^ 32"
  shows "get_neighbors_ptr s i buf = parse_neighbors s i buf"
proof -
  have "i mod ds_nnodes_per_sector s * ds_max_node_len s < 2 ^ 64" if "ds_nnodes_per_sector s > 0"
    using that assms(1) slot_in_sector(2)[of "ds_max_node_len s" i] by (auto simp: disk_source_ok_def split: if_splits)
  then show ?thesis
    unfolding get_neighbors_ptr_def parse_neighbors_def SECTOR_LEN_def Let_def node_in_buf(1)[OF assms]
    by (simp add: u64_id)
qed

lemma disk_found:
  assumes "disk_graph s f adj" "i < length adj" "bs = block f (fst (prepare_node_read s i)) (snd (prepare_node_read s i))"
    and "take (length bs) buf = bs"
  shows "get_neighbors_ptr s i buf = Inr (adj ! i)"
proof -
  have ok: "disk_source_ok s" "i < 2 ^ 32"
    using assms(1,2) by (auto simp: disk_graph_def)
  obtain v where v: "disk_node f s i v (adj ! i)"
    using assms(1,2) by (auto simp: disk_graph_def)
  let ?o = "abs_offset s i - abs_offset s i div 4096 * 4096" and ?b = "ds_bytes_per_point s" and ?n = "4 + 4 * length (adj ! i)"
  have "block buf (?o + ?b) ?n = block (block buf ?o (?b + ?n)) ?b ?n"
    by (rule block_slice[symmetric]) simp
  also have "\<dots> = le_bytes 4 (length (adj ! i)) @ enc32 (adj ! i)"
    using v disk_node_buf[OF ok v] assms(3,4) by (simp add: disk_node_def block_def)
  finally have "counted_ids (ds_max_degree s) buf (?o + ?b) = Inr (adj ! i)"
    using v ok(1) by (intro counted_ids_found) (auto simp: disk_node_def disk_source_ok_def)
  then show ?thesis
    unfolding ptr_eq_parse[OF ok] by (simp add: parse_neighbors_def SECTOR_LEN_def Let_def)
qed

interpretation dgs: record_source prepare_node_read get_neighbors_ptr get_read_buffer_size disk_graph
  by unfold_locales (use disk_read_fits disk_found in \<open>auto simp: disk_graph_def\<close>)

text \<open>The separate layout: records of the same size behind a header of 16 bytes.\<close>

definition fixed_graph :: "fixed_source \<Rightarrow> bfile \<Rightarrow> nat list list \<Rightarrow> bool" where
  "fixed_graph s f adj \<longleftrightarrow>
     fs_node_size_bytes s = 4 + 4 * fs_max_degree s \<and> fs_node_size_bytes s + 1024 \<le> 2 ^ 32 \<and> length adj \<le> 2 ^ 32 \<and>
     (\<forall>i < length adj.
        block f (16 + i * fs_node_size_bytes s) (4 + 4 * length (adj ! i)) = le_bytes 4 (length (adj ! i)) @ enc32 (adj ! i) \<and>
        length (adj ! i) \<le> fs_max_degree s \<and> (\<forall>w \<in> set (adj ! i). w < 2 ^ 32))"

lemma fixed_read:
  assumes "fixed_graph s f adj" "i < length adj"
  defines "off \<equiv> 16 + i * fs_node_size_bytes s"
  shows "fixed_diff s i = (off div 512 * 512, off mod 512)"
    "fixed_prepare_node_read s i = (off div 512 * 512, round_up_nat (off mod 512 + fs_node_size_bytes s) 512)"
    "snd (fixed_prepare_node_read s i) \<le> fixed_get_read_buffer_size s"
proof -
  let ?n = "fs_node_size_bytes s"
  have n: "?n + 1024 \<le> 2 ^ 32" "i \<le> 2 ^ 32 - 1"
    using assms(1,2) by (auto simp: fixed_graph_def)
  have "i * ?n \<le> (2 ^ 32 - 1) * (2 ^ 32 - 1024)"
    using n by (intro mult_le_mono) simp_all
  then have "u64 off = off"
    unfolding off_def by (intro u64_id) simp
  then show d: "fixed_diff s i = (off div 512 * 512, off mod 512)"
    by (simp add: fixed_diff_def off_def Let_def modulo_nat_def mult.commute)
  have r: "round_up_nat (off mod 512 + ?n) 512 \<le> round_up_nat (?n + 512) 512"
    using pos_mod_bound[of 512 off] by (intro round_up_mono) simp_all
  moreover have "round_up_nat (?n + 512) 512 < ?n + 512 + 512"
    by (rule round_up_less) simp
  moreover have "off mod 512 < 512" by simp
  ultimately have "ROUND_UP (u64 (off mod 512 + ?n)) 512 = round_up_nat (off mod 512 + ?n) 512"
    "round_up_nat (off mod 512 + ?n) 512 < 2 ^ 32" "fixed_get_read_buffer_size s = round_up_nat (?n + 512) 512"
    using n(1) by (simp_all add: u64_id ROUND_UP_eq fixed_get_read_buffer_size_def u32_id)
  then show p: "fixed_prepare_node_read s i = (off div 512 * 512, round_up_nat (off mod 512 + ?n) 512)"
    and "snd (fixed_prepare_node_read s i) \<le> fixed_get_read_buffer_size s"
    using r by (simp_all add: fixed_prepare_node_read_def d u32_id)
qed

lemma fixed_found:
  assumes "fixed_graph s f adj" "i < length adj"
    and "bs = block f (fst (fixed_prepare_node_read s i)) (snd (fixed_prepare_node_read s i))" "take (length bs) buf = bs"
  shows "fixed_get_neighbors_ptr s i buf = Inr (adj ! i)"
proof -
  let ?off = "16 + i * fs_node_size_bytes s" and ?n = "4 + 4 * length (adj ! i)"
  note rd = fixed_read[OF assms(1,2)]
  have node: "block f ?off ?n = le_bytes 4 (length (adj ! i)) @ enc32 (adj ! i)"
    "?n \<le> fs_node_size_bytes s" "length (adj ! i) \<le> fs_max_degree s" "\<forall>w \<in> set (adj ! i). w < 2 ^ 32"
    "fs_node_size_bytes s + 1024 \<le> 2 ^ 32"
    using assms(1,2) by (auto simp: fixed_graph_def)
  have "?off + ?n \<le> length f"
    using arg_cong[OF node(1), of length] by (simp add: length_block_min min_def split: if_splits)
  moreover have "?off mod 512 + fs_node_size_bytes s \<le> snd (fixed_prepare_node_read s i)"
    unfolding rd(2) using round_up_ge[of 512] by simp
  moreover have "?off div 512 * 512 + ?off mod 512 = ?off" by simp
  ultimately have "block buf (?off - ?off div 512 * 512) ?n = block f ?off ?n"
    using assms(3,4) node(2) unfolding rd(2) fst_conv snd_conv by (intro block_in_buf) (blast | linarith)+
  moreover have "?off - ?off div 512 * 512 = ?off mod 512"
    by (simp add: modulo_nat_def mult.commute)
  ultimately show ?thesis
    using node unfolding fixed_get_neighbors_ptr_def rd(1) by (intro counted_ids_found) auto
qed

interpretation fgs: record_source fixed_prepare_node_read fixed_get_neighbors_ptr fixed_get_read_buffer_size fixed_graph
  by unfold_locales (use fixed_read(3) fixed_found in blast)+

section \<open>The source a search holds\<close>

text \<open>\<open>std::unique_ptr<GraphSource>\<close>: the virtual methods by the dynamic type.\<close>

datatype gsrc = DiskANNGraph disk_source | FixedGraph fixed_source

fun gs_prepare_node_read :: "gsrc \<Rightarrow> nat \<Rightarrow> nat \<times> nat" where
  "gs_prepare_node_read (DiskANNGraph s) i = prepare_node_read s i"
| "gs_prepare_node_read (FixedGraph s) i = fixed_prepare_node_read s i"

fun gs_get_neighbors_ptr :: "gsrc \<Rightarrow> nat \<Rightarrow> byte list \<Rightarrow> nat list res" where
  "gs_get_neighbors_ptr (DiskANNGraph s) i buf = get_neighbors_ptr s i buf"
| "gs_get_neighbors_ptr (FixedGraph s) i buf = fixed_get_neighbors_ptr s i buf"

fun gs_get_read_buffer_size :: "gsrc \<Rightarrow> nat" where
  "gs_get_read_buffer_size (DiskANNGraph s) = get_read_buffer_size s"
| "gs_get_read_buffer_size (FixedGraph s) = fixed_get_read_buffer_size s"

fun gs_holds :: "gsrc \<Rightarrow> bfile \<Rightarrow> nat list list \<Rightarrow> bool" where
  "gs_holds (DiskANNGraph s) f adj = disk_graph s f adj"
| "gs_holds (FixedGraph s) f adj = fixed_graph s f adj"

interpretation gsr: record_source gs_prepare_node_read gs_get_neighbors_ptr gs_get_read_buffer_size gs_holds
proof
  fix s f adj i bs buf
  assume h: "gs_holds s f adj" "i < length adj"
  then show "snd (gs_prepare_node_read s i) \<le> gs_get_read_buffer_size s"
    using dgs.fits fgs.fits by (cases s) auto
  assume "bs = block f (fst (gs_prepare_node_read s i)) (snd (gs_prepare_node_read s i))" "take (length bs) buf = bs"
  then show "gs_get_neighbors_ptr s i buf = Inr (adj ! i)"
    using h dgs.found fgs.found by (cases s) auto
qed

section \<open>Properties\<close>

text \<open>C35. Reading the graph: for either layout, a batch of node reads issued with the buffer size the source
  announces (rounded up to whole pages, as the loaders do) gives, for every node of the batch, exactly
  the node's neighbours as the file stores them.\<close>

theorem graph_batch_neighbours:
  assumes "aio_up sub" "aio_up got" "gs_holds s f adj" "\<forall>i \<in> set ids. i < length adj"
    and "per = (gs_get_read_buffer_size s + 4095) div 4096 * 4096" "length ids * per \<le> length mem"
  shows "\<exists>mem'. execute_io sub got f (slot_reqs (map (gs_prepare_node_read s) ids) 0 per) mem = Inr mem' \<and>
    (\<forall>k < length ids. gs_get_neighbors_ptr s (ids ! k) (drop (k * per) mem') = Inr (adj ! (ids ! k)))"
proof -
  have "gs_get_read_buffer_size s \<le> per"
    using div_up_mult_ge[of 4096 "gs_get_read_buffer_size s"] assms(5) by (simp add: div_up_def)
  then show ?thesis
    using gsr.batch[OF assms(3,4) _ assms(6)] execute_io_all[OF assms(1,2)] by auto
qed

theorem graph_batch_neighbours_witness:
  "\<exists>mem'. execute_io (\<lambda>i n. int n) (\<lambda>i n. int n) (replicate 16 0 @ le_bytes 4 1 @ enc32 [9])
      (slot_reqs (map (gs_prepare_node_read (FixedGraph (fixed_source_new 1))) [0]) 0 4096) (replicate 4096 0) = Inr mem' \<and>
    gs_get_neighbors_ptr (FixedGraph (fixed_source_new 1)) 0 (drop 0 mem') = Inr [9]"
proof -
  let ?s = "FixedGraph (fixed_source_new 1)" and ?f = "replicate 16 0 @ le_bytes 4 1 @ enc32 [9]"
  have up: "aio_up (\<lambda>i n. int n)" by (simp add: aio_up_def)
  have h: "gs_holds ?s ?f [[9]]"
    by (simp add: fixed_graph_def fixed_source_new_def block_def)
  have per: "4096 = (gs_get_read_buffer_size ?s + 4095) div 4096 * 4096"
    by (simp add: fixed_get_read_buffer_size_def fixed_source_new_def ROUND_UP_def u64_def u32_def)
  have "\<forall>i \<in> set [0]. i < length [[9 :: nat]]" "length [0 :: nat] * 4096 \<le> length (replicate 4096 (0 :: byte))"
    by (simp_all only: length_replicate) simp_all
  from graph_batch_neighbours[OF up up h this(1) per this(2)] show ?thesis
    by (simp only: list.size One_nat_def add_0 less_Suc0) (simp only: simp_thms nth_Cons_0 mult_0)
qed

text \<open>The two ways the combined layout finds a node in a buffer agree: \<open>get_neighbors_ptr\<close>, which takes the
  offset from the position in the sector alone, returns what \<open>parse_neighbors\<close> returns from the
  absolute offset, on every buffer.\<close>

theorem get_ptr_is_parse:
  assumes "disk_source_ok s" "i < 2 ^ 32"
  shows "get_neighbors_ptr s i buf = parse_neighbors s i buf"
  by (rule ptr_eq_parse[OF assms])

theorem get_ptr_is_parse_witness:
  "\<forall>buf. get_neighbors_ptr \<lparr>ds_max_node_len = 20, ds_max_degree = 2, ds_bytes_per_point = 8, ds_nnodes_per_sector = 204\<rparr> 205 buf =
   parse_neighbors \<lparr>ds_max_node_len = 20, ds_max_degree = 2, ds_bytes_per_point = 8, ds_nnodes_per_sector = 204\<rparr> 205 buf"
  using get_ptr_is_parse[of "\<lparr>ds_max_node_len = 20, ds_max_degree = 2, ds_bytes_per_point = 8, ds_nnodes_per_sector = 204\<rparr>" 205]
  by (simp add: disk_source_ok_def)

text \<open>\<open>BinVectorSource\<close> announces a buffer that is too small: for vectors of 512 bytes every read is 1024
  bytes long while the announced size is 512, so a single read into a buffer of that size runs past it
  whenever the file has the bytes.\<close>

theorem bin_buffer_too_small:
  "bin_get_read_buffer_size (bin_vec_size 128) = 512 \<and>
   map snd (bin_prepare_batch_read (bin_vec_size 128) [0, 1, 2]) = [1024, 1024, 1024] \<and>
   aio_pread (replicate 2048 0) \<lparr>ar_offset = 0, ar_len = 1024, ar_buf = 0\<rparr> (replicate 512 0) = Inl OutOfRange"
proof -
  have v: "bin_vec_size 128 = 512" and r: "u32 (ROUND_UP (u64 (8 + 512)) 512) = 1024" "bin_get_read_buffer_size 512 = 512"
    by (simp_all add: bin_vec_size_def bin_get_read_buffer_size_def ROUND_UP_def u64_def u32_def)
  have d: "bin_diff 512 0 = (0, 8)" "bin_diff 512 1 = (512, 8)" "bin_diff 512 2 = (1024, 8)"
    by (simp_all add: bin_diff_def u64_def)
  have big: "(0 + min 1024 (2048 - 0) \<le> (512 :: nat)) = False"
    by simp
  have "aio_pread (replicate 2048 0) \<lparr>ar_offset = 0, ar_len = 1024, ar_buf = 0\<rparr> (replicate 512 0) = Inl OutOfRange"
    by (simp only: aio_pread_def Let_def aligned_read.simps length_block_min length_replicate big if_False)
  then show ?thesis
    by (simp only: v r d bin_prepare_batch_read_def list.map Let_def prod.case snd_conv simp_thms)
qed

end
