(* ===== verification/Disk_Layout.thy ===== *)
theory Disk_Layout
  imports Cached_Io Disk_Source Graph_Store
begin

text \<open>
  \<open>create_disk_layout\<close> of \<open>src/disk_utils.cpp\<close>: it joins the vectors of a base file and the graph of
  an in-memory index into the combined layout the search reads. The size of a coordinate is the
  argument \<open>sizeT\<close>; \<open>mem\<close> is the fresh memory of the writer's cache. Release builds define
  \<open>NDEBUG\<close>, so the assertions on the degree are not there.
\<close>

section \<open>One node\<close>

text \<open>The part both branches share: the degree and at most \<open>width\<close> neighbours are read into
  \<open>node_buf\<close>; surplus neighbours are skipped.\<close>

definition read_nhood :: "nat \<Rightarrow> nat \<Rightarrow> nat \<Rightarrow> ifs \<Rightarrow> byte list \<times> nat \<times> ifs" where
  "read_nhood vlen width max_node_len v =
     (let (bs, v1) = ifs_read v 4;
          node_buf = blit (replicate max_node_len 0) vlen bs;
          nnbrs = le_nat (block node_buf vlen 4);
          (hs, v2) = ifs_read v1 (4 * min nnbrs width);
          v3 = (if nnbrs > width then ifs_skip v2 ((nnbrs - width) * 4) else v2)
      in (blit node_buf (vlen + 4) hs, nnbrs, v3))"

text \<open>Packed nodes: coordinates and degree are stored into \<open>node_buf\<close>; the copy of the neighbours is onto
  themselves.\<close>

definition packed_node :: "nat \<Rightarrow> nat \<Rightarrow> nat \<Rightarrow> ifs \<Rightarrow> cifs \<Rightarrow> (byte list \<times> ifs \<times> cifs) res" where
  "packed_node vlen width max_node_len v b =
     (let (node_buf, nnbrs, v1) = read_nhood vlen width max_node_len v
      in rbind (cifs_read b vlen) (\<lambda>(coords, b1).
           let node_buf1 = blit node_buf 0 coords;
               node_buf2 = blit node_buf1 vlen (le_bytes 4 (min nnbrs width));
               nhood = block node_buf2 (vlen + 4) (4 * min nnbrs width)
           in Inr (blit node_buf2 (vlen + 4) nhood, v1, b1)))"

text \<open>Nodes of several sectors: the three parts are copied into the zeroed \<open>multisector_buf\<close>.\<close>

definition big_node :: "nat \<Rightarrow> nat \<Rightarrow> nat \<Rightarrow> ifs \<Rightarrow> cifs \<Rightarrow> (byte list \<times> ifs \<times> cifs) res" where
  "big_node vlen width max_node_len v b =
     (let (node_buf, nnbrs, v1) = read_nhood vlen width max_node_len v
      in rbind (cifs_read b vlen) (\<lambda>(coords, b1).
           let buf = replicate (DIV_ROUND_UP max_node_len SECTOR_LEN * SECTOR_LEN) 0;
               buf1 = blit buf 0 coords;
               buf2 = blit buf1 vlen (le_bytes 4 (min nnbrs width));
               nhood = block node_buf (vlen + 4) (4 * min nnbrs width)
           in Inr (blit buf2 (vlen + 4) nhood, v1, b1)))"

section \<open>The sectors\<close>

definition sector_slot ::
    "nat \<Rightarrow> nat \<Rightarrow> nat \<Rightarrow> nat \<Rightarrow> nat \<Rightarrow> nat \<times> ifs \<times> cifs \<times> byte list \<Rightarrow> (nat \<times> ifs \<times> cifs \<times> byte list) res" where
  "sector_slot vlen width max_node_len npts sector_node_id st =
     (case st of (cur_node_id, v, b, sector_buf) \<Rightarrow>
        if cur_node_id < npts then
          rbind (packed_node vlen width max_node_len v b) (\<lambda>(node, v1, b1).
            Inr (cur_node_id + 1, v1, b1, blit sector_buf (sector_node_id * max_node_len) node))
        else Inr st)"

definition packed_sector ::
    "nat \<Rightarrow> nat \<Rightarrow> nat \<Rightarrow> nat \<Rightarrow> nat \<Rightarrow> nat \<Rightarrow> nat \<times> ifs \<times> cifs \<times> cofs \<Rightarrow> (nat \<times> ifs \<times> cifs \<times> cofs) res" where
  "packed_sector vlen width max_node_len npts nnodes_per_sector sector st =
     (case st of (cur_node_id, v, b, w) \<Rightarrow>
        rbind (rfold (sector_slot vlen width max_node_len npts) [0..<nnodes_per_sector]
                 (cur_node_id, v, b, replicate SECTOR_LEN 0))
          (\<lambda>(cur1, v1, b1, sector_buf). Inr (cur1, v1, b1, cofs_write w sector_buf)))"

definition big_sector :: "nat \<Rightarrow> nat \<Rightarrow> nat \<Rightarrow> nat \<Rightarrow> ifs \<times> cifs \<times> cofs \<Rightarrow> (ifs \<times> cifs \<times> cofs) res" where
  "big_sector vlen width max_node_len i st =
     (case st of (v, b, w) \<Rightarrow>
        rbind (big_node vlen width max_node_len v b) (\<lambda>(buf, v1, b1). Inr (v1, b1, cofs_write w buf)))"

text \<open>The reordering data: a stream with exceptions at position \<open>p\<close>.\<close>

definition reorder_slot :: "bfile \<Rightarrow> nat \<Rightarrow> nat \<Rightarrow> nat \<times> byte list \<Rightarrow> (nat \<times> byte list) res" where
  "reorder_slot r vec_len sector_node_id st =
     (case st of (p, sector_buf) \<Rightarrow>
        rbind (read_exact r p vec_len) (\<lambda>(vec, p1). Inr (p1, blit sector_buf (sector_node_id * vec_len) vec)))"

definition reorder_sector :: "bfile \<Rightarrow> nat \<Rightarrow> nat \<Rightarrow> nat \<Rightarrow> nat \<Rightarrow> nat \<times> cofs \<Rightarrow> (nat \<times> cofs) res" where
  "reorder_sector r vec_len npts n_data_nodes_per_sector sector st =
     (case st of (p, w) \<Rightarrow>
        rbind (rfold (reorder_slot r vec_len) [0..<min n_data_nodes_per_sector npts] (p, replicate SECTOR_LEN 0))
          (\<lambda>(p1, sector_buf). Inr (p1, cofs_write w sector_buf)))"

definition append_reorder :: "bfile option \<Rightarrow> nat \<Rightarrow> nat \<Rightarrow> nat \<Rightarrow> nat \<Rightarrow> cofs \<Rightarrow> cofs res" where
  "append_reorder ro vec_len npts n_data_nodes_per_sector n_reorder_sectors w =
     (case ro of
        None \<Rightarrow> Inr w
      | Some r \<Rightarrow>
          rbind (rfold (reorder_sector r vec_len npts n_data_nodes_per_sector) [0..<n_reorder_sectors] (8, w))
            (\<lambda>(p, w2). Inr w2))"

section \<open>The whole file\<close>

text \<open>Opening the reordering data: its number of points and dimension.\<close>

definition open_reorder :: "nat \<Rightarrow> bfile option \<Rightarrow> (nat \<times> nat) res" where
  "open_reorder npts ro =
     (case ro of None \<Rightarrow> Inr (0, 0)
      | Some r \<Rightarrow>
          rbind (read_exact r 0 4) (\<lambda>(n, p1). rbind (read_exact r p1 4) (\<lambda>(d, p2).
            if le_nat n \<noteq> npts then Inl (ANNException ''Mismatch in num_points between reorder data file and base file'')
            else if length r \<noteq> 8 + 4 * le_nat n * le_nat d then Inl (ANNException ''Discrepancy in reorder data file size '')
            else Inr (le_nat n, le_nat d))))"

text \<open>The header of the in-memory index: width, medoid, number of frozen points. A file that ends inside the
  header leaves the variables uninitialised.\<close>

definition vamana_header :: "bfile \<Rightarrow> (nat \<times> nat \<times> nat \<times> ifs) res" where
  "vamana_header f =
     (if length f < 8 then Inl OutOfRange
      else if le_nat (block f 0 8) \<noteq> length f then
        Inl (ANNException ''Vamana Index file size does not match expected size per meta-data.'')
      else if length f < 24 then Inl OutOfRange
      else
        let (s, v0) = ifs_read (ifs_open f) 8; (w, v1) = ifs_read v0 4; (m, v2) = ifs_read v1 4; (fr, v3) = ifs_read v2 8
        in Inr (le_nat w, le_nat m, le_nat fr, v3))"

definition write_nodes ::
    "nat \<Rightarrow> nat \<Rightarrow> nat \<Rightarrow> nat \<Rightarrow> nat \<Rightarrow> nat \<Rightarrow> ifs \<Rightarrow> cifs \<Rightarrow> cofs \<Rightarrow> cofs res" where
  "write_nodes vlen width max_node_len npts nnodes_per_sector n_sectors v b w =
     (if nnodes_per_sector > 0 then
        rbind (rfold (packed_sector vlen width max_node_len npts nnodes_per_sector) [0..<n_sectors] (0, v, b, w))
          (\<lambda>(cur, v1, b1, w1). Inr w1)
      else
        rbind (rfold (big_sector vlen width max_node_len) [0..<npts] (v, b, w)) (\<lambda>(v1, b1, w1). Inr w1))"

text \<open>\<open>save_bin<uint64_t>\<close> at offset 0 of an existing file.\<close>

definition save_meta :: "bfile \<Rightarrow> nat list \<Rightarrow> bfile" where
  "save_meta f meta = pwrite f 0 (le_bytes 4 (length meta) @ le_bytes 4 1 @ enc64 meta)"

definition create_disk_layout :: "nat \<Rightarrow> byte list \<Rightarrow> bfile \<Rightarrow> bfile \<Rightarrow> bfile option \<Rightarrow> bfile res" where
  "create_disk_layout sizeT mem base_file mem_index_file reorder_file =
     rbind (cifs_read (cifs_open base_file (64 * 1024 * 1024)) 4) (\<lambda>(n, b0).
     rbind (cifs_read b0 4) (\<lambda>(d, b1).
     let npts = le_nat n; ndims = le_nat d; append_reorder_data = (reorder_file \<noteq> None)
     in rbind (open_reorder npts reorder_file) (\<lambda>(npts_r, ndims_r).
     rbind (vamana_header mem_index_file) (\<lambda>(width, medoid, frozen_num, v).
     let frozen_loc = (if frozen_num = 1 then medoid else 0);
         max_node_len = (width + 1) * 4 + ndims * sizeT;
         nnodes_per_sector = SECTOR_LEN div max_node_len;
         n_sectors = (if nnodes_per_sector > 0 then ROUND_UP npts nnodes_per_sector div nnodes_per_sector
                      else npts * DIV_ROUND_UP max_node_len SECTOR_LEN)
     in if append_reorder_data \<and> (ndims_r = 0 \<or> SECTOR_LEN div (ndims_r * 4) = 0) then Inl (Die ''division by zero'')
        else
          let n_data = (if append_reorder_data then SECTOR_LEN div (ndims_r * 4) else 0);
              n_reorder_sectors = (if append_reorder_data then ROUND_UP npts n_data div n_data else 0);
              disk_index_file_size = u64 ((n_sectors + n_reorder_sectors + 1) * SECTOR_LEN);
              meta = [npts, ndims, medoid, max_node_len, nnodes_per_sector, frozen_num, frozen_loc,
                      if append_reorder_data then 1 else 0] @
                     (if append_reorder_data then [n_sectors + 1, ndims_r, n_data] else []) @ [disk_index_file_size];
              w0 = cofs_write (cofs_open mem) (replicate SECTOR_LEN 0)
          in rbind (write_nodes (ndims * sizeT) width max_node_len npts nnodes_per_sector n_sectors v b1 w0) (\<lambda>w1.
             rbind (append_reorder reorder_file (ndims_r * 4) npts n_data n_reorder_sectors w1) (\<lambda>w2.
             Inr (save_meta (co_file (cofs_close w2)) meta)))))))"

section \<open>What a node looks like\<close>

text \<open>\<open>node_img n v row\<close> is a node of vector \<open>v\<close> and neighbours \<open>row\<close> in \<open>n\<close> bytes.\<close>

definition node_img :: "nat \<Rightarrow> byte list \<Rightarrow> nat list \<Rightarrow> byte list" where
  "node_img n v row = v @ node_bytes row @ replicate (n - (length v + (4 + 4 * length row))) 0"

lemma length_node_img: "length v + (4 + 4 * length row) \<le> n \<Longrightarrow> length (node_img n v row) = n"
  by (simp add: node_img_def)

lemma blit_zero: "a + length bs \<le> n \<Longrightarrow>
    blit (xs @ replicate n 0) (length xs + a) bs = xs @ replicate a 0 @ bs @ replicate (n - (a + length bs)) 0"
  by (simp add: blit_def min_def)

lemma blit_first: "length bs \<le> n \<Longrightarrow> blit (replicate n 0 @ ys) 0 bs = bs @ replicate (n - length bs) 0 @ ys"
  by (simp add: blit_def)

lemma read_nhood_row:
  assumes "\<not> if_fail v" "ifs_rest v = node_bytes row @ rest" "length row \<le> width" "length row < 2 ^ 32"
    and "vlen + (4 + 4 * width) \<le> n"
  obtains v' where "read_nhood vlen width n v = (node_img n (replicate vlen 0) row, length row, v')"
    "\<not> if_fail v'" "ifs_rest v' = rest"
proof -
  obtain v1 where v1: "ifs_read v 4 = (le_bytes 4 (length row), v1)" "\<not> if_fail v1" "ifs_rest v1 = enc32 row @ rest"
    using pif.rd_record[OF assms(1), of "le_bytes 4 (length row)" "enc32 row @ rest" 4] assms(2)
    by (auto simp: node_bytes_def)
  obtain v2 where v2: "ifs_read v1 (4 * length row) = (enc32 row, v2)" "\<not> if_fail v2" "ifs_rest v2 = rest"
    using pif.rd_record[OF v1(2,3), of "4 * length row"] by auto
  let ?b1 = "replicate vlen 0 @ le_bytes 4 (length row) @ replicate (n - (vlen + 4)) (0 :: byte)"
  have b1: "blit (replicate n 0) vlen (le_bytes 4 (length row)) = ?b1"
    using blit_zero[of vlen "le_bytes 4 (length row)" n "[]"] assms(5) by simp
  have k: "le_nat (block ?b1 vlen 4) = length row"
    using assms(4) by (simp add: block_def u32_id)
  have "blit ?b1 (vlen + 4) (enc32 row) = node_img n (replicate vlen 0) row"
    using blit_zero[of 0 "enc32 row" "n - (vlen + 4)" "replicate vlen 0 @ le_bytes 4 (length row)"] assms(3,5)
    by (simp add: node_img_def node_bytes_def)
  then have "read_nhood vlen width n v = (node_img n (replicate vlen 0) row, length row, v2)"
    using assms(3) v2(1) by (simp add: read_nhood_def v1(1) b1 k Let_def)
  then show ?thesis
    using that v2 by blast
qed

lemma node_img_parts:
  assumes "length v + (4 + 4 * length row) \<le> n"
  shows "block (node_img n v row) (length v + 4) (4 * length row) = enc32 row"
    "length u = length v \<Longrightarrow> blit (node_img n v row) 0 u = node_img n u row"
    "blit (node_img n v row) (length v) (le_bytes 4 (length row)) = node_img n v row"
    "blit (node_img n v row) (length v + 4) (enc32 row) = node_img n v row"
proof -
  let ?z = "replicate (n - (length v + (4 + 4 * length row))) (0 :: byte)"
  show "block (node_img n v row) (length v + 4) (4 * length row) = enc32 row"
    by (simp add: node_img_def node_bytes_def block_def)
  show "blit (node_img n v row) 0 u = node_img n u row" if "length u = length v"
    using that by (simp add: node_img_def blit_def)
  show "blit (node_img n v row) (length v) (le_bytes 4 (length row)) = node_img n v row"
    by (simp add: node_img_def node_bytes_def blit_def)
  show "blit (node_img n v row) (length v + 4) (enc32 row) = node_img n v row"
    by (simp add: node_img_def node_bytes_def blit_def)
qed

lemma packed_node_row:
  assumes "\<not> if_fail v" "ifs_rest v = node_bytes row @ vs" "cifs_ok b" "cifs_rest b = vec @ bs" "length vec = vlen"
    and "length row \<le> width" "length row < 2 ^ 32" "vlen + (4 + 4 * width) \<le> n"
  obtains v' b' where "packed_node vlen width n v b = Inr (node_img n vec row, v', b')"
    "\<not> if_fail v'" "ifs_rest v' = vs" "cifs_ok b'" "cifs_rest b' = bs"
proof -
  obtain v' where v': "read_nhood vlen width n v = (node_img n (replicate vlen 0) row, length row, v')"
    "\<not> if_fail v'" "ifs_rest v' = vs"
    using read_nhood_row[OF assms(1,2,6,7,8)] by blast
  obtain b' where b': "cifs_read b vlen = Inr (vec, b')" "cifs_ok b'" "cifs_rest b' = bs"
    using cif.rd_record[OF assms(3,4), of vlen] assms(5) by auto
  have fit: "length vec + (4 + 4 * length row) \<le> n"
    using assms(5,6,8) by simp
  note parts = node_img_parts[OF fit]
  have "blit (node_img n (replicate vlen 0) row) 0 vec = node_img n vec row"
    using node_img_parts(2)[of "replicate vlen 0" row n vec] fit assms(5) by simp
  then have "packed_node vlen width n v b = Inr (node_img n vec row, v', b')"
    using parts assms(5,6) by (simp add: packed_node_def v'(1) b'(1) Let_def min_def)
  then show ?thesis
    using that v' b' by blast
qed

lemma big_node_row:
  assumes "\<not> if_fail v" "ifs_rest v = node_bytes row @ vs" "cifs_ok b" "cifs_rest b = vec @ bs" "length vec = vlen"
    and "length row \<le> width" "length row < 2 ^ 32" "vlen + (4 + 4 * width) \<le> n"
  obtains v' b' where "big_node vlen width n v b = Inr (node_img (round_up_nat n 4096) vec row, v', b')"
    "\<not> if_fail v'" "ifs_rest v' = vs" "cifs_ok b'" "cifs_rest b' = bs"
proof -
  obtain v' where v': "read_nhood vlen width n v = (node_img n (replicate vlen 0) row, length row, v')"
    "\<not> if_fail v'" "ifs_rest v' = vs"
    using read_nhood_row[OF assms(1,2,6,7,8)] by blast
  obtain b' where b': "cifs_read b vlen = Inr (vec, b')" "cifs_ok b'" "cifs_rest b' = bs"
    using cif.rd_record[OF assms(3,4), of vlen] assms(5) by auto
  have nh: "block (node_img n (replicate vlen 0) row) (vlen + 4) (4 * length row) = enc32 row"
    using node_img_parts(1)[of "replicate vlen 0" row n] assms(6,8) by simp
  define N where "N = round_up_nat n 4096"
  have N: "vlen + (4 + 4 * length row) \<le> N" "DIV_ROUND_UP n SECTOR_LEN * SECTOR_LEN = N"
    using round_up_ge[of 4096 n] assms(6,8)
    by (simp_all add: N_def SECTOR_LEN_def DIV_ROUND_UP_eq round_up_nat_def)
  have "blit (replicate N 0) 0 vec = vec @ replicate (N - vlen) 0"
    using blit_first[of vec N "[]"] N(1) assms(5) by simp
  moreover have "blit (vec @ replicate (N - vlen) 0) vlen (le_bytes 4 (length row)) =
      (vec @ le_bytes 4 (length row)) @ replicate (N - vlen - 4) 0"
    using blit_zero[of 0 "le_bytes 4 (length row)" "N - vlen" vec] N(1) assms(5) by simp
  moreover have "blit ((vec @ le_bytes 4 (length row)) @ replicate (N - vlen - 4) 0) (vlen + 4) (enc32 row) = node_img N vec row"
    using blit_zero[of 0 "enc32 row" "N - vlen - 4" "vec @ le_bytes 4 (length row)"] N(1) assms(5)
    by (simp add: node_img_def node_bytes_def)
  ultimately have "big_node vlen width n v b = Inr (node_img N vec row, v', b')"
    using assms(6) N(2) nh by (simp add: big_node_def v'(1) b'(1) Let_def min_def)
  then show ?thesis
    using that v' b' unfolding N_def by blast
qed

section \<open>The file, sector by sector\<close>

definition layout_ok :: "nat \<Rightarrow> nat \<Rightarrow> nat \<Rightarrow> byte list list \<Rightarrow> nat list list \<Rightarrow> bool" where
  "layout_ok vlen width n vecs rows \<longleftrightarrow> length vecs = length rows \<and> (\<forall>v \<in> set vecs. length v = vlen) \<and>
     (\<forall>row \<in> set rows. length row \<le> width \<and> (\<forall>w \<in> set row. w < 2 ^ 32)) \<and> width < 2 ^ 32 \<and> vlen + (4 + 4 * width) \<le> n"

definition imgs :: "nat \<Rightarrow> byte list list \<Rightarrow> nat list list \<Rightarrow> byte list list" where
  "imgs n vecs rows = map (\<lambda>(v, row). node_img n v row) (zip vecs rows)"

text \<open>Both readers stand at node \<open>cur\<close>.\<close>

definition at_node :: "byte list list \<Rightarrow> nat list list \<Rightarrow> nat \<Rightarrow> ifs \<Rightarrow> cifs \<Rightarrow> bool" where
  "at_node vecs rows cur v b \<longleftrightarrow> \<not> if_fail v \<and> ifs_rest v = concat (map node_bytes (drop cur rows)) \<and>
     cifs_ok b \<and> cifs_rest b = concat (drop cur vecs)"

lemma length_imgs [simp]: "layout_ok vlen width n vecs rows \<Longrightarrow> length (imgs m vecs rows) = length rows"
  by (simp add: imgs_def layout_ok_def)

lemma nth_imgs: "layout_ok vlen width n vecs rows \<Longrightarrow> i < length rows \<Longrightarrow> imgs m vecs rows ! i = node_img m (vecs ! i) (rows ! i)"
  by (simp add: imgs_def layout_ok_def)

lemma layout_node:
  assumes "layout_ok vlen width n vecs rows" "i < length rows"
  shows "length (vecs ! i) = vlen" "length (rows ! i) \<le> width" "length (rows ! i) < 2 ^ 32" "vlen + (4 + 4 * width) \<le> n"
    "\<forall>w \<in> set (rows ! i). w < 2 ^ 32" "n \<le> m \<Longrightarrow> length (node_img m (vecs ! i) (rows ! i)) = m"
proof -
  have "vecs ! i \<in> set vecs" "rows ! i \<in> set rows"
    using assms by (simp_all add: layout_ok_def)
  then show *: "length (vecs ! i) = vlen" "length (rows ! i) \<le> width" "vlen + (4 + 4 * width) \<le> n" "\<forall>w \<in> set (rows ! i). w < 2 ^ 32"
    using assms(1) by (simp_all add: layout_ok_def)
  then show "length (rows ! i) < 2 ^ 32"
    using assms(1) by (simp add: layout_ok_def)
  show "length (node_img m (vecs ! i) (rows ! i)) = m" if "n \<le> m"
    using that * by (intro length_node_img) simp
qed

lemma imgs_lengths: "layout_ok vlen width n vecs rows \<Longrightarrow> n \<le> m \<Longrightarrow> \<forall>x \<in> set (imgs m vecs rows). length x = m"
  using layout_node(6) by (fastforce simp: in_set_conv_nth nth_imgs)

lemma at_node_step:
  assumes "layout_ok vlen width n vecs rows" "at_node vecs rows cur v b" "cur < length rows"
  obtains v' b' where "packed_node vlen width n v b = Inr (imgs n vecs rows ! cur, v', b')" "at_node vecs rows (Suc cur) v' b'"
proof -
  note nd = layout_node[OF assms(1,3)]
  have rest: "ifs_rest v = node_bytes (rows ! cur) @ concat (map node_bytes (drop (Suc cur) rows))"
    "cifs_rest b = vecs ! cur @ concat (drop (Suc cur) vecs)"
    using assms by (simp_all add: at_node_def layout_ok_def flip: Cons_nth_drop_Suc)
  have ok: "\<not> if_fail v" "cifs_ok b" using assms(2) by (simp_all add: at_node_def)
  obtain v' b' where "packed_node vlen width n v b = Inr (node_img n (vecs ! cur) (rows ! cur), v', b')"
    "\<not> if_fail v'" "ifs_rest v' = concat (map node_bytes (drop (Suc cur) rows))" "cifs_ok b'"
    "cifs_rest b' = concat (drop (Suc cur) vecs)"
    using packed_node_row[OF ok(1) rest(1) ok(2) rest(2) nd(1,2,3,4)] by blast
  then show ?thesis
    using that nth_imgs[OF assms(1,3)] by (simp add: at_node_def)
qed

lemma at_node_big:
  assumes "layout_ok vlen width n vecs rows" "at_node vecs rows cur v b" "cur < length rows"
  obtains v' b' where "big_node vlen width n v b = Inr (imgs (round_up_nat n 4096) vecs rows ! cur, v', b')"
    "at_node vecs rows (Suc cur) v' b'"
proof -
  note nd = layout_node[OF assms(1,3)]
  have rest: "ifs_rest v = node_bytes (rows ! cur) @ concat (map node_bytes (drop (Suc cur) rows))"
    "cifs_rest b = vecs ! cur @ concat (drop (Suc cur) vecs)"
    using assms by (simp_all add: at_node_def layout_ok_def flip: Cons_nth_drop_Suc)
  have ok: "\<not> if_fail v" "cifs_ok b" using assms(2) by (simp_all add: at_node_def)
  obtain v' b' where "big_node vlen width n v b = Inr (node_img (round_up_nat n 4096) (vecs ! cur) (rows ! cur), v', b')"
    "\<not> if_fail v'" "ifs_rest v' = concat (map node_bytes (drop (Suc cur) rows))" "cifs_ok b'"
    "cifs_rest b' = concat (drop (Suc cur) vecs)"
    using big_node_row[OF ok(1) rest(1) ok(2) rest(2) nd(1,2,3,4)] by blast
  then show ?thesis
    using that nth_imgs[OF assms(1,3)] by (simp add: at_node_def)
qed

definition pad_sector :: "byte list \<Rightarrow> byte list" where
  "pad_sector xs = xs @ replicate (4096 - length xs) 0"

lemma length_concat_uniform: "\<forall>x \<in> set xs. length x = L \<Longrightarrow> length (concat xs) = length xs * L"
  by (induction xs) auto

lemma sector_slots:
  assumes "layout_ok vlen width n vecs rows" "at_node vecs rows cur v b" "cur \<le> length rows" "m * n \<le> 4096"
  shows "\<exists>v' b'. rfold (sector_slot vlen width n (length rows)) [0..<m] (cur, v, b, replicate SECTOR_LEN 0) =
      Inr (min (cur + m) (length rows), v', b', pad_sector (concat (block (imgs n vecs rows) cur m))) \<and>
    at_node vecs rows (min (cur + m) (length rows)) v' b'"
  using assms(4)
proof (induction m)
  case 0
  then show ?case using assms(2,3) by (simp add: pad_sector_def SECTOR_LEN_def min_def)
next
  case (Suc m)
  let ?I = "imgs n vecs rows" and ?N = "length rows"
  let ?X = "concat (block ?I cur m)"
  obtain v1 b1 where s1: "rfold (sector_slot vlen width n ?N) [0..<m] (cur, v, b, replicate SECTOR_LEN 0) =
      Inr (min (cur + m) ?N, v1, b1, pad_sector ?X)" "at_node vecs rows (min (cur + m) ?N) v1 b1"
    using Suc by auto
  show ?case
  proof (cases "cur + m < ?N")
    case False
    then have "block ?I cur (Suc m) = block ?I cur m"
      using assms(1,3) by (simp add: block_def)
    moreover have "min (cur + m) ?N = ?N" "min (cur + Suc m) ?N = ?N"
      using False by simp_all
    moreover have "sector_slot vlen width n ?N m (?N, v1, b1, pad_sector ?X) = Inr (?N, v1, b1, pad_sector ?X)"
      by (simp add: sector_slot_def)
    ultimately show ?thesis
      using s1 by (simp add: rfold_append)
  next
    case True
    obtain v2 b2 where s2: "packed_node vlen width n v1 b1 = Inr (?I ! (cur + m), v2, b2)" "at_node vecs rows (Suc (cur + m)) v2 b2"
      using at_node_step[OF assms(1) s1(2)] True by (auto simp: min_def)
    have "length (block ?I cur m) = m" using True assms(1) by (simp add: length_block_min)
    moreover have "\<forall>x \<in> set (block ?I cur m). length x = n"
      using imgs_lengths[OF assms(1) order.refl] unfolding block_def by (meson in_set_dropD in_set_takeD)
    ultimately have X: "length ?X = m * n" using length_concat_uniform by metis
    have node: "length (?I ! (cur + m)) = n"
      using imgs_lengths[OF assms(1) order.refl] True assms(1) by simp
    have "blit (pad_sector ?X) (m * n) (?I ! (cur + m)) = pad_sector (?X @ ?I ! (cur + m))"
      using blit_zero[of 0 "?I ! (cur + m)" "4096 - m * n" ?X] node X Suc.prems by (simp add: pad_sector_def)
    moreover have "block ?I cur (Suc m) = block ?I cur m @ [?I ! (cur + m)]"
      using True assms(1) by (simp add: block_def take_Suc_conv_app_nth)
    ultimately have "sector_slot vlen width n ?N m (cur + m, v1, b1, pad_sector ?X) =
        Inr (Suc (cur + m), v2, b2, pad_sector (concat (block ?I cur (Suc m))))"
      using True s2(1) by (simp add: sector_slot_def)
    moreover have "min (cur + m) ?N = cur + m" "min (cur + Suc m) ?N = Suc (cur + m)"
      using True by simp_all
    ultimately show ?thesis
      using s1(1) s2(2) by (simp add: rfold_append)
  qed
qed

definition packed_sectors :: "nat \<Rightarrow> nat \<Rightarrow> byte list list \<Rightarrow> byte list list" where
  "packed_sectors nn k I = map (\<lambda>j. pad_sector (concat (block I (j * nn) nn))) [0..<k]"

lemma packed_sectors_written:
  assumes "layout_ok vlen width n vecs rows" "at_node vecs rows 0 v b" "cofs_ok w" "nn * n \<le> 4096"
  shows "\<exists>v' b' w'. rfold (packed_sector vlen width n (length rows) nn) [0..<k] (0, v, b, w) = Inr (min (k * nn) (length rows), v', b', w') \<and>
    at_node vecs rows (min (k * nn) (length rows)) v' b' \<and> cofs_ok w' \<and>
    cofs_all w' = cofs_all w @ concat (packed_sectors nn k (imgs n vecs rows))"
proof (induction k)
  case 0
  then show ?case using assms(2,3) by (simp add: packed_sectors_def)
next
  case (Suc k)
  let ?N = "length rows" and ?c = "min (k * nn) (length rows)"
  obtain v1 b1 w1 where s1: "rfold (packed_sector vlen width n ?N nn) [0..<k] (0, v, b, w) = Inr (?c, v1, b1, w1)"
    "at_node vecs rows ?c v1 b1" "cofs_ok w1" "cofs_all w1 = cofs_all w @ concat (packed_sectors nn k (imgs n vecs rows))"
    using Suc by blast
  let ?X = "pad_sector (concat (block (imgs n vecs rows) (k * nn) nn))"
  have "block (imgs n vecs rows) ?c nn = block (imgs n vecs rows) (k * nn) nn"
    using assms(1) by (simp add: block_def min_def)
  then obtain v2 b2 where s2: "rfold (sector_slot vlen width n ?N) [0..<nn] (?c, v1, b1, replicate SECTOR_LEN 0) =
      Inr (min (?c + nn) ?N, v2, b2, ?X)" "at_node vecs rows (min (?c + nn) ?N) v2 b2"
    using sector_slots[OF assms(1) s1(2) _ assms(4)] by auto
  have c: "min (?c + nn) ?N = min (Suc k * nn) ?N" by (simp add: min_def)
  have "packed_sector vlen width n ?N nn k (?c, v1, b1, w1) = Inr (min (Suc k * nn) ?N, v2, b2, cofs_write w1 ?X)"
    using s2(1) c by (simp add: packed_sector_def)
  then have "rfold (packed_sector vlen width n ?N nn) [0..<Suc k] (0, v, b, w) = Inr (min (Suc k * nn) ?N, v2, b2, cofs_write w1 ?X)"
    using s1(1) by (simp add: rfold_append)
  moreover have "cofs_all (cofs_write w1 ?X) = cofs_all w @ concat (packed_sectors nn (Suc k) (imgs n vecs rows))"
    using cofs_write_ok(2)[OF s1(3), of ?X] s1(4) by (simp add: packed_sectors_def)
  ultimately show ?case
    using s2(2) cofs_write_ok(1)[OF s1(3)] c by auto
qed

lemma big_sectors_written:
  assumes "layout_ok vlen width n vecs rows" "at_node vecs rows 0 v b" "cofs_ok w" "k \<le> length rows"
  shows "\<exists>v' b' w'. rfold (big_sector vlen width n) [0..<k] (v, b, w) = Inr (v', b', w') \<and>
    at_node vecs rows k v' b' \<and> cofs_ok w' \<and> cofs_all w' = cofs_all w @ concat (take k (imgs (round_up_nat n 4096) vecs rows))"
  using assms(4)
proof (induction k)
  case 0
  then show ?case using assms(2,3) by simp
next
  case (Suc k)
  let ?I = "imgs (round_up_nat n 4096) vecs rows"
  obtain v1 b1 w1 where s1: "rfold (big_sector vlen width n) [0..<k] (v, b, w) = Inr (v1, b1, w1)"
    "at_node vecs rows k v1 b1" "cofs_ok w1" "cofs_all w1 = cofs_all w @ concat (take k ?I)"
    using Suc by auto
  obtain v2 b2 where s2: "big_node vlen width n v1 b1 = Inr (?I ! k, v2, b2)" "at_node vecs rows (Suc k) v2 b2"
    using at_node_big[OF assms(1) s1(2)] Suc.prems by auto
  have "rfold (big_sector vlen width n) [0..<Suc k] (v, b, w) = Inr (v2, b2, cofs_write w1 (?I ! k))"
    using s1(1) s2(1) by (simp add: rfold_append big_sector_def)
  moreover have "take (Suc k) ?I = take k ?I @ [?I ! k]"
    using Suc.prems assms(1) by (simp add: take_Suc_conv_app_nth)
  ultimately show ?case
    using s2(2) s1(4) cofs_write_ok[OF s1(3)] by auto
qed

text \<open>Node \<open>i\<close> of the packed sectors.\<close>

lemma packed_node_at:
  assumes "\<forall>x \<in> set I. length x = n" "0 < nn" "nn * n \<le> 4096" "i < length I" "i div nn < k"
  shows "block (concat (packed_sectors nn k I)) (i div nn * 4096 + i mod nn * n) n = I ! i"
proof -
  let ?S = "packed_sectors nn k I" and ?j = "i div nn" and ?r = "i mod nn"
  let ?X = "block I (?j * nn) nn"
  have lenX: "length (concat (block I a nn)) \<le> 4096" for a
  proof -
    have "\<forall>x \<in> set (block I a nn). length x = n"
      using assms(1) unfolding block_def by (meson in_set_dropD in_set_takeD)
    then have "length (concat (block I a nn)) = length (block I a nn) * n" by (rule length_concat_uniform)
    also have "\<dots> \<le> nn * n" by (intro mult_le_mono1) (simp add: length_block_min)
    finally show ?thesis using assms(3) by simp
  qed
  have S: "\<forall>x \<in> set ?S. length x = 4096" "?S ! ?j = pad_sector (concat ?X)" "?j < length ?S"
    using lenX assms(5) by (auto simp: packed_sectors_def pad_sector_def)
  have X: "\<forall>x \<in> set ?X. length x = n" "?r < length ?X" "?X ! ?r = I ! i"
  proof -
    show "\<forall>x \<in> set ?X. length x = n"
      using assms(1) unfolding block_def by (meson in_set_dropD in_set_takeD)
    have r: "?r < nn" "?j * nn + ?r = i" using assms(2) by simp_all
    then show "?r < length ?X" using assms(4) unfolding length_block_min by linarith
    then show "?X ! ?r = I ! i" using r unfolding block_def by simp
  qed
  have len: "?r * n + n \<le> length (concat ?X)"
  proof -
    have "(?r + 1) * n \<le> length ?X * n" using X(2) by (intro mult_le_mono1) simp
    then show ?thesis using length_concat_uniform[OF X(1)] by simp
  qed
  then have "?r * n + n \<le> 4096" using lenX[of "?j * nn"] by linarith
  then have "block (concat ?S) (?j * 4096 + ?r * n) n = block (block (concat ?S) (?j * 4096) 4096) (?r * n) n"
    by (rule block_slice[symmetric])
  also have "\<dots> = block (pad_sector (concat ?X)) (?r * n) n"
    using block_concat_uniform[OF S(1,3)] S(2) by simp
  also have "\<dots> = block (concat ?X) (?r * n) n"
    using len unfolding pad_sector_def by (rule block_append_left)
  also have "\<dots> = I ! i"
    using block_concat_uniform[OF X(1,2)] X(3) by simp
  finally show ?thesis .
qed

lemma take_node_img: "length v + (4 + 4 * length row) \<le> n \<Longrightarrow> n \<le> m \<Longrightarrow> take n (node_img m v row) = node_img n v row"
  by (simp add: node_img_def)

lemma n_sectors_eq: "0 < nn \<Longrightarrow> x + nn \<le> 2 ^ 64 \<Longrightarrow> ROUND_UP x nn div nn = div_up x nn"
  by (simp add: ROUND_UP_eq round_up_nat_def)

text \<open>Behind the header sector, node \<open>i\<close> is at \<open>node_off n i\<close>.\<close>

lemma write_nodes_file:
  assumes "layout_ok vlen width n vecs rows" "at_node vecs rows 0 v b" "cofs_ok w" "length (cofs_all w) = 4096"
    and "0 < n" "length rows < 2 ^ 32" "nn = 4096 div n" "ns = (if nn > 0 then ROUND_UP (length rows) nn div nn else m)"
  shows "\<exists>w'. write_nodes vlen width n (length rows) nn ns v b w = Inr w' \<and> cofs_ok w' \<and> 4096 \<le> length (cofs_all w') \<and>
    (\<forall>i < length rows. block (cofs_all w') (node_off n i) n = node_img n (vecs ! i) (rows ! i))"
proof (cases "n \<le> 4096")
  case True
  have nn: "0 < nn" "nn * n \<le> 4096" "nn \<le> 4096"
    using slot_in_sector(1)[OF assms(5) True] assms(7) div_times_less_eq_dividend[of 4096 n] by simp_all
  have ns: "ns = div_up (length rows) nn"
    using nn(1,3) assms(6,8) n_sectors_eq[OF nn(1), of "length rows"] by simp
  obtain v' b' w' where w': "rfold (packed_sector vlen width n (length rows) nn) [0..<ns] (0, v, b, w) = Inr (min (ns * nn) (length rows), v', b', w')"
    "cofs_ok w'" "cofs_all w' = cofs_all w @ concat (packed_sectors nn ns (imgs n vecs rows))"
    using packed_sectors_written[OF assms(1-3) nn(2)] by blast
  have "block (cofs_all w') (node_off n i) n = node_img n (vecs ! i) (rows ! i)" if "i < length rows" for i
  proof -
    have "i < ns * nn" using that div_up_mult_ge[OF nn(1), of "length rows"] ns by simp
    then have "i div nn < ns" by (simp add: less_mult_imp_div_less)
    then have "block (concat (packed_sectors nn ns (imgs n vecs rows))) (i div nn * 4096 + i mod nn * n) n = imgs n vecs rows ! i"
      using that by (intro packed_node_at[OF imgs_lengths[OF assms(1) order.refl] nn(1,2)]) (simp_all add: length_imgs[OF assms(1)])
    moreover have "node_off n i = length (cofs_all w) + (i div nn * 4096 + i mod nn * n)"
      using True by (simp add: node_off_def assms(4,7))
    ultimately show ?thesis
      using that by (simp add: w'(3) block_append_right nth_imgs[OF assms(1)])
  qed
  then show ?thesis
    using w' nn(1) assms(4) by (simp add: write_nodes_def)
next
  case False
  then have nn: "nn = 0" by (simp add: assms(7))
  let ?R = "round_up_nat n 4096"
  let ?I = "imgs ?R vecs rows"
  obtain v' b' w' where w': "rfold (big_sector vlen width n) [0..<length rows] (v, b, w) = Inr (v', b', w')"
    "cofs_ok w'" "cofs_all w' = cofs_all w @ concat ?I"
    using big_sectors_written[OF assms(1-3) order.refl] length_imgs[OF assms(1)] by (metis take_all_iff order.refl)
  have R: "n \<le> ?R" by (rule round_up_ge) simp
  have "block (cofs_all w') (node_off n i) n = node_img n (vecs ! i) (rows ! i)" if i: "i < length rows" for i
  proof -
    have "node_off n i = length (cofs_all w) + i * ?R"
      using False by (simp add: node_off_def assms(4))
    then have "block (cofs_all w') (node_off n i) n = block (concat ?I) (i * ?R) n"
      by (simp add: w'(3) block_append_right)
    also have "\<dots> = block (block (concat ?I) (i * ?R) ?R) 0 n"
      using block_slice[of 0 n ?R "concat ?I" "i * ?R"] R by simp
    also have "block (concat ?I) (i * ?R) ?R = ?I ! i"
      using i by (intro block_concat_uniform imgs_lengths[OF assms(1) R]) (simp add: length_imgs[OF assms(1)])
    also have "block (?I ! i) 0 n = node_img n (vecs ! i) (rows ! i)"
      using i layout_node[OF assms(1) i] R by (simp add: nth_imgs[OF assms(1)] block_def take_node_img)
    finally show ?thesis .
  qed
  then show ?thesis
    using w' nn assms(4) by (simp add: write_nodes_def)
qed

lemma node_img_disk_node:
  assumes "block f (node_off n i) n = node_img n v row" "length v + (4 + 4 * length row) \<le> n"
    and "ds_max_node_len s = n" "length v = ds_bytes_per_point s" "length row \<le> ds_max_degree s" "\<forall>w \<in> set row. w < 2 ^ 32"
  shows "disk_node f s i v row"
proof -
  let ?m = "length v + (4 + 4 * length row)"
  have "block f (node_off n i) ?m = block (block f (node_off n i) n) 0 ?m"
    using block_slice[of 0 ?m n f "node_off n i"] assms(2) by simp
  also have "\<dots> = v @ le_bytes 4 (length row) @ enc32 row"
    unfolding assms(1) by (simp add: node_img_def node_bytes_def block_def)
  finally show ?thesis
    using assms(3-6) by (simp add: disk_node_def)
qed

text \<open>One node read into a fresh buffer of the announced size: its neighbours and its vector.\<close>

lemma disk_node_read:
  assumes "disk_graph s f adj" "i < length adj" "disk_node f s i v (adj ! i)"
  shows "\<exists>buf. aio_pread f \<lparr>ar_offset = fst (prepare_node_read s i), ar_len = snd (prepare_node_read s i), ar_buf = 0\<rparr>
      (replicate (get_read_buffer_size s) 0) = Inr buf \<and>
    get_neighbors_ptr s i buf = Inr (adj ! i) \<and> get_vector s i buf (ds_bytes_per_point s) = Inr v"
proof -
  have ok: "disk_source_ok s" "i < 2 ^ 32" using assms(1,2) by (auto simp: disk_graph_def)
  let ?bs = "block f (fst (prepare_node_read s i)) (snd (prepare_node_read s i))"
  let ?buf = "blit (replicate (get_read_buffer_size s) 0) 0 ?bs"
  have len: "length ?bs \<le> get_read_buffer_size s"
    using dgs.fits[OF assms(1,2)] by (simp add: length_block_min)
  have pre: "take (length ?bs) ?buf = ?bs" by (simp add: blit_def)
  let ?o = "abs_offset s i - abs_offset s i div 4096 * 4096" and ?b = "ds_bytes_per_point s" and ?n = "4 + 4 * length (adj ! i)"
  have blk: "block ?buf ?o (?b + ?n) = v @ le_bytes 4 (length (adj ! i)) @ enc32 (adj ! i)"
    by (rule disk_node_buf[OF ok assms(3) pre])
  have "?o + (?b + ?n) \<le> length ?buf"
    using arg_cong[OF blk, of length] assms(3) by (simp add: disk_node_def length_block_min min_def split: if_splits)
  then have lenb: "?o + ?b \<le> length ?buf" by linarith
  have "block ?buf ?o ?b = block (block ?buf ?o (?b + ?n)) 0 ?b"
    using block_slice[of 0 ?b "?b + ?n" ?buf ?o] by simp
  also have "\<dots> = v"
    unfolding blk using assms(3) by (simp add: block_def disk_node_def)
  finally have "get_vector s i ?buf ?b = Inr v"
    using lenb unfolding get_vector_def SECTOR_LEN_def Let_def by simp
  moreover have "get_neighbors_ptr s i ?buf = Inr (adj ! i)"
    by (rule dgs.found[OF assms(1,2) refl pre])
  moreover have "aio_pread f \<lparr>ar_offset = fst (prepare_node_read s i), ar_len = snd (prepare_node_read s i), ar_buf = 0\<rparr>
      (replicate (get_read_buffer_size s) 0) = Inr ?buf"
    using len by (simp add: aio_pread_def Let_def)
  ultimately show ?thesis by blast
qed

lemma vamana_header_graph:
  assumes "24 + length (concat (map node_bytes rows)) < 2 ^ 64" "width < 2 ^ 32" "medoid < 2 ^ 32" "frozen < 2 ^ 64"
  shows "\<exists>v. vamana_header (graph_bytes rows width medoid frozen) = Inr (width, medoid, frozen, v) \<and> \<not> if_fail v \<and>
    ifs_rest v = concat (map node_bytes rows)"
proof -
  let ?E = "24 + length (concat (map node_bytes rows))" and ?f = "graph_bytes rows width medoid frozen"
  have f: "?f = le_bytes 8 ?E @ le_bytes 4 width @ le_bytes 4 medoid @ le_bytes 8 frozen @ concat (map node_bytes rows)"
    by (simp add: graph_bytes_def)
  have len: "length ?f = ?E" "le_nat (block ?f 0 8) = ?E"
    using assms(1) by (simp_all add: f block_def u64_id)
  have open_ok: "\<not> if_fail (ifs_open ?f)" "ifs_rest (ifs_open ?f) = ?f"
    by (simp_all add: ifs_open_def ifs_rest_def)
  obtain v0 where v0: "ifs_read (ifs_open ?f) 8 = (le_bytes 8 ?E, v0)" "\<not> if_fail v0"
    "ifs_rest v0 = le_bytes 4 width @ le_bytes 4 medoid @ le_bytes 8 frozen @ concat (map node_bytes rows)"
    using pif.rd_record[OF open_ok(1), of "le_bytes 8 ?E" _ 8] open_ok(2) f by auto
  obtain v1 where v1: "ifs_read v0 4 = (le_bytes 4 width, v1)" "\<not> if_fail v1"
    "ifs_rest v1 = le_bytes 4 medoid @ le_bytes 8 frozen @ concat (map node_bytes rows)"
    using pif.rd_record[OF v0(2,3), of 4] by auto
  obtain v2 where v2: "ifs_read v1 4 = (le_bytes 4 medoid, v2)" "\<not> if_fail v2"
    "ifs_rest v2 = le_bytes 8 frozen @ concat (map node_bytes rows)"
    using pif.rd_record[OF v1(2,3), of 4] by auto
  obtain v3 where v3: "ifs_read v2 8 = (le_bytes 8 frozen, v3)" "\<not> if_fail v3" "ifs_rest v3 = concat (map node_bytes rows)"
    using pif.rd_record[OF v2(2,3), of 8] by auto
  have "vamana_header ?f = Inr (width, medoid, frozen, v3)"
    using len assms(2-4) by (simp add: vamana_header_def v0(1) v1(1) v2(1) v3(1) u32_id u64_id)
  then show ?thesis using v3 by blast
qed

lemma save_meta_keeps:
  assumes "8 + 8 * length meta \<le> 4096" "4096 \<le> length f" "4096 \<le> off" "block f off n = bs" "length bs = n"
  shows "block (save_meta f meta) off n = bs"
proof (cases "n = 0")
  case False
  have "off + n \<le> length f"
    using arg_cong[OF assms(4), of length] assms(5) False by (simp add: length_block_min min_def split: if_splits)
  then show ?thesis
    using assms unfolding save_meta_def by (subst block_pwrite_other) simp_all
qed (use assms in simp)

lemma save_meta_read:
  assumes "8 + 8 * length meta \<le> 4096" "4096 \<le> length f"
  shows "load_bin64 what (Some (save_meta f meta)) = Inr (map u64 meta, length meta, 1)"
  using load_bin64_enc[of meta what "drop (8 + 8 * length meta) f"] assms
  by (simp add: save_meta_def pwrite_def)

lemma node_off_ge: "4096 \<le> node_off n i"
  by (simp add: node_off_def)

text \<open>The run without reordering data.\<close>

lemma create_disk_layout_run:
  fixes sizeT ndims width medoid frozen :: nat and vecs rows mem
  defines "n \<equiv> (width + 1) * 4 + ndims * sizeT" and "N \<equiv> length rows"
  assumes "layout_ok (ndims * sizeT) width n vecs rows" "N < 2 ^ 32" "ndims < 2 ^ 32"
    and "medoid < 2 ^ 32" "frozen < 2 ^ 64" "24 + length (concat (map node_bytes rows)) < 2 ^ 64"
  obtains out sz where "create_disk_layout sizeT mem (le_bytes 4 N @ le_bytes 4 ndims @ concat vecs) (graph_bytes rows width medoid frozen) None = Inr out"
    "load_bin64 what (Some out) = Inr (map u64 [N, ndims, medoid, n, 4096 div n, frozen, if frozen = 1 then medoid else 0, 0, sz], 9, 1)"
    "\<And>i. i < N \<Longrightarrow> block out (node_off n i) n = node_img n (vecs ! i) (rows ! i)"
proof -
  let ?base = "le_bytes 4 N @ le_bytes 4 ndims @ concat vecs" and ?b = "cifs_open (le_bytes 4 N @ le_bytes 4 ndims @ concat vecs) (64 * 1024 * 1024)"
  obtain b0 where b0: "cifs_read ?b 4 = Inr (le_bytes 4 N, b0)" "cifs_ok b0" "cifs_rest b0 = le_bytes 4 ndims @ concat vecs"
    using cif.rd_record[OF cifs_open_ok(1), of _ _ "le_bytes 4 N" "le_bytes 4 ndims @ concat vecs" 4] cifs_open_ok(2) by auto
  obtain b1 where b1: "cifs_read b0 4 = Inr (le_bytes 4 ndims, b1)" "cifs_ok b1" "cifs_rest b1 = concat vecs"
    using cif.rd_record[OF b0(2,3), of 4] by auto
  have width: "width < 2 ^ 32" using assms(3) by (simp add: layout_ok_def)
  obtain v where v: "vamana_header (graph_bytes rows width medoid frozen) = Inr (width, medoid, frozen, v)" "\<not> if_fail v"
    "ifs_rest v = concat (map node_bytes rows)"
    using vamana_header_graph[OF assms(8) width assms(6,7)] by blast
  let ?w = "cofs_write (cofs_open mem) (replicate SECTOR_LEN 0)"
  have w: "cofs_ok ?w" "length (cofs_all ?w) = 4096"
    using cofs_write_ok[OF cofs_open_ok(1), of mem "replicate SECTOR_LEN 0"] by (simp_all add: cofs_open_ok(2) SECTOR_LEN_def)
  define nn where "nn = 4096 div n"
  define ns where "ns = (if nn > 0 then ROUND_UP N nn div nn else N * DIV_ROUND_UP n SECTOR_LEN)"
  have "0 < n" by (simp add: n_def)
  moreover have "at_node vecs rows 0 v b1" using v(2,3) b1(2,3) by (simp add: at_node_def)
  ultimately obtain w' where w': "write_nodes (ndims * sizeT) width n N nn ns v b1 ?w = Inr w'" "cofs_ok w'" "4096 \<le> length (cofs_all w')"
    "\<forall>i < N. block (cofs_all w') (node_off n i) n = node_img n (vecs ! i) (rows ! i)"
    using write_nodes_file[OF assms(3) _ w, of v b1 nn ns "N * DIV_ROUND_UP n SECTOR_LEN"] assms(4)
    unfolding N_def nn_def ns_def by blast
  define sz where "sz = u64 ((ns + 1) * SECTOR_LEN)"
  define meta where "meta = [N, ndims, medoid, n, nn, frozen, if frozen = 1 then medoid else 0, 0, sz]"
  let ?out = "save_meta (cofs_all w') meta"
  have nnS: "SECTOR_LEN div n = nn" by (simp add: nn_def SECTOR_LEN_def)
  have fl: "co_file (cofs_close w') = cofs_all w'" by (rule cofs_close_ok(1)[OF w'(2)])
  have "create_disk_layout sizeT mem ?base (graph_bytes rows width medoid frozen) None = Inr ?out"
    unfolding create_disk_layout_def b0(1) b1(1) rbind_simps prod.case Let_def open_reorder_def option.case v(1) le_nat_bytes4
      u32_id[OF assms(4)] u32_id[OF assms(5)] n_def[symmetric]
      nnS ns_def[symmetric]
    using w'(1) fl by (simp add: meta_def sz_def append_reorder_def)
  moreover have "load_bin64 what (Some ?out) = Inr (map u64 meta, 9, 1)"
    using save_meta_read[of meta "cofs_all w'" what] w'(3) by (simp add: meta_def)
  moreover have "block ?out (node_off n i) n = node_img n (vecs ! i) (rows ! i)" if "i < N" for i
    using that w'(3,4) layout_node(6)[OF assms(3), of i n] node_off_ge
    by (intro save_meta_keeps) (auto simp: meta_def N_def)
  ultimately show ?thesis
    using that unfolding meta_def nn_def by blast
qed

section \<open>Reordering data\<close>

text \<open>A loop of exact reads that ends has read within the file.\<close>

lemma reorder_slot_Inr:
  "reorder_slot r k j (p, buf) = Inr st \<Longrightarrow> p + k \<le> length r \<and> st = (p + k, blit buf (j * k) (block r p k))"
  by (auto simp: reorder_slot_def read_exact_def split: if_splits)

lemma reorder_sector_Inr:
  assumes "reorder_sector r k npts nd j (p, w) = Inr st"
  obtains p1 buf where "rfold (reorder_slot r k) [0..<min nd npts] (p, replicate SECTOR_LEN 0) = Inr (p1, buf)"
    "st = (p1, cofs_write w buf)"
  using assms by (auto simp: reorder_sector_def rbind_eq_Inr_iff)

lemma reorder_slots_pos:
  "rfold (reorder_slot r k) js (p, buf) = Inr (p', buf') \<Longrightarrow> p' = p + length js * k \<and> (js \<noteq> [] \<longrightarrow> p' \<le> length r)"
proof (induction js arbitrary: p buf)
  case Nil
  then show ?case by simp
next
  case (Cons j js)
  then have "p + k \<le> length r" "rfold (reorder_slot r k) js (p + k, blit buf (j * k) (block r p k)) = Inr (p', buf')"
    by (auto simp: rbind_eq_Inr_iff dest!: reorder_slot_Inr)
  then show ?case
    using Cons.IH[of "p + k"] by (cases "js = []") (auto simp: algebra_simps)
qed

lemma reorder_sectors_pos:
  "rfold (reorder_sector r k npts nd) js (p, w) = Inr (p', w') \<Longrightarrow> p' = p + length js * (min nd npts * k) \<and>
     (js \<noteq> [] \<and> 0 < min nd npts \<longrightarrow> p' \<le> length r)"
proof (induction js arbitrary: p w)
  case Nil
  then show ?case by simp
next
  case (Cons j js)
  then obtain p1 buf w1 where r: "rfold (reorder_slot r k) [0..<min nd npts] (p, replicate SECTOR_LEN 0) = Inr (p1, buf)"
    "rfold (reorder_sector r k npts nd) js (p1, w1) = Inr (p', w')"
    by (auto simp: rbind_eq_Inr_iff elim!: reorder_sector_Inr)
  note a = reorder_slots_pos[OF r(1)] and b = Cons.IH[OF r(2)]
  show ?case
    using a b by (cases "js = []") (auto simp: algebra_simps)
qed

lemma append_reorder_short:
  assumes "0 < nps" "nps < npts" "\<not> nps dvd npts" "length r = 8 + 4 * npts * nd" "nps = 4096 div (nd * 4)"
  shows "isl (append_reorder (Some r) (nd * 4) npts nps (div_up npts nps) w)"
proof (rule ccontr)
  assume "\<not> isl (append_reorder (Some r) (nd * 4) npts nps (div_up npts nps) w)"
  then obtain p w2 where run: "rfold (reorder_sector r (nd * 4) npts nps) [0..<div_up npts nps] (8, w) = Inr (p, w2)"
    by (cases "rfold (reorder_sector r (nd * 4) npts nps) [0..<div_up npts nps] (8, w)") (auto simp: append_reorder_def)
  have ge: "npts < div_up npts nps * nps"
    using div_up_mult_ge[OF assms(1), of npts] assms(3) by (metis dvd_triv_right le_neq_implies_less)
  then have "[0..<div_up npts nps] \<noteq> []" by (cases "div_up npts nps") simp_all
  then have "8 + div_up npts nps * (nps * (nd * 4)) \<le> 8 + 4 * npts * nd"
    using reorder_sectors_pos[OF run] assms(1,2,4) by (metis length_upt min.absorb3 min_less_iff_conj diff_zero less_trans)
  moreover have "npts * (nd * 4) < div_up npts nps * nps * (nd * 4)"
    using ge assms(1,5) by (cases nd) simp_all
  ultimately show False by (simp add: algebra_simps)
qed

lemma isl_rbind: "(\<And>x. r = Inr x \<Longrightarrow> isl (f x)) \<Longrightarrow> isl (rbind r f)"
  by (cases r) auto

lemma if_isl: "isl a \<Longrightarrow> isl b \<Longrightarrow> isl (if c then a else b)"
  by simp

lemma isl_rbind1: "isl r \<Longrightarrow> isl (rbind r f)"
  by (cases r) auto

section \<open>Properties\<close>

lemma disk_layout_run:
  fixes sizeT ndims width medoid frozen :: nat and vecs rows mem
  defines "n \<equiv> (width + 1) * 4 + ndims * sizeT" and "N \<equiv> length rows"
  assumes "layout_ok (ndims * sizeT) width n vecs rows" "medoid < N" "N < 2 ^ 32" "0 < ndims" "ndims < 2 ^ 32"
    and "frozen < 2 ^ 64" "24 + length (concat (map node_bytes rows)) < 2 ^ 64" "n + 8192 \<le> 2 ^ 32"
  shows "\<exists>out md s. create_disk_layout sizeT mem (le_bytes 4 N @ le_bytes 4 ndims @ concat vecs) (graph_bytes rows width medoid frozen) None = Inr out \<and>
    load_disk_index_metadata what (Some out) = Inr md \<and>
    dm_num_points md = N \<and> dm_data_dim md = ndims \<and> dm_medoid md = medoid \<and> dm_max_node_len md = n \<and>
    disk_source_new (dm_max_node_len md) ((dm_max_node_len md - ndims * sizeT - 4) div 4) (ndims * sizeT) = Inr s \<and>
    disk_graph s out rows \<and> (\<forall>i < N. disk_node out s i (vecs ! i) (rows ! i)) \<and>
    (\<forall>i < N. \<exists>buf. aio_pread out \<lparr>ar_offset = fst (prepare_node_read s i), ar_len = snd (prepare_node_read s i), ar_buf = 0\<rparr>
        (replicate (get_read_buffer_size s) 0) = Inr buf \<and>
      get_neighbors_ptr s i buf = Inr (rows ! i) \<and> get_vector s i buf (ndims * sizeT) = Inr (vecs ! i))"
proof -
  have med: "medoid < 2 ^ 32" using assms(4,5) by simp
  obtain out sz where out: "create_disk_layout sizeT mem (le_bytes 4 N @ le_bytes 4 ndims @ concat vecs) (graph_bytes rows width medoid frozen) None = Inr out"
    "load_bin64 what (Some out) = Inr (map u64 [N, ndims, medoid, n, 4096 div n, frozen, if frozen = 1 then medoid else 0, 0, sz], 9, 1)"
    "\<And>i. i < N \<Longrightarrow> block out (node_off n i) n = node_img n (vecs ! i) (rows ! i)"
    using create_disk_layout_run[OF assms(3)[unfolded n_def] assms(5)[unfolded N_def] assms(7) med assms(8,9), of mem what]
    unfolding N_def n_def by blast
  have pos: "0 < n" "N > 0" using assms(4) by (simp_all add: n_def)
  define md where "md = \<lparr>dm_num_points = N, dm_data_dim = ndims, dm_medoid = medoid, dm_max_node_len = n,
    dm_nnodes_per_sector = 4096 div n, dm_frozen_num = frozen, dm_frozen_loc = u64 (if frozen = 1 then medoid else 0), dm_append_reorder = u64 0\<rparr>"
  have "4096 div n < 2 ^ 64" by (rule le_less_trans[OF div_le_dividend]) simp
  then have "load_disk_index_metadata what (Some out) = Inr md"
    using pos assms(4-8,10) by (simp add: load_disk_index_metadata_def out(2) md_def u64_id Let_def)
  moreover define s where "s = \<lparr>ds_max_node_len = n, ds_max_degree = width, ds_bytes_per_point = ndims * sizeT,
    ds_nnodes_per_sector = (if n \<le> 4096 then 4096 div n else 0)\<rparr>"
  have deg: "(n - ndims * sizeT - 4) div 4 = width" by (simp add: n_def)
  then have "disk_source_new (dm_max_node_len md) ((dm_max_node_len md - ndims * sizeT - 4) div 4) (ndims * sizeT) = Inr s"
    using pos by (simp add: disk_source_new_def md_def s_def)
  moreover have node: "disk_node out s i (vecs ! i) (rows ! i)" if "i < N" for i
    using that layout_node[OF assms(3), of i]
    by (intro node_img_disk_node[OF out(3)]) (simp_all add: s_def N_def)
  moreover have g: "disk_graph s out rows"
  proof -
    have "disk_source_ok s" using pos assms(10) by (simp add: disk_source_ok_def s_def n_def)
    then show ?thesis using node assms(5) unfolding disk_graph_def N_def by (meson less_or_eq_imp_le)
  qed
  moreover have "dm_num_points md = N" "dm_data_dim md = ndims" "dm_medoid md = medoid" "dm_max_node_len md = n"
    by (simp_all add: md_def)
  moreover have "ds_bytes_per_point s = ndims * sizeT" by (simp add: s_def)
  ultimately show ?thesis
    using out(1) disk_node_read[OF g _ node] unfolding N_def by metis
qed



text \<open>Reordering data is read past its end: when the vectors fill more than one sector and do not fill
  their last sector, \<open>create_disk_layout\<close> asks the reordering file for a full last sector and fails, for
  every such input whose sizes agree.\<close>

theorem reorder_data_overrun:
  assumes "r = le_bytes 4 npts @ le_bytes 4 nd @ data" "npts < 2 ^ 32" "nd < 2 ^ 32"
    and "base = le_bytes 4 npts @ vecs" "nps = 4096 div (nd * 4)" "0 < nps" "nps < npts" "\<not> nps dvd npts"
  shows "\<exists>e. create_disk_layout sizeT mem base idx (Some r) = Inl e"
proof -
  note nps = assms(6)
  have hd: "read_exact r 0 4 = Inr (le_bytes 4 npts, 4)" "read_exact r 4 4 = Inr (le_bytes 4 nd, 8)"
    by (simp_all add: assms(1) read_exact_def block_def)
  obtain b0 where b0: "cifs_read (cifs_open base (64 * 1024 * 1024)) 4 = Inr (le_bytes 4 npts, b0)"
    using cif.rd_record[OF cifs_open_ok(1), of base "64 * 1024 * 1024" "le_bytes 4 npts" vecs 4] assms(4)
    by (metis cifs_open_ok(2) length_le_bytes)
  have op: "open_reorder npts (Some r) = Inr x \<Longrightarrow> x = (npts, nd) \<and> length r = 8 + 4 * npts * nd" for x
    using assms(2,3) by (auto simp: open_reorder_def hd u32_id split: if_splits)
  have "nps \<le> 4096" unfolding assms(5) by (rule div_le_dividend)
  then have ns: "ROUND_UP npts nps div nps = div_up npts nps"
    using n_sectors_eq[OF nps, of npts] assms(2) by simp
  have npsS: "SECTOR_LEN div (nd * 4) = nps" by (simp add: SECTOR_LEN_def assms(5))
  have fail: "isl (append_reorder (Some r) (nd * 4) npts nps (div_up npts nps) w)"
    if "open_reorder npts (Some r) = Inr x" for w x
    using append_reorder_short[OF nps assms(7,8) _ assms(5)] op[OF that] by simp
  have "isl (create_disk_layout sizeT mem base idx (Some r))"
    unfolding create_disk_layout_def b0 rbind_simps prod.case Let_def le_nat_bytes4 u32_id[OF assms(2)]
    apply (rule isl_rbind, clarsimp split del: if_split)
    apply (rule isl_rbind, frule op, clarsimp split del: if_split)
    apply (rule isl_rbind, clarsimp split del: if_split)
    apply (rule if_isl, simp)
    apply (rule isl_rbind, rule isl_rbind1)
    apply (simp add: npsS ns fail split del: if_split)
    done
  then show ?thesis by (auto simp: isl_def)
qed

theorem reorder_data_overrun_witness:
  "\<exists>e. create_disk_layout 4 [0] (le_bytes 4 3 @ le_bytes 4 1 @ replicate 12 0) (graph_bytes [[1], [0], [0]] 1 0 0)
      (Some (le_bytes 4 3 @ le_bytes 4 512 @ replicate 6144 0)) = Inl e"
  by (rule reorder_data_overrun[OF refl _ _ refl refl]) simp_all

end
