(* ===== verification/Cache_Table.thy ===== *)
theory Cache_Table
  imports Disk_Source
begin

text \<open>
  The neighbour cache of the search (\<open>search/ours_search.cpp\<close>): a flat pool of
  \<open>[count, neighbours...]\<close> records, and the map from a node to its record, kept either as an open-addressing
  hash table or as a vector of offsets. \<open>lookup_table\<close> is the contract of both.
\<close>

definition CACHE_EMPTY :: nat where "CACHE_EMPTY = 2 ^ 32 - 1"

section \<open>The hash table\<close>

text \<open>\<open>uint64_t\<close> arithmetic on machine words.\<close>

definition compact_cache_hash :: "nat \<Rightarrow> nat" where
  "compact_cache_hash i =
     (let x0 = (word_of_nat i :: 64 word);
          x1 = xor x0 (drop_bit 16 x0);
          x2 = x1 * 0x9E3779B97F4A7C15;
          x3 = xor x2 (drop_bit 32 x2)
      in unat x3)"

type_synonym htab = "nat list \<times> nat list"

definition init_compact_cache_hash :: "nat \<Rightarrow> htab \<Rightarrow> htab" where
  "init_compact_cache_hash num_entries t =
     (if num_entries = 0 then t
      else let capacity = u64 (num_entries * 4 + 2) div 3 + 1
           in (replicate capacity CACHE_EMPTY, replicate capacity CACHE_EMPTY))"

text \<open>The two probe loops; \<open>n\<close> is \<open>cap - probes\<close>.\<close>

definition next_pos :: "nat list \<Rightarrow> nat \<Rightarrow> nat" where
  "next_pos keys pos = (let p = pos + 1 in if p = length keys then 0 else p)"

fun insert_probe :: "nat list \<Rightarrow> nat \<Rightarrow> nat \<Rightarrow> nat \<Rightarrow> nat option" where
  "insert_probe keys i pos 0 = None"
| "insert_probe keys i pos (Suc n) =
     (let key = keys ! pos
      in if key = CACHE_EMPTY \<or> key = i then Some pos else insert_probe keys i (next_pos keys pos) n)"

fun find_probe :: "nat list \<Rightarrow> nat list \<Rightarrow> nat \<Rightarrow> nat \<Rightarrow> nat \<Rightarrow> nat option" where
  "find_probe keys offs i pos 0 = None"
| "find_probe keys offs i pos (Suc n) =
     (let key = keys ! pos
      in if key = CACHE_EMPTY then None
         else if key = i then (if offs ! pos \<noteq> CACHE_EMPTY then Some (offs ! pos) else None)
         else find_probe keys offs i (next_pos keys pos) n)"

definition insert_cache_lookup :: "nat \<Rightarrow> nat \<Rightarrow> htab \<Rightarrow> htab res" where
  "insert_cache_lookup i pool_offset t =
     (case t of (keys, offs) \<Rightarrow>
        if keys = [] then Inl (ANNException ''compact cache hash table is not initialized'')
        else if i = CACHE_EMPTY then Inl (ANNException ''node id collides with compact cache sentinel'')
        else
          let cap = length keys
          in case insert_probe keys i (compact_cache_hash i mod cap) cap of
               Some pos \<Rightarrow> Inr (keys[pos := i], offs[pos := pool_offset])
             | None \<Rightarrow> Inl (ANNException ''compact cache hash table is full''))"

definition find_cache_lookup :: "htab \<Rightarrow> nat \<Rightarrow> nat option" where
  "find_cache_lookup t i =
     (case t of (keys, offs) \<Rightarrow>
        if keys = [] then None
        else let cap = length keys in find_probe keys offs i (compact_cache_hash i mod cap) cap)"

section \<open>The offset vector\<close>

definition offset_insert :: "nat \<Rightarrow> nat \<Rightarrow> nat list \<Rightarrow> nat list res" where
  "offset_insert i pool_offset cache_offsets =
     (if i < length cache_offsets then Inr (cache_offsets[i := pool_offset]) else Inl OutOfRange)"

definition offset_find :: "nat list \<Rightarrow> nat \<Rightarrow> nat option" where
  "offset_find cache_offsets i =
     (if i < length cache_offsets then
        let pool_offset32 = cache_offsets ! i in if pool_offset32 \<noteq> CACHE_EMPTY then Some pool_offset32 else None
      else None)"

section \<open>The contract\<close>

text \<open>A table is a finite map from ids to offsets with room for \<open>room t\<close> ids; inserting a valid id, known or
  within the room, succeeds and changes the map at that id only.\<close>

locale lookup_table =
  fixes ins :: "nat \<Rightarrow> nat \<Rightarrow> 't \<Rightarrow> 't res"
    and find :: "'t \<Rightarrow> nat \<Rightarrow> nat option"
    and inv :: "'t \<Rightarrow> bool"
    and valid :: "'t \<Rightarrow> nat \<Rightarrow> bool"
    and room :: "'t \<Rightarrow> nat"
  assumes finite_dom: "inv t \<Longrightarrow> finite (dom (find t))"
    and ins_ok: "inv t \<Longrightarrow> valid t i \<Longrightarrow> off < CACHE_EMPTY \<Longrightarrow> i \<in> dom (find t) \<or> card (dom (find t)) < room t \<Longrightarrow>
      \<exists>t'. ins i off t = Inr t' \<and> inv t' \<and> valid t' = valid t \<and> room t' = room t \<and> find t' = (find t)(i \<mapsto> off)"
begin

lemma fill:
  assumes "inv t" "\<forall>(i, off) \<in> set xs. valid t i \<and> off < CACHE_EMPTY" "card (dom (find t) \<union> fst ` set xs) \<le> room t"
  shows "\<exists>t'. rfold (\<lambda>(i, off). ins i off) xs t = Inr t' \<and> inv t' \<and> find t' = find t ++ map_of (rev xs)"
  using assms
proof (induction xs arbitrary: t)
  case Nil
  then show ?case by simp
next
  case (Cons x xs)
  obtain i off where x: "x = (i, off)" by (cases x)
  have "card (insert i (dom (find t))) \<le> card (dom (find t) \<union> fst ` set (x # xs))"
    using finite_dom[OF Cons.prems(1)] by (intro card_mono) (auto simp: x)
  then have "i \<in> dom (find t) \<or> card (dom (find t)) < room t"
    using Cons.prems(3) finite_dom[OF Cons.prems(1)] by (cases "i \<in> dom (find t)") auto
  then obtain t1 where t1: "ins i off t = Inr t1" "inv t1" "valid t1 = valid t" "room t1 = room t" "find t1 = (find t)(i \<mapsto> off)"
    using ins_ok[OF Cons.prems(1), of i off] Cons.prems(2) by (auto simp: x)
  have "dom (find t1) \<union> fst ` set xs = dom (find t) \<union> fst ` set (x # xs)"
    by (auto simp: t1(5) x)
  then obtain t2 where "rfold (\<lambda>(i, off). ins i off) xs t1 = Inr t2" "inv t2" "find t2 = find t1 ++ map_of (rev xs)"
    using Cons.IH[OF t1(2)] Cons.prems(2,3) t1(3,4) by auto
  then show ?case
    using t1 by (simp add: x)
qed

end

section \<open>The hash table keeps the contract\<close>

lemma next_pos_mod: "pos < length keys \<Longrightarrow> next_pos keys pos = (pos + 1) mod length keys"
  by (auto simp: next_pos_def Let_def mod_Suc)

lemma next_pos_less: "pos < length keys \<Longrightarrow> next_pos keys pos < length keys"
  by (auto simp: next_pos_def Let_def)

lemma insert_probe_Some:
  "insert_probe keys i pos n = Some p \<Longrightarrow> pos < length keys \<Longrightarrow> p < length keys \<and> (keys ! p = CACHE_EMPTY \<or> keys ! p = i)"
  by (induction keys i pos n rule: insert_probe.induct) (auto simp: Let_def next_pos_less split: if_splits)

lemma insert_probe_None:
  "insert_probe keys i pos n = None \<Longrightarrow> pos < length keys \<Longrightarrow> k < n \<Longrightarrow>
   keys ! ((pos + k) mod length keys) \<noteq> CACHE_EMPTY \<and> keys ! ((pos + k) mod length keys) \<noteq> i"
proof (induction n arbitrary: pos k)
  case 0
  then show ?case by simp
next
  case (Suc n)
  have stop: "keys ! pos \<noteq> CACHE_EMPTY" "keys ! pos \<noteq> i" "insert_probe keys i (next_pos keys pos) n = None"
    using Suc.prems(1) by (auto simp: Let_def split: if_splits)
  show ?case
  proof (cases k)
    case 0
    then show ?thesis using stop Suc.prems(2) by simp
  next
    case (Suc j)
    have "(next_pos keys pos + j) mod length keys = (pos + k) mod length keys"
      using Suc.prems(2) Suc by (simp add: next_pos_mod mod_simps)
    then show ?thesis
      using Suc.IH[OF stop(3) next_pos_less[OF Suc.prems(2)], of j] Suc.prems(3) Suc by simp
  qed
qed

text \<open>A full round of probes visits every slot.\<close>

lemma insert_probe_full:
  assumes "insert_probe keys i pos (length keys) = None" "pos < length keys" "p < length keys"
  shows "keys ! p \<noteq> CACHE_EMPTY \<and> keys ! p \<noteq> i"
proof -
  let ?c = "length keys" and ?k = "(p + (length keys - pos)) mod length keys"
  have "(pos + ?k) mod ?c = (pos + (p + (?c - pos))) mod ?c" by (simp add: mod_simps)
  also have "pos + (p + (?c - pos)) = p + ?c" using assms(2) by simp
  finally have "(pos + ?k) mod ?c = p" using assms(3) by simp
  moreover have "?k < ?c" using assms(2) by (intro mod_less_divisor) linarith
  ultimately show ?thesis using insert_probe_None[OF assms(1,2)] by metis
qed

text \<open>Writing a key into the slot a probe stopped at does not divert the probes of other keys.\<close>

lemma insert_probe_other:
  "insert_probe keys x pos n = Some q \<Longrightarrow> q \<noteq> p \<Longrightarrow> keys ! p = CACHE_EMPTY \<Longrightarrow> pos < length keys \<Longrightarrow>
   insert_probe (keys[p := y]) x pos n = Some q"
proof (induction n arbitrary: pos)
  case 0
  then show ?case by simp
next
  case (Suc n)
  have nx: "next_pos (keys[p := y]) pos = next_pos keys pos" by (simp add: next_pos_def)
  show ?case
  proof (cases "keys ! pos = CACHE_EMPTY \<or> keys ! pos = x")
    case True
    then have "q = pos" using Suc.prems(1) by (simp add: Let_def)
    then show ?thesis using True Suc.prems(2) by (auto simp: Let_def)
  next
    case False
    then have "pos \<noteq> p" using Suc.prems(3) by auto
    then show ?thesis
      using False Suc.prems Suc.IH[OF _ _ _ next_pos_less[OF Suc.prems(4)]] nx by (auto simp: Let_def)
  qed
qed

lemma insert_probe_same:
  "insert_probe keys x pos n = Some p \<Longrightarrow> pos < length keys \<Longrightarrow> insert_probe (keys[p := x]) x pos n = Some p"
proof (induction n arbitrary: pos)
  case 0
  then show ?case by simp
next
  case (Suc n)
  have nx: "next_pos (keys[p := x]) pos = next_pos keys pos" by (simp add: next_pos_def)
  show ?case
  proof (cases "keys ! pos = CACHE_EMPTY \<or> keys ! pos = x")
    case True
    then have "p = pos" using Suc.prems(1) by (simp add: Let_def)
    then show ?thesis using Suc.prems(2) by (simp add: Let_def)
  next
    case False
    then have "pos \<noteq> p" using insert_probe_Some[OF Suc.prems] by auto
    then show ?thesis
      using False Suc.prems Suc.IH[OF _ next_pos_less[OF Suc.prems(2)]] nx by (auto simp: Let_def)
  qed
qed

lemma find_probe_eq:
  "i \<noteq> CACHE_EMPTY \<Longrightarrow> find_probe keys offs i pos n =
     (case insert_probe keys i pos n of
        None \<Rightarrow> None
      | Some p \<Rightarrow> if keys ! p = CACHE_EMPTY \<or> offs ! p = CACHE_EMPTY then None else Some (offs ! p))"
  by (induction keys i pos n rule: insert_probe.induct) (auto simp: Let_def)

lemma find_probe_sentinel: "find_probe keys offs CACHE_EMPTY pos n = None"
  by (induction n arbitrary: pos) (auto simp: Let_def)

definition start_pos :: "nat list \<Rightarrow> nat \<Rightarrow> nat" where
  "start_pos keys i = compact_cache_hash i mod length keys"

definition hash_inv :: "htab \<Rightarrow> bool" where
  "hash_inv t \<longleftrightarrow> (case t of (keys, offs) \<Rightarrow>
     keys \<noteq> [] \<and> length offs = length keys \<and>
     (\<forall>p < length keys. keys ! p \<noteq> CACHE_EMPTY \<longrightarrow>
        insert_probe keys (keys ! p) (start_pos keys (keys ! p)) (length keys) = Some p \<and> offs ! p < CACHE_EMPTY))"

lemma start_pos_less: "keys \<noteq> [] \<Longrightarrow> start_pos keys i < length keys"
  by (simp add: start_pos_def)

lemma find_iff:
  assumes "hash_inv (keys, offs)"
  shows "find_cache_lookup (keys, offs) i = Some off \<longleftrightarrow>
    i \<noteq> CACHE_EMPTY \<and> (\<exists>p < length keys. keys ! p = i \<and> offs ! p = off)"
proof (cases "i = CACHE_EMPTY")
  case True
  then show ?thesis using assms by (simp add: find_cache_lookup_def find_probe_sentinel)
next
  case False
  have ne: "keys \<noteq> []" using assms by (simp add: hash_inv_def)
  have eq: "find_cache_lookup (keys, offs) i = (case insert_probe keys i (start_pos keys i) (length keys) of
      None \<Rightarrow> None | Some p \<Rightarrow> if keys ! p = CACHE_EMPTY \<or> offs ! p = CACHE_EMPTY then None else Some (offs ! p))"
    using ne False by (simp add: find_cache_lookup_def find_probe_eq start_pos_def Let_def)
  show ?thesis
  proof
    assume "find_cache_lookup (keys, offs) i = Some off"
    then obtain p where "insert_probe keys i (start_pos keys i) (length keys) = Some p" "keys ! p \<noteq> CACHE_EMPTY" "offs ! p = off"
      using eq by (auto split: option.splits if_splits)
    then show "i \<noteq> CACHE_EMPTY \<and> (\<exists>p < length keys. keys ! p = i \<and> offs ! p = off)"
      using False insert_probe_Some[OF _ start_pos_less[OF ne]] by blast
  next
    assume "i \<noteq> CACHE_EMPTY \<and> (\<exists>p < length keys. keys ! p = i \<and> offs ! p = off)"
    then obtain p where p: "p < length keys" "keys ! p = i" "offs ! p = off" by blast
    then have "insert_probe keys i (start_pos keys i) (length keys) = Some p" "offs ! p < CACHE_EMPTY"
      using assms False by (auto simp: hash_inv_def)
    then show "find_cache_lookup (keys, offs) i = Some off"
      using eq p False by simp
  qed
qed

lemma hash_dom:
  assumes "hash_inv (keys, offs)"
  shows "dom (find_cache_lookup (keys, offs)) = (\<lambda>p. keys ! p) ` {p. p < length keys \<and> keys ! p \<noteq> CACHE_EMPTY}"
    "inj_on (\<lambda>p. keys ! p) {p. p < length keys \<and> keys ! p \<noteq> CACHE_EMPTY}"
proof -
  show "dom (find_cache_lookup (keys, offs)) = (\<lambda>p. keys ! p) ` {p. p < length keys \<and> keys ! p \<noteq> CACHE_EMPTY}"
    using find_iff[OF assms] by (auto simp: dom_def)
  show "inj_on (\<lambda>p. keys ! p) {p. p < length keys \<and> keys ! p \<noteq> CACHE_EMPTY}"
  proof (rule inj_onI)
    fix p q assume "p \<in> {p. p < length keys \<and> keys ! p \<noteq> CACHE_EMPTY}" "q \<in> {p. p < length keys \<and> keys ! p \<noteq> CACHE_EMPTY}"
      "keys ! p = keys ! q"
    then have "insert_probe keys (keys ! q) (start_pos keys (keys ! q)) (length keys) = Some p"
      "insert_probe keys (keys ! q) (start_pos keys (keys ! q)) (length keys) = Some q"
      using assms unfolding hash_inv_def prod.case by (metis (mono_tags, lifting) mem_Collect_eq)+
    then show "p = q" by simp
  qed
qed

text \<open>An id that is there, or any id while some slot is free, finds a slot.\<close>

lemma hash_slot:
  assumes "hash_inv (keys, offs)" "i \<in> dom (find_cache_lookup (keys, offs)) \<or> card (dom (find_cache_lookup (keys, offs))) < length keys"
  obtains p where "insert_probe keys i (start_pos keys i) (length keys) = Some p"
proof (cases "insert_probe keys i (start_pos keys i) (length keys)")
  case None
  have ne: "keys \<noteq> []" using assms(1) by (simp add: hash_inv_def)
  note full = insert_probe_full[OF None start_pos_less[OF ne]]
  then have all: "{p. p < length keys \<and> keys ! p \<noteq> CACHE_EMPTY} = {..<length keys}" by auto
  have "card (dom (find_cache_lookup (keys, offs))) = length keys"
    using card_image[OF hash_dom(2)[OF assms(1)]] unfolding hash_dom(1)[OF assms(1)] all by simp
  moreover have "i \<notin> dom (find_cache_lookup (keys, offs))"
    using full unfolding hash_dom(1)[OF assms(1)] by auto
  ultimately show ?thesis using assms(2) by simp
qed (use that in blast)

lemma hash_insert:
  assumes inv: "hash_inv (keys, offs)" and i: "i < CACHE_EMPTY" and off: "off < CACHE_EMPTY"
    and room: "i \<in> dom (find_cache_lookup (keys, offs)) \<or> card (dom (find_cache_lookup (keys, offs))) < length keys"
  shows "\<exists>t'. insert_cache_lookup i off (keys, offs) = Inr t' \<and> hash_inv t' \<and> length (fst t') = length keys \<and>
    find_cache_lookup t' = (find_cache_lookup (keys, offs))(i \<mapsto> off)"
proof -
  have ne: "keys \<noteq> []" "length offs = length keys" using inv by (simp_all add: hash_inv_def)
  obtain p where p: "insert_probe keys i (start_pos keys i) (length keys) = Some p"
    using hash_slot[OF inv room] by blast
  note at = insert_probe_Some[OF p start_pos_less[OF ne(1)]]
  let ?k = "keys[p := i]" and ?o = "offs[p := off]"
  have res: "insert_cache_lookup i off (keys, offs) = Inr (?k, ?o)"
    using p ne(1) i by (simp add: insert_cache_lookup_def start_pos_def Let_def)
  have others: "keys ! q \<noteq> i" if "q < length keys" "q \<noteq> p" for q
  proof
    assume "keys ! q = i"
    then have "insert_probe keys i (start_pos keys i) (length keys) = Some q"
      using inv that(1) i by (auto simp: hash_inv_def)
    then show False using p that(2) by simp
  qed
  have inv': "hash_inv (?k, ?o)"
    unfolding hash_inv_def prod.case
  proof (intro conjI allI impI)
    fix q assume q: "q < length ?k" "?k ! q \<noteq> CACHE_EMPTY"
    show "insert_probe ?k (?k ! q) (start_pos ?k (?k ! q)) (length ?k) = Some q"
    proof (cases "q = p")
      case True
      then show ?thesis
        using insert_probe_same[OF p start_pos_less[OF ne(1)]] at by (simp add: start_pos_def)
    next
      case False
      have sl: "insert_probe keys (keys ! q) (start_pos keys (keys ! q)) (length keys) = Some q"
        using inv q False by (simp add: hash_inv_def)
      have "insert_probe ?k (keys ! q) (start_pos keys (keys ! q)) (length keys) = Some q"
      proof (cases "keys ! p = CACHE_EMPTY")
        case True
        then show ?thesis by (rule insert_probe_other[OF sl False _ start_pos_less[OF ne(1)]])
      next
        case nz: False
        then have "?k = keys" using at list_update_id[of keys p] by metis
        then show ?thesis using sl by simp
      qed
      then show ?thesis using False by (simp add: start_pos_def)
    qed
    show "?o ! q < CACHE_EMPTY"
      using inv q off ne(2) by (cases "q = p") (auto simp: hash_inv_def)
  qed (use ne in simp_all)
  have "find_cache_lookup (?k, ?o) j = ((find_cache_lookup (keys, offs))(i \<mapsto> off)) j" for j
  proof (cases "j = i")
    case True
    then have "find_cache_lookup (?k, ?o) j = Some off"
      using find_iff[OF inv'] at ne(2) i by auto
    then show ?thesis using True by simp
  next
    case False
    have "(find_cache_lookup (?k, ?o) j = Some x) = (find_cache_lookup (keys, offs) j = Some x)" for x
    proof -
      have "(\<exists>q < length ?k. ?k ! q = j \<and> ?o ! q = x) \<longleftrightarrow> (\<exists>q < length keys. keys ! q = j \<and> offs ! q = x)" if "j \<noteq> CACHE_EMPTY"
      proof -
        have "q \<noteq> p" if "keys ! q = j" for q
          using that at False \<open>j \<noteq> CACHE_EMPTY\<close> by auto
        moreover have "q \<noteq> p" if "?k ! q = j" for q
          using that at False by auto
        ultimately show ?thesis by (metis length_list_update nth_list_update_neq)
      qed
      then show ?thesis using find_iff[OF inv] find_iff[OF inv'] by blast
    qed
    then show ?thesis using False by (metis fun_upd_other not_Some_eq)
  qed
  then show ?thesis using res inv' by auto
qed

interpretation htb: lookup_table insert_cache_lookup find_cache_lookup hash_inv "\<lambda>t i. i < CACHE_EMPTY" "\<lambda>t. length (fst t)"
proof
  fix t i off
  assume inv: "hash_inv t"
  obtain keys offs where t: "t = (keys, offs)" by (cases t)
  show "finite (dom (find_cache_lookup t))"
    using hash_dom(1)[of keys offs] inv by (simp add: t)
  assume "i < CACHE_EMPTY" "off < CACHE_EMPTY" "i \<in> dom (find_cache_lookup t) \<or> card (dom (find_cache_lookup t)) < length (fst t)"
  then show "\<exists>t'. insert_cache_lookup i off t = Inr t' \<and> hash_inv t' \<and> (\<lambda>i. i < CACHE_EMPTY) = (\<lambda>i. i < CACHE_EMPTY) \<and>
      length (fst t') = length (fst t) \<and> find_cache_lookup t' = (find_cache_lookup t)(i \<mapsto> off)"
    using hash_insert[of keys offs i off] inv by (simp add: t)
qed

interpretation otb: lookup_table offset_insert offset_find "\<lambda>t. True" "\<lambda>t i. i < length t" length
proof
  fix t :: "nat list" and i off
  show "finite (dom (offset_find t))"
    by (rule finite_subset[of _ "{..<length t}"]) (auto simp: offset_find_def split: if_splits)
  assume "i < length t" "off < CACHE_EMPTY"
  then show "\<exists>t'. offset_insert i off t = Inr t' \<and> True \<and> (\<lambda>i. i < length t') = (\<lambda>i. i < length t) \<and>
      length t' = length t \<and> offset_find t' = (offset_find t)(i \<mapsto> off)"
    by (auto simp: offset_insert_def offset_find_def nth_list_update Let_def fun_eq_iff)
qed

lemma init_hash:
  assumes "0 < n" "n * 4 + 2 < 2 ^ 64"
  shows "hash_inv (init_compact_cache_hash n t)" "find_cache_lookup (init_compact_cache_hash n t) = Map.empty"
    "n < length (fst (init_compact_cache_hash n t))"
proof -
  let ?c = "(n * 4 + 2) div 3 + 1"
  have eq: "init_compact_cache_hash n t = (replicate ?c CACHE_EMPTY, replicate ?c CACHE_EMPTY)"
    using assms by (simp add: init_compact_cache_hash_def u64_id Let_def)
  have "replicate ?c CACHE_EMPTY \<noteq> []" by simp
  then show inv: "hash_inv (init_compact_cache_hash n t)"
    unfolding eq hash_inv_def prod.case by (metis length_replicate nth_replicate)
  show "n < length (fst (init_compact_cache_hash n t))" by (simp add: eq)
  have "find_cache_lookup (init_compact_cache_hash n t) i = None" for i
    using find_iff[OF inv[unfolded eq], of i] unfolding eq by (metis length_replicate nth_replicate not_None_eq)
  then show "find_cache_lookup (init_compact_cache_hash n t) = Map.empty" by auto
qed

section \<open>Loading the cache\<close>

record cache =
  cc_pool :: "nat list"
  cc_hash :: htab
  cc_offsets :: "nat list"
  cc_use_offset :: bool

definition cache_empty :: cache where
  "cache_empty = \<lparr>cc_pool = [], cc_hash = ([], []), cc_offsets = [], cc_use_offset = False\<rparr>"

definition cache_index :: "nat \<Rightarrow> nat \<Rightarrow> cache \<Rightarrow> cache res" where
  "cache_index i off c =
     (if cc_use_offset c then rbind (offset_insert i off (cc_offsets c)) (\<lambda>t. Inr (c\<lparr>cc_offsets := t\<rparr>))
      else rbind (insert_cache_lookup i off (cc_hash c)) (\<lambda>t. Inr (c\<lparr>cc_hash := t\<rparr>)))"

text \<open>The lookup of the beam search.\<close>

definition cache_lookup :: "cache \<Rightarrow> nat \<Rightarrow> nat option" where
  "cache_lookup c i = (if cc_use_offset c then offset_find (cc_offsets c) i else find_cache_lookup (cc_hash c) i)"

text \<open>Decoding \<open>[count, n1, n2, ...]\<close> at an offset of the pool.\<close>

definition cached_neighbors :: "cache \<Rightarrow> nat \<Rightarrow> nat list res" where
  "cached_neighbors c pool_offset =
     (if pool_offset < length (cc_pool c) then
        let count = cc_pool c ! pool_offset
        in if pool_offset + 1 + count \<le> length (cc_pool c) then Inr (block (cc_pool c) (pool_offset + 1) count) else Inl OutOfRange
      else Inl OutOfRange)"

definition store_node :: "nat \<Rightarrow> nat list \<Rightarrow> cache \<Rightarrow> cache res" where
  "store_node i neighbors c =
     (let current_offset = length (cc_pool c)
      in if current_offset \<ge> CACHE_EMPTY then Inl (ANNException ''cache pool offset does not fit in uint32_t'')
         else cache_index i (u32 current_offset) (c\<lparr>cc_pool := cc_pool c @ [length neighbors] @ neighbors\<rparr>))"

text \<open>The kernel's answers, the open file and the graph source.\<close>

record disk_io =
  io_sub :: "nat \<Rightarrow> nat \<Rightarrow> int"
  io_got :: "nat \<Rightarrow> nat \<Rightarrow> int"
  io_file :: bfile
  io_src :: gsrc

definition per_node_alloc :: "disk_io \<Rightarrow> nat" where
  "per_node_alloc io = (gs_get_read_buffer_size (io_src io) + 4095) div 4096 * 4096"

text \<open>Reading the nodes of a batch into their slots.\<close>

definition read_nodes :: "disk_io \<Rightarrow> nat list \<Rightarrow> byte list \<Rightarrow> byte list res" where
  "read_nodes io ids mem =
     execute_io (io_sub io) (io_got io) (io_file io) (slot_reqs (map (gs_prepare_node_read (io_src io)) ids) 0 (per_node_alloc io)) mem"

definition node_in_slot :: "disk_io \<Rightarrow> byte list \<Rightarrow> nat \<Rightarrow> nat \<Rightarrow> nat list res" where
  "node_in_slot io mem k i = gs_get_neighbors_ptr (io_src io) i (drop (k * per_node_alloc io) mem)"

text \<open>A batch: read the nodes, then visit each with its list; \<open>visit\<close> decides whether it looks at the list.\<close>

definition scan_batch ::
    "disk_io \<Rightarrow> (nat \<Rightarrow> nat list res \<Rightarrow> 's \<Rightarrow> 's res) \<Rightarrow> nat list \<Rightarrow> byte list \<times> 's \<Rightarrow> (byte list \<times> 's) res" where
  "scan_batch io visit ids st =
     (case st of (mem, c) \<Rightarrow>
        rbind (read_nodes io ids mem) (\<lambda>mem1.
        rbind (rfold (\<lambda>k c. visit (ids ! k) (node_in_slot io mem1 k (ids ! k)) c) [0..<length ids] c)
          (\<lambda>c1. Inr (mem1, c1))))"

definition load_batch :: "disk_io \<Rightarrow> nat list \<Rightarrow> byte list \<times> cache \<Rightarrow> (byte list \<times> cache) res" where
  "load_batch io = scan_batch io (\<lambda>i r c. rbind r (\<lambda>ns. store_node i ns c))"

function batches :: "nat \<Rightarrow> 'a list \<Rightarrow> 'a list list" where
  "batches n xs = (if xs = [] \<or> n = 0 then [] else take n xs # batches n (drop n xs))"
  by pat_completeness auto
termination
  by (relation "measure (\<lambda>(n, xs). length xs)") auto

declare batches.simps [simp del]

definition io_batch_size :: "string option \<Rightarrow> nat" where
  "io_batch_size env_bs =
     (case env_bs of None \<Rightarrow> 256
      | Some s \<Rightarrow> (let b = nat (atoi s mod 2 ^ 32) in if b = 0 then 256 else b))"

definition use_offset_mode :: "string option \<Rightarrow> nat \<Rightarrow> nat \<Rightarrow> bool" where
  "use_offset_mode lookup_mode_env num_points n =
     (let lookup_mode = (case lookup_mode_env of Some s \<Rightarrow> s | None \<Rightarrow> ''auto'');
          force_offset = (lookup_mode = ''offset-vector'' \<or> lookup_mode = ''offset'');
          force_hash = (lookup_mode = ''compact-hash'' \<or> lookup_mode = ''hash'' \<or> lookup_mode = ''hash-map'')
      in if force_offset then True
         else if force_hash then False
         else
           let offset_lookup_bytes = u64 (num_points * 4);
               compact_hash_bytes = u64 ((u64 (n * 4 + 2) div 3 + 1) * 2 * 4)
           in n = num_points \<or> offset_lookup_bytes \<le> compact_hash_bytes)"

text \<open>\<open>fresh n\<close> is the memory \<open>alloc_aligned\<close> returns for \<open>n\<close> bytes.\<close>

definition load_cache_list ::
    "string option \<Rightarrow> string option \<Rightarrow> disk_io \<Rightarrow> (nat \<Rightarrow> byte list) \<Rightarrow> nat \<Rightarrow> nat \<Rightarrow> nat list \<Rightarrow> cache res" where
  "load_cache_list env_mode env_bs io fresh num_points max_degree node_list =
     (if node_list = [] then Inr cache_empty
      else
        let reserve_per_node = (if max_degree > 0 then u32 (max_degree + 1) else 32);
            expected_pool_entries = u64 (length node_list * reserve_per_node)
        in if expected_pool_entries \<ge> CACHE_EMPTY then Inl (ANNException ''cache pool offset does not fit in uint32_t'')
           else
             let c0 = (if use_offset_mode env_mode num_points (length node_list)
                       then cache_empty\<lparr>cc_use_offset := True, cc_offsets := replicate num_points CACHE_EMPTY\<rparr>
                       else cache_empty\<lparr>cc_hash := init_compact_cache_hash (length node_list) ([], [])\<rparr>);
                 batch_size = io_batch_size env_bs;
                 batch_buf = fresh (batch_size * per_node_alloc io)
             in rbind (rfold (load_batch io) (batches batch_size (sort node_list)) (batch_buf, c0)) (\<lambda>(mem, c). Inr c))"

section \<open>What loading does\<close>

definition io_ok :: "disk_io \<Rightarrow> nat list list \<Rightarrow> bool" where
  "io_ok io adj \<longleftrightarrow> aio_up (io_sub io) \<and> aio_up (io_got io) \<and> gs_holds (io_src io) (io_file io) adj"

text \<open>The edges of the stored graph, and a graph whose edges stay inside it.\<close>

definition adj_edge :: "nat list list \<Rightarrow> nat \<Rightarrow> nat \<Rightarrow> bool" where
  "adj_edge adj u v \<longleftrightarrow> u < length adj \<and> v \<in> set (adj ! u)"

definition adj_closed :: "nat list list \<Rightarrow> bool" where
  "adj_closed adj \<longleftrightarrow> (\<forall>ns \<in> set adj. \<forall>v \<in> set ns. v < length adj)"

lemma read_nodes_ok:
  assumes "io_ok io adj" "\<forall>i \<in> set ids. i < length adj" "length ids * per_node_alloc io \<le> length mem"
  obtains mem' where "read_nodes io ids mem = Inr mem'" "length mem' = length mem"
    "\<And>k. k < length ids \<Longrightarrow> node_in_slot io mem' k (ids ! k) = Inr (adj ! (ids ! k))"
proof -
  have up: "aio_up (io_sub io)" "aio_up (io_got io)" "gs_holds (io_src io) (io_file io) adj"
    using assms(1) by (simp_all add: io_ok_def)
  have "gs_get_read_buffer_size (io_src io) \<le> per_node_alloc io"
    using div_up_mult_ge[of 4096 "gs_get_read_buffer_size (io_src io)"] by (simp add: div_up_def per_node_alloc_def)
  from gsr.batch[OF up(3) assms(2) this assms(3)] show ?thesis
    using that execute_io_all[OF up(1,2)] unfolding read_nodes_def node_in_slot_def by auto
qed

lemma rfold_single: "rfold f [x] = f x"
proof
  show "rfold f [x] s = f x s" for s by (cases "f x s") simp_all
qed

lemma rfold_nth:
  assumes "\<And>k c. k < length xs \<Longrightarrow> g k c = h (xs ! k) c"
  shows "rfold g [0..<length xs] c = rfold h xs c"
  using assms
proof (induction xs arbitrary: c rule: rev_induct)
  case Nil
  then show ?case by simp
next
  case (snoc x xs)
  have "rfold g [0..<length xs] c = rfold h xs c"
    using snoc.prems by (intro snoc.IH) (metis length_append_singleton less_SucI nth_append_left)
  moreover have "g (length xs) = h x"
    using snoc.prems[of "length xs"] by auto
  ultimately show ?case by (simp add: rfold_append rfold_single del: rfold.simps)
qed

lemma scan_batch_eq:
  assumes "io_ok io adj" "\<forall>i \<in> set ids. i < length adj" "length ids * per_node_alloc io \<le> length mem"
  obtains mem' where "length mem' = length mem"
    "scan_batch io visit ids (mem, c) = rbind (rfold (\<lambda>i. visit i (Inr (adj ! i))) ids c) (\<lambda>c1. Inr (mem', c1))"
proof -
  obtain mem' where m: "read_nodes io ids mem = Inr mem'" "length mem' = length mem"
    "\<And>k. k < length ids \<Longrightarrow> node_in_slot io mem' k (ids ! k) = Inr (adj ! (ids ! k))"
    using read_nodes_ok[OF assms] by blast
  have "rfold (\<lambda>k c. visit (ids ! k) (node_in_slot io mem' k (ids ! k)) c) [0..<length ids] c =
      rfold (\<lambda>i. visit i (Inr (adj ! i))) ids c"
    by (rule rfold_nth) (simp add: m(3))
  then show ?thesis
    using that m(1,2) by (simp add: scan_batch_def)
qed

text \<open>Batches whose step does to the state what visiting their elements one by one does.\<close>

lemma batches_eq:
  assumes "\<And>ids mem c. set ids \<subseteq> A \<Longrightarrow> length ids * k \<le> length mem \<Longrightarrow>
      \<exists>mem'. length mem' = length mem \<and> step ids (mem, c) = rbind (rfold v ids c) (\<lambda>c1. Inr (mem', c1))"
    and "set ids \<subseteq> A" "n * k \<le> length mem" "0 < n"
  shows "\<exists>mem'. length mem' = length mem \<and> rfold step (batches n ids) (mem, c) = rbind (rfold v ids c) (\<lambda>c1. Inr (mem', c1))"
  using assms(2-4)
proof (induction n ids arbitrary: mem c rule: batches.induct)
  case (1 n ids)
  show ?case
  proof (cases "ids = [] \<or> n = 0")
    case True
    then show ?thesis using "1.prems"(3) by (auto simp: batches.simps)
  next
    case False
    have fit: "length (take n ids) * k \<le> length mem"
      using "1.prems"(2) by (metis length_take le_trans min.cobounded2 mult_le_mono1)
    have sub: "set (take n ids) \<subseteq> A" "set (drop n ids) \<subseteq> A"
      using "1.prems"(1) set_take_subset[of n ids] set_drop_subset[of n ids] by blast+
    obtain mem1 where m: "length mem1 = length mem" "step (take n ids) (mem, c) = rbind (rfold v (take n ids) c) (\<lambda>c1. Inr (mem1, c1))"
      using assms(1)[OF sub(1) fit] by blast
    have IH: "\<exists>mem'. length mem' = length mem1 \<and> rfold step (batches n (drop n ids)) (mem1, c1) = rbind (rfold v (drop n ids) c1) (\<lambda>c1. Inr (mem', c1))" for c1
      using "1.IH"[OF False sub(2), of mem1 c1] "1.prems"(2,3) m(1) by simp
    have all: "rfold v ids c = rbind (rfold v (take n ids) c) (rfold v (drop n ids))"
      by (metis append_take_drop_id rfold_append)
    have unfold: "rfold step (batches n ids) (mem, c) = rbind (step (take n ids) (mem, c)) (rfold step (batches n (drop n ids)))"
      using False by (simp add: batches.simps[of n ids])
    show ?thesis
    proof (cases "rfold v (take n ids) c")
      case (Inl e)
      then show ?thesis using m all unfold by (intro exI[of _ mem1]) simp
    next
      case (Inr c1)
      then show ?thesis using IH[of c1] m all unfold by auto
    qed
  qed
qed

lemma scan_batches_eq:
  assumes "io_ok io adj" "\<forall>i \<in> set ids. i < length adj" "n * per_node_alloc io \<le> length mem" "0 < n"
  shows "rbind (rfold (scan_batch io visit) (batches n ids) (mem, c)) (\<lambda>(mem, c). Inr c) = rfold (\<lambda>i. visit i (Inr (adj ! i))) ids c"
proof -
  have "\<exists>mem'. length mem' = length mem \<and> scan_batch io visit ids (mem, c) =
      rbind (rfold (\<lambda>i. visit i (Inr (adj ! i))) ids c) (\<lambda>c1. Inr (mem', c1))"
    if "set ids \<subseteq> {..<length adj}" "length ids * per_node_alloc io \<le> length mem" for ids mem c
  proof -
    have "\<forall>i \<in> set ids. i < length adj" using that(1) by auto
    from scan_batch_eq[OF assms(1) this that(2), where visit = visit and c = c] show ?thesis by blast
  qed
  moreover have "set ids \<subseteq> {..<length adj}" using assms(2) by auto
  ultimately obtain mem' where "rfold (scan_batch io visit) (batches n ids) (mem, c) =
      rbind (rfold (\<lambda>i. visit i (Inr (adj ! i))) ids c) (\<lambda>c1. Inr (mem', c1))"
    using batches_eq[where A = "{..<length adj}" and step = "scan_batch io visit" and v = "\<lambda>i. visit i (Inr (adj ! i))"
        and c = c, OF _ _ assms(3,4)] by blast
  then show ?thesis
    by (cases "rfold (\<lambda>i. visit i (Inr (adj ! i))) ids c") simp_all
qed

lemma load_batches_eq:
  assumes "io_ok io adj" "\<forall>i \<in> set ids. i < length adj" "n * per_node_alloc io \<le> length mem" "0 < n"
  shows "rbind (rfold (load_batch io) (batches n ids) (mem, c)) (\<lambda>(mem, c). Inr c) = rfold (\<lambda>i. store_node i (adj ! i)) ids c"
  unfolding load_batch_def using scan_batches_eq[OF assms, of "\<lambda>i r c. rbind r (\<lambda>ns. store_node i ns c)" c] by simp

definition cache_inv :: "cache \<Rightarrow> bool" where
  "cache_inv c \<longleftrightarrow> cc_use_offset c \<or> hash_inv (cc_hash c)"

definition cache_valid :: "cache \<Rightarrow> nat \<Rightarrow> bool" where
  "cache_valid c = (if cc_use_offset c then (\<lambda>i. i < length (cc_offsets c)) else (\<lambda>i. i < CACHE_EMPTY))"

definition cache_room :: "cache \<Rightarrow> nat" where
  "cache_room c = (if cc_use_offset c then length (cc_offsets c) else length (fst (cc_hash c)))"

lemma cache_index_pool: "cache_index i off c = Inr c' \<Longrightarrow> cc_pool c' = cc_pool c"
  by (auto simp: cache_index_def rbind_eq_Inr_iff split: if_splits)

lemma cache_lookup_fun:
  "cc_use_offset c \<Longrightarrow> cache_lookup c = offset_find (cc_offsets c)"
  "\<not> cc_use_offset c \<Longrightarrow> cache_lookup c = find_cache_lookup (cc_hash c)"
  by (auto simp: cache_lookup_def)

interpretation ctb: lookup_table cache_index cache_lookup cache_inv cache_valid cache_room
proof
  fix c i off
  assume inv: "cache_inv c"
  show "finite (dom (cache_lookup c))"
    using inv otb.finite_dom htb.finite_dom by (cases "cc_use_offset c") (auto simp: cache_lookup_fun cache_inv_def)
  assume asm: "cache_valid c i" "off < CACHE_EMPTY" "i \<in> dom (cache_lookup c) \<or> card (dom (cache_lookup c)) < cache_room c"
  show "\<exists>t'. cache_index i off c = Inr t' \<and> cache_inv t' \<and> cache_valid t' = cache_valid c \<and>
      cache_room t' = cache_room c \<and> cache_lookup t' = (cache_lookup c)(i \<mapsto> off)"
  proof (cases "cc_use_offset c")
    case True
    then obtain t where "offset_insert i off (cc_offsets c) = Inr t" "length t = length (cc_offsets c)"
      "offset_find t = (offset_find (cc_offsets c))(i \<mapsto> off)"
      using otb.ins_ok[where t = "cc_offsets c" and i = i and off = off] asm
      by (auto simp: cache_valid_def cache_room_def cache_lookup_fun)
    then show ?thesis
      using True by (simp add: cache_index_def cache_valid_def cache_room_def cache_inv_def cache_lookup_fun)
  next
    case False
    then obtain t where "insert_cache_lookup i off (cc_hash c) = Inr t" "hash_inv t" "length (fst t) = length (fst (cc_hash c))"
      "find_cache_lookup t = (find_cache_lookup (cc_hash c))(i \<mapsto> off)"
      using htb.ins_ok[where t = "cc_hash c" and i = i and off = off] asm inv
      by (auto simp: cache_valid_def cache_room_def cache_lookup_fun cache_inv_def)
    then show ?thesis
      using False by (simp add: cache_index_def cache_valid_def cache_room_def cache_inv_def cache_lookup_fun)
  qed
qed

text \<open>The cache holds the lists of exactly the nodes of \<open>S\<close>.\<close>

definition cache_rep :: "nat list list \<Rightarrow> nat set \<Rightarrow> cache \<Rightarrow> bool" where
  "cache_rep adj S c \<longleftrightarrow> cache_inv c \<and> dom (cache_lookup c) = S \<and>
     (\<forall>i off. cache_lookup c i = Some off \<longrightarrow> cached_neighbors c off = Inr (adj ! i))"

lemma cached_neighbors_grow:
  assumes "cached_neighbors c off = Inr ns" "cc_pool c' = cc_pool c @ xs"
  shows "cached_neighbors c' off = Inr ns"
  using assms by (auto simp: cached_neighbors_def Let_def nth_append block_append_left split: if_splits)

lemma store_node_ok:
  assumes "cache_rep adj S c" "cache_valid c i" "i \<in> S \<or> card S < cache_room c" "length (cc_pool c) < CACHE_EMPTY"
  obtains c' where "store_node i (adj ! i) c = Inr c'" "cache_rep adj (insert i S) c'" "cache_valid c' = cache_valid c"
    "cache_room c' = cache_room c" "length (cc_pool c') = length (cc_pool c) + 1 + length (adj ! i)"
proof -
  let ?off = "length (cc_pool c)"
  let ?c = "c\<lparr>cc_pool := cc_pool c @ [length (adj ! i)] @ adj ! i\<rparr>"
  have same: "cache_inv ?c" "cache_valid ?c = cache_valid c" "cache_room ?c = cache_room c" "cache_lookup ?c = cache_lookup c"
    "dom (cache_lookup c) = S"
    using assms(1) by (auto simp: cache_rep_def cache_inv_def cache_valid_def cache_room_def cache_lookup_def)
  obtain c' where c': "cache_index i ?off ?c = Inr c'" "cache_inv c'" "cache_valid c' = cache_valid ?c" "cache_room c' = cache_room ?c"
    "cache_lookup c' = (cache_lookup ?c)(i \<mapsto> ?off)"
    using ctb.ins_ok[OF same(1), of i ?off] assms(2,3,4) same by auto
  have pool: "cc_pool c' = cc_pool c @ ([length (adj ! i)] @ adj ! i)"
    using cache_index_pool[OF c'(1)] by simp
  have "cached_neighbors c' ?off = Inr (adj ! i)"
  proof -
    have "cc_pool c' ! ?off = length (adj ! i)" "length (cc_pool c') = ?off + 1 + length (adj ! i)"
      "block (cc_pool c') (?off + 1) (length (adj ! i)) = adj ! i"
      by (simp_all add: pool nth_append block_def)
    then show ?thesis by (simp add: cached_neighbors_def)
  qed
  moreover have "cached_neighbors c' off = Inr (adj ! j)" if "cache_lookup c j = Some off" for j off
  proof -
    have "cached_neighbors c off = Inr (adj ! j)" using that assms(1) unfolding cache_rep_def by blast
    then show ?thesis by (rule cached_neighbors_grow[OF _ pool])
  qed
  ultimately have "cache_rep adj (insert i S) c'"
    using c'(2,5) same by (auto simp: cache_rep_def)
  moreover have "store_node i (adj ! i) c = Inr c'"
    using c'(1) assms(4) by (simp add: store_node_def CACHE_EMPTY_def u32_id)
  ultimately show ?thesis
    using that c' same pool by simp
qed

lemma store_all_ok:
  assumes "cache_rep adj S c" "\<forall>i \<in> set ids. cache_valid c i \<and> length (adj ! i) \<le> d" "card (S \<union> set ids) \<le> cache_room c"
    and "length (cc_pool c) + length ids * (d + 1) < CACHE_EMPTY" "finite S"
  shows "\<exists>c'. rfold (\<lambda>i. store_node i (adj ! i)) ids c = Inr c' \<and> cache_rep adj (S \<union> set ids) c'"
  using assms
proof (induction ids arbitrary: S c)
  case Nil
  then show ?case by simp
next
  case (Cons i ids)
  have "card (insert i S) \<le> card (S \<union> set (i # ids))"
    using Cons.prems(5) by (intro card_mono) auto
  then have "i \<in> S \<or> card S < cache_room c"
    using Cons.prems(3,5) by (cases "i \<in> S") auto
  moreover have "cache_valid c i" "length (cc_pool c) < CACHE_EMPTY"
    using Cons.prems(2,4) by simp_all
  ultimately obtain c1 where c1: "store_node i (adj ! i) c = Inr c1" "cache_rep adj (insert i S) c1" "cache_valid c1 = cache_valid c"
    "cache_room c1 = cache_room c" "length (cc_pool c1) = length (cc_pool c) + 1 + length (adj ! i)"
    using store_node_ok[OF Cons.prems(1)] by metis
  have "length (adj ! i) \<le> d" using Cons.prems(2) by simp
  then have "length (cc_pool c1) + length ids * (d + 1) < CACHE_EMPTY"
    using Cons.prems(4) c1(5) by simp
  then show ?case
    using Cons.IH[OF c1(2)] Cons.prems(2,3,5) c1(1,3,4) by auto
qed

lemma cache_start:
  assumes "0 < n" "n * 4 + 2 < 2 ^ 64"
    and "c0 = (if off then cache_empty\<lparr>cc_use_offset := True, cc_offsets := replicate num_points CACHE_EMPTY\<rparr>
               else cache_empty\<lparr>cc_hash := init_compact_cache_hash n ([], [])\<rparr>)"
    and "card S \<le> n" "\<forall>i \<in> S. i < num_points" "num_points \<le> CACHE_EMPTY"
  shows "cache_rep adj {} c0" "\<forall>i \<in> S. cache_valid c0 i" "card S \<le> cache_room c0" "cc_pool c0 = []"
proof -
  have S: "card S \<le> num_points"
    using card_mono[of "{..<num_points}" S] assms(5) by auto
  have "offset_find (replicate num_points CACHE_EMPTY) = Map.empty"
    by (auto simp: offset_find_def)
  then show "cache_rep adj {} c0"
    using init_hash[OF assms(1,2)] by (auto simp: assms(3) cache_rep_def cache_inv_def cache_lookup_fun cache_empty_def)
  show "\<forall>i \<in> S. cache_valid c0 i" "card S \<le> cache_room c0" "cc_pool c0 = []"
    using assms(4-6) S init_hash(3)[OF assms(1,2), of "([], [])"]
    by (auto simp: assms(3) cache_valid_def cache_room_def cache_empty_def)
qed

lemma io_batch_size_pos: "0 < io_batch_size env"
  by (simp add: io_batch_size_def Let_def split: option.split)

section \<open>Properties\<close>

text \<open>C30. The compact hash is a map: a table initialised for \<open>n\<close> entries takes every sequence of insertions of
  at most \<open>n\<close> different ids (none of them the sentinel) without an exception, and then \<open>find\<close> returns for
  each id the offset inserted last and nothing for any other id, whatever ids collide.\<close>

theorem compact_hash_map:
  assumes "0 < n" "n * 4 + 2 < 2 ^ 64" "\<forall>(i, off) \<in> set xs. i < CACHE_EMPTY \<and> off < CACHE_EMPTY" "card (fst ` set xs) \<le> n"
  shows "\<exists>t. rfold (\<lambda>(i, off). insert_cache_lookup i off) xs (init_compact_cache_hash n ([], [])) = Inr t \<and>
    (\<forall>i. find_cache_lookup t i = map_of (rev xs) i)"
proof -
  note init = init_hash[OF assms(1,2), of "([], [])"]
  show ?thesis
    using htb.fill[OF init(1) assms(3)] init(2,3) assms(4) by auto
qed

theorem compact_hash_map_witness:
  "\<exists>t. rfold (\<lambda>(i, off). insert_cache_lookup i off) [(5, 0), (9, 3), (5, 7)] (init_compact_cache_hash 2 ([], [])) = Inr t \<and>
    find_cache_lookup t 5 = Some 7 \<and> find_cache_lookup t 9 = Some 3 \<and> find_cache_lookup t 6 = None"
proof -
  have "\<forall>(i, off) \<in> set [(5, 0), (9, 3), (5, 7)]. i < CACHE_EMPTY \<and> off < CACHE_EMPTY"
    "card (fst ` set [(5 :: nat, 0 :: nat), (9, 3), (5, 7)]) \<le> 2"
    by (simp_all add: CACHE_EMPTY_def card_insert_if)
  from compact_hash_map[OF _ _ this] obtain t where
    "rfold (\<lambda>(i, off). insert_cache_lookup i off) [(5, 0), (9, 3), (5, 7)] (init_compact_cache_hash 2 ([], [])) = Inr t"
    "\<forall>i. find_cache_lookup t i = map_of (rev [(5, 0), (9, 3), (5, 7)]) i"
    by auto
  then show ?thesis by auto
qed

lemma load_cache_run:
  assumes "io_ok io adj" "length adj = num_points" "num_points \<le> CACHE_EMPTY" "\<forall>i \<in> set node_list. i < num_points"
    and "\<forall>i < num_points. length (adj ! i) \<le> max_degree" "max_degree + 1 < 2 ^ 32"
    and "length node_list * (if max_degree > 0 then max_degree + 1 else 32) < CACHE_EMPTY" "\<forall>n. length (fresh n) = n"
  shows "\<exists>c. load_cache_list env_mode env_bs io fresh num_points max_degree node_list = Inr c \<and>
    (\<forall>i. if i \<in> set node_list then \<exists>off. cache_lookup c i = Some off \<and> cached_neighbors c off = Inr (adj ! i)
          else cache_lookup c i = None)"
proof (cases "node_list = []")
  case True
  then show ?thesis
    by (simp add: load_cache_list_def cache_empty_def cache_lookup_def find_cache_lookup_def)
next
  case False
  let ?n = "length node_list" and ?r = "if max_degree > 0 then max_degree + 1 else 32"
  define c0 where "c0 = (if use_offset_mode env_mode num_points ?n
     then cache_empty\<lparr>cc_use_offset := True, cc_offsets := replicate num_points CACHE_EMPTY\<rparr>
     else cache_empty\<lparr>cc_hash := init_compact_cache_hash ?n ([], [])\<rparr>)"
  have n: "0 < ?n" "?n \<le> ?n * ?r" using False by simp_all
  then have "?n < CACHE_EMPTY" using assms(7) by linarith
  then have n4: "?n * 4 + 2 < 2 ^ 64" by (simp add: CACHE_EMPTY_def)
  have ids: "\<forall>i \<in> set node_list. i < length adj" "card (set node_list) \<le> ?n" using assms(2,4) card_length by auto
  note st = cache_start[OF n(1) n4 c0_def ids(2) assms(4,3)]
  have rep: "cache_rep adj {} c0" by (rule st(1))
  have "?n * (max_degree + 1) \<le> ?n * ?r" by (intro mult_le_mono2) simp
  then have "length (cc_pool c0) + ?n * (max_degree + 1) < CACHE_EMPTY"
    using assms(7) st(4) by simp
  then have "length (cc_pool c0) + length (sort node_list) * (max_degree + 1) < CACHE_EMPTY" by simp
  then obtain c where c: "rfold (\<lambda>i. store_node i (adj ! i)) (sort node_list) c0 = Inr c" "cache_rep adj (set node_list) c"
    using store_all_ok[OF rep, where ids = "sort node_list" and d = max_degree] st(2,3) assms(4,5) by auto
  have "rbind (rfold (load_batch io) (batches (io_batch_size env_bs) (sort node_list))
      (fresh (io_batch_size env_bs * per_node_alloc io), c0)) (\<lambda>(mem, c). Inr c) = Inr c"
    using load_batches_eq[OF assms(1), of "sort node_list" "io_batch_size env_bs"] ids(1) assms(8) io_batch_size_pos c(1) by simp
  moreover have "u64 (?n * (if max_degree > 0 then u32 (max_degree + 1) else 32)) < CACHE_EMPTY"
    using assms(6,7) by (auto simp: u32_id CACHE_EMPTY_def intro: le_less_trans[OF u64_le])
  ultimately have "load_cache_list env_mode env_bs io fresh num_points max_degree node_list = Inr c"
    using False by (simp add: load_cache_list_def Let_def flip: c0_def)
  moreover have "if i \<in> set node_list then \<exists>off. cache_lookup c i = Some off \<and> cached_neighbors c off = Inr (adj ! i)
      else cache_lookup c i = None" for i
  proof -
    have "i \<in> dom (cache_lookup c) \<longleftrightarrow> i \<in> set node_list" using c(2) by (simp add: cache_rep_def)
    then show ?thesis using c(2) unfolding cache_rep_def by (cases "cache_lookup c i") (auto simp: domIff)
  qed
  ultimately show ?thesis by blast
qed



end
