(* ===== verification/Beam_Search.thy ===== *)
theory Beam_Search
  imports Cache_Table Neighbor_Queue
begin

text \<open>
  The traversal of \<open>SigmaSearch::cached_beam_search_explicit\<close> (\<open>search/ours_search.cpp\<close>): rounds that
  take up to \<open>beam_width\<close> candidates, expand the cached ones at once and read the others from disk in
  one batch. The approximate distance of a node to the query is an argument \<open>d\<close>; \<open>query_pq_dist\<close> is the
  one the code uses.
\<close>

section \<open>Approximate distances\<close>

text \<open>\<open>aggregate_coords\<close> and \<open>pq_dist_lookup\<close> for one node: the sum over the chunks, in order, of the table
  entries its code selects.\<close>

definition aggregate_coords :: "byte list \<Rightarrow> nat \<Rightarrow> nat \<Rightarrow> byte list" where
  "aggregate_coords all_coords ndims i = block all_coords (i * ndims) ndims"

definition pq_dist_lookup :: "byte list \<Rightarrow> nat \<Rightarrow> fp list \<Rightarrow> fp" where
  "pq_dist_lookup pq_ids pq_nchunks pq_dists =
     foldl (\<lambda>acc chunk. fadd Binary32 acc (pq_dists ! (256 * chunk + unat (pq_ids ! chunk)))) fzero [0..<pq_nchunks]"

definition query_pq_dist :: "byte list \<Rightarrow> nat \<Rightarrow> fp list \<Rightarrow> nat \<Rightarrow> fp" where
  "query_pq_dist pq_data num_chunks pq_dists i = pq_dist_lookup (aggregate_coords pq_data num_chunks i) num_chunks pq_dists"

section \<open>State\<close>

definition MAX_GRAPH_DEGREE :: nat where "MAX_GRAPH_DEGREE = 512"
definition MAX_N_SECTOR_READS :: nat where "MAX_N_SECTOR_READS = 128"

record sigma =
  sg_max_node_len :: nat
  sg_nnodes_per_sector :: nat
  sg_io :: disk_io
  sg_cache :: cache

record beam =
  bm_q :: npq
  bm_visited :: "nat list"
  bm_ios :: nat
  bm_hops :: nat
  bm_scratch :: "byte list"

text \<open>\<open>compute_dists\<close> into \<open>dist_scratch\<close>, which holds \<open>MAX_GRAPH_DEGREE\<close> floats, and the loop over the
  neighbours.\<close>

definition visit_one :: "(nat \<Rightarrow> fp) \<Rightarrow> nat \<Rightarrow> nat list \<times> npq \<Rightarrow> (nat list \<times> npq) res" where
  "visit_one d v st =
     (case st of (vis, q) \<Rightarrow> if v \<in> set vis then Inr st else rbind (npq_ins d v q) (\<lambda>q1. Inr (v # vis, q1)))"

definition visit_list :: "(nat \<Rightarrow> fp) \<Rightarrow> nat list \<Rightarrow> nat list \<times> npq \<Rightarrow> (nat list \<times> npq) res" where
  "visit_list d ns st = (if MAX_GRAPH_DEGREE < length ns then Inl OutOfRange else rfold (visit_one d) ns st)"

section \<open>A round\<close>

text \<open>Collecting the frontier: \<open>n\<close> is \<open>beam_width - num_seen\<close>.\<close>

fun collect :: "(nat \<Rightarrow> fp) \<Rightarrow> cache \<Rightarrow> nat \<Rightarrow> nat \<Rightarrow> nat list \<times> npq \<times> nat list \<Rightarrow> (nat list \<times> npq \<times> nat list) res" where
  "collect d c beam_width 0 st = Inr st"
| "collect d c beam_width (Suc n) (vis, q, frontier) =
     (if has_unexpanded_node q \<and> length frontier < beam_width then
        rbind (closest_unexpanded q) (\<lambda>(nbr, q1).
          case cache_lookup c (nb_id nbr) of
            Some off \<Rightarrow>
              rbind (cached_neighbors c off) (\<lambda>ns.
              rbind (visit_list d ns (vis, q1)) (\<lambda>(vis2, q2). collect d c beam_width n (vis2, q2, frontier)))
          | None \<Rightarrow> collect d c beam_width n (vis, q1, frontier @ [nb_id nbr]))
      else Inr (vis, q, frontier))"

text \<open>The read request written out in the loop instead of calling \<open>prepare_node_read\<close>.\<close>

definition inline_node_read :: "nat \<Rightarrow> nat \<Rightarrow> nat \<Rightarrow> nat \<times> nat" where
  "inline_node_read max_node_len nnodes_per_sector i =
     (let off =
        (if nnodes_per_sector > 0 then
           let sector_idx = i div nnodes_per_sector; idx_in_sector = i mod nnodes_per_sector
           in u64 ((sector_idx + 1) * 4096 + idx_in_sector * max_node_len)
         else
           let aligned_node_len = u64 (u64 (max_node_len + 4095) div 4096 * 4096)
           in u64 (4096 + i * aligned_node_len));
        sector_start = off div 4096 * 4096;
        sector_end = u64 (off + max_node_len + 4096 - 1) div 4096 * 4096
      in (sector_start, u32 (sub64 sector_end sector_start)))"

definition expand_frontier ::
    "(nat \<Rightarrow> fp) \<Rightarrow> sigma \<Rightarrow> nat list \<Rightarrow> byte list \<times> nat list \<times> npq \<Rightarrow> (byte list \<times> nat list \<times> npq) res" where
  "expand_frontier d sg frontier st =
     (case st of (scratch, vis, q) \<Rightarrow>
        let io = sg_io sg; buf_stride = gs_get_read_buffer_size (io_src io);
            reqs = slot_reqs (map (inline_node_read (sg_max_node_len sg) (sg_nnodes_per_sector sg)) frontier) 0 buf_stride
        in rbind (execute_io (io_sub io) (io_got io) (io_file io) reqs scratch) (\<lambda>mem.
           rbind (rfold (\<lambda>k st. rbind (gs_get_neighbors_ptr (io_src io) (frontier ! k) (drop (k * buf_stride) mem))
                           (\<lambda>ns. visit_list d ns st)) [0..<length frontier] (vis, q)) (\<lambda>(vis1, q1).
             Inr (mem, vis1, q1))))"

definition beam_round :: "(nat \<Rightarrow> fp) \<Rightarrow> sigma \<Rightarrow> nat \<Rightarrow> beam \<Rightarrow> beam res" where
  "beam_round d sg beam_width st =
     rbind (collect d (sg_cache sg) beam_width beam_width (bm_visited st, bm_q st, [])) (\<lambda>(vis, q, frontier).
       if frontier = [] then Inr (st\<lparr>bm_q := q, bm_visited := vis, bm_hops := u32 (bm_hops st + 1)\<rparr>)
       else rbind (expand_frontier d sg frontier (bm_scratch st, vis, q)) (\<lambda>(scratch, vis1, q1).
              Inr (st\<lparr>bm_q := q1, bm_visited := vis1, bm_ios := u32 (bm_ios st + length frontier),
                      bm_hops := u32 (bm_hops st + 1), bm_scratch := scratch\<rparr>)))"

section \<open>The traversal\<close>

text \<open>\<open>None\<close> is a loop that does not end.\<close>

partial_function (option) beam_loop :: "(nat \<Rightarrow> fp) \<Rightarrow> sigma \<Rightarrow> nat \<Rightarrow> nat \<Rightarrow> beam \<Rightarrow> beam res option" where
  "beam_loop d sg beam_width io_limit st =
     (if has_unexpanded_node (bm_q st) \<and> bm_ios st < io_limit then
        let r = beam_round d sg beam_width st
        in if isl r then Some r else beam_loop d sg beam_width io_limit (projr r)
      else Some (Inr st))"

text \<open>The entry point: the only medoid, or the one with the nearest centroid, \<open>cd i\<close> being the distance to
  centroid \<open>i\<close>.\<close>

definition best_medoid :: "(nat \<Rightarrow> fp) \<Rightarrow> nat list \<Rightarrow> nat" where
  "best_medoid cd medoids =
     (if 1 < length medoids then
        fst (foldl (\<lambda>(best, best_dist) i. if flt (cd i) best_dist then (medoids ! i, cd i) else (best, best_dist))
               (medoids ! 0, flt_max) [0..<length medoids])
      else medoids ! 0)"

definition beam_search :: "(nat \<Rightarrow> fp) \<Rightarrow> sigma \<Rightarrow> npq \<Rightarrow> byte list \<Rightarrow> nat \<Rightarrow> nat \<Rightarrow> nat \<Rightarrow> nat \<Rightarrow> beam res option" where
  "beam_search d sg q0 scratch best l_search beam_width io_limit =
     (case npq_ins d best (npq_reserve (npq_clear q0) l_search) of
        Inl e \<Rightarrow> Some (Inl e)
      | Inr q \<Rightarrow>
          beam_loop d sg beam_width io_limit
            \<lparr>bm_q = q, bm_visited = [best], bm_ios = 0, bm_hops = 0, bm_scratch = scratch\<rparr>)"

section \<open>The invariant\<close>

text \<open>\<open>D\<close> are the nodes taken so far, \<open>P\<close> those of them whose lists have not been read yet. The queue is the
  best \<open>L\<close> of everything visited; what is visited is reachable from the entry point \<open>s\<close>.\<close>

definition beam_inv ::
    "nat \<Rightarrow> (nat \<Rightarrow> fp) \<Rightarrow> nat list list \<Rightarrow> nat \<Rightarrow> nat set \<Rightarrow> nat set \<Rightarrow> nat list \<Rightarrow> npq \<Rightarrow> bool" where
  "beam_inv L d adj s D P vis q \<longleftrightarrow>
     npq_ok d q \<and> q_capacity q = L \<and> npq_keys q = best_of dist_id_lt L (map (\<lambda>i. (d i, i)) vis) \<and>
     D \<union> npq_ids q \<subseteq> set vis \<and> D \<inter> npq_todo q = {} \<and> npq_shut q \<subseteq> D \<and> set vis \<subseteq> {..<length adj} \<and>
     (\<forall>v \<in> set vis. (adj_edge adj)\<^sup>*\<^sup>* s v) \<and> (\<forall>u \<in> D - P. set (adj ! u) \<subseteq> set vis)"

definition beam_work :: "nat list list \<Rightarrow> nat list \<Rightarrow> npq \<Rightarrow> nat" where
  "beam_work adj vis q = 2 * card ({..<length adj} - set vis) + card (npq_todo q)"

definition beam_graph :: "(nat \<Rightarrow> fp) \<Rightarrow> nat list list \<Rightarrow> bool" where
  "beam_graph d adj \<longleftrightarrow> (\<forall>u < length adj. fnonneg (d u) \<and> length (adj ! u) \<le> MAX_GRAPH_DEGREE \<and> set (adj ! u) \<subseteq> {..<length adj})"

lemma best_of_snoc:
  assumes "\<forall>i \<in> set (v # vis). fnonneg (d i)"
  shows "top_ins dist_id_lt L (d v, v) (best_of dist_id_lt L (map (\<lambda>i. (d i, i)) vis)) =
    best_of dist_id_lt L (map (\<lambda>i. (d i, i)) (v # vis))"
proof -
  let ?f = "\<lambda>i. (d i, i)"
  have "best_of dist_id_lt L (map ?f vis) = fold (top_ins dist_id_lt L) (map ?f vis) []"
    using assms by (intro dit.fold_top_ins[symmetric]) auto
  then have "top_ins dist_id_lt L (d v, v) (best_of dist_id_lt L (map ?f vis)) = fold (top_ins dist_id_lt L) (map ?f (vis @ [v])) []"
    by simp
  also have "\<dots> = best_of dist_id_lt L (map ?f (vis @ [v]))"
    using assms by (intro dit.fold_top_ins) auto
  also have "\<dots> = best_of dist_id_lt L (map ?f (v # vis))"
    using assms by (intro dit.best_of_cong) auto
  finally show ?thesis .
qed

lemma visit_one_ok:
  assumes g: "beam_graph d adj" and inv: "beam_inv L d adj s D P vis q" and u: "u \<in> set vis" "v \<in> set (adj ! u)"
  obtains vis' q' where "visit_one d v (vis, q) = Inr (vis', q')" "beam_inv L d adj s D P vis' q'"
    "set vis' = insert v (set vis)" "beam_work adj vis' q' \<le> beam_work adj vis q"
proof (cases "v \<in> set vis")
  case True
  then show ?thesis using that[of vis q] inv by (simp add: visit_one_def insert_absorb)
next
  case False
  have I: "npq_ok d q" "q_capacity q = L" "npq_keys q = best_of dist_id_lt L (map (\<lambda>i. (d i, i)) vis)"
    "D \<union> npq_ids q \<subseteq> set vis" "D \<inter> npq_todo q = {}" "npq_shut q \<subseteq> D" "set vis \<subseteq> {..<length adj}"
    "\<forall>v \<in> set vis. (adj_edge adj)\<^sup>*\<^sup>* s v" "\<forall>u \<in> D - P. set (adj ! u) \<subseteq> set vis"
    using inv by (simp_all add: beam_inv_def)
  have ul: "u < length adj" using u(1) I(7) by auto
  have v: "v < length adj" using g ul u(2) by (auto simp: beam_graph_def)
  have nonneg: "\<forall>i \<in> set (v # vis). fnonneg (d i)" using g v I(7) by (auto simp: beam_graph_def)
  obtain q1 where q1: "npq_ins d v q = Inr q1" "npq_ok d q1" "npq_ids q1 \<subseteq> insert v (npq_ids q)" "npq_todo q1 \<subseteq> insert v (npq_todo q)"
    "npq_keys q1 = top_ins dist_id_lt L (d v, v) (npq_keys q)" "q_capacity q1 = L" "npq_shut q1 \<subseteq> npq_shut q"
    using npq_insert_todo[OF I(1), of v] nonneg I(2) unfolding npq_ins_def by auto
  have keys: "npq_keys q1 = best_of dist_id_lt L (map (\<lambda>i. (d i, i)) (v # vis))"
    using best_of_snoc[OF nonneg] q1(5) I(3) by simp
  have reach: "(adj_edge adj)\<^sup>*\<^sup>* s v"
    using I(8) u ul by (meson adj_edge_def rtranclp.rtrancl_into_rtrancl)
  have "D \<inter> npq_todo q1 = {}" "D \<union> npq_ids q1 \<subseteq> set (v # vis)" "npq_shut q1 \<subseteq> D"
    "\<forall>u \<in> D - P. set (adj ! u) \<subseteq> set (v # vis)"
    using I(4,5,6,9) q1(3,4,7) False by (auto dest: subsetD)
  moreover have "set (v # vis) \<subseteq> {..<length adj}" "\<forall>w \<in> set (v # vis). (adj_edge adj)\<^sup>*\<^sup>* s w"
    using I(7,8) reach v by simp_all
  ultimately have "beam_inv L d adj s D P (v # vis) q1"
    unfolding beam_inv_def using q1(2,6) keys by (intro conjI) assumption+
  moreover have "beam_work adj (v # vis) q1 \<le> beam_work adj vis q"
  proof -
    have fin: "finite (npq_todo q)" using sq.finite_todo .
    have "card (npq_todo q1) \<le> card (insert v (npq_todo q))" using fin q1(4) by (intro card_mono) auto
    also have "\<dots> \<le> card (npq_todo q) + 1" using fin by (simp add: card_insert_if)
    finally have "card (npq_todo q1) \<le> card (npq_todo q) + 1" .
    moreover have "card ({..<length adj} - set vis) = card ({..<length adj} - set (v # vis)) + 1"
    proof -
      have eq: "{..<length adj} - set vis = insert v ({..<length adj} - set (v # vis))" using False v by auto
      show ?thesis unfolding eq by (subst card_insert_disjoint) simp_all
    qed
    ultimately show ?thesis by (simp add: beam_work_def)
  qed
  ultimately show ?thesis
    using that[of "v # vis" q1] False q1(1) by (simp add: visit_one_def)
qed

lemma visit_list_ok:
  assumes g: "beam_graph d adj" and "beam_inv L d adj s D P vis q" and u: "u \<in> D"
  obtains vis' q' where "visit_list d (adj ! u) (vis, q) = Inr (vis', q')" "beam_inv L d adj s D (P - {u}) vis' q'"
    "beam_work adj vis' q' \<le> beam_work adj vis q"
proof -
  have run: "\<exists>vis' q'. rfold (visit_one d) ns (vis, q) = Inr (vis', q') \<and> beam_inv L d adj s D P vis' q' \<and>
      set vis' = set ns \<union> set vis \<and> beam_work adj vis' q' \<le> beam_work adj vis q"
    if "beam_inv L d adj s D P vis q" "set ns \<subseteq> set (adj ! u)" for ns vis q
    using that
  proof (induction ns arbitrary: vis q)
    case Nil
    then show ?case by simp
  next
    case (Cons v ns)
    have "u \<in> set vis" using Cons.prems(1) u by (auto simp: beam_inv_def)
    then obtain vis1 q1 where s1: "visit_one d v (vis, q) = Inr (vis1, q1)" "beam_inv L d adj s D P vis1 q1"
      "set vis1 = insert v (set vis)" "beam_work adj vis1 q1 \<le> beam_work adj vis q"
      using visit_one_ok[OF g Cons.prems(1), of u v] Cons.prems(2) by auto
    then show ?case
      using Cons.IH[OF s1(2)] Cons.prems(2) by fastforce
  qed
  obtain vis' q' where r: "rfold (visit_one d) (adj ! u) (vis, q) = Inr (vis', q')" "beam_inv L d adj s D P vis' q'"
      "set vis' = set (adj ! u) \<union> set vis" "beam_work adj vis' q' \<le> beam_work adj vis q"
    using run[OF assms(2) order.refl] by blast
  have "u < length adj" using assms(2) u by (auto simp: beam_inv_def)
  then have "length (adj ! u) \<le> MAX_GRAPH_DEGREE" using g by (simp add: beam_graph_def)
  then have "visit_list d (adj ! u) (vis, q) = Inr (vis', q')" using r(1) by (simp add: visit_list_def)
  moreover have "beam_inv L d adj s D (P - {u}) vis' q'" using r(2,3) by (auto simp: beam_inv_def)
  ultimately show ?thesis using that r(4) by blast
qed

text \<open>Taking a candidate.\<close>

lemma beam_pop:
  assumes inv: "beam_inv L d adj s D P vis q" and has: "has_unexpanded_node q"
  obtains n q1 where "closest_unexpanded q = Inr (n, q1)" "nb_id n \<notin> D" "nb_id n < length adj"
    "beam_inv L d adj s (insert (nb_id n) D) (insert (nb_id n) P) vis q1" "beam_work adj vis q1 < beam_work adj vis q"
proof -
  have I: "npq_ok d q" "q_capacity q = L" "npq_keys q = best_of dist_id_lt L (map (\<lambda>i. (d i, i)) vis)"
    "D \<union> npq_ids q \<subseteq> set vis" "D \<inter> npq_todo q = {}" "npq_shut q \<subseteq> D" "set vis \<subseteq> {..<length adj}"
    "\<forall>v \<in> set vis. (adj_edge adj)\<^sup>*\<^sup>* s v" "\<forall>u \<in> D - P. set (adj ! u) \<subseteq> set vis"
    using inv by (simp_all add: beam_inv_def)
  obtain n q1 where q1: "closest_unexpanded q = Inr (n, q1)" "npq_ok d q1" "npq_ids q1 = npq_ids q" "nb_id n \<in> npq_todo q"
    "npq_todo q1 = npq_todo q - {nb_id n}" "npq_keys q1 = npq_keys q" "npq_shut q1 \<subseteq> insert (nb_id n) (npq_shut q)"
    "q_capacity q1 = q_capacity q"
    using npq_pop_todo[OF I(1) has] by metis
  have n: "nb_id n \<in> set vis" using q1(4) I(4) npq_ids_split by blast
  have "beam_inv L d adj s (insert (nb_id n) D) (insert (nb_id n) P) vis q1"
    unfolding beam_inv_def using q1 I n by (intro conjI) (simp | blast)+
  moreover have "beam_work adj vis q1 < beam_work adj vis q"
    using card_Diff1_less[OF sq.finite_todo q1(4)] q1(5) by (simp add: beam_work_def)
  ultimately show ?thesis
    using that q1(1,4) I(5,7) n by blast
qed

section \<open>Rounds\<close>

text \<open>The cache answers with the node's list or not at all.\<close>

definition cache_true :: "nat list list \<Rightarrow> cache \<Rightarrow> bool" where
  "cache_true adj c \<longleftrightarrow> (\<forall>i < length adj. \<forall>off. cache_lookup c i = Some off \<longrightarrow> cached_neighbors c off = Inr (adj ! i))"

lemma collect_ok:
  assumes g: "beam_graph d adj" and c: "cache_true adj c" and "beam_inv L d adj s D (set fr) vis q" "set fr \<subseteq> D"
  shows "\<exists>vis' q' fr' D'. collect d c bw n (vis, q, fr) = Inr (vis', q', fr') \<and> beam_inv L d adj s D' (set fr') vis' q' \<and>
    set fr' \<subseteq> D' \<and> length fr' \<le> max bw (length fr) \<and>
    (if 0 < n \<and> has_unexpanded_node q \<and> length fr < bw then beam_work adj vis' q' < beam_work adj vis q
     else beam_work adj vis' q' \<le> beam_work adj vis q)"
  using assms(3,4)
proof (induction n arbitrary: D fr vis q)
  case 0
  then show ?case by auto
next
  case (Suc n)
  show ?case
  proof (cases "has_unexpanded_node q \<and> length fr < bw")
    case False
    then show ?thesis using Suc.prems by auto
  next
    case True
    obtain nb q1 where q1: "closest_unexpanded q = Inr (nb, q1)" "nb_id nb \<notin> D" "nb_id nb < length adj"
      "beam_inv L d adj s (insert (nb_id nb) D) (insert (nb_id nb) (set fr)) vis q1" "beam_work adj vis q1 < beam_work adj vis q"
      using beam_pop[OF Suc.prems(1)] True by blast
    show ?thesis
    proof (cases "cache_lookup c (nb_id nb)")
      case None
      have "collect d c bw (Suc n) (vis, q, fr) = collect d c bw n (vis, q1, fr @ [nb_id nb])"
        using True q1(1) None by simp
      moreover have "beam_inv L d adj s (insert (nb_id nb) D) (set (fr @ [nb_id nb])) vis q1"
        "set (fr @ [nb_id nb]) \<subseteq> insert (nb_id nb) D" "max bw (length (fr @ [nb_id nb])) = max bw (length fr)"
        using q1(4) Suc.prems(2) True by auto
      ultimately show ?thesis
        using Suc.IH[of "insert (nb_id nb) D" "fr @ [nb_id nb]" vis q1] q1(5) True by (auto split: if_splits)
    next
      case (Some off)
      have ns: "cached_neighbors c off = Inr (adj ! nb_id nb)"
        using c q1(3) Some by (simp add: cache_true_def)
      obtain vis2 q2 where s2: "visit_list d (adj ! nb_id nb) (vis, q1) = Inr (vis2, q2)"
        "beam_inv L d adj s (insert (nb_id nb) D) (insert (nb_id nb) (set fr) - {nb_id nb}) vis2 q2"
        "beam_work adj vis2 q2 \<le> beam_work adj vis q1"
        using visit_list_ok[OF g q1(4), of "nb_id nb"] by auto
      have "nb_id nb \<notin> set fr" using q1(2) Suc.prems(2) by blast
      then have "insert (nb_id nb) (set fr) - {nb_id nb} = set fr" by auto
      then have inv2: "beam_inv L d adj s (insert (nb_id nb) D) (set fr) vis2 q2" using s2(2) by simp
      have "collect d c bw (Suc n) (vis, q, fr) = collect d c bw n (vis2, q2, fr)"
        using True q1(1) Some ns s2(1) by simp
      moreover have "set fr \<subseteq> insert (nb_id nb) D" using Suc.prems(2) by auto
      ultimately show ?thesis
        using Suc.IH[OF inv2] s2(3) q1(5) True by (auto split: if_splits)
    qed
  qed
qed

lemma inline_is_prepare: "inline_node_read (ds_max_node_len s) (ds_nnodes_per_sector s) i = prepare_node_read s i"
  by (simp add: inline_node_read_def prepare_node_read_def abs_offset_def SECTOR_LEN_def Let_def)

text \<open>A search on the combined layout, with its reader, its file and its cache.\<close>

definition sigma_ok :: "sigma \<Rightarrow> nat list list \<Rightarrow> bool" where
  "sigma_ok sg adj \<longleftrightarrow> io_ok (sg_io sg) adj \<and> cache_true adj (sg_cache sg) \<and>
     (\<exists>s. io_src (sg_io sg) = DiskANNGraph s \<and> ds_max_node_len s = sg_max_node_len sg \<and>
        ds_nnodes_per_sector s = sg_nnodes_per_sector sg)"

definition beam_stride :: "sigma \<Rightarrow> nat" where
  "beam_stride sg = gs_get_read_buffer_size (io_src (sg_io sg))"

lemma visit_frontier:
  assumes "beam_graph d adj" "beam_inv L d adj s D P vis q" "set fr \<subseteq> D"
  shows "\<exists>vis' q'. rfold (\<lambda>u. visit_list d (adj ! u)) fr (vis, q) = Inr (vis', q') \<and>
    beam_inv L d adj s D (P - set fr) vis' q' \<and> beam_work adj vis' q' \<le> beam_work adj vis q"
  using assms(2,3)
proof (induction fr arbitrary: P vis q)
  case Nil
  then show ?case by simp
next
  case (Cons u fr)
  obtain vis1 q1 where s1: "visit_list d (adj ! u) (vis, q) = Inr (vis1, q1)" "beam_inv L d adj s D (P - {u}) vis1 q1"
    "beam_work adj vis1 q1 \<le> beam_work adj vis q"
    using visit_list_ok[OF assms(1) Cons.prems(1), of u] Cons.prems(2) by auto
  moreover have "P - {u} - set fr = P - set (u # fr)" by auto
  ultimately show ?case
    using Cons.IH[OF s1(2)] Cons.prems(2) by fastforce
qed

lemma expand_frontier_ok:
  assumes g: "beam_graph d adj" and ok: "sigma_ok sg adj" and inv: "beam_inv L d adj s D (set fr) vis q" "set fr \<subseteq> D"
    and mem: "length fr * beam_stride sg \<le> length scratch"
  obtains mem' vis' q' where "expand_frontier d sg fr (scratch, vis, q) = Inr (mem', vis', q')" "length mem' = length scratch"
    "beam_inv L d adj s D {} vis' q'" "beam_work adj vis' q' \<le> beam_work adj vis q"
proof -
  let ?io = "sg_io sg" and ?st = "beam_stride sg"
  obtain ds where ds: "io_src ?io = DiskANNGraph ds" "ds_max_node_len ds = sg_max_node_len sg" "ds_nnodes_per_sector ds = sg_nnodes_per_sector sg"
    using ok by (auto simp: sigma_ok_def)
  have up: "aio_up (io_sub ?io)" "aio_up (io_got ?io)" "gs_holds (io_src ?io) (io_file ?io) adj"
    using ok by (simp_all add: sigma_ok_def io_ok_def)
  have range: "\<forall>i \<in> set fr. i < length adj" using inv by (auto simp: beam_inv_def)
  have "inline_node_read (sg_max_node_len sg) (sg_nnodes_per_sector sg) = gs_prepare_node_read (io_src ?io)"
    unfolding ds(1) by (rule ext) (simp add: inline_is_prepare flip: ds(2,3))
  then obtain mem' where m: "execute_io (io_sub ?io) (io_got ?io) (io_file ?io)
      (slot_reqs (map (inline_node_read (sg_max_node_len sg) (sg_nnodes_per_sector sg)) fr) 0 ?st) scratch = Inr mem'"
    "length mem' = length scratch" "\<forall>k < length fr. gs_get_neighbors_ptr (io_src ?io) (fr ! k) (drop (k * ?st) mem') = Inr (adj ! (fr ! k))"
    using gsr.batch[OF up(3) range _ mem] execute_io_all[OF up(1,2)] by (auto simp: beam_stride_def)
  have "rfold (\<lambda>k st. rbind (gs_get_neighbors_ptr (io_src ?io) (fr ! k) (drop (k * ?st) mem')) (\<lambda>ns. visit_list d ns st)) [0..<length fr] (vis, q) =
      rfold (\<lambda>u. visit_list d (adj ! u)) fr (vis, q)"
    by (rule rfold_nth) (simp add: m(3))
  moreover obtain vis' q' where "rfold (\<lambda>u. visit_list d (adj ! u)) fr (vis, q) = Inr (vis', q')"
    "beam_inv L d adj s D (set fr - set fr) vis' q'" "beam_work adj vis' q' \<le> beam_work adj vis q"
    using visit_frontier[OF g inv] by blast
  ultimately have "expand_frontier d sg fr (scratch, vis, q) = Inr (mem', vis', q')" "beam_inv L d adj s D {} vis' q'"
    "beam_work adj vis' q' \<le> beam_work adj vis q"
    using m(1) by (simp_all add: expand_frontier_def Let_def beam_stride_def)
  then show ?thesis using that m(2) by blast
qed

lemma beam_round_ok:
  assumes g: "beam_graph d adj" and ok: "sigma_ok sg adj" and inv: "beam_inv L d adj s D {} (bm_visited st) (bm_q st)"
    and has: "has_unexpanded_node (bm_q st)" and bw: "0 < bw" "bw * beam_stride sg \<le> length (bm_scratch st)"
  shows "\<exists>st' D' k. beam_round d sg bw st = Inr st' \<and> beam_inv L d adj s D' {} (bm_visited st') (bm_q st') \<and>
    beam_work adj (bm_visited st') (bm_q st') < beam_work adj (bm_visited st) (bm_q st) \<and>
    bm_ios st' = (if k = 0 then bm_ios st else u32 (bm_ios st + k)) \<and> k \<le> bw \<and> length (bm_scratch st') = length (bm_scratch st)"
proof -
  have c: "cache_true adj (sg_cache sg)" using ok by (simp add: sigma_ok_def)
  obtain vis q fr D1 where co: "collect d (sg_cache sg) bw bw (bm_visited st, bm_q st, []) = Inr (vis, q, fr)"
    "beam_inv L d adj s D1 (set fr) vis q" "set fr \<subseteq> D1" "length fr \<le> bw"
    "beam_work adj vis q < beam_work adj (bm_visited st) (bm_q st)"
    using collect_ok[OF g c, of L s D "[]" "bm_visited st" "bm_q st" bw bw] inv has bw(1) by auto
  show ?thesis
  proof (cases "fr = []")
    case True
    let ?st = "st\<lparr>bm_q := q, bm_visited := vis, bm_hops := u32 (bm_hops st + 1)\<rparr>"
    have "beam_round d sg bw st = Inr ?st" using co(1) True by (simp add: beam_round_def)
    then show ?thesis using co(2,5) True by (intro exI[of _ ?st] exI[of _ D1] exI[of _ 0]) simp
  next
    case False
    have "length fr * beam_stride sg \<le> bw * beam_stride sg" using co(4) by (rule mult_le_mono1)
    then have "length fr * beam_stride sg \<le> length (bm_scratch st)" using bw(2) by linarith
    then obtain mem vis1 q1 where e: "expand_frontier d sg fr (bm_scratch st, vis, q) = Inr (mem, vis1, q1)" "length mem = length (bm_scratch st)"
      "beam_inv L d adj s D1 {} vis1 q1" "beam_work adj vis1 q1 \<le> beam_work adj vis q"
      using expand_frontier_ok[OF g ok co(2,3)] by blast
    let ?st = "st\<lparr>bm_q := q1, bm_visited := vis1, bm_ios := u32 (bm_ios st + length fr), bm_hops := u32 (bm_hops st + 1), bm_scratch := mem\<rparr>"
    have "beam_round d sg bw st = Inr ?st" using co(1) False e(1) by (simp add: beam_round_def)
    then show ?thesis
      using e(2-4) co(4,5) False by (intro exI[of _ ?st] exI[of _ D1] exI[of _ "length fr"]) simp
  qed
qed

lemma beam_loop_ok:
  assumes g: "beam_graph d adj" and ok: "sigma_ok sg adj" and bw: "0 < bw" "bw * beam_stride sg \<le> M" "iol + bw \<le> 2 ^ 32"
    and "beam_inv L d adj s D {} (bm_visited st) (bm_q st)" "length (bm_scratch st) = M" "bm_ios st < iol + bw"
  shows "\<exists>st' D'. beam_loop d sg bw iol st = Some (Inr st') \<and> beam_inv L d adj s D' {} (bm_visited st') (bm_q st') \<and>
    bm_ios st' < iol + bw \<and> (bm_ios st' < iol \<longrightarrow> npq_todo (bm_q st') = {})"
  using assms(6-8)
proof (induction "beam_work adj (bm_visited st) (bm_q st)" arbitrary: st D rule: less_induct)
  case less
  have inv: "npq_inv (bm_q st)" using less.prems(1) by (simp add: beam_inv_def npq_ok_def)
  show ?case
  proof (cases "has_unexpanded_node (bm_q st) \<and> bm_ios st < iol")
    case False
    then have "beam_loop d sg bw iol st = Some (Inr st)" by (subst beam_loop.simps) auto
    then show ?thesis using less.prems False has_unexpanded_iff[OF inv] by blast
  next
    case True
    obtain st1 D1 k where s1: "beam_round d sg bw st = Inr st1" "beam_inv L d adj s D1 {} (bm_visited st1) (bm_q st1)"
      "beam_work adj (bm_visited st1) (bm_q st1) < beam_work adj (bm_visited st) (bm_q st)"
      "bm_ios st1 = (if k = 0 then bm_ios st else u32 (bm_ios st + k))" "k \<le> bw" "length (bm_scratch st1) = M"
      using beam_round_ok[OF g ok less.prems(1) _ bw(1)] True bw(2) less.prems(2) by metis
    have "u32 (bm_ios st + k) = bm_ios st + k" using True s1(5) bw(3) by (intro u32_id) linarith
    then have "bm_ios st1 < iol + bw" using s1(4,5) True by (auto split: if_splits)
    moreover have "beam_loop d sg bw iol st = beam_loop d sg bw iol st1"
      using True s1(1) by (subst beam_loop.simps) simp
    ultimately show ?thesis using less.hyps[OF s1(3,2,6)] by simp
  qed
qed

lemma beam_start_ok:
  assumes "beam_graph d adj" "best < length adj" "0 < L"
  obtains q where "npq_ins d best (npq_reserve (npq_clear q0) L) = Inr q" "beam_inv L d adj best {} {} [best] q"
proof -
  let ?q = "npq_reserve (npq_clear q0) L"
  have st: "npq_ok d ?q" "npq_keys ?q = []" "npq_ids ?q = {}" "q_capacity ?q = L"
    using npq_inv_clear_reserve[OF assms(3), of q0]
    by (simp_all add: npq_ok_def npq_keys_def npq_ids_def) (simp_all add: npq_active_def npq_reserve_def npq_clear_def)
  have nn: "fnonneg (d best)" using assms(1,2) by (simp add: beam_graph_def)
  obtain q where q: "npq_ins d best ?q = Inr q" "npq_ok d q" "npq_ids q \<subseteq> insert best (npq_ids ?q)"
    "npq_keys q = top_ins dist_id_lt L (d best, best) (npq_keys ?q)" "q_capacity q = L" "npq_shut q \<subseteq> npq_shut ?q"
    using npq_insert_todo[OF st(1) nn] st(4) unfolding npq_ins_def by metis
  have "npq_keys q = best_of dist_id_lt L (map (\<lambda>i. (d i, i)) [best])"
    using best_of_snoc[of best "[]" d L] nn q(4) st(2) by (simp add: best_of_def)
  moreover have "npq_shut q = {}" using q(6) st(3) npq_ids_split by auto
  ultimately have "beam_inv L d adj best {} {} [best] q"
    unfolding beam_inv_def using q(2,3,5) st(3) assms(2) by simp
  then show ?thesis using that q(1) by blast
qed

lemma query_pq_dist_nonneg:
  assumes "\<forall>x \<in> set pq_dists. fnonneg x" "256 * num_chunks \<le> length pq_dists"
  shows "fnonneg (query_pq_dist pq_data num_chunks pq_dists i)"
proof -
  let ?c = "aggregate_coords pq_data num_chunks i"
  have "fnonneg (foldl (\<lambda>acc chunk. fadd Binary32 acc (pq_dists ! (256 * chunk + unat (?c ! chunk)))) z cs)"
    if "fnonneg z" "\<forall>k \<in> set cs. k < num_chunks" for z cs
    using that
  proof (induction cs arbitrary: z)
    case Nil
    then show ?case by simp
  next
    case (Cons k cs)
    have "256 * k + unat (?c ! k) < 256 * (k + 1)" using unat_byte_lt[of "?c ! k"] by simp
    also have "\<dots> \<le> 256 * num_chunks" using Cons.prems(2) by (intro mult_le_mono2) simp
    finally have "fnonneg (pq_dists ! (256 * k + unat (?c ! k)))" using assms by simp
    then show ?case using Cons by (simp add: fadd_nonneg)
  qed
  from this[of fzero "[0..<num_chunks]"] show ?thesis
    by (simp add: query_pq_dist_def pq_dist_lookup_def)
qed

section \<open>Properties\<close>

lemma beam_run:
  assumes "beam_graph d adj" "sigma_ok sg adj" "best < length adj" "0 < L" "0 < beam_width"
    and "beam_width * beam_stride sg \<le> length scratch" "io_limit + beam_width \<le> 2 ^ 32"
  shows "\<exists>st. beam_search d sg q0 scratch best L beam_width io_limit = Some (Inr st) \<and>
    npq_keys (bm_q st) = best_of dist_id_lt L (map (\<lambda>i. (d i, i)) (bm_visited st)) \<and>
    (\<forall>v \<in> set (bm_visited st). (adj_edge adj)\<^sup>*\<^sup>* best v) \<and>
    (bm_ios st < io_limit \<longrightarrow> (\<forall>u \<in> npq_ids (bm_q st). set (adj ! u) \<subseteq> set (bm_visited st)))"
proof -
  obtain q where q: "npq_ins d best (npq_reserve (npq_clear q0) L) = Inr q" "beam_inv L d adj best {} {} [best] q"
    using beam_start_ok[OF assms(1,3,4)] by blast
  let ?st = "\<lparr>bm_q = q, bm_visited = [best], bm_ios = 0, bm_hops = 0, bm_scratch = scratch\<rparr>"
  obtain st D where st: "beam_loop d sg beam_width io_limit ?st = Some (Inr st)"
    "beam_inv L d adj best D {} (bm_visited st) (bm_q st)" "bm_ios st < io_limit \<longrightarrow> npq_todo (bm_q st) = {}"
    using beam_loop_ok[OF assms(1,2,5,6,7), of L best "{}" ?st] q(2) assms(5) by auto
  have "set (adj ! u) \<subseteq> set (bm_visited st)" if "bm_ios st < io_limit" "u \<in> npq_ids (bm_q st)" for u
    using that st(2,3) npq_ids_split unfolding beam_inv_def by blast
  then show ?thesis
    using st(1,2) q(1) by (auto simp: beam_search_def beam_inv_def)
qed


lemma beam_example:
  obtains sg scratch where "sigma_ok sg [[0]]" "beam_graph (\<lambda>i. fzero) [[0]]" "1 * beam_stride sg \<le> length (scratch :: byte list)"
proof -
  let ?s = "\<lparr>ds_max_node_len = 8, ds_max_degree = 1, ds_bytes_per_point = 0, ds_nnodes_per_sector = 512\<rparr>"
  obtain h :: bfile where h: "length h = 4096" using Ex_list_of_length by blast
  let ?f = "h @ le_bytes 4 1 @ enc32 [0]"
  have "disk_node ?f ?s 0 [] [0]"
    using h by (simp add: disk_node_def node_off_def block_append_right) (simp add: block_def)
  then have "disk_graph ?s ?f [[0]]" by (auto simp: disk_graph_def disk_source_ok_def)
  then have sg: "sigma_ok \<lparr>sg_max_node_len = 8, sg_nnodes_per_sector = 512,
      sg_io = \<lparr>io_sub = (\<lambda>i n. int n), io_got = (\<lambda>i n. int n), io_file = ?f, io_src = DiskANNGraph ?s\<rparr>, sg_cache = cache_empty\<rparr> [[0]]"
    by (simp add: sigma_ok_def io_ok_def aio_up_def cache_true_def cache_lookup_def cache_empty_def find_cache_lookup_def)
  moreover have "beam_graph (\<lambda>i. fzero) [[0]]" by (simp add: beam_graph_def MAX_GRAPH_DEGREE_def)
  moreover have "\<exists>m :: byte list. length m = N" for N by (rule Ex_list_of_length)
  ultimately show ?thesis using that by (metis order.refl)
qed


text \<open>The I/O limit: a traversal issues fewer than \<open>io_limit + beam_width\<close> node reads, because the limit is
  tested once per round and a round issues at most \<open>beam_width\<close>.\<close>

theorem beam_search_ios:
  assumes "beam_graph d adj" "sigma_ok sg adj" "best < length adj" "0 < L" "0 < beam_width"
    and "beam_width * beam_stride sg \<le> length scratch" "io_limit + beam_width \<le> 2 ^ 32"
  shows "\<exists>st. beam_search d sg q0 scratch best L beam_width io_limit = Some (Inr st) \<and> bm_ios st < io_limit + beam_width"
proof -
  obtain q where q: "npq_ins d best (npq_reserve (npq_clear q0) L) = Inr q" "beam_inv L d adj best {} {} [best] q"
    using beam_start_ok[OF assms(1,3,4)] by blast
  let ?st = "\<lparr>bm_q = q, bm_visited = [best], bm_ios = 0, bm_hops = 0, bm_scratch = scratch\<rparr>"
  show ?thesis
    using beam_loop_ok[OF assms(1,2,5,6,7), of L best "{}" ?st] q assms(5) by (auto simp: beam_search_def)
qed

theorem beam_search_ios_witness:
  "\<exists>sg scratch st. beam_search (\<lambda>i. fzero) sg (npq_new 1) scratch 0 1 1 5 = Some (Inr st) \<and> bm_ios st < 5 + 1"
proof -
  obtain sg and scratch :: "byte list" where e: "sigma_ok sg [[0]]" "beam_graph (\<lambda>i. fzero) [[0]]" "1 * beam_stride sg \<le> length scratch"
    by (rule beam_example)
  show ?thesis
    using beam_search_ios[OF e(2,1), of 0 1 1 scratch 5 "npq_new 1"] e(3) by auto
qed

text \<open>The sector scratch holds 64 nodes and no more: with nodes of at most a sector, the read of the 65th
  frontier node, which a beam width above 64 allows, lies outside the scratch.\<close>

theorem beam_width_overflow:
  assumes "disk_source_ok s" "ds_max_node_len s \<le> 4096" "64 < length frontier" "frontier ! 64 < 2 ^ 32"
    and "fst (prepare_node_read s (frontier ! 64)) + 4096 \<le> length f" "length scratch = MAX_N_SECTOR_READS * SECTOR_LEN"
  shows "aio_pread f (slot_reqs (map (inline_node_read (ds_max_node_len s) (ds_nnodes_per_sector s)) frontier) 0
    (get_read_buffer_size s) ! 64) scratch = Inl OutOfRange"
proof -
  have "0 < ds_max_node_len s" using assms(1) by (simp add: disk_source_ok_def)
  then have "(ds_max_node_len s + 4096 + 4095) div 4096 = 2" using assms(2) by simp
  then have stride: "get_read_buffer_size s = 8192"
    by (simp add: disk_read_size[OF assms(1)] round_up_nat_def div_up_def)
  have len: "snd (prepare_node_read s (frontier ! 64)) = 4096"
    using node_in_buf(2)[OF assms(1,4)] assms(2) by simp
  have rq: "slot_reqs (map (inline_node_read (ds_max_node_len s) (ds_nnodes_per_sector s)) frontier) 0 8192 ! 64 =
      \<lparr>ar_offset = fst (prepare_node_read s (frontier ! 64)), ar_len = 4096, ar_buf = 524288\<rparr>"
    using assms(3) len by (simp add: slot_reqs_def inline_is_prepare)
  have "length (block f (fst (prepare_node_read s (frontier ! 64))) 4096) = 4096"
    using assms(5) by simp
  then show ?thesis
    unfolding stride rq by (auto simp: aio_pread_def assms(6) MAX_N_SECTOR_READS_def SECTOR_LEN_def Let_def)
qed

theorem beam_width_overflow_witness:
  "\<exists>s frontier f scratch. aio_pread f (slot_reqs (map (inline_node_read (ds_max_node_len s) (ds_nnodes_per_sector s)) frontier) 0
    (get_read_buffer_size s) ! 64) scratch = Inl OutOfRange"
proof -
  let ?s = "\<lparr>ds_max_node_len = 8, ds_max_degree = 1, ds_bytes_per_point = 0, ds_nnodes_per_sector = 512\<rparr>"
  obtain f :: bfile where f: "length f = 8192" using Ex_list_of_length by blast
  obtain scratch :: "byte list" where m: "length scratch = MAX_N_SECTOR_READS * SECTOR_LEN" using Ex_list_of_length by blast
  have z: "[0..<65] ! 64 = 64" by simp
  have "fst (prepare_node_read ?s 64) = 4096"
    by (simp add: prepare_node_read_def abs_offset_def SECTOR_LEN_def u64_def Let_def)
  moreover have "disk_source_ok ?s" by (simp add: disk_source_ok_def)
  ultimately have "aio_pread f (slot_reqs (map (inline_node_read (ds_max_node_len ?s) (ds_nnodes_per_sector ?s)) [0..<65]) 0
      (get_read_buffer_size ?s) ! 64) scratch = Inl OutOfRange"
    using f m z by (intro beam_width_overflow) simp_all
  then show ?thesis by blast
qed

text \<open>The in-place request ignores the layout: with \<open>SIGMA_LAYOUT=SEPARATE\<close> the loop asks for node 0 at byte
  4096, behind a header sector that the separate graph file does not have; \<open>FixedGraphSource\<close> keeps node 0
  in the first 512 bytes.\<close>

theorem separate_layout_misread:
  "fst (inline_node_read 292 14 0) = 4096 \<and> fst (fixed_prepare_node_read (fixed_source_new 70) 0) = 0"
  by (simp add: inline_node_read_def fixed_prepare_node_read_def fixed_diff_def fixed_source_new_def u64_def Let_def)

end
