(* ===== verification/Beam_Refine.thy ===== *)
theory Beam_Refine
  imports Disk_Layout Beam_Search
begin

text \<open>
  The second half of \<open>SigmaSearch::cached_beam_search_explicit\<close> (\<open>search/ours_search.cpp\<close>): the
  candidates left in the queue are re-ranked by exact distances, in batches read from the vector
  source, with an early exit when the ids of the best \<open>k\<close> stay the same; the best \<open>k\<close> are returned.
  The exact distance of a vector to the query is the argument \<open>exact\<close>.
\<close>

section \<open>How many candidates\<close>

fun fceil :: "fp \<Rightarrow> fp" where
  "fceil (Fin s m) = (if s then Fin True (of_int \<lfloor>m\<rfloor>) else Fin False (of_int \<lceil>m\<rceil>))"
| "fceil x = x"

definition refine_count :: "nat \<Rightarrow> nat \<Rightarrow> nat \<Rightarrow> nat \<Rightarrow> fp \<Rightarrow> nat res" where
  "refine_count l_search ncand k_search fixed_refine_count fixed_refine_ratio =
     (let refine_num = min l_search ncand
      in if fixed_refine_count > 0 then Inr (min refine_num fixed_refine_count)
         else if flt fzero fixed_refine_ratio then
           (case f_to_u64 (fceil (fmul Binary64 (f_of_nat Binary64 refine_num) fixed_refine_ratio)) of
              None \<Rightarrow> Inl OutOfRange
            | Some ratio_refine \<Rightarrow> Inr (min refine_num (max k_search ratio_refine)))
         else Inr refine_num)"

definition batch_refine_size :: "string option \<Rightarrow> nat" where
  "batch_refine_size env_bs =
     (case env_bs of None \<Rightarrow> 50 | Some s \<Rightarrow> if atoi s > 0 then nat (atoi s) else 50)"

section \<open>The best k ids\<close>

text \<open>\<open>std::push_heap\<close> and \<open>std::pop_heap\<close> of the standard library in use, on pairs compared by distance.\<close>

function heap_up :: "(fp \<times> nat) list \<Rightarrow> nat \<Rightarrow> fp \<times> nat \<Rightarrow> (fp \<times> nat) list" where
  "heap_up xs hole v =
     (let parent = (hole - 1) div 2
      in if 0 < hole \<and> flt (fst (xs ! parent)) (fst v) then heap_up (xs[hole := xs ! parent]) parent v
         else xs[hole := v])"
  by pat_completeness auto
termination
  by (relation "measure (\<lambda>(xs, hole, v). hole)") (auto simp: Let_def)

declare heap_up.simps [simp del]

function heap_down :: "(fp \<times> nat) list \<Rightarrow> nat \<Rightarrow> nat \<Rightarrow> (fp \<times> nat) list \<times> nat" where
  "heap_down xs hole len =
     (if hole < (len - 1) div 2 then
        let right = 2 * (hole + 1);
            child = (if flt (fst (xs ! right)) (fst (xs ! (right - 1))) then right - 1 else right)
        in heap_down (xs[hole := xs ! child]) child len
      else if even len \<and> 0 < len \<and> hole = (len - 2) div 2 then
        (xs[hole := xs ! (2 * (hole + 1) - 1)], 2 * (hole + 1) - 1)
      else (xs, hole))"
  by pat_completeness auto
termination
  by (relation "measure (\<lambda>(xs, hole, len). len - hole)") (auto simp: Let_def)

declare heap_down.simps [simp del]

definition push_heap :: "(fp \<times> nat) list \<Rightarrow> (fp \<times> nat) list" where
  "push_heap xs = heap_up xs (length xs - 1) (last xs)"

text \<open>\<open>pop_heap\<close> moves the front to the end; the caller overwrites it there.\<close>

definition pop_heap :: "(fp \<times> nat) list \<Rightarrow> (fp \<times> nat) list" where
  "pop_heap xs =
     (if 1 < length xs then
        let n = length xs - 1; v = xs ! n; (ys, hole) = heap_down (take n xs) 0 n
        in heap_up ys hole v @ [xs ! 0]
      else xs)"

definition topk_step :: "nat \<Rightarrow> fp \<times> nat \<Rightarrow> (fp \<times> nat) list \<Rightarrow> (fp \<times> nat) list" where
  "topk_step K cur heap =
     (if length heap < K then push_heap (heap @ [cur])
      else if flt (fst cur) (fst (heap ! 0)) then push_heap (butlast (pop_heap heap) @ [cur])
      else heap)"

definition compute_topk_ids :: "(fp \<times> nat) list \<Rightarrow> nat \<Rightarrow> nat \<Rightarrow> nat list" where
  "compute_topk_ids cands M k =
     (let K = min k M
      in if K = 0 then [] else sort (map snd (fold (topk_step K) (take M cands) [])))"

section \<open>Vector sources\<close>

datatype vsrc = DiskANNVector disk_source | BinVector nat

fun vs_prepare_batch_read :: "vsrc \<Rightarrow> nat list \<Rightarrow> (nat \<times> nat) list" where
  "vs_prepare_batch_read (DiskANNVector s) ids = vec_prepare_batch_read s ids"
| "vs_prepare_batch_read (BinVector v) ids = bin_prepare_batch_read v ids"

fun vs_get_vector :: "vsrc \<Rightarrow> nat \<Rightarrow> byte list \<Rightarrow> nat \<Rightarrow> byte list res" where
  "vs_get_vector (DiskANNVector s) i buf n = get_vector s i buf n"
| "vs_get_vector (BinVector v) i buf n = bin_get_vector v i buf n"

fun vs_read_buffer_size :: "vsrc \<Rightarrow> nat" where
  "vs_read_buffer_size (DiskANNVector s) = vec_read_buffer_size s"
| "vs_read_buffer_size (BinVector v) = bin_get_read_buffer_size v"

section \<open>Refinement\<close>

record refiner =
  rf_sub :: "nat \<Rightarrow> nat \<Rightarrow> int"
  rf_got :: "nat \<Rightarrow> nat \<Rightarrow> int"
  rf_file :: bfile
  rf_src :: vsrc
  rf_vec_bytes :: nat

text \<open>One batch: the candidates from \<open>start\<close> on, \<open>bsz\<close> of them, get their exact distances.\<close>

definition refine_batch ::
    "(byte list \<Rightarrow> fp) \<Rightarrow> refiner \<Rightarrow> nat \<Rightarrow> nat \<Rightarrow> byte list \<times> (fp \<times> nat) list \<Rightarrow> (byte list \<times> (fp \<times> nat) list) res" where
  "refine_batch exact rf start bsz st =
     (case st of (buf, cands) \<Rightarrow>
        let chunk_size = vs_read_buffer_size (rf_src rf);
            batch_ids = map (\<lambda>j. snd (cands ! (start + j))) [0..<bsz];
            reqs = slot_reqs (vs_prepare_batch_read (rf_src rf) batch_ids) 0 chunk_size
        in rbind (execute_io (rf_sub rf) (rf_got rf) (rf_file rf) reqs buf) (\<lambda>mem.
           rbind (rfold (\<lambda>j cs.
                    rbind (vs_get_vector (rf_src rf) (batch_ids ! j) (drop (j * chunk_size) mem) (rf_vec_bytes rf)) (\<lambda>v.
                      Inr (cs[start + j := (exact v, snd (cs ! (start + j)))]))) [0..<bsz] cands) (\<lambda>cs.
             Inr (mem, cs))))"

text \<open>The loop over the batches. \<open>dyn\<close> says whether the early exit is on; \<open>prev\<close> and \<open>streak\<close> are its
  state.\<close>

function refine_loop ::
    "(byte list \<Rightarrow> fp) \<Rightarrow> refiner \<Rightarrow> bool \<Rightarrow> nat \<Rightarrow> nat \<Rightarrow> nat \<Rightarrow> nat \<Rightarrow> nat \<Rightarrow> nat list \<Rightarrow> nat \<Rightarrow>
     byte list \<times> (fp \<times> nat) list \<Rightarrow> (fp \<times> nat) list res" where
  "refine_loop exact rf dyn k early_exit_streak M B start prev streak st =
     (if M \<le> start \<or> B = 0 then Inr (snd st)
      else
        case refine_batch exact rf start (min B (M - start)) st of
          Inl e \<Rightarrow> Inl e
        | Inr st1 \<Rightarrow>
            if dyn then
              let curr = compute_topk_ids (snd st1) M k
              in if curr = prev then
                   (if streak + 1 \<ge> early_exit_streak then Inr (snd st1)
                    else refine_loop exact rf dyn k early_exit_streak M B (start + B) curr (streak + 1) st1)
                 else refine_loop exact rf dyn k early_exit_streak M B (start + B) curr 0 st1
            else refine_loop exact rf dyn k early_exit_streak M B (start + B) prev streak st1)"
  by pat_completeness auto
termination
  by (relation "measure (\<lambda>(exact, rf, dyn, k, es, M, B, start, prev, streak, st). M - start)") auto

declare refine_loop.simps [simp del]

text \<open>\<open>std::partial_sort\<close> by distance and id, and the output: ids and distances of the first \<open>Kout\<close>;
  for inner products the distance is negated.\<close>

definition refine_output :: "bool \<Rightarrow> nat \<Rightarrow> nat \<Rightarrow> (fp \<times> nat) list \<Rightarrow> (nat \<times> fp) list" where
  "refine_output inner_product k_search M cands =
     map (\<lambda>(d, i). (i, if inner_product then fneg d else d)) (take (min k_search M) (std_sort dist_id_lt (take M cands)))"

definition refine ::
    "(byte list \<Rightarrow> fp) \<Rightarrow> refiner \<Rightarrow> (nat \<Rightarrow> byte list) \<Rightarrow> string option \<Rightarrow> bool \<Rightarrow> nat \<Rightarrow> nat \<Rightarrow> bool \<Rightarrow> nat \<Rightarrow> nat \<Rightarrow> fp \<Rightarrow>
     (fp \<times> nat) list \<Rightarrow> (nat \<times> fp) list res" where
  "refine exact rf fresh env_bs inner_product k_search l_search refine_total early_exit_streak fixed_refine_count
     fixed_refine_ratio cands =
     rbind (refine_count l_search (length cands) k_search fixed_refine_count fixed_refine_ratio) (\<lambda>M.
       let B = batch_refine_size env_bs;
           buf = fresh (B * vs_read_buffer_size (rf_src rf));
           streak_min = (if early_exit_streak = 0 then 1 else early_exit_streak);
           dyn = (\<not> refine_total \<and> fixed_refine_count = 0 \<and> feq fixed_refine_ratio fzero);
           prev = (if dyn then compute_topk_ids cands M k_search else [])
       in rbind (refine_loop exact rf dyn k_search streak_min M B 0 prev 0 (buf, cands)) (\<lambda>cs.
            Inr (refine_output inner_product k_search M cs)))"

section \<open>Batches of vectors\<close>

definition disk_vectors :: "disk_source \<Rightarrow> bfile \<Rightarrow> byte list list \<Rightarrow> bool" where
  "disk_vectors s f vecs \<longleftrightarrow> disk_source_ok s \<and> length vecs \<le> 2 ^ 32 \<and> (\<forall>i < length vecs. \<exists>ns. disk_node f s i (vecs ! i) ns)"

lemma disk_vector_found:
  assumes "disk_source_ok s" "i < 2 ^ 32" "disk_node f s i v ns"
    and "bs = block f (fst (prepare_node_read s i)) (snd (prepare_node_read s i))" "take (length bs) buf = bs"
  shows "get_vector s i buf (ds_bytes_per_point s) = Inr v"
proof -
  let ?o = "abs_offset s i - abs_offset s i div 4096 * 4096" and ?b = "ds_bytes_per_point s" and ?n = "4 + 4 * length ns"
  have blk: "block buf ?o (?b + ?n) = v @ le_bytes 4 (length ns) @ enc32 ns"
    using disk_node_buf[OF assms(1-3)] assms(4,5) by simp
  have "?o + (?b + ?n) \<le> length buf"
    using arg_cong[OF blk, of length] assms(3) by (simp add: disk_node_def length_block_min min_def split: if_splits)
  then have lenb: "?o + ?b \<le> length buf" by linarith
  have "block buf ?o ?b = block (block buf ?o (?b + ?n)) 0 ?b"
    using block_slice[of 0 ?b "?b + ?n" buf ?o] by simp
  also have "\<dots> = v"
    unfolding blk using assms(3) by (simp add: block_def disk_node_def)
  finally show ?thesis
    using lenb unfolding get_vector_def SECTOR_LEN_def Let_def by simp
qed

interpretation dvs: record_source prepare_node_read "\<lambda>s i buf. get_vector s i buf (ds_bytes_per_point s)" vec_read_buffer_size disk_vectors
proof
  fix s f vecs i bs buf
  assume h: "disk_vectors s f vecs" "i < length vecs"
  then have ok: "disk_source_ok s" "i < 2 ^ 32" by (auto simp: disk_vectors_def)
  then show "snd (prepare_node_read s i) \<le> vec_read_buffer_size s"
    using disk_read_fits by (simp add: vec_read_buffer_size_def get_read_buffer_size_def)
  assume "bs = block f (fst (prepare_node_read s i)) (snd (prepare_node_read s i))" "take (length bs) buf = bs"
  then show "get_vector s i buf (ds_bytes_per_point s) = Inr (vecs ! i)"
    using h disk_vector_found[OF ok] by (auto simp: disk_vectors_def)
qed

lemma vec_prepare_eq: "vec_prepare_batch_read s ids = map (prepare_node_read s) ids"
  by (simp add: vec_prepare_batch_read_def prepare_node_read_def)

text \<open>A refiner on the combined layout.\<close>

definition refiner_ok :: "refiner \<Rightarrow> byte list list \<Rightarrow> bool" where
  "refiner_ok rf vecs \<longleftrightarrow> aio_up (rf_sub rf) \<and> aio_up (rf_got rf) \<and>
     (\<exists>s. rf_src rf = DiskANNVector s \<and> rf_vec_bytes rf = ds_bytes_per_point s \<and> disk_vectors s (rf_file rf) vecs)"

text \<open>The exact distances of the candidates from \<open>a\<close> up to \<open>b\<close>.\<close>

definition exact_range :: "(byte list \<Rightarrow> fp) \<Rightarrow> byte list list \<Rightarrow> nat \<Rightarrow> nat \<Rightarrow> (fp \<times> nat) list \<Rightarrow> (fp \<times> nat) list" where
  "exact_range exact vecs a b cands =
     map (\<lambda>j. if a \<le> j \<and> j < b then (exact (vecs ! snd (cands ! j)), snd (cands ! j)) else cands ! j) [0..<length cands]"

lemma length_exact_range [simp]: "length (exact_range exact vecs a b cands) = length cands"
  by (simp add: exact_range_def)

lemma exact_range_empty [simp]: "exact_range exact vecs a a cands = cands"
  by (rule nth_equalityI) (auto simp: exact_range_def)

lemma exact_range_join: "a \<le> b \<Longrightarrow> b \<le> c \<Longrightarrow> exact_range exact vecs b c (exact_range exact vecs a b cands) = exact_range exact vecs a c cands"
  by (rule nth_equalityI) (auto simp: exact_range_def)

lemma exact_range_Suc: "b < length cands \<Longrightarrow> a \<le> b \<Longrightarrow>
    (exact_range exact vecs a b cands)[b := (exact (vecs ! snd (cands ! b)), snd (cands ! b))] = exact_range exact vecs a (Suc b) cands"
  by (rule nth_equalityI) (auto simp: exact_range_def nth_list_update)

lemma snd_exact_range: "map snd (exact_range exact vecs a b cands) = map snd cands"
  by (rule nth_equalityI) (auto simp: exact_range_def)

lemma refine_batch_ok:
  assumes "refiner_ok rf vecs" "\<forall>i \<in> snd ` set cands. i < length vecs" "start + bsz \<le> length cands"
    and "bsz * vs_read_buffer_size (rf_src rf) \<le> length buf"
  shows "\<exists>mem. refine_batch exact rf start bsz (buf, cands) = Inr (mem, exact_range exact vecs start (start + bsz) cands) \<and> length mem = length buf"
proof -
  obtain s where s: "rf_src rf = DiskANNVector s" "rf_vec_bytes rf = ds_bytes_per_point s" "disk_vectors s (rf_file rf) vecs"
    "aio_up (rf_sub rf)" "aio_up (rf_got rf)"
    using assms(1) by (auto simp: refiner_ok_def)
  let ?ids = "map (\<lambda>j. snd (cands ! (start + j))) [0..<bsz]" and ?c = "vec_read_buffer_size s"
  have "\<forall>i \<in> set ?ids. i < length vecs"
    using assms(2,3) by auto
  moreover have "length ?ids * ?c \<le> length buf" using assms(4) s(1) by simp
  ultimately obtain mem where m: "rfold (aio_pread (rf_file rf)) (slot_reqs (map (prepare_node_read s) ?ids) 0 ?c) buf = Inr mem" "length mem = length buf"
    "\<forall>k < length ?ids. get_vector s (?ids ! k) (drop (k * ?c) mem) (ds_bytes_per_point s) = Inr (vecs ! (?ids ! k))"
    using dvs.batch[OF s(3) _ order.refl] by blast
  have "rfold (\<lambda>j cs. rbind (get_vector s (?ids ! j) (drop (j * ?c) mem) (ds_bytes_per_point s)) (\<lambda>v.
      Inr (cs[start + j := (exact v, snd (cs ! (start + j)))]))) [0..<n] cands = Inr (exact_range exact vecs start (start + n) cands)"
    if "n \<le> bsz" for n
    using that
  proof (induction n)
    case 0
    then show ?case by simp
  next
    case (Suc n)
    have n: "start + n < length cands" "n < length ?ids" using Suc.prems assms(3) by simp_all
    have "snd (exact_range exact vecs start (start + n) cands ! (start + n)) = snd (cands ! (start + n))"
      using n(1) by (simp add: exact_range_def)
    moreover have "(exact_range exact vecs start (start + n) cands)[start + n := (exact (vecs ! snd (cands ! (start + n))), snd (cands ! (start + n)))] =
        exact_range exact vecs start (Suc (start + n)) cands"
      by (rule exact_range_Suc[OF n(1)]) simp
    moreover have "get_vector s (?ids ! n) (drop (n * ?c) mem) (ds_bytes_per_point s) = Inr (vecs ! snd (cands ! (start + n)))"
      using m(3) n(2) by simp
    ultimately show ?case
      using Suc by (simp add: rfold_append)
  qed
  from this[OF order.refl] show ?thesis
    using m(1,2) s by (simp add: refine_batch_def vec_prepare_eq execute_io_all Let_def)
qed

text \<open>The batches taken in order refine a growing prefix of the candidates; without the early exit it
  grows to all \<open>M\<close> of them.\<close>

lemma refine_loop_ok:
  assumes "refiner_ok rf vecs" "\<forall>i \<in> snd ` set cands. i < length vecs" "M \<le> length cands" "0 < B"
    and "B * vs_read_buffer_size (rf_src rf) \<le> length buf" "start \<le> M"
    and "exact_range exact vecs 0 start cands = cs"
  shows "\<exists>m. start \<le> m \<and> m \<le> M \<and> (\<not> dyn \<longrightarrow> m = M) \<and>
    refine_loop exact rf dyn k es M B start prev streak (buf, cs) = Inr (exact_range exact vecs 0 m cands)"
  using assms(5-7)
proof (induction "M - start" arbitrary: start prev streak buf cs rule: less_induct)
  case less
  show ?case
  proof (cases "start < M")
    case False
    then have "refine_loop exact rf dyn k es M B start prev streak (buf, cs) = Inr cs"
      by (simp add: refine_loop.simps[of _ _ _ _ _ _ _ start])
    then show ?thesis
      using less.prems False by (intro exI[of _ start]) simp
  next
    case True
    let ?n = "min B (M - start)"
    have ids: "\<forall>i \<in> snd ` set cs. i < length vecs"
      using assms(2) snd_exact_range[of exact vecs 0 start cands] less.prems(3) by (metis list.set_map)
    have "?n * vs_read_buffer_size (rf_src rf) \<le> B * vs_read_buffer_size (rf_src rf)"
      by (rule mult_le_mono1) simp
    from order.trans[OF this less.prems(1)]
    have sp: "start + ?n \<le> length cs" "?n * vs_read_buffer_size (rf_src rf) \<le> length buf"
      using True assms(3) less.prems(3) by auto
    obtain mem where mem: "refine_batch exact rf start ?n (buf, cs) = Inr (mem, exact_range exact vecs start (start + ?n) cs)"
      "length mem = length buf"
      using refine_batch_ok[OF assms(1) ids sp] by blast
    define cs1 where "cs1 = exact_range exact vecs start (start + ?n) cs"
    have cs1: "cs1 = exact_range exact vecs 0 (start + ?n) cands"
      using exact_range_join[of 0 start "start + ?n" exact vecs cands] less.prems(3) by (simp add: cs1_def)
    have next_ok: "\<exists>m. start \<le> m \<and> m \<le> M \<and> (\<not> dyn \<longrightarrow> m = M) \<and>
        refine_loop exact rf dyn k es M B (start + B) pr sk (mem, cs1) = Inr (exact_range exact vecs 0 m cands)" for pr sk
    proof (cases "start + B \<le> M")
      case le: True
      have "exact_range exact vecs 0 (start + B) cands = cs1"
        using le cs1 by (simp add: min_absorb1)
      from less.hyps[OF _ _ le this] show ?thesis
        using True assms(4) less.prems(1) mem(2) by (metis add_leD1 diff_less_mono2 less_add_same_cancel1)
    next
      case False
      then have "refine_loop exact rf dyn k es M B (start + B) pr sk (mem, cs1) = Inr cs1"
        by (simp add: refine_loop.simps[of _ _ _ _ _ _ _ "start + B"])
      moreover have "cs1 = exact_range exact vecs 0 M cands"
        using False True cs1 by (simp add: min_absorb2)
      ultimately show ?thesis using True by (intro exI[of _ M]) simp
    qed
    have here: "\<exists>m. start \<le> m \<and> m \<le> M \<and> Inr cs1 = Inr (exact_range exact vecs 0 m cands)"
      using cs1 True by (intro exI[of _ "start + ?n"]) simp
    show ?thesis
      using True assms(4) mem next_ok here
      by (auto simp: refine_loop.simps[of _ _ _ _ _ _ _ start] Let_def simp flip: cs1_def)
  qed
qed

lemma refine_count_le:
  "refine_count l n k c r = Inr M \<Longrightarrow> M \<le> n"
  by (auto simp: refine_count_def Let_def split: if_splits option.splits)

lemma batch_refine_size_pos: "0 < batch_refine_size env"
  by (simp add: batch_refine_size_def split: option.split)

lemma refine_run:
  assumes "refiner_ok rf vecs" "\<forall>i \<in> snd ` set cands. i < length vecs" "\<forall>n. length (fresh n) = n"
    and "refine_count l_search (length cands) k_search fixed_refine_count fixed_refine_ratio = Inr M"
  shows "\<exists>m \<le> M. (refine_total \<or> 0 < fixed_refine_count \<or> \<not> feq fixed_refine_ratio fzero \<longrightarrow> m = M) \<and>
    refine exact rf fresh env_bs inner_product k_search l_search refine_total early_exit_streak fixed_refine_count
      fixed_refine_ratio cands =
    Inr (map (\<lambda>(d, i). (i, if inner_product then fneg d else d))
      (take (min k_search M) (std_sort dist_id_lt (take M (exact_range exact vecs 0 m cands)))))"
proof -
  let ?B = "batch_refine_size env_bs"
  let ?dyn = "\<not> refine_total \<and> fixed_refine_count = 0 \<and> feq fixed_refine_ratio fzero"
  have "?B * vs_read_buffer_size (rf_src rf) \<le> length (fresh (?B * vs_read_buffer_size (rf_src rf)))"
    using assms(3) by simp
  from refine_loop_ok[OF assms(1,2) refine_count_le[OF assms(4)] batch_refine_size_pos this le0 exact_range_empty,
      where exact = exact and dyn = ?dyn and k = k_search and streak = 0 and
        es = "if early_exit_streak = 0 then 1 else early_exit_streak" and prev = "if ?dyn then compute_topk_ids cands M k_search else []"]
  obtain m where m: "m \<le> M" "\<not> ?dyn \<longrightarrow> m = M"
    "refine_loop exact rf ?dyn k_search (if early_exit_streak = 0 then 1 else early_exit_streak) M ?B 0
       (if ?dyn then compute_topk_ids cands M k_search else []) 0 (fresh (?B * vs_read_buffer_size (rf_src rf)), cands) =
     Inr (exact_range exact vecs 0 m cands)"
    by blast
  have "refine exact rf fresh env_bs inner_product k_search l_search refine_total early_exit_streak fixed_refine_count
      fixed_refine_ratio cands =
    Inr (map (\<lambda>(d, i). (i, if inner_product then fneg d else d))
      (take (min k_search M) (std_sort dist_id_lt (take M (exact_range exact vecs 0 m cands)))))"
    unfolding refine_output_def[symmetric] refine_def assms(4) Let_def by (simp only: rbind_simps m(3))
  then show ?thesis using m(1,2) by auto
qed

text \<open>C10. The second phase of a search on an index in the combined layout. \<open>M\<close> candidates are to be
  refined. The code returns, and what it returns is the best \<open>k\<close> of the first \<open>M\<close> candidates of the
  queue, ordered by distance and id, where a prefix of them carries the exact distance to its vector on
  disk. With \<open>refine_total\<close>, a fixed count or a fixed ratio the prefix is all \<open>M\<close>, whatever the batch size;
  only the dynamic early exit can leave it shorter.\<close>

theorem refine_best:
  assumes "refiner_ok rf vecs" "\<forall>i \<in> snd ` set cands. i < length vecs" "\<forall>n. length (fresh n) = n"
    and "refine_count l_search (length cands) k_search fixed_refine_count fixed_refine_ratio = Inr M"
  shows "\<exists>m \<le> M. (refine_total \<or> 0 < fixed_refine_count \<or> \<not> feq fixed_refine_ratio fzero \<longrightarrow> m = M) \<and>
    refine exact rf fresh env_bs inner_product k_search l_search refine_total early_exit_streak fixed_refine_count
      fixed_refine_ratio cands =
    Inr (map (\<lambda>(d, i). (i, if inner_product then fneg d else d))
      (take (min k_search M) (std_sort dist_id_lt (take M (exact_range exact vecs 0 m cands)))))"
  by (rule refine_run[OF assms])

lemma refiner_example:
  obtains rf where "refiner_ok rf [[1, 2, 3, 4]]"
proof -
  obtain pad :: "byte list" where pad: "length pad = 4096" by (metis Ex_list_of_length)
  let ?s = "\<lparr>ds_max_node_len = 8, ds_max_degree = 0, ds_bytes_per_point = 4, ds_nnodes_per_sector = 512\<rparr>"
  let ?f = "pad @ [1, 2, 3, 4] @ le_bytes 4 0"
  have "disk_node ?f ?s 0 [1, 2, 3, 4] []"
    using pad by (simp add: disk_node_def node_off_def block_def enc32_def)
  then have "disk_vectors ?s ?f [[1, 2, 3, 4]]"
    by (auto simp: disk_vectors_def disk_source_ok_def)
  then have "refiner_ok \<lparr>rf_sub = \<lambda>i n. int n, rf_got = \<lambda>i n. int n, rf_file = ?f, rf_src = DiskANNVector ?s, rf_vec_bytes = 4\<rparr> [[1, 2, 3, 4]]"
    by (simp add: refiner_ok_def aio_up_def)
  then show thesis by (rule that)
qed

theorem refine_best_witness:
  "\<exists>rf. refine (\<lambda>v. f_of_nat Binary32 (length v)) rf (\<lambda>n. replicate n 0) None False 1 1 True 0 0 fzero [(fzero, 0)] =
    Inr [(0, f_of_nat Binary32 4)]"
proof -
  obtain rf where rf: "refiner_ok rf [[1, 2, 3, 4]]" by (rule refiner_example)
  have "refine_count 1 (length [(fzero, 0 :: nat)]) 1 0 fzero = Inr 1"
    by (simp add: refine_count_def)
  from refine_best[OF rf _ _ this, of "\<lambda>n. replicate n 0" True "\<lambda>v. f_of_nat Binary32 (length v)" None False 0]
  have "refine (\<lambda>v. f_of_nat Binary32 (length v)) rf (\<lambda>n. replicate n 0) None False 1 1 True 0 0 fzero [(fzero, 0)] =
    Inr (refine_output False 1 1 (exact_range (\<lambda>v. f_of_nat Binary32 (length v)) [[1, 2, 3, 4]] 0 1 [(fzero, 0)]))"
    by (simp add: refine_output_def)
  also have "\<dots> = Inr [(0, f_of_nat Binary32 4)]"
    by (simp add: refine_output_def exact_range_def eval_nat_numeral)
  finally show ?thesis ..
qed

end
