(* ===== verification/Pq_Table.thy ===== *)
theory Pq_Table
  imports Beam_Search Pq_Prune
begin

text \<open>
  \<open>FixedChunkPQTable\<close> of \<open>src/pq.cpp\<close>, the product-quantisation table of the search: loading it from the pivots
  file, preparing a query and the table of chunk distances that \<open>pq_dist_lookup\<close> sums. Also \<open>load_bin\<close> of
  \<open>include/utils.h\<close> for any element size and offset.
\<close>

section \<open>Loading\<close>

text \<open>\<open>load_bin<T>\<close> with \<open>sizeof(T) = k\<close> on a stream with exceptions: the bytes, \<open>npts\<close> and \<open>dim\<close>.\<close>

definition load_bin_at :: "nat \<Rightarrow> string \<Rightarrow> bfile option \<Rightarrow> nat \<Rightarrow> (byte list \<times> nat \<times> nat) res" where
  "load_bin_at k what fo off =
     (case fo of
        None \<Rightarrow> Inl (ANNException what)
      | Some f \<Rightarrow>
          if length f < off + 8 then Inl (ANNException what)
          else
            let npts = le_nat (block f off 4); dm = le_nat (block f (off + 4) 4)
            in if length f < off + 8 + npts * dm * k then Inl (ANNException what)
               else Inr (block f (off + 8) (npts * dm * k), npts, dm))"

definition f32s :: "byte list \<Rightarrow> fp list" where
  "f32s bs = map f32_of_bits (dec32 bs)"

record pq_table =
  pt_ndims :: nat
  pt_n_chunks :: nat
  pt_tables :: "fp list"
  pt_tables_tr :: "fp list"
  pt_centroid :: "fp list"
  pt_chunk_offsets :: "nat list"
  pt_rotmat_tr :: "fp list option"

text \<open>\<open>tables_tr[j * 256 + i] = tables[i * ndims + j]\<close>\<close>

definition transpose_tables :: "nat \<Rightarrow> fp list \<Rightarrow> fp list" where
  "transpose_tables ndims tables = map (\<lambda>k. tables ! (k mod 256 * ndims + k div 256)) [0..<256 * ndims]"

text \<open>\<open>rot\<close> is the file with the rotation matrix, if there is one. The number of columns of the offsets is not
  tested; without any, the first offset is read outside the array.\<close>

definition load_pq_centroid_bin :: "string \<Rightarrow> bfile option \<Rightarrow> bfile option \<Rightarrow> nat \<Rightarrow> pq_table res" where
  "load_pq_centroid_bin what fo rot num_chunks =
     rbind (load_bin_at 8 what fo 0) (\<lambda>(ob, nr0, nc0).
       if nr0 \<noteq> 4 \<and> nr0 \<noteq> 5 then Inl (ANNException ''Error reading pq_pivots file at offsets data.'')
       else if nc0 = 0 then Inl OutOfRange
       else
         let offs = dec64 (nr0 * nc0) ob
         in rbind (load_bin_at 4 what fo (offs ! 0)) (\<lambda>(tb, nr1, ndims).
              if nr1 \<noteq> 256 then Inl (ANNException ''Error reading pq_pivots file at pivots data.'')
              else rbind (load_bin_at 4 what fo (offs ! 1)) (\<lambda>(cb, nr2, nc2).
                if nr2 \<noteq> ndims \<or> nc2 \<noteq> 1 then Inl (ANNException ''Error reading pq_pivots file at centroid data.'')
                else rbind (load_bin_at 4 what fo (offs ! (if nr0 = 5 then 3 else 2))) (\<lambda>(xb, nr3, nc3).
                  if nc3 \<noteq> 1 \<or> nr3 \<noteq> num_chunks + 1 \<and> num_chunks \<noteq> 0 then Inl (ANNException ''Error loading chunk offsets file'')
                  else
                    rbind (case rot of
                             None \<Rightarrow> Inr None
                           | Some r \<Rightarrow>
                               rbind (load_bin_at 4 what rot 0) (\<lambda>(rb, nr4, nc4).
                                 if nr4 \<noteq> ndims \<or> nc4 \<noteq> ndims then Inl (ANNException ''Error loading rotation matrix file'')
                                 else Inr (Some (f32s rb)))) (\<lambda>rotmat_tr.
                      Inr \<lparr>pt_ndims = ndims, pt_n_chunks = sub64 nr3 1, pt_tables = f32s tb,
                           pt_tables_tr = transpose_tables ndims (f32s tb), pt_centroid = f32s cb,
                           pt_chunk_offsets = dec32 xb, pt_rotmat_tr = rotmat_tr\<rparr>)))))"

definition get_num_chunks :: "pq_table \<Rightarrow> nat" where
  "get_num_chunks pt = u32 (pt_n_chunks pt)"

section \<open>A query\<close>

definition preprocess_query :: "pq_table \<Rightarrow> fp list \<Rightarrow> fp list" where
  "preprocess_query pt query_vec =
     (let ndims = pt_ndims pt;
          q1 = map (\<lambda>d. fsub Binary32 (query_vec ! d) (pt_centroid pt ! d)) [0..<ndims] @ drop ndims query_vec
      in case pt_rotmat_tr pt of
           None \<Rightarrow> q1
         | Some rotmat_tr \<Rightarrow>
             map (\<lambda>d. fold (\<lambda>d1 acc. fadd Binary32 acc (fmul Binary32 (q1 ! d1) (rotmat_tr ! (d1 * ndims + d)))) [0..<ndims] fzero) [0..<ndims]
             @ drop ndims q1)"

text \<open>\<open>double diff = centers_dim_vec[idx] - query_vec[j]; (float)(diff * diff)\<close>\<close>

definition square_diff :: "fp \<Rightarrow> fp \<Rightarrow> fp" where
  "square_diff c q = (let diff = fsub Binary32 c q in fconv Binary32 (fmul Binary64 diff diff))"

definition populate_dim :: "pq_table \<Rightarrow> fp list \<Rightarrow> nat \<Rightarrow> nat \<Rightarrow> fp list \<Rightarrow> fp list" where
  "populate_dim pt query_vec chunk j dist_vec =
     fold (\<lambda>idx dv. dv[256 * chunk + idx :=
         fadd Binary32 (dv ! (256 * chunk + idx)) (square_diff (pt_tables_tr pt ! (256 * j + idx)) (query_vec ! j))])
       [0..<256] dist_vec"

definition chunk_dims :: "pq_table \<Rightarrow> nat \<Rightarrow> nat list" where
  "chunk_dims pt chunk = [pt_chunk_offsets pt ! chunk..<pt_chunk_offsets pt ! (chunk + 1)]"

text \<open>A chunk with a dimension the table or the query does not have is read outside the arrays.\<close>

definition chunks_inside :: "pq_table \<Rightarrow> nat \<Rightarrow> bool" where
  "chunks_inside pt n \<longleftrightarrow> pt_n_chunks pt < length (pt_chunk_offsets pt) \<and>
     (\<forall>chunk \<in> set [0..<pt_n_chunks pt]. \<forall>j \<in> set (chunk_dims pt chunk). j < n)"

definition populate_chunk_distances :: "pq_table \<Rightarrow> fp list \<Rightarrow> fp list res" where
  "populate_chunk_distances pt query_vec =
     (if \<not> chunks_inside pt (min (pt_ndims pt) (length query_vec)) then Inl OutOfRange
      else Inr (fold (\<lambda>chunk dv. fold (populate_dim pt query_vec chunk) (chunk_dims pt chunk) dv) [0..<pt_n_chunks pt]
                  (replicate (256 * pt_n_chunks pt) fzero)))"

section \<open>The pivots file\<close>

lemma load_bin_at_found:
  assumes "off = length pre" "a < 2 ^ 32" "b < 2 ^ 32" "length bs = a * b * k"
  shows "load_bin_at k what (Some (pre @ le_bytes 4 a @ le_bytes 4 b @ bs @ rest)) off = Inr (bs, a, b)"
proof -
  let ?f = "pre @ le_bytes 4 a @ le_bytes 4 b @ bs @ rest"
  have "block ?f off 4 = le_bytes 4 a" "block ?f (off + 4) 4 = le_bytes 4 b" "block ?f (off + 8) (a * b * k) = bs"
    using assms(1,4) by (simp_all add: block_def)
  then show ?thesis
    using assms by (simp add: load_bin_at_def u32_id Let_def)
qed

text \<open>Four offsets, the centres, the centroid and the chunk offsets, one after the other.\<close>

definition pivot_file :: "nat \<Rightarrow> byte list \<Rightarrow> byte list \<Rightarrow> nat list \<Rightarrow> bfile" where
  "pivot_file ndims tb cb offs =
     le_bytes 4 4 @ le_bytes 4 1 @ enc64 [40, 48 + length tb, 56 + length tb + length cb, 64 + length tb + length cb + 4 * length offs] @
     (le_bytes 4 256 @ le_bytes 4 ndims @ tb) @ (le_bytes 4 ndims @ le_bytes 4 1 @ cb) @
     (le_bytes 4 (length offs) @ le_bytes 4 1 @ enc32 offs)"

lemma load_pivot_file:
  assumes "length tb = 1024 * ndims" "length cb = 4 * ndims" "ndims < 2 ^ 32" "0 < length offs" "length offs < 2 ^ 32" "\<forall>x \<in> set offs. x < 2 ^ 32"
  shows "load_pq_centroid_bin what (Some (pivot_file ndims tb cb offs)) None 0 =
    Inr \<lparr>pt_ndims = ndims, pt_n_chunks = length offs - 1, pt_tables = f32s tb, pt_tables_tr = transpose_tables ndims (f32s tb),
         pt_centroid = f32s cb, pt_chunk_offsets = offs, pt_rotmat_tr = None\<rparr>"
proof -
  let ?o = "[40, 48 + length tb, 56 + length tb + length cb, 64 + length tb + length cb + 4 * length offs]"
  let ?f = "pivot_file ndims tb cb offs" and ?h = "le_bytes 4 4 @ le_bytes 4 1 @ enc64 ?o"
  let ?t = "le_bytes 4 256 @ le_bytes 4 ndims @ tb" and ?c = "le_bytes 4 ndims @ le_bytes 4 1 @ cb" and ?x = "le_bytes 4 (length offs) @ le_bytes 4 1 @ enc32 offs"
  have f: "?f = ?h @ ?t @ ?c @ ?x" by (simp add: pivot_file_def)
  have eo: "length (enc64 ?o) = 32" by (simp add: enc64_def)
  have "load_bin_at 8 what (Some ?f) 0 = Inr (enc64 ?o, 4, 1)"
    using load_bin_at_found[of 0 "[]" 4 1 "enc64 ?o" 8 what "?t @ ?c @ ?x"] eo by (simp add: f)
  moreover have "dec64 (4 * 1) (enc64 ?o) = ?o"
  proof -
    have "\<forall>x \<in> set ?o. x < 2 ^ 64" using assms(1-3,5) by simp
    then have "map u64 ?o = ?o" by (simp add: u64_id)
    moreover have "length ?o = 4 * 1" by simp
    ultimately show ?thesis using dec64_enc64[of ?o "[]"] by (simp only: append_Nil2)
  qed
  moreover have "load_bin_at 4 what (Some ?f) 40 = Inr (tb, 256, ndims)"
    using load_bin_at_found[of 40 ?h 256 ndims tb 4 what "?c @ ?x"] eo assms(1,3) by (simp add: f)
  moreover have "load_bin_at 4 what (Some ?f) (48 + length tb) = Inr (cb, ndims, 1)"
    using load_bin_at_found[of "48 + length tb" "?h @ ?t" ndims 1 cb 4 what ?x] eo assms(2,3) by (simp add: f)
  moreover have "load_bin_at 4 what (Some ?f) (56 + length tb + length cb) = Inr (enc32 offs, length offs, 1)"
    using load_bin_at_found[of "56 + length tb + length cb" "?h @ ?t @ ?c" "length offs" 1 "enc32 offs" 4 what "[]"] eo assms(5) by (simp add: f)
  moreover have "sub64 (length offs) 1 = length offs - 1" using assms(4,5) by (intro sub64_id) (auto simp: Suc_le_eq)
  moreover have "map u32 offs = offs" using assms(6) by (intro map_idI) (simp add: u32_id)
  ultimately show ?thesis
    by (simp add: load_pq_centroid_bin_def Let_def)
qed

section \<open>The table of chunk distances\<close>

lemma fold_slots:
  assumes "b + n \<le> length dv"
  shows "length (fold (\<lambda>i dv. dv[b + i := g i (dv ! (b + i))]) [0..<n] dv) = length dv \<and>
    (\<forall>k < length dv. fold (\<lambda>i dv. dv[b + i := g i (dv ! (b + i))]) [0..<n] dv ! k =
       (if b \<le> k \<and> k < b + n then g (k - b) (dv ! k) else dv ! k))"
  using assms
proof (induction n)
  case 0
  then show ?case by auto
next
  case (Suc n)
  let ?f = "fold (\<lambda>i dv. dv[b + i := g i (dv ! (b + i))]) [0..<n] dv"
  have IH: "length ?f = length dv" "\<And>k. k < length dv \<Longrightarrow> ?f ! k = (if b \<le> k \<and> k < b + n then g (k - b) (dv ! k) else dv ! k)"
    using Suc by auto
  show ?case
    using IH Suc.prems by (auto simp: nth_list_update)
qed

text \<open>The distance of a query to centre \<open>i\<close> of a chunk, on the table as the file stores it.\<close>

definition chunk_dist :: "pq_table \<Rightarrow> fp list \<Rightarrow> nat \<Rightarrow> nat \<Rightarrow> fp" where
  "chunk_dist pt q chunk i =
     fold (\<lambda>j acc. fadd Binary32 acc (square_diff (pt_tables pt ! (i * pt_ndims pt + j)) (q ! j))) (chunk_dims pt chunk) fzero"

lemma transpose_nth: "j < ndims \<Longrightarrow> i < 256 \<Longrightarrow> transpose_tables ndims tables ! (256 * j + i) = tables ! (i * ndims + j)"
proof -
  assume a: "j < ndims" "i < 256"
  then have "256 * j + i < 256 * ndims" by linarith
  then show ?thesis using a by (simp add: transpose_tables_def)
qed

lemma populate_dims:
  assumes "256 * chunk + 256 \<le> length dv" "\<forall>j \<in> set js. j < pt_ndims pt" "pt_tables_tr pt = transpose_tables (pt_ndims pt) (pt_tables pt)"
  shows "length (fold (populate_dim pt q chunk) js dv) = length dv \<and>
    (\<forall>k < length dv. fold (populate_dim pt q chunk) js dv ! k =
      (if 256 * chunk \<le> k \<and> k < 256 * chunk + 256
       then fold (\<lambda>j acc. fadd Binary32 acc (square_diff (pt_tables pt ! ((k - 256 * chunk) * pt_ndims pt + j)) (q ! j))) js (dv ! k)
       else dv ! k))"
  using assms(1,2)
proof (induction js arbitrary: dv)
  case (Cons j js)
  let ?g = "\<lambda>idx x. fadd Binary32 x (square_diff (pt_tables_tr pt ! (256 * j + idx)) (q ! j))"
  have s: "length (populate_dim pt q chunk j dv) = length dv"
    "\<And>k. k < length dv \<Longrightarrow> populate_dim pt q chunk j dv ! k =
      (if 256 * chunk \<le> k \<and> k < 256 * chunk + 256 then ?g (k - 256 * chunk) (dv ! k) else dv ! k)"
    using fold_slots[of "256 * chunk" 256 dv ?g] Cons.prems(1) unfolding populate_dim_def by auto
  have tr: "pt_tables_tr pt ! (256 * j + i) = pt_tables pt ! (i * pt_ndims pt + j)" if "i < 256" for i
    using transpose_nth[of j "pt_ndims pt" i] that Cons.prems(2) assms(3) by simp
  have here: "populate_dim pt q chunk j dv ! k = fadd Binary32 (dv ! k) (square_diff (pt_tables pt ! ((k - 256 * chunk) * pt_ndims pt + j)) (q ! j))"
    if "k < length dv" "256 * chunk \<le> k" "k < 256 * chunk + 256" for k
    using s(2)[OF that(1)] tr[of "k - 256 * chunk"] that(2,3) by auto
  show ?case
    using Cons.IH[of "populate_dim pt q chunk j dv"] Cons.prems s here by auto
qed simp

lemma populate_all:
  assumes "\<forall>chunk < n. \<forall>j \<in> set (chunk_dims pt chunk). j < pt_ndims pt" "n \<le> m" "length dv = 256 * m"
    and "pt_tables_tr pt = transpose_tables (pt_ndims pt) (pt_tables pt)" "\<forall>k < 256 * m. dv ! k = fzero"
  shows "length (fold (\<lambda>chunk dv. fold (populate_dim pt q chunk) (chunk_dims pt chunk) dv) [0..<n] dv) = 256 * m \<and>
    (\<forall>k < 256 * m. fold (\<lambda>chunk dv. fold (populate_dim pt q chunk) (chunk_dims pt chunk) dv) [0..<n] dv ! k =
      (if k < 256 * n then chunk_dist pt q (k div 256) (k mod 256) else fzero))"
  using assms(1,2)
proof (induction n)
  case 0
  then show ?case using assms(3,5) by simp
next
  case (Suc n)
  let ?d = "fold (\<lambda>chunk dv. fold (populate_dim pt q chunk) (chunk_dims pt chunk) dv) [0..<n] dv"
  have IH: "length ?d = 256 * m" "\<And>k. k < 256 * m \<Longrightarrow> ?d ! k = (if k < 256 * n then chunk_dist pt q (k div 256) (k mod 256) else fzero)"
    using Suc.IH Suc.prems by (simp_all add: less_Suc_eq)
  have js: "\<forall>j \<in> set (chunk_dims pt n). j < pt_ndims pt" "256 * n + 256 \<le> length ?d" using Suc.prems IH(1) by auto
  have "k div 256 = n \<and> k mod 256 = k - 256 * n" if "256 * n \<le> k" "k < 256 * n + 256" for k
  proof -
    have "k div 256 = n" using that by (intro div_nat_eqI) simp_all
    then show ?thesis by (simp add: modulo_nat_def mult.commute)
  qed
  then show ?case
    using populate_dims[OF js(2,1) assms(4), of q] IH Suc.prems(2) by (auto simp: chunk_dist_def)
qed

section \<open>Properties\<close>

definition pq_table_ok :: "pq_table \<Rightarrow> bool" where
  "pq_table_ok pt \<longleftrightarrow> pt_tables_tr pt = transpose_tables (pt_ndims pt) (pt_tables pt) \<and>
     length (pt_tables pt) = 256 * pt_ndims pt \<and> (\<forall>x \<in> set (pt_tables pt). is_fin x) \<and> chunks_inside pt (pt_ndims pt)"

lemma chunk_dist_nonneg:
  assumes "pq_table_ok pt" "chunk < pt_n_chunks pt" "i < 256" "\<forall>j < pt_ndims pt. \<not> is_nan (q ! j)"
  shows "fnonneg (chunk_dist pt q chunk i)"
proof -
  have j: "fnonneg (square_diff (pt_tables pt ! (i * pt_ndims pt + j)) (q ! j))" if "j \<in> set (chunk_dims pt chunk)" for j
  proof -
    have "j < pt_ndims pt" using that assms(1,2) by (auto simp: pq_table_ok_def chunks_inside_def)
    then have "i * pt_ndims pt + j < Suc i * pt_ndims pt" by simp
    also have "\<dots> \<le> 256 * pt_ndims pt" using assms(3) by (intro mult_le_mono1) simp
    finally have "i * pt_ndims pt + j < 256 * pt_ndims pt" .
    then have "is_fin (pt_tables pt ! (i * pt_ndims pt + j))" using assms(1) by (simp add: pq_table_ok_def)
    moreover have "\<not> is_nan (q ! j)" using \<open>j < pt_ndims pt\<close> assms(4) by simp
    ultimately have "\<not> is_nan (fsub Binary32 (pt_tables pt ! (i * pt_ndims pt + j)) (q ! j))"
      by (cases "q ! j"; cases "pt_tables pt ! (i * pt_ndims pt + j)") (auto simp: fsub_def Let_def)
    then show ?thesis by (simp add: square_diff_def fconv_nonneg fmul_self_nonneg Let_def)
  qed
  have "fnonneg (fold (\<lambda>j acc. fadd Binary32 acc (square_diff (pt_tables pt ! (i * pt_ndims pt + j)) (q ! j))) js z)"
    if "fnonneg z" "set js \<subseteq> set (chunk_dims pt chunk)" for js z
    using that j by (induction js arbitrary: z) (auto simp: fadd_nonneg)
  then show ?thesis by (simp add: chunk_dist_def)
qed

lemma populate_chunk_distances_run:
  assumes "pq_table_ok pt" "length q = pt_ndims pt"
  obtains dv where "populate_chunk_distances pt q = Inr dv" "length dv = 256 * pt_n_chunks pt"
    "\<And>c i. c < pt_n_chunks pt \<Longrightarrow> i < 256 \<Longrightarrow> dv ! (256 * c + i) = chunk_dist pt q c i"
proof -
  let ?n = "pt_n_chunks pt"
  let ?dv = "fold (\<lambda>chunk dv. fold (populate_dim pt q chunk) (chunk_dims pt chunk) dv) [0..<?n] (replicate (256 * ?n) fzero)"
  have "\<forall>c < ?n. \<forall>j \<in> set (chunk_dims pt c). j < pt_ndims pt" "pt_tables_tr pt = transpose_tables (pt_ndims pt) (pt_tables pt)"
    using assms(1) by (auto simp: pq_table_ok_def chunks_inside_def)
  note all = populate_all[OF this(1) order.refl _ this(2), of "replicate (256 * ?n) fzero" q]
  have "populate_chunk_distances pt q = Inr ?dv"
    using assms by (simp add: populate_chunk_distances_def pq_table_ok_def)
  moreover have "?dv ! (256 * c + i) = chunk_dist pt q c i" if "c < ?n" "i < 256" for c i
  proof -
    have "256 * c + i < 256 * ?n" "(256 * c + i) div 256 = c" "(256 * c + i) mod 256 = i" using that by auto
    then show ?thesis using all by (simp del: div_mult_self4 mod_mult_self4)
  qed
  ultimately show ?thesis using that all by simp
qed

lemma lookup_chunks:
  assumes "length dv = 256 * n" "\<And>c i. c < n \<Longrightarrow> i < 256 \<Longrightarrow> dv ! (256 * c + i) = g c i" "i * n + n \<le> length codes"
  shows "query_pq_dist codes n dv i = foldl (\<lambda>acc c. fadd Binary32 acc (g c (unat (codes ! (i * n + c))))) fzero [0..<n]"
proof -
  have "dv ! (256 * c + unat (block codes (i * n) n ! c)) = g c (unat (codes ! (i * n + c)))" if "c < n" for c
    using that assms(2)[OF that unat_byte_lt] assms(3) by (simp add: block_def)
  then show ?thesis
    unfolding query_pq_dist_def pq_dist_lookup_def aggregate_coords_def by (intro foldl_cong) auto
qed

lemma pq_dists_run:
  assumes "pq_table_ok pt" "length q = pt_ndims pt" "\<forall>j < pt_ndims pt. \<not> is_nan (q ! j)"
  shows "\<exists>dv. populate_chunk_distances pt q = Inr dv \<and>
    (\<forall>codes i. i * pt_n_chunks pt + pt_n_chunks pt \<le> length codes \<longrightarrow>
       query_pq_dist codes (pt_n_chunks pt) dv i =
         foldl (\<lambda>acc c. fadd Binary32 acc (chunk_dist pt q c (unat (codes ! (i * pt_n_chunks pt + c))))) fzero [0..<pt_n_chunks pt] \<and>
       fnonneg (query_pq_dist codes (pt_n_chunks pt) dv i))"
proof -
  let ?n = "pt_n_chunks pt"
  obtain dv where dv: "populate_chunk_distances pt q = Inr dv" "length dv = 256 * ?n"
    "\<And>c i. c < ?n \<Longrightarrow> i < 256 \<Longrightarrow> dv ! (256 * c + i) = chunk_dist pt q c i"
    using populate_chunk_distances_run[OF assms(1,2)] by blast
  have "fnonneg (dv ! k)" if "k < length dv" for k
  proof -
    have "dv ! (256 * (k div 256) + k mod 256) = chunk_dist pt q (k div 256) (k mod 256)" using that dv(2) by (intro dv(3)) auto
    then show ?thesis using chunk_dist_nonneg[OF assms(1) _ _ assms(3), of "k div 256" "k mod 256"] that dv(2) by auto
  qed
  then have "\<forall>x \<in> set dv. fnonneg x" by (auto simp: in_set_conv_nth)
  then have "fnonneg (query_pq_dist codes ?n dv i)" for codes i
    using query_pq_dist_nonneg[of dv ?n codes i] dv(2) by simp
  moreover have "query_pq_dist codes ?n dv i = foldl (\<lambda>acc c. fadd Binary32 acc (chunk_dist pt q c (unat (codes ! (i * ?n + c))))) fzero [0..<?n]"
    if "i * ?n + ?n \<le> length codes" for codes i
    by (rule lookup_chunks[OF dv(2) dv(3) that])
  ultimately show ?thesis using dv(1) by blast
qed

text \<open>C24. The approximate distance the traversal uses. For a table of finite centres whose chunks lie inside its
  dimensions and a query without NaN, the table of chunk distances is filled without a read outside the
  arrays, and the lookup of a point's code in it is the sum over the chunks, in order, of the distances
  between the query and the centres the code names, on the table as the file stores it; it is never
  negative and never NaN.\<close>

theorem pq_query_distances:
  assumes "pq_table_ok pt" "length q = pt_ndims pt" "\<forall>j < pt_ndims pt. \<not> is_nan (q ! j)"
  shows "\<exists>dv. populate_chunk_distances pt q = Inr dv \<and>
    (\<forall>codes i. i * pt_n_chunks pt + pt_n_chunks pt \<le> length codes \<longrightarrow>
       query_pq_dist codes (pt_n_chunks pt) dv i =
         foldl (\<lambda>acc c. fadd Binary32 acc (chunk_dist pt q c (unat (codes ! (i * pt_n_chunks pt + c))))) fzero [0..<pt_n_chunks pt] \<and>
       fnonneg (query_pq_dist codes (pt_n_chunks pt) dv i))"
  by (rule pq_dists_run[OF assms])

theorem pq_query_distances_witness:
  "\<exists>pt dv. pt_ndims pt = 1 \<and> populate_chunk_distances pt [fzero] = Inr dv \<and> query_pq_dist [7, 3] 1 dv 1 = fone"
proof -
  have "\<exists>ts. length ts = n \<and> (\<forall>x \<in> set ts. x = fone)" for n by (rule exI[of _ "replicate n fone"]) simp
  then obtain ts where ts: "length ts = 256" "\<forall>x \<in> set ts. x = fone" by blast
  let ?t = "\<lparr>pt_ndims = 1, pt_n_chunks = 1, pt_tables = ts, pt_tables_tr = transpose_tables 1 ts,
      pt_centroid = [fzero], pt_chunk_offsets = [0, 1], pt_rotmat_tr = None\<rparr>"
  have "pq_table_ok ?t"
    using ts by (auto simp: pq_table_ok_def chunks_inside_def chunk_dims_def)
  from pq_query_distances[OF this, of "[fzero]"] obtain dv where
    dv: "populate_chunk_distances ?t [fzero] = Inr dv"
    "\<forall>codes i. i * 1 + 1 \<le> length codes \<longrightarrow> query_pq_dist codes 1 dv i =
       foldl (\<lambda>acc c. fadd Binary32 acc (chunk_dist ?t [fzero] c (unat (codes ! (i * 1 + c))))) fzero [0..<1]"
    by auto
  have "ts ! 3 = fone" using ts by simp
  then have "chunk_dist ?t [fzero] 0 3 = fone"
    by (simp add: chunk_dist_def chunk_dims_def square_diff_def fsub_def Let_def)
  then have "query_pq_dist [7, 3] 1 dv 1 = fone"
    using dv(2)[rule_format, of 1 "[7, 3]"] by simp
  then show ?thesis using dv(1) by (intro exI[of _ ?t] exI[of _ dv]) simp
qed

end
