(* ===== verification/Search_Load.thy ===== *)
theory Search_Load
  imports Beam_Refine Pq_Table
begin

text \<open>
  \<open>SigmaSearch::load\<close> (\<open>search/ours_search.cpp\<close>): what the search takes from the files of an index. The
  metadata of the disk index give the sizes and the sources, the pivots and codes the approximate distances,
  the medoids (or the header) the entry points and their centroids. The queues of scratch spaces are not part
  of the state.
\<close>

section \<open>Files\<close>

text \<open>Rows of \<open>dm\<close> floats, each padded with zeros to \<open>rd\<close>.\<close>

definition aligned_rows :: "nat \<Rightarrow> nat \<Rightarrow> nat \<Rightarrow> fp list \<Rightarrow> fp list" where
  "aligned_rows dm rd npts xs = concat (map (\<lambda>i. block xs (i * dm) dm @ replicate (rd - dm) fzero) [0..<npts])"

definition load_aligned_bin :: "string \<Rightarrow> bfile option \<Rightarrow> (fp list \<times> nat \<times> nat \<times> nat) res" where
  "load_aligned_bin what fo =
     (case fo of
        None \<Rightarrow> Inl (ANNException what)
      | Some f \<Rightarrow>
          if length f < 8 then Inl (ANNException what)
          else
            let npts = le_nat (block f 0 4); dm = le_nat (block f 4 4)
            in if length f \<noteq> u64 (npts * dm * 4 + 8) then Inl (ANNException ''Error. File size mismatch.'')
               else
                 let rd = ROUND_UP dm 8
                 in if length f < 8 + npts * dm * 4 then Inl (ANNException what)
                    else Inr (aligned_rows dm rd npts (f32s (drop 8 f)), npts, dm, rd))"

section \<open>Medoids\<close>

text \<open>The vector of a medoid, read into \<open>buf\<close>; without an open reader (\<open>None\<close>) the read fails.\<close>

definition medoid_vector :: "refiner option \<Rightarrow> nat \<Rightarrow> byte list \<Rightarrow> (byte list \<times> fp list) res" where
  "medoid_vector ro m buf =
     (case ro of
        None \<Rightarrow> Inl (Die ''io_submit'')
      | Some rf \<Rightarrow>
          rbind (execute_io (rf_sub rf) (rf_got rf) (rf_file rf)
                  (slot_reqs (vs_prepare_batch_read (rf_src rf) [m]) 0 (vs_read_buffer_size (rf_src rf))) buf) (\<lambda>mem.
          rbind (vs_get_vector (rf_src rf) m mem (rf_vec_bytes rf)) (\<lambda>v. Inr (mem, f32s v))))"

definition medoid_centroids :: "refiner option \<Rightarrow> nat \<Rightarrow> nat list \<Rightarrow> byte list \<Rightarrow> fp list res" where
  "medoid_centroids ro aligned_dim medoids vec_buf =
     rbind (rfold (\<lambda>i (buf, cents). rbind (medoid_vector ro (medoids ! i) buf) (\<lambda>(mem, row). Inr (mem, blit cents (i * aligned_dim) row)))
              [0..<length medoids] (vec_buf, replicate (length medoids * aligned_dim) fzero)) (\<lambda>(buf, cents).
       Inr cents)"

definition load_medoids ::
    "(string \<Rightarrow> bfile option) \<Rightarrow> string \<Rightarrow> nat \<Rightarrow> refiner option \<Rightarrow> nat \<Rightarrow> byte list \<Rightarrow> (nat list \<times> fp list) res" where
  "load_medoids fs index_prefix header_medoid ro aligned_dim vec_buf =
     (case fs (index_prefix @ ''_medoids.bin'') of
        Some f \<Rightarrow>
          rbind (load_bin_at 4 ''medoids'' (Some f) 0) (\<lambda>(mb, nm, nd).
            let medoids = dec32 mb
            in case fs (index_prefix @ ''_centroids.bin'') of
                 Some c \<Rightarrow>
                   rbind (load_aligned_bin ''centroids'' (Some c)) (\<lambda>(cs, c_num, c_dim, c_aligned_dim).
                     if length medoids * aligned_dim < c_num * c_aligned_dim then Inl OutOfRange
                     else Inr (medoids, blit (replicate (length medoids * aligned_dim) fzero) 0 cs))
               | None \<Rightarrow> rbind (medoid_centroids ro aligned_dim medoids vec_buf) (\<lambda>cs. Inr (medoids, cs)))
      | None \<Rightarrow> rbind (medoid_centroids ro aligned_dim [header_medoid] vec_buf) (\<lambda>cs. Inr ([header_medoid], cs)))"

section \<open>The index\<close>

record loaded =
  ld_num_points :: nat
  ld_data_dim :: nat
  ld_aligned_dim :: nat
  ld_max_node_len :: nat
  ld_nnodes_per_sector :: nat
  ld_max_degree :: nat
  ld_pq :: pq_table
  ld_pq_data :: "byte list"
  ld_graph :: gsrc
  ld_vector :: vsrc
  ld_medoids :: "nat list"
  ld_centroids :: "fp list"

text \<open>The sources by \<open>SIGMA_LAYOUT\<close>, with the maximum degree and whether the reader has been opened. Vectors are floats.\<close>

definition load_sources ::
    "string option \<Rightarrow> string option \<Rightarrow> nat \<Rightarrow> nat \<Rightarrow> (gsrc \<times> vsrc \<times> nat \<times> bool) res" where
  "load_sources env_layout env_R data_dim max_node_len =
     (if env_layout = Some ''SEPARATE'' then
        let R = (case env_R of None \<Rightarrow> 70 | Some r \<Rightarrow> nat (atoi r mod 2 ^ 32))
        in Inr (FixedGraph (fixed_source_new R), BinVector (bin_vec_size data_dim), R, False)
      else
        let disk_bytes_per_point = u64 (data_dim * 4);
            max_degree = u32 (sub64 (sub64 max_node_len disk_bytes_per_point) 4 div 4)
        in rbind (disk_source_new max_node_len max_degree disk_bytes_per_point) (\<lambda>s.
             Inr (DiskANNGraph s, DiskANNVector s, max_degree, True)))"

definition sigma_load ::
    "(nat \<Rightarrow> nat \<Rightarrow> int) \<Rightarrow> (nat \<Rightarrow> nat \<Rightarrow> int) \<Rightarrow> (string \<Rightarrow> bfile option) \<Rightarrow> (nat \<Rightarrow> byte list) \<Rightarrow> string option \<Rightarrow> string option \<Rightarrow>
     string \<Rightarrow> loaded res" where
  "sigma_load sub got fs fresh env_layout env_R index_prefix =
     (let disk_index_file = index_prefix @ ''_disk.index'';
          pq_compressed_file = index_prefix @ ''_pq_compressed.bin'';
          pq_table_file = index_prefix @ ''_pq_pivots.bin''
      in case load_disk_index_metadata disk_index_file (fs disk_index_file) of
           Inl e \<Rightarrow> Inl (ANNException (''Invalid disk index metadata for '' @ disk_index_file @ '': '' @ e))
         | Inr md \<Rightarrow>
             let max_node_len = dm_max_node_len md; data_dim = dm_data_dim md; aligned_dim = ROUND_UP data_dim 8
             in rbind (load_pq_centroid_bin pq_table_file (fs pq_table_file) (fs (pq_table_file @ ''_rotation_matrix.bin'')) 0) (\<lambda>pq.
                rbind (load_bin_at 1 pq_compressed_file (fs pq_compressed_file) 0) (\<lambda>(codes, pq_num, pq_dim).
                rbind (load_sources env_layout env_R data_dim max_node_len) (\<lambda>(gs, vs, max_degree, open_reader).
                rbind (load_medoids fs index_prefix (u32 (dm_medoid md))
                        (case fs disk_index_file of
                           Some f \<Rightarrow> if open_reader then Some \<lparr>rf_sub = sub, rf_got = got, rf_file = f, rf_src = vs, rf_vec_bytes = data_dim * 4\<rparr> else None
                         | None \<Rightarrow> None)
                        aligned_dim (fresh (vs_read_buffer_size vs))) (\<lambda>(medoids, centroids).
                  Inr \<lparr>ld_num_points = dm_num_points md, ld_data_dim = data_dim, ld_aligned_dim = aligned_dim, ld_max_node_len = max_node_len,
                       ld_nnodes_per_sector = (if max_node_len \<le> 4096 then 4096 div max_node_len else 0), ld_max_degree = max_degree,
                       ld_pq = pq, ld_pq_data = codes, ld_graph = gs, ld_vector = vs, ld_medoids = medoids, ld_centroids = centroids\<rparr>)))))"

text \<open>\<open>set_start_node\<close>\<close>

definition set_start_node :: "nat \<Rightarrow> loaded \<Rightarrow> loaded" where
  "set_start_node node_id ld =
     ld\<lparr>ld_medoids := (if ld_medoids ld = [] then [node_id] else (ld_medoids ld)[0 := node_id])\<rparr>"

section \<open>Loading a laid out index\<close>

lemma medoid_vector_ok:
  assumes "refiner_ok rf vecs" "m < length vecs" "vs_read_buffer_size (rf_src rf) \<le> length buf"
  shows "\<exists>mem. medoid_vector (Some rf) m buf = Inr (mem, f32s (vecs ! m)) \<and> length mem = length buf"
proof -
  obtain s where s: "rf_src rf = DiskANNVector s" "rf_vec_bytes rf = ds_bytes_per_point s" "disk_vectors s (rf_file rf) vecs"
    "aio_up (rf_sub rf)" "aio_up (rf_got rf)"
    using assms(1) by (auto simp: refiner_ok_def)
  let ?c = "vec_read_buffer_size s"
  have "\<forall>i \<in> set [m]. i < length vecs" "length [m] * ?c \<le> length buf" using assms(2,3) s(1) by simp_all
  then obtain mem where m: "rfold (aio_pread (rf_file rf)) (slot_reqs (map (prepare_node_read s) [m]) 0 ?c) buf = Inr mem" "length mem = length buf"
    "\<forall>k < length [m]. get_vector s ([m] ! k) (drop (k * ?c) mem) (ds_bytes_per_point s) = Inr (vecs ! ([m] ! k))"
    using dvs.batch[OF s(3) _ order.refl] by blast
  then show ?thesis
    using s by (simp add: medoid_vector_def vec_prepare_eq execute_io_all)
qed

lemma medoid_centroids_ok:
  assumes "refiner_ok rf vecs" "\<forall>m \<in> set meds. m < length vecs" "vs_read_buffer_size (rf_src rf) \<le> length buf"
    and "\<forall>v \<in> set vecs. length (f32s v) = dm" "dm \<le> ad"
  shows "medoid_centroids (Some rf) ad meds buf = Inr (concat (map (\<lambda>m. f32s (vecs ! m) @ replicate (ad - dm) fzero) meds))"
proof -
  let ?row = "\<lambda>m. f32s (vecs ! m) @ replicate (ad - dm) fzero" and ?n = "length meds"
  let ?step = "\<lambda>i (buf, cents). rbind (medoid_vector (Some rf) (meds ! i) buf) (\<lambda>(mem, row). Inr (mem, blit cents (i * ad) row))"
  have len: "length (?row m) = ad" "length (f32s (vecs ! m)) = dm" if "m \<in> set meds" for m
    using that assms(2,4,5) by simp_all
  have pre: "length (concat (map ?row (take i meds))) = i * ad" if "i \<le> ?n" for i
  proof -
    have "length (concat (map ?row ms)) = length ms * ad" if "set ms \<subseteq> set meds" for ms
      using that len(1) by (induction ms) auto
    from this[of "take i meds"] show ?thesis using that set_take_subset by fastforce
  qed
  have "\<exists>mem. rfold ?step [0..<i] (buf, replicate (?n * ad) fzero) =
      Inr (mem, concat (map ?row (take i meds)) @ replicate ((?n - i) * ad) fzero) \<and> length mem = length buf" if "i \<le> ?n" for i
    using that
  proof (induction i)
    case 0
    then show ?case by simp
  next
    case (Suc i)
    let ?done = "concat (map ?row (take i meds))"
    obtain mem where IH: "rfold ?step [0..<i] (buf, replicate (?n * ad) fzero) = Inr (mem, ?done @ replicate ((?n - i) * ad) fzero)" "length mem = length buf"
      using Suc by auto
    have i: "meds ! i \<in> set meds" using Suc.prems by simp
    obtain mem' where m: "medoid_vector (Some rf) (meds ! i) mem = Inr (mem', f32s (vecs ! (meds ! i)))" "length mem' = length mem"
      using medoid_vector_ok[OF assms(1), of "meds ! i" mem] i assms(2,3) IH(2) by auto
    have "(?n - i) * ad = dm + ((ad - dm) + (?n - Suc i) * ad)"
      using Suc.prems assms(5) by (cases "?n - i") auto
    then have "replicate ((?n - i) * ad) fzero = replicate dm fzero @ replicate (ad - dm) fzero @ replicate ((?n - Suc i) * ad) fzero"
      by (simp add: replicate_add)
    then have "blit (?done @ replicate ((?n - i) * ad) fzero) (i * ad) (f32s (vecs ! (meds ! i))) =
        concat (map ?row (take (Suc i) meds)) @ replicate ((?n - Suc i) * ad) fzero"
      using Suc.prems pre[of i] len(2)[OF i] by (simp add: blit_def take_Suc_conv_app_nth)
    then show ?case
      using IH m by (simp add: rfold_append rfold_single)
  qed
  from this[OF order.refl] show ?thesis
    by (auto simp: medoid_centroids_def)
qed

definition medoid_file :: "nat list \<Rightarrow> bfile" where
  "medoid_file meds = le_bytes 4 (length meds) @ le_bytes 4 1 @ enc32 meds"

lemma load_medoid_file:
  assumes "length meds < 2 ^ 32" "\<forall>m \<in> set meds. m < 2 ^ 32"
  shows "\<exists>b. load_bin_at 4 what (Some (medoid_file meds)) 0 = Inr (b, length meds, 1) \<and> dec32 b = meds"
  using assms by (auto simp: load_bin_at_def medoid_file_def block_def u32_id Let_def intro!: map_idI)

lemma load_medoids_ok:
  assumes "refiner_ok rf vecs" "\<forall>m \<in> set meds. m < length vecs" "vs_read_buffer_size (rf_src rf) \<le> length buf"
    and "\<forall>v \<in> set vecs. length (f32s v) = dm" "dm \<le> ad" "length vecs \<le> 2 ^ 32" "length meds < 2 ^ 32"
    and "fs (p @ ''_medoids.bin'') = None \<and> meds = [header] \<or> fs (p @ ''_medoids.bin'') = Some (medoid_file meds)"
    and "fs (p @ ''_centroids.bin'') = None"
  shows "load_medoids fs p header (Some rf) ad buf = Inr (meds, concat (map (\<lambda>m. f32s (vecs ! m) @ replicate (ad - dm) fzero) meds))"
proof -
  note cent = medoid_centroids_ok[OF assms(1-5)]
  have "\<forall>m \<in> set meds. m < 2 ^ 32" using assms(2,6) by fastforce
  then obtain b where "load_bin_at 4 ''medoids'' (Some (medoid_file meds)) 0 = Inr (b, length meds, 1)" "dec32 b = meds"
    using load_medoid_file[OF assms(7)] by blast
  then show ?thesis
    using assms(8,9) cent by (auto simp: load_medoids_def Let_def)
qed

lemma search_load_run:
  fixes ndims width medoid frozen :: nat and vecs rows mem
  defines "n \<equiv> (width + 1) * 4 + ndims * 4" and "N \<equiv> length rows"
  assumes "layout_ok (ndims * 4) width n vecs rows" "medoid < N" "N < 2 ^ 32" "0 < ndims" "ndims < 2 ^ 32"
    and "frozen < 2 ^ 64" "24 + length (concat (map node_bytes rows)) < 2 ^ 64" "n + 8192 \<le> 2 ^ 32"
    and "create_disk_layout 4 mem (le_bytes 4 N @ le_bytes 4 ndims @ concat vecs) (graph_bytes rows width medoid frozen) None = Inr out"
    and "fs (p @ ''_disk.index'') = Some out"
    and "load_pq_centroid_bin (p @ ''_pq_pivots.bin'') (fs (p @ ''_pq_pivots.bin'')) (fs (p @ ''_pq_pivots.bin_rotation_matrix.bin'')) 0 = Inr pq"
    and "load_bin_at 1 (p @ ''_pq_compressed.bin'') (fs (p @ ''_pq_compressed.bin'')) 0 = Inr (codes, pq_num, pq_dim)"
    and "fs (p @ ''_medoids.bin'') = None \<and> meds = [medoid] \<or> fs (p @ ''_medoids.bin'') = Some (medoid_file meds)"
    and "fs (p @ ''_centroids.bin'') = None" "\<forall>m \<in> set meds. m < N" "length meds < 2 ^ 32"
    and "env_layout \<noteq> Some ''SEPARATE''" "aio_up sub" "aio_up got" "\<forall>n. length (fresh n) = n"
  shows "\<exists>s. disk_source_new n width (ndims * 4) = Inr s \<and> disk_graph s out rows \<and> disk_vectors s out vecs \<and>
    sigma_load sub got fs fresh env_layout env_R p =
      Inr \<lparr>ld_num_points = N, ld_data_dim = ndims, ld_aligned_dim = ROUND_UP ndims 8, ld_max_node_len = n,
           ld_nnodes_per_sector = (if n \<le> 4096 then 4096 div n else 0), ld_max_degree = width, ld_pq = pq, ld_pq_data = codes,
           ld_graph = DiskANNGraph s, ld_vector = DiskANNVector s, ld_medoids = meds,
           ld_centroids = concat (map (\<lambda>m. f32s (vecs ! m) @ replicate (ROUND_UP ndims 8 - ndims) fzero) meds)\<rparr>"
proof -
  let ?disk = "p @ ''_disk.index''"
  obtain md s where md: "load_disk_index_metadata ?disk (Some out) = Inr md"
      "dm_num_points md = N" "dm_data_dim md = ndims" "dm_medoid md = medoid" "dm_max_node_len md = n"
      "disk_source_new n width (ndims * 4) = Inr s" "disk_graph s out rows" "\<forall>i < N. disk_node out s i (vecs ! i) (rows ! i)"
    using disk_layout_run[OF assms(3)[unfolded n_def] assms(4)[unfolded N_def] assms(5)[unfolded N_def] assms(6-9) assms(10)[unfolded n_def], of mem ?disk]
      assms(11) unfolding n_def N_def by auto
  have lv: "length vecs = N" "\<forall>v \<in> set vecs. length v = ndims * 4" using assms(3) by (auto simp: layout_ok_def N_def)
  have s: "ds_bytes_per_point s = ndims * 4" "disk_source_ok s"
    using md(6,7) by (auto simp: disk_source_new_def disk_graph_def split: if_splits)
  have dv: "disk_vectors s out vecs" using md(8) s(2) lv(1) assms(5) by (auto simp: disk_vectors_def)
  let ?rf = "\<lparr>rf_sub = sub, rf_got = got, rf_file = out, rf_src = DiskANNVector s, rf_vec_bytes = ndims * 4\<rparr>"
  have rf: "refiner_ok ?rf vecs" using dv s(1) assms(20,21) by (simp add: refiner_ok_def)
  have ad: "ndims \<le> ROUND_UP ndims 8" using assms(7) by (auto simp: ROUND_UP_def u64_id)
  have md0: "u32 medoid = medoid" using assms(4,5) by (simp add: u32_id)
  have "load_medoids fs p (u32 medoid) (Some ?rf) (ROUND_UP ndims 8) (fresh (vec_read_buffer_size s)) =
      Inr (meds, concat (map (\<lambda>m. f32s (vecs ! m) @ replicate (ROUND_UP ndims 8 - ndims) fzero) meds))"
    unfolding md0 using lv assms(5,17,18,22) by (intro load_medoids_ok[OF rf _ _ _ ad _ _ assms(15,16)]) (auto simp: f32s_def length_dec32)
  moreover have "load_sources env_layout env_R ndims n = Inr (DiskANNGraph s, DiskANNVector s, width, True)"
  proof -
    have b: "n < 2 ^ 64" "ndims * 4 \<le> n" using assms(10) by (simp_all add: n_def)
    then have "sub64 (sub64 n (ndims * 4)) 4 div 4 = width"
      by (simp add: sub64_id n_def)
    then show ?thesis
      using assms(10,19) md(6) b by (simp add: load_sources_def u64_id u32_id n_def)
  qed
  ultimately have "sigma_load sub got fs fresh env_layout env_R p =
      Inr \<lparr>ld_num_points = N, ld_data_dim = ndims, ld_aligned_dim = ROUND_UP ndims 8, ld_max_node_len = n,
           ld_nnodes_per_sector = (if n \<le> 4096 then 4096 div n else 0), ld_max_degree = width, ld_pq = pq, ld_pq_data = codes,
           ld_graph = DiskANNGraph s, ld_vector = DiskANNVector s, ld_medoids = meds,
           ld_centroids = concat (map (\<lambda>m. f32s (vecs ! m) @ replicate (ROUND_UP ndims 8 - ndims) fzero) meds)\<rparr>"
    using assms(12-14) md(1-5) by (simp add: sigma_load_def Let_def)
  then show ?thesis using md(6,7) dv by blast
qed



end
