(* ===== verification/Cache_Select.thy ===== *)
theory Cache_Select
  imports Cache_Table Neighbor_Queue
begin

text \<open>
  Which nodes are cached when no list is given: \<open>SigmaSearch::cache_bfs_levels\<close> (\<open>search/ours_search.cpp\<close>),
  the levels around the medoids. The lemmas describe a level as visiting its frontier node by node, give the
  invariant of a breadth-first search and show that all levels return.
\<close>

section \<open>Levels around the medoids\<close>

record bfs =
  bf_visited :: "nat list"
  bf_next :: "nat list"
  bf_list :: "nat list"

definition bfs_add :: "nat \<Rightarrow> bfs \<Rightarrow> bfs" where
  "bfs_add v st = st\<lparr>bf_visited := v # bf_visited st, bf_next := bf_next st @ [v], bf_list := bf_list st @ [v]\<rparr>"

definition bfs_start :: "nat \<Rightarrow> bfs \<Rightarrow> bfs" where
  "bfs_start m st = (if m \<in> set (bf_visited st) then st else bfs_add m st)"

text \<open>The neighbours of a node, until \<open>num_nodes\<close> are listed.\<close>

fun bfs_nbrs :: "nat \<Rightarrow> nat list \<Rightarrow> bfs \<Rightarrow> bfs" where
  "bfs_nbrs num_nodes [] st = st"
| "bfs_nbrs num_nodes (v # vs) st =
     (if v \<in> set (bf_visited st) then bfs_nbrs num_nodes vs st
      else let st1 = bfs_add v st
           in if num_nodes \<le> length (bf_list st1) then st1 else bfs_nbrs num_nodes vs st1)"

definition bfs_visit :: "nat \<Rightarrow> nat \<Rightarrow> nat list res \<Rightarrow> bfs \<Rightarrow> bfs res" where
  "bfs_visit num_nodes u r st =
     (if length (bf_list st) < num_nodes then rbind r (\<lambda>ns. Inr (bfs_nbrs num_nodes ns st)) else Inr st)"

definition bfs_batch :: "disk_io \<Rightarrow> nat \<Rightarrow> nat list \<Rightarrow> byte list \<times> bfs \<Rightarrow> (byte list \<times> bfs) res" where
  "bfs_batch io num_nodes ids s =
     (if length (bf_list (snd s)) < num_nodes then scan_batch io (bfs_visit num_nodes) ids s else Inr s)"

definition bfs_level :: "disk_io \<Rightarrow> nat \<Rightarrow> nat \<Rightarrow> nat list \<Rightarrow> byte list \<times> bfs \<Rightarrow> (byte list \<times> bfs) res" where
  "bfs_level io batch_size num_nodes frontier s =
     (case s of (mem, st) \<Rightarrow> rfold (bfs_batch io num_nodes) (batches batch_size frontier) (mem, st\<lparr>bf_next := []\<rparr>))"

text \<open>\<open>while(node_list.size() < num_nodes && !frontier.empty())\<close>\<close>

partial_function (option) bfs_levels ::
    "disk_io \<Rightarrow> nat \<Rightarrow> nat \<Rightarrow> nat list \<Rightarrow> byte list \<times> bfs \<Rightarrow> nat list res option" where
  "bfs_levels io batch_size num_nodes frontier s =
     (if length (bf_list (snd s)) < num_nodes \<and> frontier \<noteq> [] then
        let r = bfs_level io batch_size num_nodes frontier s
        in if isl r then Some (Inl (projl r))
           else bfs_levels io batch_size num_nodes (bf_next (snd (projr r))) (projr r)
      else Some (Inr (bf_list (snd s))))"

definition cache_bfs_levels ::
    "string option \<Rightarrow> disk_io \<Rightarrow> (nat \<Rightarrow> byte list) \<Rightarrow> nat list \<Rightarrow> nat \<Rightarrow> nat list \<Rightarrow> nat list res option" where
  "cache_bfs_levels env_bs io fresh medoids num_nodes node_list =
     (if num_nodes = 0 then Some (Inr node_list)
      else
        let st = fold bfs_start medoids \<lparr>bf_visited = [], bf_next = [], bf_list = node_list\<rparr>;
            batch_size = io_batch_size env_bs
        in bfs_levels io batch_size num_nodes (bf_next st) (fresh (batch_size * per_node_alloc io), st))"

section \<open>A level\<close>

text \<open>What happens to a state: nodes are appended to the list and to the next frontier, each once.\<close>

definition bfs_grow :: "(nat \<Rightarrow> bool) \<Rightarrow> bfs \<Rightarrow> bfs \<Rightarrow> bool" where
  "bfs_grow P st st' \<longleftrightarrow> (\<exists>new. bf_list st' = bf_list st @ new \<and> bf_next st' = bf_next st @ new \<and>
     set (bf_visited st') = set (bf_visited st) \<union> set new \<and> distinct new \<and> set new \<inter> set (bf_visited st) = {} \<and> (\<forall>v \<in> set new. P v))"

lemma bfs_grow_refl [simp]: "bfs_grow P st st"
  by (auto simp: bfs_grow_def)

lemma bfs_grow_trans: "bfs_grow P a b \<Longrightarrow> bfs_grow P b c \<Longrightarrow> bfs_grow P a c"
  unfolding bfs_grow_def by (elim exE) (rule_tac x = "new @ newa" in exI, auto)

lemma bfs_grow_add: "v \<notin> set (bf_visited st) \<Longrightarrow> P v \<Longrightarrow> bfs_grow P st (bfs_add v st)"
  by (auto simp: bfs_grow_def bfs_add_def)

lemma bfs_grow_length: "bfs_grow P st st' \<Longrightarrow> length (bf_list st) \<le> length (bf_list st')"
  by (auto simp: bfs_grow_def)

lemma bfs_grow_visited: "bfs_grow P st st' \<Longrightarrow> set (bf_visited st) \<subseteq> set (bf_visited st')"
  by (auto simp: bfs_grow_def)

lemma bfs_nbrs_grow:
  assumes "length (bf_list st) < n" "\<forall>v \<in> set ns. P v"
  shows "bfs_grow P st (bfs_nbrs n ns st) \<and> length (bf_list (bfs_nbrs n ns st)) \<le> n \<and>
    (length (bf_list (bfs_nbrs n ns st)) < n \<longrightarrow> set ns \<subseteq> set (bf_visited (bfs_nbrs n ns st)))"
  using assms
proof (induction ns arbitrary: st)
  case Nil
  then show ?case by simp
next
  case (Cons v vs)
  show ?case
  proof (cases "v \<in> set (bf_visited st)")
    case True
    then show ?thesis
      using Cons.IH[of st] Cons.prems bfs_grow_visited[of P st "bfs_nbrs n vs st"] by auto
  next
    case False
    have grow: "bfs_grow P st (bfs_add v st)" using bfs_grow_add False Cons.prems(2) by simp
    have len: "length (bf_list (bfs_add v st)) = Suc (length (bf_list st))" "v \<in> set (bf_visited (bfs_add v st))"
      by (simp_all add: bfs_add_def)
    show ?thesis
    proof (cases "n \<le> length (bf_list (bfs_add v st))")
      case True
      then show ?thesis using False grow len(1) Cons.prems(1) by (simp add: Let_def)
    next
      case more: False
      let ?st = "bfs_nbrs n vs (bfs_add v st)"
      have IH: "bfs_grow P (bfs_add v st) ?st" "length (bf_list ?st) \<le> n" "length (bf_list ?st) < n \<longrightarrow> set vs \<subseteq> set (bf_visited ?st)"
        using Cons.IH[of "bfs_add v st"] Cons.prems(2) more by auto
      then show ?thesis
        using False more bfs_grow_trans[OF grow IH(1)] bfs_grow_visited[OF IH(1)] len(2) by (auto simp: Let_def)
    qed
  qed
qed

text \<open>Visiting a frontier, one node after the other.\<close>

definition bfs_node :: "nat list list \<Rightarrow> nat \<Rightarrow> nat \<Rightarrow> bfs \<Rightarrow> bfs" where
  "bfs_node adj n u st = (if length (bf_list st) < n then bfs_nbrs n (adj ! u) st else st)"

lemma rfold_bfs_visit: "rfold (\<lambda>u. bfs_visit n u (Inr (adj ! u))) us st = Inr (fold (bfs_node adj n) us st)"
  by (induction us arbitrary: st) (simp_all add: bfs_visit_def bfs_node_def)

lemma bfs_nodes_grow:
  assumes "length (bf_list st) \<le> n" "\<forall>u \<in> set us. \<forall>v \<in> set (adj ! u). P v"
  shows "bfs_grow P st (fold (bfs_node adj n) us st) \<and> length (bf_list (fold (bfs_node adj n) us st)) \<le> n \<and>
    (length (bf_list (fold (bfs_node adj n) us st)) < n \<longrightarrow> (\<forall>u \<in> set us. set (adj ! u) \<subseteq> set (bf_visited (fold (bfs_node adj n) us st))))"
  using assms
proof (induction us arbitrary: st)
  case Nil
  then show ?case by simp
next
  case (Cons u us)
  let ?st = "bfs_node adj n u st"
  have one: "bfs_grow P st ?st" "length (bf_list ?st) \<le> n" "length (bf_list ?st) < n \<Longrightarrow> set (adj ! u) \<subseteq> set (bf_visited ?st)"
    using bfs_nbrs_grow[of st n "adj ! u" P] Cons.prems by (auto simp: bfs_node_def split: if_splits)
  let ?r = "fold (bfs_node adj n) us ?st"
  have IH: "bfs_grow P ?st ?r" "length (bf_list ?r) \<le> n" "length (bf_list ?r) < n \<longrightarrow> (\<forall>u \<in> set us. set (adj ! u) \<subseteq> set (bf_visited ?r))"
    using Cons.IH[of ?st] one(2) Cons.prems(2) by auto
  have "length (bf_list ?r) < n \<Longrightarrow> set (adj ! u) \<subseteq> set (bf_visited ?r)"
    using one(3) bfs_grow_length[OF IH(1)] bfs_grow_visited[OF IH(1)] by (meson le_less_trans order.trans)
  then show ?case
    using bfs_grow_trans[OF one(1) IH(1)] IH(2,3) by simp
qed

lemma bfs_level_eq:
  assumes "io_ok io adj" "set us \<subseteq> {..<length adj}" "b * per_node_alloc io \<le> length mem" "0 < b"
  shows "\<exists>mem'. length mem' = length mem \<and>
    bfs_level io b n us (mem, st) = Inr (mem', fold (bfs_node adj n) us (st\<lparr>bf_next := []\<rparr>))"
proof -
  have "\<exists>mem'. length mem' = length mem \<and> bfs_batch io n ids (mem, c) =
      rbind (rfold (\<lambda>u. bfs_visit n u (Inr (adj ! u))) ids c) (\<lambda>c1. Inr (mem', c1))"
    if "set ids \<subseteq> {..<length adj}" "length ids * per_node_alloc io \<le> length mem" for ids mem c
  proof (cases "length (bf_list c) < n")
    case True
    have "\<forall>i \<in> set ids. i < length adj" using that(1) by auto
    from scan_batch_eq[OF assms(1) this that(2), where visit = "bfs_visit n" and c = c] show ?thesis
      using True by (auto simp: bfs_batch_def)
  next
    case False
    have "fold (bfs_node adj n) ids c = c" using False by (induction ids) (simp_all add: bfs_node_def)
    then show ?thesis using False by (auto simp: bfs_batch_def rfold_bfs_visit)
  qed
  from batches_eq[where A = "{..<length adj}" and step = "bfs_batch io n" and v = "\<lambda>u. bfs_visit n u (Inr (adj ! u))"
      and c = "st\<lparr>bf_next := []\<rparr>", OF this assms(2-4)]
  show ?thesis by (simp add: bfs_level_def rfold_bfs_visit)
qed

section \<open>All levels\<close>

definition reachable :: "nat list list \<Rightarrow> nat set \<Rightarrow> nat set" where
  "reachable adj S = {v. \<exists>s \<in> S. (adj_edge adj)\<^sup>*\<^sup>* s v}"

lemma reachable_step: "u \<in> reachable adj S \<Longrightarrow> adj_edge adj u v \<Longrightarrow> v \<in> reachable adj S"
  unfolding reachable_def by (auto intro: rtranclp.rtrancl_into_rtrancl)

lemma reachable_least:
  assumes "S \<subseteq> A" "\<And>u v. u \<in> A \<Longrightarrow> adj_edge adj u v \<Longrightarrow> v \<in> A"
  shows "reachable adj S \<subseteq> A"
proof
  fix v assume "v \<in> reachable adj S"
  then obtain s where s: "s \<in> A" "(adj_edge adj)\<^sup>*\<^sup>* s v" using assms(1) by (auto simp: reachable_def)
  from s(2,1) show "v \<in> A" by (induction rule: rtranclp_induct) (use assms(2) in auto)
qed

text \<open>The nodes listed so far and the frontier: everything listed is reachable, and what is not in the
  frontier has all its neighbours listed.\<close>

definition bfs_inv :: "nat list list \<Rightarrow> nat set \<Rightarrow> nat list \<Rightarrow> bfs \<Rightarrow> bool" where
  "bfs_inv adj S F st \<longleftrightarrow> distinct (bf_list st) \<and> set (bf_visited st) = set (bf_list st) \<and> set F \<subseteq> set (bf_list st) \<and>
     set (bf_list st) \<subseteq> {..<length adj} \<and> set (bf_list st) \<subseteq> reachable adj S \<and> S \<subseteq> set (bf_list st) \<and>
     (\<forall>u \<in> set (bf_list st) - set F. set (adj ! u) \<subseteq> set (bf_list st))"

lemma bfs_level_inv:
  assumes "adj_closed adj" "bfs_inv adj S F st" "length (bf_list st) < n"
  defines "st' \<equiv> fold (bfs_node adj n) F (st\<lparr>bf_next := []\<rparr>)"
  shows "length (bf_list st') \<le> n" "bf_list st' = bf_list st @ bf_next st'"
    "length (bf_list st') < n \<Longrightarrow> bfs_inv adj S (bf_next st') st'"
    "distinct (bf_list st')" "set (bf_list st') \<subseteq> {..<length adj} \<inter> reachable adj S"
proof -
  let ?P = "\<lambda>v. v < length adj \<and> v \<in> reachable adj S" and ?st = "st\<lparr>bf_next := []\<rparr>"
  have I: "distinct (bf_list st)" "set (bf_visited st) = set (bf_list st)" "set F \<subseteq> set (bf_list st)"
    "set (bf_list st) \<subseteq> {..<length adj}" "set (bf_list st) \<subseteq> reachable adj S" "S \<subseteq> set (bf_list st)"
    "\<forall>u \<in> set (bf_list st) - set F. set (adj ! u) \<subseteq> set (bf_list st)"
    using assms(2) by (auto simp: bfs_inv_def)
  have P: "\<forall>u \<in> set F. \<forall>v \<in> set (adj ! u). ?P v"
    using I(3-5) assms(1) reachable_step[of _ adj S] by (auto simp: adj_closed_def adj_edge_def subset_iff)
  have g: "bfs_grow ?P ?st st'" "length (bf_list st') \<le> n"
    "length (bf_list st') < n \<longrightarrow> (\<forall>u \<in> set F. set (adj ! u) \<subseteq> set (bf_visited st'))"
    using bfs_nodes_grow[of ?st n F adj ?P] assms(3) P unfolding st'_def by auto
  then obtain new where new: "bf_list st' = bf_list st @ new" "bf_next st' = new"
    "set (bf_visited st') = set (bf_list st) \<union> set new" "distinct new" "set new \<inter> set (bf_list st) = {}" "\<forall>v \<in> set new. ?P v"
    using I(2) by (auto simp: bfs_grow_def)
  show "length (bf_list st') \<le> n" by (rule g(2))
  show "bf_list st' = bf_list st @ bf_next st'" by (simp add: new(1,2))
  show "distinct (bf_list st')" "set (bf_list st') \<subseteq> {..<length adj} \<inter> reachable adj S"
    using I(1,4,5) new by auto
  assume "length (bf_list st') < n"
  then have "\<forall>u \<in> set F. set (adj ! u) \<subseteq> set (bf_list st) \<union> set new" using g(3) new(3) by simp
  then have "\<forall>u \<in> set (bf_list st). set (adj ! u) \<subseteq> set (bf_list st) \<union> set new" using I(7) by blast
  then show "bfs_inv adj S (bf_next st') st'"
    using I new unfolding bfs_inv_def by auto
qed

lemma bfs_levels_spec:
  assumes "io_ok io adj" "adj_closed adj" "0 < b"
    and "bfs_inv adj S F st" "b * per_node_alloc io \<le> length mem"
  shows "\<exists>L. bfs_levels io b n F (mem, st) = Some (Inr L) \<and> distinct L \<and> S \<subseteq> set L \<and> set L \<subseteq> reachable adj S \<inter> {..<length adj} \<and>
    length L \<le> max n (length (bf_list st)) \<and> (length L < n \<longrightarrow> set L = reachable adj S)"
  using assms(4,5)
proof (induction "2 * card ({..<length adj} - set (bf_list st)) + (if F = [] then 0 else 1)" arbitrary: F st mem rule: less_induct)
  case less
  have I: "distinct (bf_list st)" "set F \<subseteq> {..<length adj}" "set (bf_list st) \<subseteq> {..<length adj}" "set (bf_list st) \<subseteq> reachable adj S"
    "S \<subseteq> set (bf_list st)" "\<forall>u \<in> set (bf_list st) - set F. set (adj ! u) \<subseteq> set (bf_list st)"
    using less.prems(1) by (auto simp: bfs_inv_def)
  show ?case
  proof (cases "length (bf_list st) < n \<and> F \<noteq> []")
    case False
    have "bfs_levels io b n F (mem, st) = Some (Inr (bf_list st))"
      using False by (subst bfs_levels.simps) auto
    moreover have "length (bf_list st) < n \<longrightarrow> reachable adj S \<subseteq> set (bf_list st)"
      using False I(6) by (intro impI reachable_least[OF I(5)]) (auto simp: adj_edge_def)
    ultimately show ?thesis
      using I by auto
  next
    case True
    define st' where "st' = fold (bfs_node adj n) F (st\<lparr>bf_next := []\<rparr>)"
    obtain mem' where m: "length mem' = length mem" "bfs_level io b n F (mem, st) = Inr (mem', st')"
      using bfs_level_eq[OF assms(1) I(2) less.prems(2) assms(3)] unfolding st'_def by blast
    note lv = bfs_level_inv[OF assms(2) less.prems(1), of n, folded st'_def]
    have run: "bfs_levels io b n F (mem, st) = bfs_levels io b n (bf_next st') (mem', st')"
      using True m(2) by (subst bfs_levels.simps) simp
    show ?thesis
    proof (cases "length (bf_list st') < n")
      case full: False
      have "bfs_levels io b n (bf_next st') (mem', st') = Some (Inr (bf_list st'))"
        using full by (subst bfs_levels.simps) simp
      then show ?thesis
        using run lv True full I(5) by auto
    next
      case more: True
      have "bf_next st' \<noteq> [] \<Longrightarrow> card ({..<length adj} - set (bf_list st')) < card ({..<length adj} - set (bf_list st))"
        using lv(2,4,5) True I(3) by (intro psubset_card_mono) (auto simp: neq_Nil_conv)
      then have "2 * card ({..<length adj} - set (bf_list st')) + (if bf_next st' = [] then 0 else 1) <
          2 * card ({..<length adj} - set (bf_list st)) + (if F = [] then 0 else 1)"
        using lv(2) True by (cases "bf_next st' = []") auto
      from less.hyps[OF this lv(3)[OF _ more]] m(1) less.prems(2) True run show ?thesis
        using lv(1) by (auto simp: max_def split: if_splits)
    qed
  qed
qed

lemma bfs_starts:
  assumes "set (bf_visited st) = set (bf_list st)" "bf_next st = bf_list st" "distinct (bf_list st)"
  shows "set (bf_visited (fold bfs_start ms st)) = set (bf_list (fold bfs_start ms st)) \<and>
    bf_next (fold bfs_start ms st) = bf_list (fold bfs_start ms st) \<and> distinct (bf_list (fold bfs_start ms st)) \<and>
    set (bf_list (fold bfs_start ms st)) = set (bf_list st) \<union> set ms"
  using assms
proof (induction ms arbitrary: st)
  case Nil
  then show ?case by simp
next
  case (Cons m ms)
  show ?case
    using Cons.IH[of "bfs_start m st"] Cons.prems by (auto simp: bfs_start_def bfs_add_def)
qed


lemma one_node_io: "io_ok \<lparr>io_sub = (\<lambda>i n. int n), io_got = (\<lambda>i n. int n), io_file = replicate 16 0 @ le_bytes 4 1 @ enc32 [0],
    io_src = FixedGraph (fixed_source_new 1)\<rparr> [[0]]"
  by (simp add: io_ok_def aio_up_def fixed_graph_def fixed_source_new_def block_def)


end
