(* ===== verification/Cache_Gen.thy ===== *)
theory Cache_Gen
  imports Cache_Select
begin

text \<open>
  \<open>search/ours_cache_gen.cpp\<close>: the tool that chooses the nodes to cache. A breadth-first search from the start
  node comes first; in hybrid mode the rest are the nodes of highest in-degree, counted by a parallel
  scan of the index. The list is written as text, one id a line, and \<open>read_node_list_from_txt\<close> of
  \<open>search/ours_search_main.cpp\<close> reads it.
\<close>

section \<open>Start node and source\<close>

text \<open>The bytes a read leaves in a variable: those of the file, and where it is short the old ones.\<close>

definition read_into :: "bfile \<Rightarrow> nat \<Rightarrow> nat \<Rightarrow> byte list \<Rightarrow> byte list" where
  "read_into f pos n old = block f pos n @ drop (length (block f pos n)) old"

text \<open>\<open>n_medoids\<close> has 8 bytes, of which 4 are read; \<open>junk\<close> and \<open>junk2\<close> are the bytes of the two variables
  before.\<close>

definition detect_start_node :: "byte list \<Rightarrow> byte list \<Rightarrow> (string \<Rightarrow> bfile option) \<Rightarrow> string \<Rightarrow> nat \<Rightarrow> nat" where
  "detect_start_node junk junk2 fs graph_path start_node =
     (if start_node \<noteq> 0 then start_node
      else
        let l = length graph_path;
            prefix = (if l > 11 \<and> drop (l - 11) graph_path = ''_disk.index'' then take (l - 11) graph_path else graph_path)
        in case fs (prefix @ ''_medoids.bin'') of
             Some m_in \<Rightarrow>
               (if le_nat (read_into m_in 0 4 junk) > 0 then le_nat (read_into m_in 8 4 junk2) else start_node)
           | None \<Rightarrow>
               let alt = graph_path @ ''_disk.index'';
                   header_path = (if fs graph_path = None \<and> fs alt \<noteq> None then alt else graph_path)
               in (case load_disk_index_metadata header_path (fs header_path) of
                     Inr m \<Rightarrow> u32 (dm_medoid m)
                   | Inl e \<Rightarrow> start_node))"

definition contains :: "string \<Rightarrow> string \<Rightarrow> bool" where
  "contains p s \<longleftrightarrow> (\<exists>i \<in> set [0..<length s + 1]. has_prefix p (drop i s))"

text \<open>The file and the source the tool reads, and the number of nodes.\<close>

definition gen_source :: "bool \<Rightarrow> nat \<Rightarrow> (string \<Rightarrow> bfile option) \<Rightarrow> string \<Rightarrow> (string \<times> gsrc \<times> nat) res" where
  "gen_source use_fixed_layout R fs graph_path =
     (if use_fixed_layout then
        let graph_file = (if contains ''_graph.bin'' graph_path then graph_path else graph_path @ ''_graph.bin'');
            node_size = u32 (8 + R * 4)
        in case fs graph_file of
             None \<Rightarrow> Inl (Die graph_file)
           | Some f \<Rightarrow>
               if node_size = 0 then Inl (Die ''division by zero'')
               else Inr (graph_file, FixedGraph (fixed_source_new R), sub64 (length f) 16 div node_size)
      else
        let index_file = (if contains ''_disk.index'' graph_path then graph_path else graph_path @ ''_disk.index'')
        in case load_disk_index_metadata index_file (fs index_file) of
             Inl e \<Rightarrow> Inl (Die e)
           | Inr m \<Rightarrow>
               let disk_bytes_per_point = u64 (dm_data_dim m * 4);
                   max_degree = u32 (sub64 (sub64 (dm_max_node_len m) disk_bytes_per_point) 4 div 4)
               in rbind (disk_source_new (dm_max_node_len m) max_degree disk_bytes_per_point) (\<lambda>ds.
                    Inr (index_file, DiskANNGraph ds, dm_num_points m)))"

section \<open>Breadth-first search\<close>

text \<open>\<open>gb_stop\<close> is the jump to \<open>bfs_done\<close>.\<close>

record gbfs =
  gb_selected :: "nat list"
  gb_next :: "nat list"
  gb_stop :: bool

fun gen_nbrs :: "nat \<Rightarrow> nat list \<Rightarrow> gbfs \<Rightarrow> gbfs" where
  "gen_nbrs k [] st = st"
| "gen_nbrs k (v # vs) st =
     (if v \<in> set (gb_selected st) then gen_nbrs k vs st
      else let st1 = st\<lparr>gb_selected := gb_selected st @ [v], gb_next := gb_next st @ [v]\<rparr>
           in if k \<le> length (gb_selected st1) then st1\<lparr>gb_stop := True\<rparr> else gen_nbrs k vs st1)"

definition gen_visit :: "nat \<Rightarrow> nat \<Rightarrow> nat list res \<Rightarrow> gbfs \<Rightarrow> gbfs res" where
  "gen_visit k u r st = (if gb_stop st then Inr st else rbind r (\<lambda>ns. Inr (gen_nbrs k ns st)))"

definition gen_batch :: "disk_io \<Rightarrow> nat \<Rightarrow> nat list \<Rightarrow> byte list \<times> gbfs \<Rightarrow> (byte list \<times> gbfs) res" where
  "gen_batch io k ids s = (if gb_stop (snd s) then Inr s else scan_batch io (gen_visit k) ids s)"

fun gen_hops :: "disk_io \<Rightarrow> nat \<Rightarrow> nat \<Rightarrow> nat list \<Rightarrow> byte list \<times> gbfs \<Rightarrow> nat list res" where
  "gen_hops io k 0 frontier s = Inr (gb_selected (snd s))"
| "gen_hops io k (Suc h) frontier s =
     (if frontier = [] then Inr (gb_selected (snd s))
      else rbind (rfold (gen_batch io k) (batches 512 frontier) (fst s, (snd s)\<lparr>gb_next := []\<rparr>)) (\<lambda>s1.
        if gb_stop (snd s1) \<or> k \<le> length (gb_selected (snd s1)) then Inr (gb_selected (snd s1))
        else gen_hops io k h (gb_next (snd s1)) s1))"

section \<open>In-degrees\<close>

text \<open>\<open>local_increments\<close>, an entry per id seen.\<close>

fun bump :: "nat \<Rightarrow> (nat \<times> nat) list \<Rightarrow> (nat \<times> nat) list" where
  "bump v [] = [(v, 1)]"
| "bump v ((w, c) # es) = (if w = v then (w, u32 (c + 1)) # es else (w, c) # bump v es)"

definition count_visit :: "nat \<Rightarrow> nat \<Rightarrow> nat list res \<Rightarrow> (nat \<times> nat) list \<Rightarrow> (nat \<times> nat) list res" where
  "count_visit num_nodes u r es = rbind r (\<lambda>ns. Inr (fold bump (filter (\<lambda>v. v < num_nodes) ns) es))"

text \<open>The increments of every batch; a thread's buffer may hold anything before (\<open>buf\<close>).\<close>

definition scan_increments :: "disk_io \<Rightarrow> nat \<Rightarrow> nat \<Rightarrow> (nat list \<Rightarrow> byte list) \<Rightarrow> (nat \<times> nat) list list res" where
  "scan_increments io io_batch num_nodes buf =
     rfold (\<lambda>ids incs. rbind (scan_batch io (count_visit num_nodes) ids (buf ids, [])) (\<lambda>(mem, es). Inr (incs @ [es])))
       (batches io_batch [0..<num_nodes]) []"

definition atomic_add :: "nat \<times> nat \<Rightarrow> nat list \<Rightarrow> nat list" where
  "atomic_add e deg = (case e of (v, c) \<Rightarrow> deg[v := u32 (deg ! v + c)])"

section \<open>The best in-degrees\<close>

text \<open>\<open>NodeIndegree::operator>\<close> on (degree, id).\<close>

definition indeg_gt :: "nat \<times> nat \<Rightarrow> nat \<times> nat \<Rightarrow> bool" where
  "indeg_gt a b = (if fst a \<noteq> fst b then fst b < fst a else snd a < snd b)"

text \<open>\<open>std::priority_queue\<close> with \<open>std::greater\<close>: a list with the top, the least element, at the end.\<close>

definition fill_step :: "nat \<Rightarrow> nat list \<Rightarrow> nat list \<Rightarrow> nat \<Rightarrow> (nat \<times> nat) list \<Rightarrow> (nat \<times> nat) list" where
  "fill_step needed selected in_degrees i pq =
     (if i \<in> set selected then pq
      else
        let deg = in_degrees ! i
        in if length pq < needed then insort_by indeg_gt (deg, i) pq
           else if deg > fst (last pq) then insort_by indeg_gt (deg, i) (butlast pq)
           else pq)"

function drain :: "(nat \<times> nat) list \<Rightarrow> nat list" where
  "drain pq = (if pq = [] then [] else snd (last pq) # drain (butlast pq))"
  by pat_completeness auto
termination
  by (relation "measure length") auto

declare drain.simps [simp del]

definition fill_cache :: "nat \<Rightarrow> nat \<Rightarrow> nat list \<Rightarrow> nat list \<Rightarrow> nat list" where
  "fill_cache k num_nodes selected in_degrees =
     (let needed = (if k \<le> length selected then 0 else k - u32 (length selected))
      in if needed > 0 then rev (drain (fold (fill_step needed selected in_degrees) [0..<num_nodes] [])) else [])"

section \<open>The tool\<close>

definition write_ids :: "nat list \<Rightarrow> string" where
  "write_ids us = concat (map (\<lambda>u. dec_string u @ [CHR 0x0A]) us)"

definition limit_hops :: "bool \<Rightarrow> nat \<Rightarrow> nat" where
  "limit_hops bfs_mode bfs_hops = (if bfs_mode then 999999 else bfs_hops)"

text \<open>\<open>order\<close> is the order in which the set of selected nodes is walked, \<open>sched\<close> the order in which the threads'
  additions take effect.\<close>

definition cache_gen ::
    "string option \<Rightarrow> disk_io \<Rightarrow> (nat \<Rightarrow> byte list) \<Rightarrow> (nat list \<Rightarrow> byte list) \<Rightarrow> (nat list \<Rightarrow> nat list) \<Rightarrow>
     ((nat \<times> nat) list list \<Rightarrow> (nat \<times> nat) list) \<Rightarrow> bool \<Rightarrow> nat \<Rightarrow> nat \<Rightarrow> nat \<Rightarrow> nat \<Rightarrow> string res" where
  "cache_gen env_bs io fresh buf order sched bfs_mode bfs_hops num_nodes k start_node =
     rbind (gen_hops io k (limit_hops bfs_mode bfs_hops) [start_node]
                 (fresh (512 * per_node_alloc io), \<lparr>gb_selected = [start_node], gb_next = [], gb_stop = False\<rparr>)) (\<lambda>selected.
           if bfs_mode \<or> k \<le> length selected then Inr (write_ids (order selected))
           else rbind (scan_increments io (io_batch_size env_bs) num_nodes buf) (\<lambda>incs.
                  let in_degrees = fold atomic_add (sched incs) (replicate num_nodes 0)
                  in Inr (write_ids (order selected @ fill_cache k num_nodes selected in_degrees))))"

section \<open>Reading the list\<close>

definition is_blank :: "char \<Rightarrow> bool" where
  "is_blank c \<longleftrightarrow> c \<in> {CHR '' '', CHR 0x09, CHR 0x0D, CHR 0x0A}"

definition trim_copy :: "string \<Rightarrow> string" where
  "trim_copy s = rev (dropWhile is_blank (rev (dropWhile is_blank s)))"

fun read_ids :: "nat \<Rightarrow> nat \<Rightarrow> string list \<Rightarrow> nat list \<Rightarrow> string + nat list" where
  "read_ids k line_no [] node_list = Inr node_list"
| "read_ids k line_no (line # lines) node_list =
     (if \<not> length node_list < k then Inr node_list
      else
        let t = trim_copy line
        in if t = [] \<or> hd t = CHR ''#'' then read_ids k (line_no + 1) lines node_list
           else case strto t of
                None \<Rightarrow> Inl (''invalid node id at line '' @ dec_string (line_no + 1) @ '': '' @ t)
              | Some (neg, v, rest) \<Rightarrow>
                  if 2 ^ 64 \<le> v \<or> trim_copy rest \<noteq> []
                  then Inl (''invalid node id at line '' @ dec_string (line_no + 1) @ '': '' @ t)
                  else if (if neg then u64 (2 ^ 64 - v) else v) > 2 ^ 32 - 1
                  then Inl (''node id out of uint32 range at line '' @ dec_string (line_no + 1) @ '': '' @ t)
                  else read_ids k (line_no + 1) lines (node_list @ [if neg then u64 (2 ^ 64 - v) else v]))"

definition read_node_list_from_txt :: "string option \<Rightarrow> nat \<Rightarrow> string + nat list" where
  "read_node_list_from_txt txt num_nodes_to_cache =
     (if num_nodes_to_cache = 0 then Inr []
      else case txt of
          None \<Rightarrow> Inl ''failed to open file''
        | Some s \<Rightarrow>
            (case read_ids num_nodes_to_cache 0 (getlines s) [] of
               Inl e \<Rightarrow> Inl e
             | Inr node_list \<Rightarrow>
                 if length node_list \<noteq> num_nodes_to_cache
                 then Inl (''expected '' @ dec_string num_nodes_to_cache @ '' node ids, found '' @ dec_string (length node_list))
                 else Inr node_list))"

section \<open>Two observations\<close>

text \<open>In the fixed layout a node has \<open>4 + 4 R\<close> bytes for the source, which reads 4 of count and \<open>R\<close> ids, but the tool
  divides the length by \<open>8 + 4 R\<close>: it misses nodes of every file.\<close>

lemma fixed_layout_count_short:
  assumes "fs ''x_graph.bin'' = Some f" "length f = 16 + n * (4 + 4 * R)" "0 < n" "R < 2 ^ 29" "length f < 2 ^ 64"
  shows "\<exists>g m. gen_source True R fs ''x_graph.bin'' = Inr (''x_graph.bin'', g, m) \<and> m < n"
proof -
  have w: "u32 (8 + R * 4) = 8 + 4 * R" using assms(4) by (simp add: u32_id)
  have "n * (4 + 4 * R) < n * (8 + 4 * R)" using assms(3) by simp
  then have "n * (4 + 4 * R) div (8 + 4 * R) < n" by (simp add: div_less_iff_less_mult)
  moreover have "contains ''_graph.bin'' ''x_graph.bin''" by code_simp
  moreover have "sub64 (length f) 16 = n * (4 + 4 * R)" using assms(2,5) by (simp add: sub64_id)
  ultimately show ?thesis
    using assms(1) w by (simp add: gen_source_def Let_def)
qed

text \<open>Only 4 of the 8 bytes of \<open>n_medoids\<close> are read: a file with no medoid gives a start node or none, as the bytes of the
  variable before the read have it.\<close>

lemma le_nat_append: "le_nat (xs @ ys) = le_nat xs + 256 ^ length xs * le_nat ys"
  by (induction xs) (simp_all add: algebra_simps)

lemma medoid_count_uninitialised:
  assumes "fs ''g_medoids.bin'' = Some (le_bytes 4 0 @ le_bytes 4 1 @ le_bytes 4 7)" "length junk = 4"
  shows "detect_start_node (replicate 8 0) junk fs ''g'' 0 = 0" "detect_start_node (replicate 8 1) junk fs ''g'' 0 = 7"
proof -
  let ?f = "le_bytes 4 0 @ le_bytes 4 1 @ le_bytes 4 7"
  have "block ?f 0 4 = le_bytes 4 0" "block ?f 8 4 = le_bytes 4 7" by (simp_all add: block_def)
  then have r: "le_nat (read_into ?f 0 4 (replicate 8 b)) = 256 ^ 4 * le_nat (replicate 4 b)" "le_nat (read_into ?f 8 4 junk) = 7" for b
    using assms(2) by (simp_all add: read_into_def le_nat_append u32_id)
  have pos: "0 < le_nat (replicate 4 1)" using replicate_Suc[of 3 "1 :: byte"] by simp
  show "detect_start_node (replicate 8 0) junk fs ''g'' 0 = 0" "detect_start_node (replicate 8 1) junk fs ''g'' 0 = 7"
    using assms(1) r(1)[of 0] r(1)[of 1] r(2) pos by (simp_all add: detect_start_node_def)
qed

section \<open>The list as text\<close>

lemma digit_not_blank: "is_dig c \<Longrightarrow> \<not> is_blank c \<and> c \<noteq> CHR ''#'' \<and> c \<noteq> CHR 0x0A"
  by (auto simp: is_dig_def is_blank_def code_def)

lemma dropWhile_digits: "(\<forall>c \<in> set s. is_dig c) \<Longrightarrow> dropWhile is_blank s = s"
  using digit_not_blank by (cases s) auto

lemma trim_copy_dec_string [simp]: "trim_copy (dec_string n) = dec_string n"
  using dropWhile_digits[of "dec_string n"] dropWhile_digits[of "rev (dec_string n)"] dec_string_digits[of n]
  by (simp add: trim_copy_def)

lemma getlines_line:
  assumes "CHR 0x0A \<notin> set l"
  shows "getlines (l @ CHR 0x0A # s) = l # getlines s"
proof -
  have "takeWhile (\<lambda>d. d \<noteq> CHR 0x0A) (l @ CHR 0x0A # s) = l" "dropWhile (\<lambda>d. d \<noteq> CHR 0x0A) (l @ CHR 0x0A # s) = CHR 0x0A # s"
    using assms by (auto simp: takeWhile_append dropWhile_append)
  then show ?thesis
    by (cases "l @ CHR 0x0A # s") auto
qed

lemma getlines_write_ids: "getlines (write_ids us) = map dec_string us"
proof (induction us)
  case Nil
  then show ?case by (simp add: write_ids_def)
next
  case (Cons u us)
  have "CHR 0x0A \<notin> set (dec_string u)" using dec_string_digits[of u] digit_not_blank by auto
  from getlines_line[OF this, of "write_ids us"] Cons show ?case by (simp add: write_ids_def)
qed

lemma read_ids_dec:
  assumes "\<forall>u \<in> set us. u < 2 ^ 32" "length acc \<le> k"
  shows "read_ids k n (map dec_string us) acc = Inr (take k (acc @ us))"
  using assms
proof (induction us arbitrary: n acc)
  case Nil
  then show ?case by simp
next
  case (Cons u us)
  show ?case
  proof (cases "length acc < k")
    case False
    then show ?thesis using Cons.prems(2) by simp
  next
    case True
    have "hd (dec_string u) \<noteq> CHR ''#''"
      using dec_string_digits[of u] digit_not_blank hd_in_set[OF dec_string_nonempty[of u]] by blast
    moreover have "strto (dec_string u) = Some (False, u, [])" using strto_dec_string[of "[]" u] by simp
    moreover have "trim_copy [] = []" by (simp add: trim_copy_def)
    ultimately have "read_ids k n (map dec_string (u # us)) acc = read_ids k (n + 1) (map dec_string us) (acc @ [u])"
      using True Cons.prems(1) by (simp add: Let_def)
    then show ?thesis
      using Cons.IH[of "acc @ [u]" "n + 1"] Cons.prems(1) True by simp
  qed
qed

lemma read_written:
  assumes "\<forall>u \<in> set us. u < 2 ^ 32"
  shows "read_node_list_from_txt (Some (write_ids us)) k =
    (if k \<le> length us then Inr (take k us)
     else Inl (''expected '' @ dec_string k @ '' node ids, found '' @ dec_string (length us)))"
  using read_ids_dec[OF assms, of "[]" k 0] by (auto simp: read_node_list_from_txt_def getlines_write_ids)

section \<open>The breadth-first part\<close>

text \<open>The selected nodes are at once the visited ones and the list.\<close>

definition bfs_of :: "gbfs \<Rightarrow> bfs" where
  "bfs_of st = \<lparr>bf_visited = rev (gb_selected st), bf_next = gb_next st, bf_list = gb_selected st\<rparr>"

lemma bfs_of_simps [simp]:
  "set (bf_visited (bfs_of st)) = set (gb_selected st)" "bf_next (bfs_of st) = gb_next st" "bf_list (bfs_of st) = gb_selected st"
  "bfs_of (st\<lparr>gb_next := F\<rparr>) = (bfs_of st)\<lparr>bf_next := F\<rparr>"
  by (simp_all add: bfs_of_def)

definition gb_sync :: "nat \<Rightarrow> gbfs \<Rightarrow> bool" where
  "gb_sync k st \<longleftrightarrow> gb_stop st = (k \<le> length (gb_selected st))"

lemma gen_nbrs_bfs:
  assumes "gb_sync k st" "length (gb_selected st) < k"
  shows "bfs_of (gen_nbrs k ns st) = bfs_nbrs k ns (bfs_of st) \<and> gb_sync k (gen_nbrs k ns st)"
  using assms
proof (induction ns arbitrary: st)
  case Nil
  then show ?case by simp
next
  case (Cons v vs)
  let ?st = "st\<lparr>gb_selected := gb_selected st @ [v], gb_next := gb_next st @ [v]\<rparr>"
  have "bfs_of ?st = bfs_add v (bfs_of st)" "bfs_of (?st\<lparr>gb_stop := True\<rparr>) = bfs_add v (bfs_of st)"
    by (simp_all add: bfs_of_def bfs_add_def)
  then show ?case
    using Cons.IH[of st] Cons.IH[of ?st] Cons.prems by (auto simp: Let_def gb_sync_def bfs_add_def)
qed

definition gen_node :: "nat list list \<Rightarrow> nat \<Rightarrow> nat \<Rightarrow> gbfs \<Rightarrow> gbfs" where
  "gen_node adj k u st = (if gb_stop st then st else gen_nbrs k (adj ! u) st)"

lemma gen_nodes_bfs:
  assumes "gb_sync k st"
  shows "bfs_of (fold (gen_node adj k) us st) = fold (bfs_node adj k) us (bfs_of st) \<and> gb_sync k (fold (gen_node adj k) us st)"
  using assms
proof (induction us arbitrary: st)
  case Nil
  then show ?case by simp
next
  case (Cons u us)
  have "bfs_of (gen_node adj k u st) = bfs_node adj k u (bfs_of st) \<and> gb_sync k (gen_node adj k u st)"
    using gen_nbrs_bfs[OF Cons.prems, of "adj ! u"] Cons.prems by (auto simp: gen_node_def bfs_node_def gb_sync_def)
  then show ?case using Cons.IH by simp
qed

lemma rfold_gen_visit: "rfold (\<lambda>u. gen_visit k u (Inr (adj ! u))) us st = Inr (fold (gen_node adj k) us st)"
  by (induction us arbitrary: st) (simp_all add: gen_visit_def gen_node_def)

lemma gen_hop_eq:
  assumes "io_ok io adj" "set us \<subseteq> {..<length adj}" "512 * per_node_alloc io \<le> length mem"
  shows "\<exists>mem'. length mem' = length mem \<and>
    rfold (gen_batch io k) (batches 512 us) (mem, st) = Inr (mem', fold (gen_node adj k) us st)"
proof -
  have "\<exists>mem'. length mem' = length mem \<and> gen_batch io k ids (mem, c) =
      rbind (rfold (\<lambda>u. gen_visit k u (Inr (adj ! u))) ids c) (\<lambda>c1. Inr (mem', c1))"
    if "set ids \<subseteq> {..<length adj}" "length ids * per_node_alloc io \<le> length mem" for ids mem c
  proof (cases "gb_stop c")
    case False
    have "\<forall>i \<in> set ids. i < length adj" using that(1) by auto
    from scan_batch_eq[OF assms(1) this that(2), where visit = "gen_visit k" and c = c] show ?thesis
      using False by (auto simp: gen_batch_def)
  next
    case True
    have "fold (gen_node adj k) ids c = c" using True by (induction ids) (simp_all add: gen_node_def)
    then show ?thesis using True by (auto simp: gen_batch_def rfold_gen_visit)
  qed
  from batches_eq[where A = "{..<length adj}" and step = "gen_batch io k" and v = "\<lambda>u. gen_visit k u (Inr (adj ! u))"
      and c = st, OF this assms(2,3)]
  show ?thesis by (simp add: rfold_gen_visit)
qed

text \<open>The nodes at most \<open>h\<close> hops from \<open>s\<close>.\<close>

fun hop_ball :: "nat list list \<Rightarrow> nat \<Rightarrow> nat \<Rightarrow> nat set" where
  "hop_ball adj s 0 = {s}"
| "hop_ball adj s (Suc h) = hop_ball adj s h \<union> {v. \<exists>u \<in> hop_ball adj s h. adj_edge adj u v}"

lemma hop_ball_mono: "h \<le> h' \<Longrightarrow> hop_ball adj s h \<subseteq> hop_ball adj s h'"
  by (induction h' rule: nat_induct_at_least[of h, consumes 1]) auto

lemma hop_ball_closed:
  assumes "\<forall>u \<in> hop_ball adj s h. \<forall>v. adj_edge adj u v \<longrightarrow> v \<in> hop_ball adj s h" "h \<le> h'"
  shows "hop_ball adj s h' = hop_ball adj s h"
  using assms(2) by (induction h' rule: nat_induct_at_least[of h, consumes 1]) (use assms(1) in auto)

definition hop_inv :: "nat list list \<Rightarrow> nat \<Rightarrow> nat \<Rightarrow> nat list \<Rightarrow> nat list \<Rightarrow> bool" where
  "hop_inv adj s h F sel \<longleftrightarrow> distinct sel \<and> set sel = hop_ball adj s h \<and> set F \<subseteq> set sel \<and> set sel \<subseteq> {..<length adj} \<and>
     (\<forall>u \<in> set sel - set F. set (adj ! u) \<subseteq> set sel)"

text \<open>A full hop that does not reach \<open>k\<close> nodes gives the next ball; one that does stays inside it.\<close>

lemma gen_hop_inv:
  assumes "adj_closed adj" "hop_inv adj s h F (gb_selected st)" "length (gb_selected st) < k" "gb_sync k st"
  defines "st' \<equiv> fold (gen_node adj k) F (st\<lparr>gb_next := []\<rparr>)"
  shows "gb_sync k st'" "length (gb_selected st') \<le> k" "distinct (gb_selected st')"
    "set (gb_selected st') \<subseteq> hop_ball adj s (Suc h) \<inter> {..<length adj}" "set (gb_selected st) \<subseteq> set (gb_selected st')"
    "length (gb_selected st') < k \<Longrightarrow> hop_inv adj s (Suc h) (gb_next st') (gb_selected st')"
proof -
  let ?P = "\<lambda>v. v < length adj \<and> v \<in> hop_ball adj s (Suc h)" and ?st = "st\<lparr>gb_next := []\<rparr>"
  have I: "distinct (gb_selected st)" "set (gb_selected st) = hop_ball adj s h" "set F \<subseteq> set (gb_selected st)"
    "set (gb_selected st) \<subseteq> {..<length adj}" "\<forall>u \<in> set (gb_selected st) - set F. set (adj ! u) \<subseteq> set (gb_selected st)"
    using assms(2) unfolding hop_inv_def by blast+
  have sync: "bfs_of st' = fold (bfs_node adj k) F (bfs_of ?st) \<and> gb_sync k st'"
    unfolding st'_def using assms(4) by (intro gen_nodes_bfs) (simp add: gb_sync_def)
  have F: "u < length adj" "u \<in> hop_ball adj s h" if "u \<in> set F" for u using that I(2-4) by auto
  have P: "\<forall>u \<in> set F. \<forall>v \<in> set (adj ! u). ?P v"
    using F assms(1) by (auto simp: adj_closed_def adj_edge_def)
  have "bfs_grow ?P (bfs_of ?st) (bfs_of st')" "length (bf_list (bfs_of st')) \<le> k"
    and g: "length (bf_list (bfs_of st')) < k \<longrightarrow> (\<forall>u \<in> set F. set (adj ! u) \<subseteq> set (bf_visited (bfs_of st')))"
    using bfs_nodes_grow[of "bfs_of ?st" k F adj ?P] assms(3) P sync by auto
  then obtain new where new: "gb_selected st' = gb_selected st @ new" "gb_next st' = new"
    "distinct new" "set new \<inter> set (gb_selected st) = {}" "\<forall>v \<in> set new. ?P v" and len: "length (gb_selected st') \<le> k"
    by (auto simp: bfs_grow_def)
  show "gb_sync k st'" "length (gb_selected st') \<le> k" using sync len by simp_all
  show "distinct (gb_selected st')" "set (gb_selected st') \<subseteq> hop_ball adj s (Suc h) \<inter> {..<length adj}"
    "set (gb_selected st) \<subseteq> set (gb_selected st')"
    using I(1,2,4) new by auto
  assume "length (gb_selected st') < k"
  then have "\<forall>u \<in> set F. set (adj ! u) \<subseteq> set (gb_selected st')" using g by simp
  then have "\<forall>u \<in> set (gb_selected st). set (adj ! u) \<subseteq> set (gb_selected st')" using I(5) new(1) by auto
  then show "hop_inv adj s (Suc h) (gb_next st') (gb_selected st')"
    using I new unfolding hop_inv_def by (auto simp: adj_edge_def)
qed

lemma gen_hops_spec:
  assumes "io_ok io adj" "adj_closed adj"
    and "hop_inv adj s h F (gb_selected st)" "length (gb_selected st) < k" "gb_sync k st" "512 * per_node_alloc io \<le> length mem"
  shows "\<exists>sel. gen_hops io k n F (mem, st) = Inr sel \<and> distinct sel \<and> set sel \<subseteq> hop_ball adj s (h + n) \<inter> {..<length adj} \<and>
    set (gb_selected st) \<subseteq> set sel \<and> length sel \<le> k \<and> (length sel < k \<longrightarrow> set sel = hop_ball adj s (h + n))"
  using assms(3-)
proof (induction n arbitrary: h F st mem)
  case 0
  then show ?case by (auto simp: hop_inv_def)
next
  case (Suc n)
  show ?case
  proof (cases "F = []")
    case True
    have "hop_ball adj s (h + Suc n) = hop_ball adj s h"
      using Suc.prems(1) True by (intro hop_ball_closed) (auto simp: hop_inv_def adj_edge_def)
    then show ?thesis using Suc.prems True by (auto simp: hop_inv_def)
  next
    case False
    define st' where "st' = fold (gen_node adj k) F (st\<lparr>gb_next := []\<rparr>)"
    note hop = gen_hop_inv[OF assms(2) Suc.prems(1-3), folded st'_def]
    have "set F \<subseteq> {..<length adj}" using Suc.prems(1) by (auto simp: hop_inv_def)
    from gen_hop_eq[OF assms(1) this Suc.prems(4), of k "st\<lparr>gb_next := []\<rparr>"] obtain mem' where
      m: "length mem' = length mem" "rfold (gen_batch io k) (batches 512 F) (mem, st\<lparr>gb_next := []\<rparr>) = Inr (mem', st')"
      unfolding st'_def by blast
    show ?thesis
    proof (cases "length (gb_selected st') < k")
      case full: False
      have "gen_hops io k (Suc n) F (mem, st) = Inr (gb_selected st')" using False full m(2) by simp
      moreover have "set (gb_selected st') \<subseteq> hop_ball adj s (h + Suc n) \<inter> {..<length adj}"
        using hop(4) hop_ball_mono[of "Suc h" "h + Suc n" adj s] by (simp del: hop_ball.simps) blast
      ultimately show ?thesis
        using full hop(2,3,5) by auto
    next
      case more: True
      have "gen_hops io k (Suc n) F (mem, st) = gen_hops io k n (gb_next st') (mem', st')"
        using False more m(2) hop(1) by (simp add: gb_sync_def)
      then show ?thesis
        using Suc.IH[OF hop(6)[OF more] more hop(1), of mem'] m(1) Suc.prems(4) hop(5) by fastforce
    qed
  qed
qed

section \<open>The in-degrees\<close>

definition in_degree :: "nat list list \<Rightarrow> nat \<Rightarrow> nat" where
  "in_degree adj v = count_list (concat adj) v"

definition total_inc :: "(nat \<times> nat) list \<Rightarrow> nat \<Rightarrow> nat" where
  "total_inc es v = sum_list (map (\<lambda>(w, c). if w = v then c else 0) es)"

lemma total_inc_simps [simp]:
  "total_inc [] v = 0" "total_inc ((w, c) # es) v = (if w = v then c else 0) + total_inc es v"
  "total_inc (es @ es') v = total_inc es v + total_inc es' v"
  by (simp_all add: total_inc_def)

lemma total_inc_mset: "mset es = mset es' \<Longrightarrow> total_inc es v = total_inc es' v"
  unfolding total_inc_def by (simp flip: sum_mset_sum_list)

lemma u32_add_left [simp]: "u32 (u32 a + b) = u32 (a + b)" "u32 (b + u32 a) = u32 (b + a)"
  by (simp_all add: u32_def mod_simps)

lemma u32_add_cong: "u32 a = u32 a' \<Longrightarrow> u32 (a + b) = u32 (a' + b)" "u32 a = u32 a' \<Longrightarrow> u32 (b + a) = u32 (b + a')"
  unfolding u32_def by (metis mod_add_left_eq, metis mod_add_right_eq)

lemma u32_total_bump: "u32 (total_inc (bump v es) w) = u32 (total_inc es w + (if v = w then 1 else 0))"
proof (induction v es rule: bump.induct)
  case (2 v x c es)
  show ?case
  proof (cases "x = v")
    case True
    then show ?thesis by (simp add: ac_simps)
  next
    case False
    then show ?thesis using u32_add_cong(2)[OF 2[OF False], of "if x = w then c else 0"] by (simp add: ac_simps)
  qed
qed simp

lemma u32_total_bumps: "u32 (total_inc (fold bump vs es) w) = u32 (total_inc es w + count_list vs w)"
proof (induction vs arbitrary: es)
  case (Cons v vs)
  have "u32 (total_inc (fold bump (v # vs) es) w) = u32 (total_inc (bump v es) w + count_list vs w)"
    using Cons.IH by simp
  also have "\<dots> = u32 (total_inc es w + (if v = w then 1 else 0) + count_list vs w)"
    by (rule u32_add_cong(1)[OF u32_total_bump])
  finally show ?case by (simp add: ac_simps)
qed simp

lemma bumps_bounded: "\<forall>e \<in> set es. fst e < n \<Longrightarrow> \<forall>v \<in> set vs. v < n \<Longrightarrow> \<forall>e \<in> set (fold bump vs es). fst e < n"
proof (induction vs arbitrary: es)
  case (Cons v vs)
  have "fst ` set (bump v es) = insert v (fst ` set es)" by (induction v es rule: bump.induct) auto
  then have "\<forall>e \<in> set (bump v es). fst e < n" using Cons.prems by (metis imageE image_eqI insertE list.set_intros(1))
  then show ?case using Cons.IH Cons.prems(2) by simp
qed simp

lemma rfold_count_visit:
  "rfold (\<lambda>u. count_visit n u (Inr (adj ! u))) us es = Inr (fold bump (filter (\<lambda>v. v < n) (concat (map ((!) adj) us))) es)"
  by (induction us arbitrary: es) (simp_all add: count_visit_def)

text \<open>Adding all increments, in any order.\<close>

lemma atomic_adds:
  assumes "\<forall>e \<in> set es. fst e < length deg" "v < length deg" "deg ! v < 2 ^ 32"
  shows "length (fold atomic_add es deg) = length deg \<and> fold atomic_add es deg ! v = u32 (deg ! v + total_inc es v)"
  using assms
proof (induction es arbitrary: deg)
  case Nil
  then show ?case by (simp add: u32_id)
next
  case (Cons e es)
  obtain w c where e: "e = (w, c)" by (cases e)
  have "atomic_add e deg ! v = (if w = v then u32 (deg ! v + c) else deg ! v)"
    using Cons.prems by (auto simp: atomic_add_def e nth_list_update)
  moreover have "length (atomic_add e deg) = length deg" by (simp add: atomic_add_def e)
  ultimately show ?case
    using Cons.IH[of "atomic_add e deg"] Cons.prems u32_lt by (auto simp: e ac_simps)
qed

lemma concat_batches: "0 < n \<Longrightarrow> concat (batches n ids) = ids"
proof (induction n ids rule: batches.induct)
  case (1 n ids)
  then show ?case by (subst batches.simps) auto
qed

lemma batches_length: "ids \<in> set (batches n xs) \<Longrightarrow> length ids \<le> n"
proof (induction n xs rule: batches.induct)
  case (1 n xs)
  then show ?case by (cases "xs = [] \<or> n = 0") (auto simp: batches.simps[of n xs])
qed

lemma rfold_collect:
  assumes "\<And>x acc. x \<in> set xs \<Longrightarrow> step x acc = Inr (acc @ [f x])"
  shows "rfold step xs acc = Inr (acc @ map f xs)"
  using assms by (induction xs arbitrary: acc) simp_all

lemma total_batches:
  "u32 (total_inc (concat (map (\<lambda>ids. fold bump (g ids) []) bs)) v) = u32 (count_list (concat (map g bs)) v)"
proof (induction bs)
  case (Cons ids bs)
  have "u32 (total_inc (fold bump (g ids) []) v) = u32 (count_list (g ids) v)"
    using u32_total_bumps[of "g ids" "[]" v] by simp
  from u32_add_cong(1)[OF this] u32_add_cong(2)[OF Cons] show ?case by simp
qed simp

lemma count_list_filter: "P v \<Longrightarrow> count_list (filter P xs) v = count_list xs v"
  by (induction xs) auto

lemma scan_increments_spec:
  assumes "io_ok io adj" "length adj = n" "0 < b" "\<forall>ids. b * per_node_alloc io \<le> length (buf ids)"
  shows "\<exists>incs. scan_increments io b n buf = Inr incs \<and> (\<forall>e \<in> set (concat incs). fst e < n) \<and>
    (\<forall>v < n. u32 (total_inc (concat incs) v) = u32 (in_degree adj v))"
proof -
  define nb where "nb us = filter (\<lambda>v. v < n) (concat (map ((!) adj) us))" for us
  let ?bs = "batches b [0..<n]" and ?f = "\<lambda>ids. fold bump (nb ids) []"
  have one: "rbind (scan_batch io (count_visit n) ids (buf ids, [])) (\<lambda>(mem, es). Inr (incs @ [es])) = Inr (incs @ [?f ids])"
    if "ids \<in> set ?bs" for ids and incs :: "(nat \<times> nat) list list"
  proof -
    have "set ids \<subseteq> set (concat ?bs)" using that by auto
    then have ids: "\<forall>i \<in> set ids. i < length adj" by (auto simp: concat_batches[OF assms(3)] assms(2))
    have "length ids * per_node_alloc io \<le> length (buf ids)"
      using batches_length[OF that] assms(4) by (meson le_trans mult_le_mono1)
    show ?thesis
      by (rule scan_batch_eq[OF assms(1) ids \<open>length ids * per_node_alloc io \<le> length (buf ids)\<close>, where visit = "count_visit n" and c = "[]"])
        (simp add: rfold_count_visit nb_def)
  qed
  have run: "scan_increments io b n buf = Inr (map ?f ?bs)"
    unfolding scan_increments_def by (rule rfold_collect[where acc = "[]" and f = ?f, simplified]) (use one in simp)
  have "\<forall>e \<in> set (?f ids). fst e < n" for ids
    by (rule bumps_bounded) (simp_all add: nb_def)
  then have "\<forall>e \<in> set (concat (map ?f ?bs)). fst e < n" by simp
  moreover have "u32 (total_inc (concat (map ?f ?bs)) v) = u32 (in_degree adj v)" if "v < n" for v
  proof -
    have "concat (map nb bs) = nb (concat bs)" for bs by (induction bs) (simp_all add: nb_def)
    then have "concat (map nb ?bs) = nb (concat ?bs)" .
    also have "\<dots> = filter (\<lambda>v. v < n) (concat adj)"
      using map_nth[of adj] by (simp add: concat_batches[OF assms(3)] nb_def assms(2))
    finally show ?thesis
      using that by (simp add: total_batches in_degree_def count_list_filter)
  qed
  ultimately show ?thesis using run by auto
qed

section \<open>The nodes of highest in-degree\<close>

interpretation indeg: strict_total indeg_gt "\<lambda>_. True"
  by unfold_locales (auto simp: indeg_gt_def prod_eq_iff split: if_splits)

lemma insort_by_append:
  "indeg_gt x l \<Longrightarrow> insort_by indeg_gt x (ys @ [l]) = insort_by indeg_gt x ys @ [l]"
  using indeg.lt_asym[of x l] by (induction ys) auto

lemma insort_length [simp]: "length (insort_by lt x ys) = Suc (length ys)"
  by (induction ys) auto

lemma fill_step_top:
  assumes "i \<notin> set sel" "\<forall>y \<in> set pq. snd y < i" "sorted_by indeg_gt pq" "length pq \<le> needed" "0 < needed"
  shows "fill_step needed sel degs i pq = top_ins indeg_gt needed (degs ! i, i) pq"
proof -
  let ?x = "(degs ! i, i)"
  have new: "?x \<notin> set pq" using assms(2) by auto
  show ?thesis
  proof (cases "length pq < needed")
    case True
    then show ?thesis using assms(1) new by (simp add: fill_step_def top_ins_def Let_def)
  next
    case False
    then have full: "length pq = needed" "pq \<noteq> []" using assms(4,5) by auto
    then obtain ys l where pq: "pq = ys @ [l]" by (metis rev_exhaust)
    show ?thesis
    proof (cases "degs ! i > fst l")
      case True
      then have "indeg_gt ?x l" by (simp add: indeg_gt_def)
      then show ?thesis
        using True assms(1) new full(1) by (simp add: fill_step_def top_ins_def pq insort_by_append)
    next
      case worse: False
      have "indeg_gt y ?x" if "y \<in> set pq" for y
      proof -
        have "y = l \<or> \<not> indeg_gt l y" using that assms(3) by (auto simp: sorted_by_def pq sorted_wrt_append)
        then show ?thesis
          using worse assms(2) that by (auto simp: indeg_gt_def split: if_splits)
      qed
      from insort_by_last[of pq indeg_gt ?x, OF this] show ?thesis
        using worse assms(1) new full(1)[symmetric] by (simp add: fill_step_def top_ins_def pq)
    qed
  qed
qed

lemma fill_steps:
  assumes "0 < needed"
  shows "fold (fill_step needed sel degs) [0..<n] [] =
    best_of indeg_gt needed (map (\<lambda>i. (degs ! i, i)) (filter (\<lambda>i. i \<notin> set sel) [0..<n]))"
proof (induction n)
  case 0
  then show ?case by (simp add: best_of_def)
next
  case (Suc n)
  let ?xs = "\<lambda>n. map (\<lambda>i. (degs ! i, i)) (filter (\<lambda>i. i \<notin> set sel) [0..<n])"
  let ?q = "best_of indeg_gt needed (?xs n)"
  show ?case
  proof (cases "n \<in> set sel")
    case True
    then show ?thesis using Suc by (simp add: fill_step_def)
  next
    case False
    have "set ?q \<subseteq> set (?xs n)" unfolding best_of_def using set_take_subset by fastforce
    moreover have "sorted_by indeg_gt ?q"
      using indeg.sorted_std_sort[of "remdups (?xs n)"] by (simp add: best_of_def sorted_by_def sorted_wrt_take)
    ultimately have "fill_step needed sel degs n ?q = top_ins indeg_gt needed (degs ! n, n) ?q"
      using False assms by (intro fill_step_top) (auto simp: best_of_def)
    then show ?thesis
      using Suc False indeg.fold_top_ins[of "?xs n" needed] indeg.fold_top_ins[of "?xs (Suc n)" needed] by simp
  qed
qed

lemma rev_drain: "rev (drain pq) = map snd pq"
proof (induction pq rule: rev_induct)
  case Nil
  then show ?case by (simp add: drain.simps)
next
  case (snoc x xs)
  then show ?case by (simp add: drain.simps[of "xs @ [x]"])
qed

text \<open>The \<open>m\<close> nodes of highest in-degree outside \<open>sel\<close>, the lower id first among equals.\<close>

definition best_degrees :: "nat list list \<Rightarrow> nat list \<Rightarrow> nat \<Rightarrow> nat list" where
  "best_degrees adj sel m =
     map snd (best_of indeg_gt m (map (\<lambda>i. (u32 (in_degree adj i), i)) (filter (\<lambda>i. i \<notin> set sel) [0..<length adj])))"

lemma best_degrees_props:
  "distinct (best_degrees adj sel m)" "set (best_degrees adj sel m) \<subseteq> {..<length adj} - set sel"
  "length (best_degrees adj sel m) = min m (card ({..<length adj} - set sel))"
proof -
  let ?is = "filter (\<lambda>i. i \<notin> set sel) [0..<length adj]"
  let ?xs = "map (\<lambda>i. (u32 (in_degree adj i), i)) ?is"
  have xs: "distinct ?xs" by (simp add: distinct_map inj_on_def)
  have "distinct (map snd (std_sort indeg_gt ?xs))"
  proof -
    have "mset (map snd (std_sort indeg_gt ?xs)) = mset ?is" by (simp add: image_mset.compositionality comp_def del: mset_upt mset_filter)
    then show ?thesis using mset_eq_imp_distinct_iff by fastforce
  qed
  then show "distinct (best_degrees adj sel m)"
    using xs by (simp add: best_degrees_def best_of_def distinct_remdups_id distinct_take flip: take_map)
  show "set (best_degrees adj sel m) \<subseteq> {..<length adj} - set sel"
    using xs by (auto simp: best_degrees_def best_of_def distinct_remdups_id dest!: in_set_takeD)
  have "length ?is = card (set ?is)" by (rule distinct_card[symmetric]) simp
  moreover have "set ?is = {..<length adj} - set sel" by auto
  ultimately show "length (best_degrees adj sel m) = min m (card ({..<length adj} - set sel))"
    using xs by (simp add: best_degrees_def best_of_def distinct_remdups_id min.commute)
qed

section \<open>The list the tool writes\<close>

lemma count_degrees:
  assumes "io_ok io adj" "0 < b" "\<forall>ids. b * per_node_alloc io \<le> length (buf ids)"
    and "\<forall>incs. mset (sched incs) = mset (concat incs)"
  shows "\<exists>incs. scan_increments io b (length adj) buf = Inr incs \<and>
    (\<forall>v < length adj. fold atomic_add (sched incs) (replicate (length adj) 0) ! v = u32 (in_degree adj v))"
proof -
  obtain incs where i: "scan_increments io b (length adj) buf = Inr incs" "\<forall>e \<in> set (concat incs). fst e < length adj"
    "\<forall>v < length adj. u32 (total_inc (concat incs) v) = u32 (in_degree adj v)"
    using scan_increments_spec[OF assms(1) refl assms(2,3)] by blast
  have "set (sched incs) = set (concat incs)" using assms(4) by (metis set_mset_mset)
  then have b: "\<forall>e \<in> set (sched incs). fst e < length (replicate (length adj) (0 :: nat))" using i(2) by simp
  have "total_inc (sched incs) v = total_inc (concat incs) v" for v
    using assms(4) by (intro total_inc_mset) simp
  then show ?thesis
    using atomic_adds[OF b] i(1,3) by simp
qed

lemma fill_cache_best:
  assumes "\<forall>v < length adj. degs ! v = u32 (in_degree adj v)" "length sel < k" "k < 2 ^ 32"
  shows "fill_cache k (length adj) sel degs = best_degrees adj sel (k - length sel)"
proof -
  have "map (\<lambda>i. (degs ! i, i)) (filter (\<lambda>i. i \<notin> set sel) [0..<length adj]) =
      map (\<lambda>i. (u32 (in_degree adj i), i)) (filter (\<lambda>i. i \<notin> set sel) [0..<length adj])"
    using assms(1) by simp
  then show ?thesis
    using assms(2,3) by (simp del: map_eq_conv add: fill_cache_def Let_def u32_id fill_steps rev_drain best_degrees_def)
qed

lemma cache_gen_run:
  assumes "io_ok io adj" "adj_closed adj" "start_node < length adj" "1 < k" "k < 2 ^ 32"
    and "\<forall>n. length (fresh n) = n" "\<forall>ids. io_batch_size env_bs * per_node_alloc io \<le> length (buf ids)"
    and "\<forall>sel. mset (order sel) = mset sel" "\<forall>incs. mset (sched incs) = mset (concat incs)"
  shows "\<exists>sel. distinct sel \<and> start_node \<in> set sel \<and> set sel \<subseteq> hop_ball adj start_node (limit_hops bfs_mode bfs_hops) \<inter> {..<length adj} \<and> length sel \<le> k \<and>
    (length sel < k \<longrightarrow> set sel = hop_ball adj start_node (limit_hops bfs_mode bfs_hops)) \<and>
    cache_gen env_bs io fresh buf order sched bfs_mode bfs_hops (length adj) k start_node =
      Inr (write_ids (order sel @ (if bfs_mode \<or> k \<le> length sel then [] else best_degrees adj sel (k - length sel))))"
proof -
  let ?st = "\<lparr>gb_selected = [start_node], gb_next = [], gb_stop = False\<rparr>" and ?mem = "fresh (512 * per_node_alloc io)"
  have "hop_inv adj start_node 0 [start_node] (gb_selected ?st)" "gb_sync k ?st"
    using assms(3,4) by (simp_all add: hop_inv_def gb_sync_def)
  from gen_hops_spec[OF assms(1,2) this(1) _ this(2), of ?mem "limit_hops bfs_mode bfs_hops"] obtain sel where
    sel: "gen_hops io k (limit_hops bfs_mode bfs_hops) [start_node] (?mem, ?st) = Inr sel" "distinct sel" "start_node \<in> set sel" "length sel \<le> k"
      "set sel \<subseteq> hop_ball adj start_node (limit_hops bfs_mode bfs_hops) \<inter> {..<length adj}" "length sel < k \<longrightarrow> set sel = hop_ball adj start_node (limit_hops bfs_mode bfs_hops)"
    using assms(4,6) by auto
  obtain incs where incs: "scan_increments io (io_batch_size env_bs) (length adj) buf = Inr incs"
    "\<forall>v < length adj. fold atomic_add (sched incs) (replicate (length adj) 0) ! v = u32 (in_degree adj v)"
    using count_degrees[where buf = buf and sched = sched, OF assms(1) io_batch_size_pos assms(7,9)] by blast
  have "cache_gen env_bs io fresh buf order sched bfs_mode bfs_hops (length adj) k start_node =
      Inr (write_ids (order sel @ (if bfs_mode \<or> k \<le> length sel then [] else best_degrees adj sel (k - length sel))))"
    using sel(1) incs(1) fill_cache_best[OF incs(2) _ assms(5)] by (simp add: cache_gen_def)
  then show ?thesis using sel by blast
qed


text \<open>The text file between the tool and the search: the ids the tool writes are read back, the first \<open>k\<close> in
  order; asking for more than there are is the error that names both counts.\<close>

theorem node_list_roundtrip:
  assumes "\<forall>u \<in> set us. u < 2 ^ 32"
  shows "read_node_list_from_txt (Some (write_ids us)) k =
    (if k \<le> length us then Inr (take k us)
     else Inl (''expected '' @ dec_string k @ '' node ids, found '' @ dec_string (length us)))"
  by (rule read_written[OF assms])

theorem node_list_roundtrip_witness:
  "read_node_list_from_txt (Some (write_ids [7, 4294967295, 0])) 2 = Inr [7, 4294967295] \<and>
   read_node_list_from_txt (Some (write_ids [7])) 2 = Inl ''expected 2 node ids, found 1''"
  using node_list_roundtrip[of "[7, 4294967295, 0]" 2] node_list_roundtrip[of "[7]" 2]
  by (simp add: dec_string.simps char_of_def bit_0)

text \<open>Three nodes, of which the start node has one neighbour and node 2 is pointed at twice.\<close>

definition three_nodes :: disk_io where
  "three_nodes = \<lparr>io_sub = (\<lambda>i n. int n), io_got = (\<lambda>i n. int n),
     io_file = replicate 16 0 @ le_bytes 4 1 @ enc32 [1, 0] @ le_bytes 4 1 @ enc32 [1, 0] @ le_bytes 4 2 @ enc32 [1, 2],
     io_src = FixedGraph (fixed_source_new 2)\<rparr>"

lemma three_nodes_ok: "io_ok three_nodes [[1], [1], [1, 2]]"
proof -
  have i: "(\<forall>i < length [[1], [1], [1, 2 :: nat]]. P i) \<longleftrightarrow> P 0 \<and> P 1 \<and> P 2" for P
    by (simp add: numeral_2_eq_2 All_less_Suc conj_ac)
  show ?thesis
    unfolding three_nodes_def io_ok_def gs_holds.simps fixed_graph_def i disk_io.simps
    by (simp add: aio_up_def fixed_source_new_def block_def) (simp add: numeral_2_eq_2)
qed


end
