(* ===== verification/Search_Driver.thy ===== *)
theory Search_Driver
  imports Search_Load Cache_Gen Cached_Io
begin

text \<open>
  \<open>search_disk_index\<close> of \<open>search/ours_search_main.cpp\<close>, the driver of the search: the test of the parameters, the
  parallel loop over the queries for every list size \<open>L\<close>, the recall against a ground truth file
  (\<open>load_truthset\<close> of \<open>include/utils.h\<close>, \<open>calculate_recall\<close> of \<open>src/utils.cpp\<close>) and the result files. What a query
  returns is an argument; printing, statistics and timers are dropped.
\<close>

section \<open>Parameters\<close>

record search_args =
  sa_recall_at :: nat
  sa_beamwidth :: nat
  sa_num_nodes_to_cache :: nat
  sa_Lvec :: "nat list"
  sa_fail_if_recall_below :: fp
  sa_start_node_override :: int
  sa_refine_total :: bool
  sa_early_exit_streak :: nat
  sa_fixed_refine_count :: nat
  sa_fixed_refine_ratio :: fp

definition check_params :: "search_args \<Rightarrow> string option" where
  "check_params a =
     (if sa_beamwidth a = 0 then
        Some ''Error: beamwidth must be > 0. Automatic beamwidth fallback is disabled for reproducible experiments.''
      else if sa_early_exit_streak a = 0 then Some ''Error: early_exit_streak must be >= 1.''
      else if flt (sa_fixed_refine_ratio a) fzero \<or> flt fone (sa_fixed_refine_ratio a) then
        Some ''Error: fixed_refine_ratio must be in [0, 1].''
      else if sa_refine_total a \<and> (sa_fixed_refine_count a > 0 \<or> flt fzero (sa_fixed_refine_ratio a)) then
        Some ''Error: --refine_total cannot be combined with fixed refinement.''
      else if sa_fixed_refine_count a > 0 \<and> flt fzero (sa_fixed_refine_ratio a) then
        Some ''Error: --fixed_refine_count and --fixed_refine_ratio are mutually exclusive.''
      else None)"

text \<open>The start node can only be replaced when there is one medoid; the cast to \<open>uint32_t\<close> truncates.\<close>

definition choose_start :: "int \<Rightarrow> loaded \<Rightarrow> loaded res" where
  "choose_start start_node_override ld =
     (if 0 \<le> start_node_override then
        if length (ld_medoids ld) > 1 then
          Inl (ANNException ''Error: start_node override is disabled when multiple medoids are present.'')
        else Inr (set_start_node (nat (start_node_override mod 2 ^ 32)) ld)
      else Inr ld)"

text \<open>\<open>CACHE_FILE\<close>: its path with the text of the file, if it can be opened. \<open>bfs\<close> is the search around the medoids.\<close>

definition choose_cache ::
    "(string \<times> string option) option \<Rightarrow> (nat \<Rightarrow> nat list res) \<Rightarrow> nat \<Rightarrow> nat list res" where
  "choose_cache env_cache_txt bfs num_nodes_to_cache =
     (case env_cache_txt of
        Some (c # path, txt) \<Rightarrow>
          (case read_node_list_from_txt txt num_nodes_to_cache of
             Inl e \<Rightarrow> Inl (ANNException (''Invalid CACHE_FILE '' @ (c # path) @ '': '' @ e))
           | Inr node_list \<Rightarrow> Inr node_list)
      | _ \<Rightarrow> bfs num_nodes_to_cache)"

section \<open>Ground truth and recall\<close>

text \<open>Ids, distances if the file has them, number of queries and ids per query.\<close>

definition load_truthset :: "bfile \<Rightarrow> (nat list \<times> fp list option \<times> nat \<times> nat) res" where
  "load_truthset f =
     rbind (cifs_read (cifs_open f (64 * 1024 * 1024)) 4) (\<lambda>(b0, r0).
     rbind (cifs_read r0 4) (\<lambda>(b1, r1).
       let npts = le_nat b0; dm = le_nat b1; actual_file_size = length f;
           with_dists = (actual_file_size = u64 (2 * npts * dm * 4 + 8));
           just_ids = (actual_file_size = u64 (npts * dm * 4 + 8))
       in if \<not> with_dists \<and> \<not> just_ids then Inl (ANNException ''Error. File size mismatch.'')
          else rbind (cifs_read r1 (npts * dm * 4)) (\<lambda>(ib, r2).
                 if just_ids then Inr (dec32 ib, None, npts, dm)
                 else rbind (cifs_read r2 (npts * dm * 4)) (\<lambda>(db, r3). Inr (dec32 ib, Some (f32s db), npts, dm)))))"

text \<open>\<open>while (tie_breaker < dim_gs && gt_dist_vec[tie_breaker] == gt_dist_vec[recall_at - 1])\<close>\<close>

function tie_end :: "fp list \<Rightarrow> nat \<Rightarrow> nat \<Rightarrow> nat \<Rightarrow> nat" where
  "tie_end ds dim_gs k t = (if t < dim_gs \<and> feq (ds ! t) (ds ! (k - 1)) then tie_end ds dim_gs k (t + 1) else t)"
  by pat_completeness auto
termination
  by (relation "measure (\<lambda>(ds, dim_gs, k, t). dim_gs - t)") auto

declare tie_end.simps [simp del]

text \<open>For \<open>recall_at > 0\<close>. A range that ends outside its array is undefined.\<close>

definition query_hits :: "nat list \<Rightarrow> fp list option \<Rightarrow> nat \<Rightarrow> nat list \<Rightarrow> nat \<Rightarrow> nat \<Rightarrow> nat \<Rightarrow> nat res" where
  "query_hits gold_std gs_dist dim_gs our_results dim_or recall_at i =
     (let tie_breaker = (case gs_dist of None \<Rightarrow> recall_at
                         | Some ds \<Rightarrow> tie_end (drop (dim_gs * i) ds) dim_gs recall_at (recall_at - 1))
      in if length gold_std < dim_gs * i + tie_breaker \<or> length our_results < dim_or * i + recall_at then Inl OutOfRange
         else Inr (card (set (block gold_std (dim_gs * i) tie_breaker) \<inter> set (block our_results (dim_or * i) recall_at))))"

definition calculate_recall :: "nat \<Rightarrow> nat list \<Rightarrow> fp list option \<Rightarrow> nat \<Rightarrow> nat list \<Rightarrow> nat \<Rightarrow> nat \<Rightarrow> fp res" where
  "calculate_recall num_queries gold_std gs_dist dim_gs our_results dim_or recall_at =
     rbind (rfold (\<lambda>i acc. rbind (query_hits gold_std gs_dist dim_gs our_results dim_or recall_at i) (\<lambda>h.
                    Inr (fadd Binary64 acc (f_of_nat Binary64 h)))) [0..<num_queries] fzero) (\<lambda>total_recall.
       Inr (fmul Binary64 (fdiv Binary64 total_recall (f_of_nat Binary64 num_queries))
              (fdiv Binary64 (f_of_nat Binary64 100) (f_of_nat Binary64 recall_at))))"

section \<open>The loop over the queries\<close>

text \<open>The result arrays, a row of \<open>K\<close> per query, and \<open>worker_failure\<close> with its message.\<close>

record qloop =
  ql_todo :: "nat set"
  ql_ids :: "nat list"
  ql_dists :: "fp list"
  ql_failure :: "err option"

definition qloop_start :: "nat \<Rightarrow> nat \<Rightarrow> qloop" where
  "qloop_start K query_num =
     \<lparr>ql_todo = {..<query_num}, ql_ids = replicate (K * query_num) 0, ql_dists = replicate (K * query_num) fzero, ql_failure = None\<rparr>"

text \<open>One iteration on some thread. The flag is read without ordering, so a query may run although it is set; it is
  skipped only if it is set.\<close>

inductive query_step :: "(nat \<Rightarrow> (nat list \<times> fp list) res) \<Rightarrow> nat \<Rightarrow> qloop \<Rightarrow> qloop \<Rightarrow> bool" for run K where
  skip: "i \<in> ql_todo s \<Longrightarrow> ql_failure s \<noteq> None \<Longrightarrow> query_step run K s (s\<lparr>ql_todo := ql_todo s - {i}\<rparr>)"
| found: "i \<in> ql_todo s \<Longrightarrow> run i = Inr (ids, ds) \<Longrightarrow>
    query_step run K s (s\<lparr>ql_todo := ql_todo s - {i}, ql_ids := blit (ql_ids s) (i * K) ids, ql_dists := blit (ql_dists s) (i * K) ds\<rparr>)"
| failed: "i \<in> ql_todo s \<Longrightarrow> run i = Inl e \<Longrightarrow>
    query_step run K s (s\<lparr>ql_todo := ql_todo s - {i}, ql_failure := (case ql_failure s of None \<Rightarrow> Some e | Some e0 \<Rightarrow> Some e0)\<rparr>)"

inductive_cases query_stepE: "query_step run K s s'"

text \<open>The loop on one thread.\<close>

definition query_turn :: "(nat \<Rightarrow> (nat list \<times> fp list) res) \<Rightarrow> nat \<Rightarrow> nat \<Rightarrow> qloop \<Rightarrow> qloop" where
  "query_turn run K i s =
     (if ql_failure s \<noteq> None then s\<lparr>ql_todo := ql_todo s - {i}\<rparr>
      else case run i of
             Inr (ids, ds) \<Rightarrow> s\<lparr>ql_todo := ql_todo s - {i}, ql_ids := blit (ql_ids s) (i * K) ids, ql_dists := blit (ql_dists s) (i * K) ds\<rparr>
           | Inl e \<Rightarrow> s\<lparr>ql_todo := ql_todo s - {i}, ql_failure := Some e\<rparr>)"

definition search_queries :: "(nat \<Rightarrow> (nat list \<times> fp list) res) \<Rightarrow> nat \<Rightarrow> nat \<Rightarrow> (nat list \<times> fp list) res" where
  "search_queries run K query_num =
     (let s = fold (query_turn run K) [0..<query_num] (qloop_start K query_num)
      in case ql_failure s of Some e \<Rightarrow> Inl e | None \<Rightarrow> Inr (map u32 (ql_ids s), ql_dists s))"

section \<open>Results\<close>

text \<open>\<open>query_result_ids\<close> and \<open>query_result_dists\<close>, an entry per \<open>L\<close>, empty for an \<open>L\<close> below \<open>K\<close>; with the best recall.\<close>

definition search_lists ::
    "(nat \<Rightarrow> nat \<Rightarrow> (nat list \<times> fp list) res) \<Rightarrow> (nat list \<Rightarrow> fp res) option \<Rightarrow> nat \<Rightarrow> nat \<Rightarrow> nat list \<Rightarrow>
     ((nat list \<times> fp list) list \<times> fp) res" where
  "search_lists run recall K query_num Lvec =
     rfold (\<lambda>L (rs, best).
         if L < K then Inr (rs @ [([], [])], best)
         else rbind (search_queries (run L) K query_num) (\<lambda>r.
              case recall of
                None \<Rightarrow> Inr (rs @ [r], best)
              | Some rc \<Rightarrow> rbind (rc (fst r)) (\<lambda>x. Inr (rs @ [r], fmax x best)))) Lvec ([], fzero)"

text \<open>\<open>save_bin\<close> of \<open>npts * ndims\<close> values of 4 bytes over a file with the content \<open>old\<close>, which is not truncated.\<close>

definition save_bin4 :: "bfile \<Rightarrow> byte list \<Rightarrow> nat \<Rightarrow> nat \<Rightarrow> bfile res" where
  "save_bin4 old data npts ndims =
     (if length data < npts * ndims * 4 then Inl OutOfRange
      else Inr (pwrite old 0 (le_bytes 4 npts @ le_bytes 4 ndims @ take (npts * ndims * 4) data)))"

text \<open>The loop that saves: \<open>test_id\<close> counts the lists that are not skipped. \<open>bits\<close> gives the bits of a float.\<close>

fun save_results :: "(fp \<Rightarrow> nat) \<Rightarrow> (nat \<Rightarrow> bfile \<times> bfile) \<Rightarrow> nat \<Rightarrow> nat \<Rightarrow> (nat list \<times> fp list) list \<Rightarrow> nat \<Rightarrow> nat list \<Rightarrow>
    (nat \<times> bfile \<times> bfile) list res" where
  "save_results bits old K query_num results test_id [] = Inr []"
| "save_results bits old K query_num results test_id (L # Lvec) =
     (if L < K then save_results bits old K query_num results test_id Lvec
      else
        rbind (save_bin4 (fst (old L)) (enc32 (fst (results ! test_id))) query_num K) (\<lambda>fi.
        rbind (save_bin4 (snd (old L)) (enc32 (map bits (snd (results ! test_id)))) query_num K) (\<lambda>fd.
        rbind (save_results bits old K query_num results (test_id + 1) Lvec) (\<lambda>files. Inr ((L, fi, fd) # files)))))"

definition gt_recall :: "bfile option \<Rightarrow> nat \<Rightarrow> nat \<Rightarrow> (nat list \<Rightarrow> fp res) option res" where
  "gt_recall gt_file query_num recall_at =
     (case gt_file of
        None \<Rightarrow> Inr None
      | Some f \<Rightarrow> rbind (load_truthset f) (\<lambda>(gt_ids, gt_dists, gt_num, gt_dim).
          Inr (Some (\<lambda>ids. calculate_recall query_num gt_ids gt_dists gt_dim ids recall_at recall_at))))"

text \<open>The exit code with the files: 0, or -1 when the recall is too low. An error value is an exit with -1 before the
  files are written, or undefined behaviour for \<open>OutOfRange\<close>. \<open>load\<close>, \<open>bfs\<close> and \<open>cache_list\<close> are \<open>sigma_load\<close>, \<open>cache_bfs_levels\<close> and
  \<open>load_cache_list\<close>; \<open>run\<close> is the search of one query.\<close>

definition search_disk_index ::
    "(fp \<Rightarrow> nat) \<Rightarrow> (nat \<Rightarrow> bfile \<times> bfile) \<Rightarrow> loaded res \<Rightarrow> (loaded \<Rightarrow> nat \<Rightarrow> nat list res) \<Rightarrow> (loaded \<Rightarrow> nat list \<Rightarrow> 'c res) \<Rightarrow>
     (loaded \<Rightarrow> 'c \<Rightarrow> nat \<Rightarrow> nat \<Rightarrow> (nat list \<times> fp list) res) \<Rightarrow> bfile option \<Rightarrow> (string \<times> string option) option \<Rightarrow> nat \<Rightarrow> search_args \<Rightarrow>
     (int \<times> (nat \<times> bfile \<times> bfile) list) res" where
  "search_disk_index bits old load bfs cache_list run gt_file env_cache_txt query_num a =
     (case check_params a of
        Some msg \<Rightarrow> Inl (ANNException msg)
      | None \<Rightarrow>
          rbind (gt_recall gt_file query_num (sa_recall_at a)) (\<lambda>recall.
          rbind load (\<lambda>ld0.
          rbind (choose_start (sa_start_node_override a) ld0) (\<lambda>ld.
          rbind (choose_cache env_cache_txt (bfs ld) (sa_num_nodes_to_cache a)) (\<lambda>node_list.
          rbind (cache_list ld node_list) (\<lambda>c.
          rbind (search_lists (run ld c) recall (sa_recall_at a) query_num (sa_Lvec a)) (\<lambda>(results, best_recall).
          rbind (save_results bits old (sa_recall_at a) query_num results 0 (sa_Lvec a)) (\<lambda>files.
            Inr (if fle (sa_fail_if_recall_below a) best_recall then 0 else - 1, files)))))))))"

section \<open>The loop in any order\<close>

definition pad_row :: "nat \<Rightarrow> 'a \<Rightarrow> 'a list \<Rightarrow> 'a list" where
  "pad_row K z xs = xs @ replicate (K - length xs) z"

lemma row_blit:
  assumes "length xs \<le> K" "i < n" "j < n" "length arr = K * n"
  shows "block (blit arr (i * K) xs) (j * K) K = (if i = j then xs @ drop (length xs) (block arr (i * K) K) else block arr (j * K) K)"
proof -
  have "i * K + K \<le> n * K" using assms(2) mult_le_mono1[of "Suc i" n K] by simp
  then have fit: "i * K + length xs \<le> length arr" using assms(1,4) by (simp add: mult.commute)
  consider "i = j" | "i < j" | "j < i" by linarith
  then show ?thesis
  proof cases
    case 1
    have "take K (xs @ drop (i * K + length xs) arr) = xs @ take (K - length xs) (drop (i * K + length xs) arr)"
      using assms(1) by simp
    then show ?thesis using 1 fit by (simp add: block_def blit_def drop_take add.commute)
  next
    case 2
    then have "i * K + K \<le> j * K" using mult_le_mono1[of "Suc i" j K] by simp
    then have "i * K + length xs \<le> j * K" using assms(1) by linarith
    then show ?thesis using 2 fit by (simp add: block_blit_after)
  next
    case 3
    then have "j * K + K \<le> i * K" using mult_le_mono1[of "Suc j" i K] by simp
    then show ?thesis using 3 fit by (simp add: block_blit_before)
  qed
qed

lemma rows_concat:
  assumes "length arr = K * n" "\<And>i. i < n \<Longrightarrow> block arr (i * K) K = r i"
  shows "arr = concat (map r [0..<n])"
proof -
  have "concat (map r [0..<m]) = take (m * K) arr" if "m \<le> n" for m
    using that
  proof (induction m)
    case (Suc m)
    then have "concat (map r [0..<Suc m]) = take (m * K) arr @ block arr (m * K) K" using assms(2)[of m] by simp
    also have "\<dots> = take (m * K + K) arr" by (simp add: block_def take_add)
    finally show ?case by (simp add: add.commute)
  qed simp
  from this[of n] assms(1) show ?thesis by (simp add: mult.commute)
qed

definition runs_fit :: "(nat \<Rightarrow> (nat list \<times> fp list) res) \<Rightarrow> nat \<Rightarrow> nat \<Rightarrow> bool" where
  "runs_fit run K n \<longleftrightarrow> (\<forall>i < n. \<forall>ids ds. run i = Inr (ids, ds) \<longrightarrow> length ids \<le> K \<and> length ds \<le> K)"

definition ids_row :: "(nat \<Rightarrow> (nat list \<times> fp list) res) \<Rightarrow> nat \<Rightarrow> nat \<Rightarrow> nat list" where
  "ids_row run K i = pad_row K 0 (fst (projr (run i)))"

definition dists_row :: "(nat \<Rightarrow> (nat list \<times> fp list) res) \<Rightarrow> nat \<Rightarrow> nat \<Rightarrow> fp list" where
  "dists_row run K i = pad_row K fzero (snd (projr (run i)))"

definition ql_inv :: "(nat \<Rightarrow> (nat list \<times> fp list) res) \<Rightarrow> nat \<Rightarrow> nat \<Rightarrow> qloop \<Rightarrow> bool" where
  "ql_inv run K n s \<longleftrightarrow> ql_todo s \<subseteq> {..<n} \<and> length (ql_ids s) = K * n \<and> length (ql_dists s) = K * n \<and>
     (ql_failure s \<noteq> None \<longrightarrow> (\<exists>i < n. isl (run i))) \<and>
     (ql_failure s = None \<longrightarrow> (\<forall>i < n. (i \<notin> ql_todo s \<longrightarrow> \<not> isl (run i)) \<and>
        block (ql_ids s) (i * K) K = (if i \<in> ql_todo s then replicate K 0 else ids_row run K i) \<and>
        block (ql_dists s) (i * K) K = (if i \<in> ql_todo s then replicate K fzero else dists_row run K i)))"

lemma block_replicate: "i < n \<Longrightarrow> block (replicate (K * n) z) (i * K) K = replicate K z"
proof -
  assume "i < n"
  then have "i * K + K \<le> n * K" using mult_le_mono1[of "Suc i" n K] by simp
  then have "K \<le> K * n - i * K" by (simp add: mult.commute)
  then show ?thesis by (simp add: block_def)
qed

lemma ql_inv_start: "ql_inv run K n (qloop_start K n)"
  by (simp add: ql_inv_def qloop_start_def block_replicate)

lemma ql_inv_step:
  assumes "ql_inv run K n s" "runs_fit run K n" "query_step run K s s'"
  shows "ql_inv run K n s'" "card (ql_todo s') < card (ql_todo s)"
proof -
  have fin: "finite (ql_todo s)" using assms(1) by (auto simp: ql_inv_def intro: finite_subset)
  have less: "card (ql_todo s - {i}) < card (ql_todo s)" if "i \<in> ql_todo s" for i
    by (rule card_Diff1_less[OF fin that])
  from assms(3) show "card (ql_todo s') < card (ql_todo s)" by (cases rule: query_step.cases) (use less in auto)
  from assms(3) show "ql_inv run K n s'"
  proof (cases rule: query_step.cases)
    case (skip i)
    then show ?thesis using assms(1) by (auto simp: ql_inv_def)
  next
    case (found i ids ds)
    have i: "i < n" using found(2) assms(1) by (auto simp: ql_inv_def)
    have len: "length ids \<le> K" "length ds \<le> K" using found(3) i assms(2) by (auto simp: runs_fit_def)
    have arr: "length (ql_ids s) = K * n" "length (ql_dists s) = K * n" using assms(1) by (auto simp: ql_inv_def)
    have "i * K + K \<le> n * K" using i mult_le_mono1[of "Suc i" n K] by simp
    then have fit: "i * K + length ids \<le> K * n" "i * K + length ds \<le> K * n" using len by (simp_all add: mult.commute)
    have rows: "block (blit (ql_ids s) (i * K) ids) (j * K) K = (if j \<in> ql_todo s - {i} then replicate K 0 else ids_row run K j) \<and>
        block (blit (ql_dists s) (i * K) ds) (j * K) K = (if j \<in> ql_todo s - {i} then replicate K fzero else dists_row run K j)"
      if "ql_failure s = None" "j < n" for j
      using that assms(1) found(2,3) i len row_blit[OF len(1) i that(2) arr(1)] row_blit[OF len(2) i that(2) arr(2)]
      by (auto simp: ql_inv_def ids_row_def dists_row_def pad_row_def)
    show ?thesis
      using assms(1) found arr fit rows unfolding ql_inv_def by auto
  next
    case (failed i e)
    then show ?thesis using assms(1) by (auto simp: ql_inv_def split: option.splits)
  qed
qed

lemma ql_inv_reach:
  assumes "runs_fit run K n" "(query_step run K)\<^sup>*\<^sup>* (qloop_start K n) s"
  shows "ql_inv run K n s"
  using assms(2) by (induction rule: rtranclp_induct) (use ql_inv_start ql_inv_step(1)[OF _ assms(1)] in blast)+

lemma query_turn_step: "i \<in> ql_todo s \<Longrightarrow> query_step run K s (query_turn run K i s)"
proof (cases "ql_failure s = None")
  case False
  then show "i \<in> ql_todo s \<Longrightarrow> ?thesis" using query_step.skip by (auto simp: query_turn_def)
next
  case True
  then show "i \<in> ql_todo s \<Longrightarrow> ?thesis"
    using query_step.found[of i s run _ _ K] query_step.failed[of i s run _ K] by (auto simp: query_turn_def split: sum.split)
qed

lemma query_turn_todo [simp]: "ql_todo (query_turn run K i s) = ql_todo s - {i}"
  by (simp add: query_turn_def split: sum.split)

lemma query_turns_reach:
  assumes "set is \<subseteq> ql_todo s" "distinct is"
  shows "(query_step run K)\<^sup>*\<^sup>* s (fold (query_turn run K) is s) \<and> ql_todo (fold (query_turn run K) is s) = ql_todo s - set is"
  using assms
proof (induction "is" arbitrary: s)
  case (Cons i "is")
  have "query_step run K s (query_turn run K i s)" using Cons.prems by (intro query_turn_step) simp
  then show ?case
    using Cons.IH[of "query_turn run K i s"] Cons.prems by (auto intro: converse_rtranclp_into_rtranclp)
qed simp

lemma ql_final:
  assumes "ql_inv run K n s" "ql_todo s = {}"
  shows "ql_failure s = None \<longleftrightarrow> (\<forall>i < n. \<not> isl (run i))"
    "ql_failure s = None \<Longrightarrow> ql_ids s = concat (map (ids_row run K) [0..<n]) \<and> ql_dists s = concat (map (dists_row run K) [0..<n])"
proof -
  show "ql_failure s = None \<longleftrightarrow> (\<forall>i < n. \<not> isl (run i))" using assms by (auto simp: ql_inv_def)
  assume "ql_failure s = None"
  then show "ql_ids s = concat (map (ids_row run K) [0..<n]) \<and> ql_dists s = concat (map (dists_row run K) [0..<n])"
    using assms rows_concat[of "ql_ids s" K n "ids_row run K"] rows_concat[of "ql_dists s" K n "dists_row run K"]
    by (auto simp: ql_inv_def)
qed

lemma search_queries_eq:
  assumes "runs_fit run K n"
  shows "if \<forall>i < n. \<not> isl (run i)
    then search_queries run K n = Inr (map u32 (concat (map (ids_row run K) [0..<n])), concat (map (dists_row run K) [0..<n]))
    else isl (search_queries run K n)"
proof -
  let ?s = "fold (query_turn run K) [0..<n] (qloop_start K n)"
  have "(query_step run K)\<^sup>*\<^sup>* (qloop_start K n) ?s" "ql_todo ?s = {}"
    using query_turns_reach[of "[0..<n]" "qloop_start K n" run K] by (auto simp: qloop_start_def atLeast0LessThan)
  note fin = ql_final[OF ql_inv_reach[OF assms this(1)] this(2)]
  show ?thesis
    using fin by (cases "ql_failure ?s") (auto simp: search_queries_def)
qed

text \<open>C14. The parallel loop over the queries does not depend on the schedule. A run of its iterations that starts from
  cleared result arrays is never stuck while queries are left and has at most one iteration per query. When
  it is over it has failed if and only if some query fails, and if none does, the arrays hold for every
  query its results, filled up with zeros to \<open>K\<close>: what the loop on one thread computes.\<close>

theorem query_loop_any_order:
  assumes "runs_fit run K n" "(query_step run K)\<^sup>*\<^sup>* (qloop_start K n) s"
  shows "(ql_todo s \<noteq> {} \<longrightarrow> (\<exists>s'. query_step run K s s')) \<and> (\<forall>s'. query_step run K s s' \<longrightarrow> card (ql_todo s') < card (ql_todo s)) \<and>
    (ql_todo s = {} \<longrightarrow>
       (ql_failure s = None \<longleftrightarrow> (\<forall>i < n. \<not> isl (run i))) \<and>
       (ql_failure s = None \<longrightarrow> search_queries run K n = Inr (map u32 (ql_ids s), ql_dists s) \<and>
          ql_ids s = concat (map (\<lambda>i. pad_row K 0 (fst (projr (run i)))) [0..<n]) \<and>
          ql_dists s = concat (map (\<lambda>i. pad_row K fzero (snd (projr (run i)))) [0..<n])))"
proof -
  note inv = ql_inv_reach[OF assms]
  note fin = ql_final[OF inv]
  have rows: "ids_row run K = (\<lambda>i. pad_row K 0 (fst (projr (run i))))" "dists_row run K = (\<lambda>i. pad_row K fzero (snd (projr (run i))))"
    by (simp_all add: ids_row_def dists_row_def fun_eq_iff)
  have "\<exists>s'. query_step run K s s'" if "ql_todo s \<noteq> {}"
    using that query_turn_step by blast
  moreover have "search_queries run K n = Inr (map u32 (ql_ids s), ql_dists s)" if "ql_todo s = {}" "ql_failure s = None"
    using search_queries_eq[OF assms(1)] fin[OF that(1)] that(2) by simp
  ultimately show ?thesis
    using fin ql_inv_step(2)[OF inv assms(1)] unfolding rows by blast
qed

theorem query_loop_any_order_witness:
  "\<exists>s. (query_step (\<lambda>i. Inr ([i], [fone])) 2)\<^sup>*\<^sup>* (qloop_start 2 2) s \<and> ql_failure s = None \<and> ql_ids s = [0, 0, 1, 0]"
proof -
  let ?run = "\<lambda>i. Inr ([i], [fone])" and ?s = "fold (query_turn (\<lambda>i. Inr ([i], [fone])) 2) [0..<2] (qloop_start 2 2)"
  have r: "(query_step ?run 2)\<^sup>*\<^sup>* (qloop_start 2 2) ?s" "ql_todo ?s = {}"
    using query_turns_reach[of "[0..<2]" "qloop_start 2 2" ?run 2] by (auto simp: qloop_start_def atLeast0LessThan)
  have "runs_fit ?run 2 2" by (simp add: runs_fit_def)
  from query_loop_any_order[OF this r(1)] r(2) have "ql_failure ?s = None"
    "ql_ids ?s = concat (map (\<lambda>i. pad_row 2 0 (fst (projr (?run i)))) [0..<2])"
    by auto
  then show ?thesis using r(1) by (intro exI[of _ ?s]) (simp add: pad_row_def upt_rec)
qed

section \<open>Recall\<close>

lemma tie_end_spec:
  assumes "t \<le> dim_gs"
  shows "t \<le> tie_end ds dim_gs k t \<and> tie_end ds dim_gs k t \<le> dim_gs \<and>
    (\<forall>j. t \<le> j \<longrightarrow> j < tie_end ds dim_gs k t \<longrightarrow> feq (ds ! j) (ds ! (k - 1))) \<and>
    (tie_end ds dim_gs k t < dim_gs \<longrightarrow> \<not> feq (ds ! tie_end ds dim_gs k t) (ds ! (k - 1)))"
  using assms
proof (induction ds dim_gs k t rule: tie_end.induct)
  case (1 ds dim_gs k t)
  show ?case
  proof (cases "t < dim_gs \<and> feq (ds ! t) (ds ! (k - 1))")
    case True
    have "tie_end ds dim_gs k t = tie_end ds dim_gs k (t + 1)" using True by (subst tie_end.simps) simp
    then show ?thesis using 1 True by (auto simp: less_eq_Suc_le dest: le_imp_less_or_eq)
  next
    case False
    then show ?thesis using "1.prems" by (subst (1 2 3 4 5) tie_end.simps) auto
  qed
qed

text \<open>The ground truth of query \<open>i\<close>: the first \<open>K\<close> ids and those behind them at the distance of the last of these.\<close>

definition truth_of :: "nat list \<Rightarrow> fp list option \<Rightarrow> nat \<Rightarrow> nat \<Rightarrow> nat \<Rightarrow> nat set" where
  "truth_of gold gs_dist dim_gs K i =
     {gold ! (dim_gs * i + t) | t. t < dim_gs \<and>
        (t < K \<or> (\<exists>ds. gs_dist = Some ds \<and> (\<forall>j. K \<le> j \<longrightarrow> j \<le> t \<longrightarrow> feq (ds ! (dim_gs * i + j)) (ds ! (dim_gs * i + (K - 1))))))}"

definition truth_ok :: "nat list \<Rightarrow> fp list option \<Rightarrow> nat \<Rightarrow> nat \<Rightarrow> nat \<Rightarrow> bool" where
  "truth_ok gold gs_dist dim_gs K n \<longleftrightarrow> 0 < K \<and> K \<le> dim_gs \<and> length gold = n * dim_gs \<and>
     (case gs_dist of None \<Rightarrow> True | Some ds \<Rightarrow> length ds = n * dim_gs \<and> (\<forall>x \<in> set ds. \<not> is_nan x))"

lemma set_block_nth: "a + n \<le> length xs \<Longrightarrow> set (block xs a n) = {xs ! (a + t) | t. t < n}"
  by (auto simp: block_def in_set_conv_nth) (metis add_diff_inverse_nat, force)

lemma query_hits_truth:
  assumes "truth_ok gold gs_dist dim_gs K n" "length res = n * K" "i < n"
  shows "query_hits gold gs_dist dim_gs res K K i = Inr (card (truth_of gold gs_dist dim_gs K i \<inter> set (block res (K * i) K)))"
proof -
  have K: "0 < K" "K \<le> dim_gs" "length gold = n * dim_gs" using assms(1) by (auto simp: truth_ok_def)
  define tie where "tie = (case gs_dist of None \<Rightarrow> K | Some ds \<Rightarrow> tie_end (drop (dim_gs * i) ds) dim_gs K (K - 1))"
  have row: "dim_gs * i + dim_gs \<le> n * dim_gs" "K * i + K \<le> n * K"
    using assms(3) mult_le_mono1[of "Suc i" n dim_gs] mult_le_mono1[of "Suc i" n K] by (simp_all add: mult.commute)
  have tie: "tie \<le> dim_gs" "{gold ! (dim_gs * i + t) | t. t < tie} = truth_of gold gs_dist dim_gs K i"
  proof -
    have "tie \<le> dim_gs \<and> {gold ! (dim_gs * i + t) | t. t < tie} = truth_of gold gs_dist dim_gs K i"
    proof (cases gs_dist)
      case None
      then show ?thesis using K(2) by (auto simp: tie_def truth_of_def)
    next
      case (Some ds)
      let ?d = "drop (dim_gs * i) ds"
      have ds: "length ds = n * dim_gs" "\<forall>x \<in> set ds. \<not> is_nan x" using assms(1) Some by (auto simp: truth_ok_def)
      have nth: "?d ! t = ds ! (dim_gs * i + t)" for t
        by (rule nth_drop) (use row(1) ds(1) in linarith)
      have "K - 1 < dim_gs" using K by linarith
      then have "\<not> is_nan (?d ! (K - 1))" using ds row(1) nth by simp
      then have self: "feq (?d ! (K - 1)) (?d ! (K - 1))" by simp
      have sp: "K - 1 \<le> tie" "tie \<le> dim_gs" "\<And>j. K - 1 \<le> j \<Longrightarrow> j < tie \<Longrightarrow> feq (?d ! j) (?d ! (K - 1))"
        "tie < dim_gs \<Longrightarrow> \<not> feq (?d ! tie) (?d ! (K - 1))"
        using tie_end_spec[of "K - 1" dim_gs ?d K] \<open>K - 1 < dim_gs\<close> Some by (auto simp: tie_def)
      have "tie \<noteq> K - 1" using sp(4) self \<open>K - 1 < dim_gs\<close> by metis
      then have "K \<le> tie" using sp(1) by linarith
      have "t < tie \<longleftrightarrow> t < dim_gs \<and> (t < K \<or> (\<forall>j. K \<le> j \<longrightarrow> j \<le> t \<longrightarrow> feq (?d ! j) (?d ! (K - 1))))" for t
      proof
        assume "t < tie"
        then show "t < dim_gs \<and> (t < K \<or> (\<forall>j. K \<le> j \<longrightarrow> j \<le> t \<longrightarrow> feq (?d ! j) (?d ! (K - 1))))"
          using sp(2) sp(3) by (metis diff_le_self le_less_trans less_le_trans order.trans)
      next
        assume "t < dim_gs \<and> (t < K \<or> (\<forall>j. K \<le> j \<longrightarrow> j \<le> t \<longrightarrow> feq (?d ! j) (?d ! (K - 1))))"
        then show "t < tie" using sp(4) \<open>K \<le> tie\<close> by (metis leI le_less_trans less_le_trans)
      qed
      then show ?thesis
        using sp(2) Some unfolding truth_of_def nth by auto
    qed
    then show "tie \<le> dim_gs" "{gold ! (dim_gs * i + t) | t. t < tie} = truth_of gold gs_dist dim_gs K i" by auto
  qed
  then have "set (block gold (dim_gs * i) tie) = truth_of gold gs_dist dim_gs K i"
    using row(1) K(3) by (subst set_block_nth) auto
  then show ?thesis
    using tie(1) row K(3) assms(2) by (simp add: query_hits_def flip: tie_def)
qed

lemma fadd_nats: "a + b < 2 ^ 53 \<Longrightarrow> fadd Binary64 (f_of_nat Binary64 a) (f_of_nat Binary64 b) = f_of_nat Binary64 (a + b)"
proof -
  assume h: "a + b < 2 ^ 53"
  have r: "f_of_nat Binary64 x = Fin False (of_nat x)" if "x < 2 ^ 53" for x
    using that fround_exact[OF representable_of_nat[of x Binary64]] by (simp add: f_of_nat_def)
  have e: "fround Binary64 False (of_nat a + of_nat b) = Fin False (of_nat a + of_nat b)"
    using r[OF h] by (simp add: f_of_nat_def)
  have ab: "a < 2 ^ 53" "b < 2 ^ 53" using h by linarith+
  show ?thesis
    unfolding r[OF ab(1)] r[OF ab(2)] r[OF h] using e by (auto simp: Let_def)
qed

lemma sum_hits:
  assumes "\<And>i. i < n \<Longrightarrow> hit i = Inr (h i)" "(\<Sum>i < n. h i) < 2 ^ 53"
  shows "rfold (\<lambda>i acc. rbind (hit i) (\<lambda>x. Inr (fadd Binary64 acc (f_of_nat Binary64 x)))) [0..<n] fzero = Inr (f_of_nat Binary64 (\<Sum>i < n. h i))"
  using assms
proof (induction n)
  case 0
  then show ?case by (simp add: f_of_nat_def fround_def)
next
  case (Suc n)
  then show ?case by (simp add: rfold_append fadd_nats)
qed

text \<open>C27. Recall. For a ground truth of at least \<open>K\<close> ids per query and no NaN, and \<open>K\<close> results per query, the recall is
  computed without a read outside the arrays. Each query counts the results that are among its first \<open>K\<close>
  true neighbours or tie with the last of them, at most \<open>K\<close>; the value is the sum over the queries, exact
  in double precision, divided as the code divides.\<close>

theorem calculate_recall_exact:
  assumes "truth_ok gold gs_dist dim_gs K n" "length res = n * K" "n * K < 2 ^ 53"
  defines "h \<equiv> \<lambda>i. card (truth_of gold gs_dist dim_gs K i \<inter> set (block res (K * i) K))"
  shows "calculate_recall n gold gs_dist dim_gs res K K =
      Inr (fmul Binary64 (fdiv Binary64 (f_of_nat Binary64 (\<Sum>i < n. h i)) (f_of_nat Binary64 n))
             (fdiv Binary64 (f_of_nat Binary64 100) (f_of_nat Binary64 K))) \<and>
    (\<forall>i < n. h i \<le> K)"
proof -
  have le: "h i \<le> K" for i
  proof -
    have "h i \<le> card (set (block res (K * i) K))" unfolding h_def by (rule card_mono) auto
    also have "\<dots> \<le> length (block res (K * i) K)" by (rule card_length)
    also have "\<dots> \<le> K" by (simp add: length_block_min)
    finally show ?thesis .
  qed
  have "(\<Sum>i < n. h i) \<le> (\<Sum>i < n. K)" by (rule sum_mono) (rule le)
  then have "(\<Sum>i < n. h i) < 2 ^ 53" using assms(3) by simp
  from sum_hits[OF query_hits_truth[OF assms(1,2)] this[unfolded h_def]] show ?thesis
    using le by (simp add: calculate_recall_def h_def)
qed

theorem calculate_recall_exact_witness:
  "\<exists>h. calculate_recall 1 [4, 9] None 2 [2, 4] 2 2 =
      Inr (fmul Binary64 (fdiv Binary64 (f_of_nat Binary64 h) (f_of_nat Binary64 1)) (fdiv Binary64 (f_of_nat Binary64 100) (f_of_nat Binary64 2))) \<and>
    h = 1"
proof -
  have ok: "truth_ok [4, 9] None 2 2 1" by (simp add: truth_ok_def)
  have t: "truth_of [4, 9] None 2 2 0 = {4, 9}"
    by (auto simp: truth_of_def less_Suc_eq numeral_2_eq_2) (metis nth_Cons_0 nth_Cons_Suc)+
  have r: "set (block [2, 4 :: nat] 0 2) = {2, 4}" by (simp add: block_def)
  have "{4, 9} \<inter> {2, 4 :: nat} = {4}" by auto
  then have "card (truth_of [4, 9] None 2 2 0 \<inter> set (block [2, 4] (2 * 0) 2)) = 1" by (simp add: t r)
  with calculate_recall_exact[OF ok, of "[2, 4]"] show ?thesis by (simp add: lessThan_Suc)
qed

section \<open>The result files\<close>

text \<open>What is saved for a list size: ids and distances, a row of \<open>K\<close> per query.\<close>

definition list_rows :: "(nat \<Rightarrow> (nat list \<times> fp list) res) \<Rightarrow> nat \<Rightarrow> nat \<Rightarrow> nat list \<times> fp list" where
  "list_rows run K n =
     (map u32 (concat (map (\<lambda>i. pad_row K 0 (fst (projr (run i)))) [0..<n])),
      concat (map (\<lambda>i. pad_row K fzero (snd (projr (run i)))) [0..<n]))"

definition runs_ok :: "(nat \<Rightarrow> (nat list \<times> fp list) res) \<Rightarrow> nat \<Rightarrow> nat \<Rightarrow> bool" where
  "runs_ok run K n \<longleftrightarrow> (\<forall>i < n. \<exists>ids ds. run i = Inr (ids, ds) \<and> length ids \<le> K \<and> length ds \<le> K)"

definition recall_ok :: "(nat list \<Rightarrow> fp res) option \<Rightarrow> nat \<Rightarrow> bool" where
  "recall_ok recall m \<longleftrightarrow> (case recall of None \<Rightarrow> True | Some rc \<Rightarrow> \<forall>ids. length ids = m \<longrightarrow> \<not> isl (rc ids))"

definition best_recall_of :: "(nat list \<Rightarrow> fp res) option \<Rightarrow> (nat \<Rightarrow> nat list) \<Rightarrow> nat list \<Rightarrow> fp \<Rightarrow> fp" where
  "best_recall_of recall ids Ls b = (case recall of None \<Rightarrow> b | Some rc \<Rightarrow> fold (\<lambda>L b. fmax (projr (rc (ids L))) b) Ls b)"

lemma length_rows:
  assumes "\<And>i. i < n \<Longrightarrow> length (xs i) \<le> K"
  shows "length (concat (map (\<lambda>i. pad_row K z (xs i)) [0..<n])) = n * K"
  using assms by (induction n) (simp_all add: pad_row_def)

lemma runs_ok_rows:
  assumes "runs_ok run K n"
  shows "search_queries run K n = Inr (list_rows run K n)" "length (fst (list_rows run K n)) = n * K" "length (snd (list_rows run K n)) = n * K"
proof -
  have ok: "\<forall>i < n. \<not> isl (run i)" "runs_fit run K n"
    "\<And>i. i < n \<Longrightarrow> length (fst (projr (run i))) \<le> K" "\<And>i. i < n \<Longrightarrow> length (snd (projr (run i))) \<le> K"
    using assms by (force simp: runs_ok_def runs_fit_def)+
  show "search_queries run K n = Inr (list_rows run K n)"
    using search_queries_eq[OF ok(2)] ok(1) by (simp add: list_rows_def ids_row_def[abs_def] dists_row_def[abs_def])
  show "length (fst (list_rows run K n)) = n * K" "length (snd (list_rows run K n)) = n * K"
    using ok(3,4) by (simp_all only: list_rows_def fst_conv snd_conv length_map length_rows)
qed

lemma search_lists_rows:
  assumes "\<And>L. L \<in> set Lvec \<Longrightarrow> K \<le> L \<Longrightarrow> runs_ok (run L) K n" "recall_ok recall (n * K)"
  shows "search_lists run recall K n Lvec =
    Inr (map (\<lambda>L. if L < K then ([], []) else list_rows (run L) K n) Lvec,
         best_recall_of recall (\<lambda>L. fst (list_rows (run L) K n)) (filter (\<lambda>L. K \<le> L) Lvec) fzero)"
proof -
  let ?f = "\<lambda>L (rs, best). if L < K then Inr (rs @ [([], [])], best)
         else rbind (search_queries (run L) K n) (\<lambda>r.
              case recall of
                None \<Rightarrow> Inr (rs @ [r], best)
              | Some rc \<Rightarrow> rbind (rc (fst r)) (\<lambda>x. Inr (rs @ [r], fmax x best)))"
  have "rfold ?f Lvec (rs, b) =
      Inr (rs @ map (\<lambda>L. if L < K then ([], []) else list_rows (run L) K n) Lvec,
           best_recall_of recall (\<lambda>L. fst (list_rows (run L) K n)) (filter (\<lambda>L. K \<le> L) Lvec) b)" for rs b
    using assms(1)
  proof (induction Lvec arbitrary: rs b)
    case Nil
    then show ?case by (simp add: best_recall_of_def split: option.split)
  next
    case (Cons L Lvec)
    show ?case
    proof (cases "L < K")
      case True
      then show ?thesis using Cons by simp
    next
      case False
      then have ok: "runs_ok (run L) K n" using Cons.prems by simp
      note rows = runs_ok_rows[OF ok]
      show ?thesis
      proof (cases recall)
        case None
        then show ?thesis using False rows(1) Cons by (simp add: best_recall_of_def)
      next
        case (Some rc)
        obtain x where "rc (fst (list_rows (run L) K n)) = Inr x"
          using assms(2) rows(2) Some by (auto simp: recall_ok_def isl_def) (metis sum.exhaust)
        then show ?thesis using False rows(1) Cons Some by (simp add: best_recall_of_def)
      qed
    qed
  qed
  from this[of "[]" fzero] show ?thesis by (simp add: search_lists_def)
qed

definition bin_file :: "nat \<Rightarrow> nat \<Rightarrow> nat list \<Rightarrow> bfile" where
  "bin_file n K xs = le_bytes 4 n @ le_bytes 4 K @ enc32 xs"

lemma save_bin4_fresh: "length xs = n * K \<Longrightarrow> save_bin4 [] (enc32 xs) n K = Inr (bin_file n K xs)"
  by (simp add: save_bin4_def bin_file_def pwrite_def)

lemma save_results_skipped: "\<forall>L \<in> set Ls. L < K \<Longrightarrow> save_results bits old K n rs t Ls = Inr []"
  by (induction Ls) simp_all

lemma save_results_rows:
  assumes "\<forall>L. old L = ([], [])" "\<forall>L \<in> set kept. K \<le> L" "\<forall>L \<in> set skipped. L < K"
    "\<And>L. L \<in> set kept \<Longrightarrow> length (fst (r L)) = n * K \<and> length (snd (r L)) = n * K"
  shows "save_results bits old K n (pre @ map r kept @ post) (length pre) (kept @ skipped) =
    Inr (map (\<lambda>L. (L, bin_file n K (fst (r L)), bin_file n K (map bits (snd (r L))))) kept)"
  using assms(2,4)
proof (induction kept arbitrary: pre)
  case Nil
  then show ?case using assms(3) by (simp add: save_results_skipped)
next
  case (Cons L kept)
  have "(pre @ map r (L # kept) @ post) ! length pre = r L" by simp
  moreover have "save_results bits old K n (pre @ map r (L # kept) @ post) (length pre + 1) (kept @ skipped) =
      Inr (map (\<lambda>L. (L, bin_file n K (fst (r L)), bin_file n K (map bits (snd (r L))))) kept)"
    using Cons.IH[of "pre @ [r L]"] Cons.prems by simp
  moreover have "old = (\<lambda>_. ([], []))" using assms(1) by (simp add: fun_eq_iff)
  ultimately show ?case using Cons.prems by (simp add: save_bin4_fresh not_less)
qed

lemma save_results_shifted:
  assumes "\<exists>L \<in> set Ls. K \<le> L" "0 < n * K"
  shows "save_results bits old K n (([], []) # rs) 0 Ls = Inl OutOfRange"
  using assms by (induction Ls) (auto simp: save_bin4_def)

text \<open>The run up to the loop over the list sizes.\<close>

definition search_ready ::
    "loaded res \<Rightarrow> (loaded \<Rightarrow> nat \<Rightarrow> nat list res) \<Rightarrow> (loaded \<Rightarrow> nat list \<Rightarrow> 'c res) \<Rightarrow> bfile option \<Rightarrow> (string \<times> string option) option \<Rightarrow>
     nat \<Rightarrow> search_args \<Rightarrow> loaded \<Rightarrow> 'c \<Rightarrow> (nat list \<Rightarrow> fp res) option \<Rightarrow> bool" where
  "search_ready load bfs cache_list gt_file env_cache_txt n a ld c recall \<longleftrightarrow>
     check_params a = None \<and> gt_recall gt_file n (sa_recall_at a) = Inr recall \<and> recall_ok recall (n * sa_recall_at a) \<and>
     (\<exists>ld0 nodes. load = Inr ld0 \<and> choose_start (sa_start_node_override a) ld0 = Inr ld \<and>
        choose_cache env_cache_txt (bfs ld) (sa_num_nodes_to_cache a) = Inr nodes \<and> cache_list ld nodes = Inr c)"

lemma search_disk_index_ready:
  assumes "search_ready load bfs cache_list gt_file env_cache_txt n a ld c recall"
    and "\<And>L. L \<in> set (sa_Lvec a) \<Longrightarrow> sa_recall_at a \<le> L \<Longrightarrow> runs_ok (run ld c L) (sa_recall_at a) n"
  shows "search_disk_index bits old load bfs cache_list run gt_file env_cache_txt n a =
    (let K = sa_recall_at a; rows = \<lambda>L. list_rows (run ld c L) K n; kept = filter (\<lambda>L. K \<le> L) (sa_Lvec a) in
     rbind (save_results bits old K n (map (\<lambda>L. if L < K then ([], []) else rows L) (sa_Lvec a)) 0 (sa_Lvec a)) (\<lambda>files.
       Inr (if fle (sa_fail_if_recall_below a) (best_recall_of recall (\<lambda>L. fst (rows L)) kept fzero) then 0 else - 1, files)))"
  using assms(1) search_lists_rows[of "sa_Lvec a" "sa_recall_at a" "run ld c" n recall] assms(2)
  by (auto simp: search_ready_def search_disk_index_def Let_def)

text \<open>C13. The search as a whole. When the parameters are accepted, the index, the node list and the ground truth are
  loaded, every query succeeds, no file is in the way, and the list sizes below \<open>K\<close> come last, then for each other
  list size the two files hold the number of queries, \<open>K\<close> and the rows of that list size, zeros
  where a query found fewer. The exit code is 0 exactly if the best recall reaches the bound.\<close>

theorem search_results_saved:
  assumes "search_ready load bfs cache_list gt_file env_cache_txt n a ld c recall"
    and "\<And>L. L \<in> set (sa_Lvec a) \<Longrightarrow> sa_recall_at a \<le> L \<Longrightarrow> runs_ok (run ld c L) (sa_recall_at a) n"
    and "sa_Lvec a = kept @ skipped" "\<forall>L \<in> set kept. sa_recall_at a \<le> L" "\<forall>L \<in> set skipped. L < sa_recall_at a"
    and "\<forall>L. old L = ([], [])"
  defines "K \<equiv> sa_recall_at a" and "rows \<equiv> \<lambda>L. list_rows (run ld c L) (sa_recall_at a) n"
  shows "search_disk_index bits old load bfs cache_list run gt_file env_cache_txt n a =
    Inr (if fle (sa_fail_if_recall_below a) (best_recall_of recall (\<lambda>L. fst (rows L)) kept fzero) then 0 else - 1,
         map (\<lambda>L. (L, bin_file n K (fst (rows L)), bin_file n K (map bits (snd (rows L))))) kept)"
proof -
  let ?res = "map (\<lambda>L. if L < K then ([], []) else rows L) (sa_Lvec a)"
  have "\<forall>L \<in> set kept. K \<le> L" "\<forall>L \<in> set skipped. L < K" using assms(4,5) by (simp_all add: K_def)
  then have res: "?res = [] @ map rows kept @ map (\<lambda>L. ([], [])) skipped" "filter (\<lambda>L. K \<le> L) (sa_Lvec a) = kept"
    using assms(3) by (auto simp: filter_empty_conv)
  have len: "length (fst (rows L)) = n * K \<and> length (snd (rows L)) = n * K" if "L \<in> set kept" for L
    using runs_ok_rows(2,3)[OF assms(2)[of L]] that assms(3,4) by (simp add: rows_def K_def)
  have "save_results bits old K n ([] @ map rows kept @ map (\<lambda>L. ([], [])) skipped) (length ([] :: (nat list \<times> fp list) list)) (kept @ skipped) =
      Inr (map (\<lambda>L. (L, bin_file n K (fst (rows L)), bin_file n K (map bits (snd (rows L))))) kept)"
    by (rule save_results_rows[OF assms(6)]) (use assms(4,5) len in \<open>auto simp: K_def\<close>)
  then have "save_results bits old K n ?res 0 (sa_Lvec a) =
      Inr (map (\<lambda>L. (L, bin_file n K (fst (rows L)), bin_file n K (map bits (snd (rows L))))) kept)"
    unfolding res(1) using assms(3) by simp
  moreover have "search_disk_index bits old load bfs cache_list run gt_file env_cache_txt n a =
      rbind (save_results bits old K n ?res 0 (sa_Lvec a)) (\<lambda>files.
        Inr (if fle (sa_fail_if_recall_below a) (best_recall_of recall (\<lambda>L. fst (rows L)) (filter (\<lambda>L. K \<le> L) (sa_Lvec a)) fzero) then 0 else - 1, files))"
    unfolding K_def rows_def
    by (rule search_disk_index_ready[OF assms(1), where run = run, unfolded Let_def]) (rule assms(2))
  ultimately show ?thesis unfolding res(2) by simp
qed

text \<open>C40. A list size below \<open>K\<close> in front of a larger one. The results are stored by the position in \<open>Lvec\<close>, but the loop that
  saves them counts only the list sizes it does not skip. If the first list size is skipped and a later one
  is not, the results saved for that one are read from an empty vector.\<close>

theorem skipped_list_shifts:
  assumes "search_ready load bfs cache_list gt_file env_cache_txt n a ld c recall"
    and "\<And>L. L \<in> set (sa_Lvec a) \<Longrightarrow> sa_recall_at a \<le> L \<Longrightarrow> runs_ok (run ld c L) (sa_recall_at a) n"
    and "sa_Lvec a = below # Ls" "below < sa_recall_at a" "\<exists>L \<in> set Ls. sa_recall_at a \<le> L" "0 < n"
  shows "search_disk_index bits old load bfs cache_list run gt_file env_cache_txt n a = Inl OutOfRange"
  using search_disk_index_ready[OF assms(1), where run = run and bits = bits and old = old] assms(2-)
    save_results_shifted[OF assms(5)] by (simp add: Let_def)

definition sample_args :: "nat list \<Rightarrow> search_args" where
  "sample_args Ls = \<lparr>sa_recall_at = 2, sa_beamwidth = 2, sa_num_nodes_to_cache = 0, sa_Lvec = Ls, sa_fail_if_recall_below = fzero,
     sa_start_node_override = - 1, sa_refine_total = False, sa_early_exit_streak = 1, sa_fixed_refine_count = 0, sa_fixed_refine_ratio = fzero\<rparr>"

lemma sample_ready: "search_ready (Inr ld) (\<lambda>_ _. Inr []) (\<lambda>_ _. Inr ()) None None 1 (sample_args Ls) ld () None"
  by (simp add: search_ready_def sample_args_def check_params_def gt_recall_def recall_ok_def choose_start_def choose_cache_def)

lemma sample_runs: "runs_ok (\<lambda>i. Inr ([7], [fone])) 2 1"
  by (simp add: runs_ok_def)

theorem search_results_saved_witness:
  "\<forall>ld. search_disk_index (\<lambda>_. 5) (\<lambda>_. ([], [])) (Inr ld) (\<lambda>_ _. Inr []) (\<lambda>_ _. Inr ()) (\<lambda>_ _ _ _. Inr ([7], [fone])) None None 1 (sample_args [4, 1]) =
     Inr (0, [(4, bin_file 1 2 [7, 0], bin_file 1 2 [5, 5])])"
proof
  fix ld
  show "search_disk_index (\<lambda>_. 5) (\<lambda>_. ([], [])) (Inr ld) (\<lambda>_ _. Inr []) (\<lambda>_ _. Inr ()) (\<lambda>_ _ _ _. Inr ([7], [fone])) None None 1 (sample_args [4, 1]) =
     Inr (0, [(4, bin_file 1 2 [7, 0], bin_file 1 2 [5, 5])])"
    using search_results_saved[OF sample_ready[of ld "[4, 1]"], of "\<lambda>_ _ _ _. Inr ([7], [fone])" "[4]" "[1]" "\<lambda>_. ([], [])" "\<lambda>_. 5"] sample_runs
    by (simp add: sample_args_def list_rows_def pad_row_def best_recall_of_def u32_def)
qed

theorem skipped_list_shifts_witness:
  "\<forall>ld. search_disk_index (\<lambda>_. 5) (\<lambda>_. ([], [])) (Inr ld) (\<lambda>_ _. Inr []) (\<lambda>_ _. Inr ()) (\<lambda>_ _ _ _. Inr ([7], [fone])) None None 1 (sample_args [1, 4]) =
     Inl OutOfRange"
proof
  fix ld
  show "search_disk_index (\<lambda>_. 5) (\<lambda>_. ([], [])) (Inr ld) (\<lambda>_ _. Inr []) (\<lambda>_ _. Inr ()) (\<lambda>_ _ _ _. Inr ([7], [fone])) None None 1 (sample_args [1, 4]) =
     Inl OutOfRange"
    by (rule skipped_list_shifts[OF sample_ready[of ld "[1, 4]"], where below = 1 and Ls = "[4]"])
      (use sample_runs in \<open>auto simp: sample_args_def\<close>)
qed

end
