(* ===== verification/Vamana_Build.thy ===== *)
theory Vamana_Build
  imports Graph_Search Partition
begin

text \<open>
  The build of a partition's graph (\<open>src/index.cpp\<close>): \<open>occlude_list\<close>, \<open>prune_neighbors\<close>,
  \<open>search_for_point_and_prune\<close>, \<open>inter_insert\<close> and \<open>link\<close>, for an index without labels, as the
  construction builds it (\<open>allowed\<close> stands for the label test of a filtered index). \<open>link\<close> runs its
  loop on several threads; \<open>link_step\<close> is one critical section of one of them, and a search that
  runs beside them may come back with any candidates.
\<close>

section \<open>The medoid\<close>

text \<open>\<open>InMemDataStore::calculate_medoid\<close> on \<open>float\<close> vectors: the point nearest to the centroid.\<close>

definition centroid :: "fp list list \<Rightarrow> nat \<Rightarrow> fp list" where
  "centroid vecs dm =
     map (\<lambda>j. fdiv Binary32 (fold (\<lambda>v acc. fadd Binary32 acc (v ! j)) vecs fzero) (f_of_nat Binary32 (length vecs))) [0..<dm]"

definition centre_dist :: "fp list \<Rightarrow> fp list \<Rightarrow> fp" where
  "centre_dist center v =
     fold (\<lambda>j acc. let diff = fsub Binary32 (center ! j) (v ! j) in fadd Binary32 acc (fmul Binary32 diff diff))
       [0..<length center] fzero"

definition arg_min_dist :: "fp list \<Rightarrow> nat" where
  "arg_min_dist ds =
     fst (fold (\<lambda>i (min_idx, min_dist). if flt (ds ! i) min_dist then (i, ds ! i) else (min_idx, min_dist))
       [1..<length ds] (0, ds ! 0))"

definition calculate_medoid :: "fp list list \<Rightarrow> nat \<Rightarrow> nat" where
  "calculate_medoid vecs dm = arg_min_dist (map (centre_dist (centroid vecs dm)) vecs)"

section \<open>Pruning\<close>

datatype metric = L2 | INNER_PRODUCT | COSINE | FAST_L2

text \<open>The parameters of the index, the distance between two points, and the distance of a point to the
  vector of another one as the search computes it (they differ when the search uses quantised data).\<close>

record vamana =
  vb_range :: nat
  vb_L :: nat
  vb_maxc :: nat
  vb_alpha :: fp
  vb_saturate :: bool
  vb_pq_dist :: bool
  vb_metric :: metric
  vb_dist :: "nat \<Rightarrow> nat \<Rightarrow> fp"
  vb_query_dist :: "nat \<Rightarrow> nat \<Rightarrow> fp"
  vb_allowed :: "nat \<Rightarrow> nat \<Rightarrow> bool"

text \<open>The candidate \<open>u\<close> has been taken: the occlusion factor of position \<open>t\<close>.\<close>

definition occlude_update :: "vamana \<Rightarrow> fp \<Rightarrow> (fp \<times> nat) list \<Rightarrow> nat \<Rightarrow> nat \<Rightarrow> fp list \<Rightarrow> fp list" where
  "occlude_update vb cur_alpha pool u t ocf =
     (let (dt, v) = pool ! t
      in if flt (vb_alpha vb) (ocf ! t) \<or> \<not> vb_allowed vb u v then ocf
         else
           let djk = vb_dist vb v u
           in case vb_metric vb of
                INNER_PRODUCT \<Rightarrow>
                  let x = fneg dt; y = fneg djk; eps = fadd Binary32 cur_alpha (fround Binary32 False (1 / 100))
                  in if flt (fmul Binary32 cur_alpha x) y then ocf[t := fmax (ocf ! t) eps] else ocf
              | FAST_L2 \<Rightarrow> ocf
              | _ \<Rightarrow> ocf[t := (if feq djk fzero then flt_max else fmax (ocf ! t) (fdiv Binary32 dt djk))])"

definition occlude_turn ::
    "vamana \<Rightarrow> (nat \<Rightarrow> bool) \<Rightarrow> nat \<Rightarrow> nat \<Rightarrow> fp \<Rightarrow> (fp \<times> nat) list \<Rightarrow> nat \<Rightarrow> fp list \<times> nat list \<Rightarrow> fp list \<times> nat list" where
  "occlude_turn vb deleted location degree cur_alpha pool p s =
     (case s of (ocf, result) \<Rightarrow>
        if \<not> length result < degree \<or> flt cur_alpha (ocf ! p) then s
        else
          let u = snd (pool ! p)
          in (fold (occlude_update vb cur_alpha pool u) [p + 1..<length pool] (ocf[p := flt_max]),
              if deleted u \<or> u = location then result else result @ [u]))"

text \<open>\<open>while (cur_alpha <= alpha && result.size() < degree)\<close>\<close>

partial_function (option) occlude_rounds ::
    "vamana \<Rightarrow> (nat \<Rightarrow> bool) \<Rightarrow> nat \<Rightarrow> nat \<Rightarrow> (fp \<times> nat) list \<Rightarrow> fp \<Rightarrow> fp list \<times> nat list \<Rightarrow> nat list option" where
  "occlude_rounds vb deleted location degree pool cur_alpha s =
     (if fle cur_alpha (vb_alpha vb) \<and> length (snd s) < degree then
        occlude_rounds vb deleted location degree pool (fmul Binary32 cur_alpha (fround Binary32 False (12 / 10)))
          (fold (occlude_turn vb deleted location degree cur_alpha pool) [0..<length pool] s)
      else Some (snd s))"

text \<open>The pool is cut at \<open>maxc\<close>, for the caller too.\<close>

definition occlude_list ::
    "vamana \<Rightarrow> (nat \<Rightarrow> bool) \<Rightarrow> nat \<Rightarrow> (fp \<times> nat) list \<Rightarrow> nat \<Rightarrow> nat \<Rightarrow> nat list \<Rightarrow> ((fp \<times> nat) list \<times> nat list) option" where
  "occlude_list vb deleted location pool degree maxc result =
     (if pool = [] then Some (pool, result)
      else
        let pool1 = take maxc pool
        in map_option (Pair pool1)
             (occlude_rounds vb deleted location degree pool1 fone (replicate (length pool1) fzero, result)))"

fun saturate :: "nat \<Rightarrow> nat \<Rightarrow> (fp \<times> nat) list \<Rightarrow> nat list \<Rightarrow> nat list" where
  "saturate R location [] pruned_list = pruned_list"
| "saturate R location ((d, v) # pool) pruned_list =
     (if R \<le> length pruned_list then pruned_list
      else saturate R location pool
             (if v \<notin> set pruned_list \<and> v \<noteq> location then pruned_list @ [v] else pruned_list))"

definition prune_neighbors :: "vamana \<Rightarrow> nat \<Rightarrow> (fp \<times> nat) list \<Rightarrow> nat list option" where
  "prune_neighbors vb location pool =
     (if pool = [] then Some []
      else
        let pool1 = (if vb_pq_dist vb then map (\<lambda>(d, v). (vb_dist vb v location, v)) pool else pool)
        in case occlude_list vb (\<lambda>v. False) location (std_sort dist_id_lt pool1) (vb_range vb) (vb_maxc vb) [] of
             None \<Rightarrow> None
           | Some (pool2, pruned_list) \<Rightarrow>
               Some (if vb_saturate vb \<and> flt fone (vb_alpha vb)
                     then saturate (vb_range vb) location pool2 pruned_list else pruned_list))"

section \<open>Linking a point\<close>

text \<open>\<open>scratch\<close> is the queue of the scratch space, cleared when the space was given back.\<close>

definition search_for_point_and_prune :: "vamana \<Rightarrow> npq \<Rightarrow> index \<Rightarrow> nat \<Rightarrow> nat list \<Rightarrow> nat list res option" where
  "search_for_point_and_prune vb scratch ix location pruned_list =
     (case iterate_to_fixed_point ix (vb_query_dist vb location) (\<lambda>i. True) False False (npq_clear scratch) [] (vb_L vb) (get_init_ids ix) of
        None \<Rightarrow> None
      | Some (Inl e) \<Rightarrow> Some (Inl e)
      | Some (Inr st) \<Rightarrow>
          let pool = filter (\<lambda>(d, v). v \<noteq> location) (map (\<lambda>n. (nb_dist n, nb_id n)) (sr_expanded st))
          in if pruned_list \<noteq> [] then Some (Inl (ANNException ''ERROR: non-empty pruned_list passed''))
             else map_option Inr (prune_neighbors vb location pool))"

text \<open>\<open>(uint64_t)(defaults::GRAPH_SLACK_FACTOR * range)\<close>; the product of a 32 bit range is in range.\<close>

definition slack_limit :: "nat \<Rightarrow> nat" where
  "slack_limit R =
     (case f_to_u64 (fmul Binary32 GRAPH_SLACK_FACTOR (f_of_nat Binary32 R)) of Some m \<Rightarrow> m | None \<Rightarrow> 0)"

text \<open>The section of \<open>inter_insert\<close> under the lock of \<open>des\<close>: either the edge is there or there is room for it,
  or the list is copied to be pruned.\<close>

definition insert_locked :: "nat \<Rightarrow> nat \<Rightarrow> nat \<Rightarrow> graph_store \<Rightarrow> (graph_store \<times> nat list option) res" where
  "insert_locked R n des g =
     rbind (get_neighbours g des) (\<lambda>des_pool.
       if n \<in> set des_pool then Inr (g, None)
       else if length des_pool < slack_limit R then rbind (add_neighbour g des n) (\<lambda>g1. Inr (g1, None))
       else Inr (g, Some (des_pool @ [n])))"

text \<open>The pool of a list: every neighbour once, without the point itself.\<close>

fun nbr_pool :: "vamana \<Rightarrow> nat \<Rightarrow> nat list \<Rightarrow> nat list \<Rightarrow> (fp \<times> nat) list" where
  "nbr_pool vb des [] visited = []"
| "nbr_pool vb des (c # cs) visited =
     (if c \<notin> set visited \<and> c \<noteq> des then (vb_dist vb des c, c) # nbr_pool vb des cs (c # visited)
      else nbr_pool vb des cs visited)"

definition obind :: "'a res option \<Rightarrow> ('a \<Rightarrow> 'b res option) \<Rightarrow> 'b res option" where
  "obind x f = (case x of None \<Rightarrow> None | Some (Inl e) \<Rightarrow> Some (Inl e) | Some (Inr y) \<Rightarrow> f y)"

fun ofold :: "('a \<Rightarrow> 's \<Rightarrow> 's res option) \<Rightarrow> 'a list \<Rightarrow> 's \<Rightarrow> 's res option" where
  "ofold f [] s = Some (Inr s)"
| "ofold f (x # xs) s = obind (f x s) (ofold f xs)"

definition inter_insert_one :: "vamana \<Rightarrow> nat \<Rightarrow> nat \<Rightarrow> graph_store \<Rightarrow> graph_store res option" where
  "inter_insert_one vb n des g =
     obind (Some (insert_locked (vb_range vb) n des g)) (\<lambda>(g1, copy_of_neighbors).
       case copy_of_neighbors of
         None \<Rightarrow> Some (Inr g1)
       | Some ns \<Rightarrow>
           obind (map_option Inr (prune_neighbors vb des (nbr_pool vb des ns []))) (\<lambda>new_out_neighbors.
             Some (set_neighbours g1 des new_out_neighbors)))"

definition inter_insert :: "vamana \<Rightarrow> nat \<Rightarrow> nat list \<Rightarrow> graph_store \<Rightarrow> graph_store res option" where
  "inter_insert vb n pruned_list g = ofold (inter_insert_one vb n) pruned_list g"

definition link_node :: "vamana \<Rightarrow> npq \<Rightarrow> nat \<Rightarrow> index \<Rightarrow> index res option" where
  "link_node vb scratch node ix =
     obind (search_for_point_and_prune vb scratch ix node []) (\<lambda>pruned_list.
     obind (Some (set_neighbours (ix_graph ix) node pruned_list)) (\<lambda>g.
     obind (inter_insert vb node pruned_list g) (\<lambda>g1.
       Some (Inr (ix\<lparr>ix_graph := g1\<rparr>)))))"

definition cleanup_node :: "vamana \<Rightarrow> nat \<Rightarrow> graph_store \<Rightarrow> graph_store res option" where
  "cleanup_node vb node g =
     obind (Some (get_neighbours g node)) (\<lambda>ns.
       if length ns > vb_range vb then
         obind (map_option Inr (prune_neighbors vb node (nbr_pool vb node ns []))) (\<lambda>new_out_neighbors.
         obind (Some (clear_neighbours g node)) (\<lambda>g1.
           Some (set_neighbours g1 node new_out_neighbors)))
       else Some (Inr g))"

definition visit_order :: "nat \<Rightarrow> index \<Rightarrow> nat list" where
  "visit_order nd ix = [0..<u32 nd] @ [u32 (ix_max_points ix)..<ix_max_points ix + ix_num_frozen ix]"

text \<open>\<open>link\<close> on one thread.\<close>

definition link :: "vamana \<Rightarrow> npq \<Rightarrow> fp list list \<Rightarrow> nat \<Rightarrow> nat \<Rightarrow> index \<Rightarrow> index res option" where
  "link vb scratch vecs dm nd ix =
     (let ix0 = ix\<lparr>ix_start := (if ix_num_frozen ix > 0 then u32 (ix_max_points ix) else calculate_medoid vecs dm)\<rparr>
      in obind (ofold (link_node vb scratch) (visit_order nd ix) ix0) (\<lambda>ix1.
         obind (ofold (cleanup_node vb) (visit_order nd ix) (ix_graph ix1)) (\<lambda>g.
           Some (Inr (ix1\<lparr>ix_graph := g\<rparr>)))))"

section \<open>The rule at \<open>alpha = 1\<close>\<close>

text \<open>A taken candidate \<open>u\<close> occludes the candidate \<open>v\<close> at distance \<open>d\<close>.\<close>

definition occludes :: "vamana \<Rightarrow> nat \<Rightarrow> fp \<times> nat \<Rightarrow> bool" where
  "occludes vb u c =
     (case c of (d, v) \<Rightarrow> vb_allowed vb u v \<and>
        (case vb_metric vb of
           INNER_PRODUCT \<Rightarrow> flt (fmul Binary32 fone (fneg d)) (fneg (vb_dist vb v u))
         | FAST_L2 \<Rightarrow> False
         | _ \<Rightarrow> feq (vb_dist vb v u) fzero \<or> flt fone (fdiv Binary32 d (vb_dist vb v u))))"

text \<open>The reference: walk the candidates by ascending distance and take one unless a taken one occludes it.\<close>

fun vamana_rng :: "vamana \<Rightarrow> nat \<Rightarrow> nat \<Rightarrow> (fp \<times> nat) list \<Rightarrow> nat list \<Rightarrow> nat list \<Rightarrow> nat list" where
  "vamana_rng vb location degree [] taken out = out"
| "vamana_rng vb location degree (c # pool) taken out =
     (if \<not> length out < degree then out
      else if \<exists>u \<in> set taken. occludes vb u c then vamana_rng vb location degree pool taken out
      else vamana_rng vb location degree pool (taken @ [snd c]) (if snd c = location then out else out @ [snd c]))"

lemma flt_fone_fmax: "\<not> is_nan a \<Longrightarrow> flt fone (fmax a b) \<longleftrightarrow> flt fone a \<or> flt fone b"
  by (cases a; cases b) (auto simp: fmax_def split: if_splits)

lemma fmax_not_nan: "\<not> is_nan a \<Longrightarrow> \<not> is_nan (fmax a b)"
  unfolding fmax_def using flt_not_nan by auto

lemma flt_fone_flt_max: "flt fone flt_max" "\<not> is_nan flt_max"
  by (simp_all add: flt_max_def)

lemma flt_fone_eps: "flt fone (fadd Binary32 fone (fround Binary32 False (1 / 100)))"
  by code_simp

lemma occlude_update_at:
  assumes "vb_alpha vb = fone" "t < length ocf" "\<not> is_nan (ocf ! t)"
  shows "length (occlude_update vb fone pool u t ocf) = length ocf \<and>
    \<not> is_nan (occlude_update vb fone pool u t ocf ! t) \<and>
    (flt fone (occlude_update vb fone pool u t ocf ! t) \<longleftrightarrow> flt fone (ocf ! t) \<or> occludes vb u (pool ! t)) \<and>
    (\<forall>i. i \<noteq> t \<longrightarrow> occlude_update vb fone pool u t ocf ! i = ocf ! i)"
proof -
  obtain dt v where c: "pool ! t = (dt, v)" by (cases "pool ! t")
  show ?thesis
    using assms flt_fone_eps flt_fone_flt_max
    by (cases "vb_metric vb") (auto simp: occlude_update_def occludes_def c Let_def flt_fone_fmax fmax_not_nan)
qed

lemma occlude_updates:
  assumes "vb_alpha vb = fone" "\<forall>t < length ocf. \<not> is_nan (ocf ! t)" "\<forall>t \<in> set ts. t < length ocf"
  shows "length (fold (occlude_update vb fone pool u) ts ocf) = length ocf \<and>
    (\<forall>t < length ocf. \<not> is_nan (fold (occlude_update vb fone pool u) ts ocf ! t) \<and>
       (flt fone (fold (occlude_update vb fone pool u) ts ocf ! t) \<longleftrightarrow> flt fone (ocf ! t) \<or> t \<in> set ts \<and> occludes vb u (pool ! t)))"
  using assms(2,3)
proof (induction ts arbitrary: ocf)
  case Nil
  then show ?case by simp
next
  case (Cons t ts)
  let ?o = "occlude_update vb fone pool u t ocf"
  have t: "length ?o = length ocf" "\<not> is_nan (?o ! t)" "flt fone (?o ! t) \<longleftrightarrow> flt fone (ocf ! t) \<or> occludes vb u (pool ! t)"
    "\<And>i. i \<noteq> t \<Longrightarrow> ?o ! i = ocf ! i"
    using occlude_update_at[OF assms(1), of t ocf pool u] Cons.prems by auto
  have "\<forall>i < length ?o. \<not> is_nan (?o ! i)"
    using t(1,2,4) Cons.prems(1) by metis
  then show ?case
    using Cons.IH[of ?o] Cons.prems(2) t by (auto, metis+)
qed

lemma occlude_full: "\<not> length out < degree \<Longrightarrow> fold (occlude_turn vb del loc degree a pool) ps (ocf, out) = (ocf, out)"
  by (induction ps) (simp_all add: occlude_turn_def)

lemma occlude_turns_rng:
  assumes "vb_alpha vb = fone" "length ocf = length pool" "\<forall>t < length ocf. \<not> is_nan (ocf ! t)" "p \<le> length pool"
    and "\<forall>t < length pool. p \<le> t \<longrightarrow> (flt fone (ocf ! t) \<longleftrightarrow> (\<exists>u \<in> set taken. occludes vb u (pool ! t)))"
  shows "snd (fold (occlude_turn vb (\<lambda>v. False) loc degree fone pool) [p..<length pool] (ocf, out)) =
    vamana_rng vb loc degree (drop p pool) taken out"
  using assms(2-5)
proof (induction "length pool - p" arbitrary: p ocf taken out)
  case 0
  then show ?case by simp
next
  case (Suc k)
  then have p: "p < length pool" by linarith
  then have cons: "[p..<length pool] = p # [Suc p..<length pool]" "drop p pool = pool ! p # drop (Suc p) pool"
    by (simp_all add: upt_conv_Cons Cons_nth_drop_Suc)
  have k: "k = length pool - Suc p" "Suc p \<le> length pool" using Suc.hyps(2) p by linarith+
  show ?case
  proof (cases "length out < degree")
    case False
    then show ?thesis
      using occlude_full[OF False, of vb "\<lambda>v. False" loc fone pool "[p..<length pool]" ocf] by (simp add: cons(2))
  next
    case True
    show ?thesis
    proof (cases "flt fone (ocf ! p)")
      case occ: True
      have "occlude_turn vb (\<lambda>v. False) loc degree fone pool p (ocf, out) = (ocf, out)"
        using occ by (simp add: occlude_turn_def)
      then show ?thesis
        unfolding cons using Suc.hyps(1)[OF k(1) Suc.prems(1,2) k(2)] Suc.prems(4) p occ True by simp
    next
      case free: False
      let ?u = "snd (pool ! p)" and ?out = "if snd (pool ! p) = loc then out else out @ [snd (pool ! p)]"
      define o1 where "o1 = fold (occlude_update vb fone pool ?u) [Suc p..<length pool] (ocf[p := flt_max])"
      have turn: "occlude_turn vb (\<lambda>v. False) loc degree fone pool p (ocf, out) = (o1, ?out)"
        using True free by (simp add: occlude_turn_def o1_def Let_def)
      have start: "\<forall>t < length (ocf[p := flt_max]). \<not> is_nan (ocf[p := flt_max] ! t)"
        using Suc.prems(1,2) p flt_fone_flt_max(2) by (simp add: nth_list_update_if)
      have o1: "length o1 = length pool" "\<forall>t < length o1. \<not> is_nan (o1 ! t)"
        "\<And>t. t < length pool \<Longrightarrow> Suc p \<le> t \<Longrightarrow> flt fone (o1 ! t) \<longleftrightarrow> flt fone (ocf ! t) \<or> occludes vb ?u (pool ! t)"
        using occlude_updates[OF assms(1) start, of "[Suc p..<length pool]" pool ?u] Suc.prems(1)
        unfolding o1_def by auto
      have "\<forall>t < length pool. Suc p \<le> t \<longrightarrow> (flt fone (o1 ! t) \<longleftrightarrow> (\<exists>u \<in> set (taken @ [?u]). occludes vb u (pool ! t)))"
        using o1(3) Suc.prems(4) by auto
      from Suc.hyps(1)[OF k(1) o1(1,2) k(2) this, of ?out] show ?thesis
        unfolding cons using turn True free Suc.prems(4) p by auto
    qed
  qed
qed

lemma occlude_list_rng:
  assumes "vb_alpha vb = fone"
  shows "occlude_list vb (\<lambda>v. False) loc pool degree maxc [] = Some (take maxc pool, vamana_rng vb loc degree (take maxc pool) [] [])"
proof (cases "pool = [] \<or> degree = 0")
  case True
  have "vamana_rng vb loc 0 xs [] [] = []" for xs by (cases xs) auto
  moreover have "occlude_rounds vb (\<lambda>v. False) loc 0 xs fone s = Some (snd s)" for xs s
    by (subst occlude_rounds.simps) simp
  ultimately show ?thesis
    using True by (auto simp: occlude_list_def Let_def)
next
  case False
  let ?p = "take maxc pool"
  let ?s = "fold (occlude_turn vb (\<lambda>v. False) loc degree fone ?p) [0..<length ?p] (replicate (length ?p) fzero, [])"
  have next_alpha: "\<not> fle (fmul Binary32 fone (fround Binary32 False (12 / 10))) fone"
    by code_simp
  have "occlude_rounds vb (\<lambda>v. False) loc degree ?p fone (replicate (length ?p) fzero, []) = Some (snd ?s)"
    using False next_alpha
    by (subst occlude_rounds.simps, simp add: assms, subst occlude_rounds.simps, simp add: assms del: fmul.simps)
  also have "snd ?s = vamana_rng vb loc degree ?p [] []"
    using occlude_turns_rng[OF assms, of "replicate (length ?p) fzero" ?p 0 "[]" loc degree "[]"] by simp
  finally show ?thesis
    using False by (simp add: occlude_list_def Let_def)
qed

section \<open>What pruning returns\<close>

text \<open>A neighbour list of point \<open>i\<close> among \<open>N\<close> points.\<close>

definition row_ok :: "nat \<Rightarrow> nat \<Rightarrow> nat \<Rightarrow> nat list \<Rightarrow> bool" where
  "row_ok N maxlen i row \<longleftrightarrow> distinct row \<and> i \<notin> set row \<and> set row \<subseteq> {..<N} \<and> length row \<le> maxlen"

lemma vamana_rng_inv:
  assumes "distinct (map snd pool)" "distinct out" "set out \<inter> snd ` set pool = {}" "loc \<notin> set out" "length out \<le> degree"
  shows "distinct (vamana_rng vb loc degree pool taken out) \<and> loc \<notin> set (vamana_rng vb loc degree pool taken out) \<and>
    set (vamana_rng vb loc degree pool taken out) \<subseteq> set out \<union> snd ` set pool \<and> length (vamana_rng vb loc degree pool taken out) \<le> degree"
  using assms
proof (induction pool arbitrary: taken out)
  case Nil
  then show ?case by simp
next
  case (Cons c pool)
  show ?case
  proof (cases "length out < degree \<and> \<not> (\<exists>u \<in> set taken. occludes vb u c)")
    case False
    then show ?thesis using Cons.IH[of out taken] Cons.prems by auto
  next
    case True
    let ?out = "if snd c = loc then out else out @ [snd c]"
    have "distinct ?out" "set ?out \<inter> snd ` set pool = {}" "loc \<notin> set ?out" "length ?out \<le> degree"
      using Cons.prems True by auto
    from Cons.IH[OF _ this, of "taken @ [snd c]"] show ?thesis
      using True Cons.prems(1) by (auto split: if_splits)
  qed
qed

lemma prune_neighbors_rng:
  assumes "vb_alpha vb = fone"
  shows "prune_neighbors vb loc pool =
    Some (vamana_rng vb loc (vb_range vb)
      (take (vb_maxc vb) (std_sort dist_id_lt (if vb_pq_dist vb then map (\<lambda>(d, v). (vb_dist vb v loc, v)) pool else pool))) [] [])"
  using assms by (auto simp: prune_neighbors_def Let_def occlude_list_rng[OF assms])

lemma distinct_map_std_sort: "distinct (map f (std_sort lt xs)) \<longleftrightarrow> distinct (map f xs)"
  by (metis mset_eq_imp_distinct_iff mset_map mset_std_sort)

lemma prune_ok:
  assumes "vb_alpha vb = fone" "distinct (map snd pool)" "snd ` set pool \<subseteq> {..<N}"
  obtains pl where "prune_neighbors vb loc pool = Some pl" "row_ok N (vb_range vb) loc pl" "set pl \<subseteq> snd ` set pool"
proof -
  define p1 where "p1 = (if vb_pq_dist vb then map (\<lambda>(d, v). (vb_dist vb v loc, v)) pool else pool)"
  let ?p = "take (vb_maxc vb) (std_sort dist_id_lt p1)"
  let ?r = "vamana_rng vb loc (vb_range vb) ?p [] []"
  have "map snd p1 = map snd pool" by (auto simp: p1_def)
  then have p1: "distinct (map snd p1)" "snd ` set p1 = snd ` set pool"
    using assms(2) by (simp, metis list.set_map)
  have "snd ` set ?p \<subseteq> snd ` set pool"
    using set_take_subset[of "vb_maxc vb" "std_sort dist_id_lt p1"] p1(2) by auto
  moreover have "distinct (map snd ?p)"
    using p1(1) by (simp only: flip: take_map) (simp add: distinct_map_std_sort)
  ultimately have r: "distinct ?r" "loc \<notin> set ?r" "set ?r \<subseteq> snd ` set pool" "length ?r \<le> vb_range vb"
    using vamana_rng_inv[of ?p "[]" loc "vb_range vb" vb "[]"] by auto
  then have "row_ok N (vb_range vb) loc ?r"
    using assms(3) by (simp add: row_ok_def order.trans)
  from that[OF prune_neighbors_rng[OF assms(1)] this[unfolded p1_def] r(3)[unfolded p1_def]] show thesis .
qed

lemma nbr_pool_ids:
  "distinct (map snd (nbr_pool vb des ns vis)) \<and> snd ` set (nbr_pool vb des ns vis) = set ns - set vis - {des}"
  by (induction ns arbitrary: vis) auto

section \<open>The invariant of the graph\<close>

definition graph_rows :: "nat \<Rightarrow> nat \<Rightarrow> graph_store \<Rightarrow> bool" where
  "graph_rows N maxlen g \<longleftrightarrow> store_ok g \<and> length (gs_graph g) = N \<and> (\<forall>i < N. row_ok N maxlen i (gs_graph g ! i))"

abbreviation max_row :: "vamana \<Rightarrow> nat" where
  "max_row vb \<equiv> max (vb_range vb) (slack_limit (vb_range vb))"

lemma row_ok_mono: "row_ok N m i row \<Longrightarrow> m \<le> m' \<Longrightarrow> row_ok N m' i row"
  by (simp add: row_ok_def)

lemma graph_rows_get: "graph_rows N m g \<Longrightarrow> i < N \<Longrightarrow> get_neighbours g i = Inr (gs_graph g ! i) \<and> row_ok N m i (gs_graph g ! i)"
  by (simp add: graph_rows_def get_neighbours_def)

lemma graph_rows_put:
  assumes "graph_rows N m g" "i < N" "row_ok N m i row" "N < 2 ^ 32"
  obtains g' where "set_neighbours g i row = Inr g'" "graph_rows N m g'"
    "\<And>j. gs_graph g' ! j = (if j = i then row else gs_graph g ! j)"
proof -
  have "length row \<le> N"
    using assms(3) card_mono[of "{..<N}" "set row"] by (simp add: row_ok_def distinct_card)
  then obtain g' where g': "set_neighbours g i row = Inr g'" "store_ok g'" "length (gs_graph g') = length (gs_graph g)"
    using gst.put_ok[of g i row] assms by (auto simp: graph_rows_def)
  moreover have "gs_graph g' = (gs_graph g)[i := row]"
    using g'(1) by (auto simp: set_neighbours_def split: if_splits)
  ultimately show thesis
    using that assms by (auto simp: graph_rows_def nth_list_update)
qed

lemma insert_locked_ok:
  assumes "graph_rows N m g" "des < N" "n < N" "n \<noteq> des" "slack_limit R \<le> m" "N < 2 ^ 32"
  obtains g' c where "insert_locked R n des g = Inr (g', c)" "graph_rows N m g'" "\<forall>ns. c = Some ns \<longrightarrow> set ns \<subseteq> {..<N}"
proof -
  let ?row = "gs_graph g ! des"
  note row = graph_rows_get[OF assms(1,2)]
  show thesis
  proof (cases "n \<notin> set ?row \<and> length ?row < slack_limit R")
    case True
    then have "row_ok N m des (?row @ [n])"
      using row assms(3-5) by (auto simp: row_ok_def)
    then obtain g' where g': "set_neighbours g des (?row @ [n]) = Inr g'" "graph_rows N m g'"
      using graph_rows_put[OF assms(1,2) _ assms(6)] by metis
    moreover have "add_neighbour g des n = set_neighbours g des (?row @ [n])"
      using row assms(1,2) by (intro gst.push_put) (simp_all add: graph_rows_def)
    ultimately show thesis
      using that[of g' None] True row by (simp add: insert_locked_def)
  next
    case False
    then show thesis
      using that[of g "if n \<in> set ?row then None else Some (?row @ [n])"] row assms(1,3) by (auto simp: insert_locked_def row_ok_def)
  qed
qed

text \<open>Pruning a copied list and storing the result.\<close>

lemma prune_put_ok:
  assumes "vb_alpha vb = fone" "graph_rows N m g" "des < N" "set ns \<subseteq> {..<N}" "vb_range vb \<le> m" "N < 2 ^ 32"
  obtains new g' where "prune_neighbors vb des (nbr_pool vb des ns []) = Some new" "row_ok N (vb_range vb) des new"
    "set_neighbours g des new = Inr g'" "graph_rows N m g'" "\<And>j. gs_graph g' ! j = (if j = des then new else gs_graph g ! j)"
proof -
  have "snd ` set (nbr_pool vb des ns []) \<subseteq> {..<N}"
    using assms(4) nbr_pool_ids[of vb des ns "[]"] by auto
  then obtain new where new: "prune_neighbors vb des (nbr_pool vb des ns []) = Some new" "row_ok N (vb_range vb) des new"
    using prune_ok[OF assms(1)] nbr_pool_ids[of vb des ns "[]"] by metis
  then show thesis
    using graph_rows_put[OF assms(2,3) row_ok_mono[OF new(2) assms(5)] assms(6)] that by metis
qed

section \<open>The build on several threads\<close>

text \<open>What a thread is doing: nothing, inserting the edges back to \<open>n\<close>, or about to replace the list of \<open>des\<close>
  by a pruned copy.\<close>

datatype task = Free | Inserting nat "nat list" | Replacing nat nat "nat list" "nat list"

record lsys =
  ls_graph :: graph_store
  ls_work :: "nat list"
  ls_tasks :: "task list"

inductive link_step :: "vamana \<Rightarrow> nat \<Rightarrow> lsys \<Rightarrow> lsys \<Rightarrow> bool" for vb :: vamana and N :: nat where
  relink: "\<lbrakk>t < length (ls_tasks s); ls_tasks s ! t = Free; node \<in> set (ls_work s);
     distinct (map snd found); snd ` set found \<subseteq> {..<N};
     prune_neighbors vb node (filter (\<lambda>(d, v). v \<noteq> node) found) = Some pl;
     set_neighbours (ls_graph s) node pl = Inr g\<rbrakk>
   \<Longrightarrow> link_step vb N s \<lparr>ls_graph = g, ls_work = remove1 node (ls_work s), ls_tasks = (ls_tasks s)[t := Inserting node pl]\<rparr>"
| put_back: "\<lbrakk>t < length (ls_tasks s); ls_tasks s ! t = Inserting n (des # rest);
     insert_locked (vb_range vb) n des (ls_graph s) = Inr (g, copy)\<rbrakk>
   \<Longrightarrow> link_step vb N s (s\<lparr>ls_graph := g, ls_tasks := (ls_tasks s)[t :=
         (case copy of None \<Rightarrow> Inserting n rest | Some ns \<Rightarrow> Replacing n des ns rest)]\<rparr>)"
| replace: "\<lbrakk>t < length (ls_tasks s); ls_tasks s ! t = Replacing n des ns rest;
     prune_neighbors vb des (nbr_pool vb des ns []) = Some new; set_neighbours (ls_graph s) des new = Inr g\<rbrakk>
   \<Longrightarrow> link_step vb N s (s\<lparr>ls_graph := g, ls_tasks := (ls_tasks s)[t := Inserting n rest]\<rparr>)"
| finish: "\<lbrakk>t < length (ls_tasks s); ls_tasks s ! t = Inserting n []\<rbrakk>
   \<Longrightarrow> link_step vb N s (s\<lparr>ls_tasks := (ls_tasks s)[t := Free]\<rparr>)"

inductive_cases link_stepE: "link_step vb N s s'"

fun task_ok :: "vamana \<Rightarrow> nat \<Rightarrow> task \<Rightarrow> bool" where
  "task_ok vb N Free = True"
| "task_ok vb N (Inserting n ds) = (n < N \<and> set ds \<subseteq> {..<N} - {n} \<and> length ds \<le> vb_range vb)"
| "task_ok vb N (Replacing n des ns rest) =
     (n < N \<and> des < N \<and> set ns \<subseteq> {..<N} \<and> set rest \<subseteq> {..<N} - {n} \<and> length rest \<le> vb_range vb)"

definition link_inv :: "vamana \<Rightarrow> nat \<Rightarrow> lsys \<Rightarrow> bool" where
  "link_inv vb N s \<longleftrightarrow> graph_rows N (max_row vb) (ls_graph s) \<and> set (ls_work s) \<subseteq> {..<N} \<and>
     (\<forall>k \<in> set (ls_tasks s). task_ok vb N k)"

fun task_left :: "task \<Rightarrow> nat" where
  "task_left Free = 0"
| "task_left (Inserting n ds) = 2 * length ds + 1"
| "task_left (Replacing n des ns rest) = 2 * length rest + 2"

definition work_left :: "vamana \<Rightarrow> lsys \<Rightarrow> nat" where
  "work_left vb s = (2 * vb_range vb + 3) * length (ls_work s) + sum_list (map task_left (ls_tasks s))"

lemma sum_left_update:
  assumes "t < length ks"
  shows "sum_list (map task_left (ks[t := k])) + task_left (ks ! t) = sum_list (map task_left ks) + task_left k"
proof -
  have "task_left (ks ! t) \<le> sum_list (map task_left ks)"
    using assms by (intro member_le_sum_list) simp_all
  then show ?thesis
    using assms by (simp add: map_update sum_list_update)
qed

lemma task_update_ok:
  assumes "\<forall>k \<in> set ks. task_ok vb N k" "task_ok vb N k"
  shows "\<forall>k \<in> set (ks[t := k]). task_ok vb N k"
  using assms set_update_subset_insert[of ks t k] by blast

lemma link_step_inv:
  assumes "vb_alpha vb = fone" "N < 2 ^ 32" "link_inv vb N s" "link_step vb N s s'"
  shows "link_inv vb N s' \<and> work_left vb s' < work_left vb s \<and> length (ls_tasks s') = length (ls_tasks s)"
  using assms(4)
proof cases
  case (relink t node found pl g)
  have node: "node < N" and g: "graph_rows N (max_row vb) (ls_graph s)"
    using assms(3) relink(4) by (auto simp: link_inv_def)
  let ?pool = "filter (\<lambda>(d, v). v \<noteq> node) found"
  have pool: "distinct (map snd ?pool)" "snd ` set ?pool \<subseteq> {..<N}"
    using relink(5,6) by (auto simp: distinct_map intro: inj_on_subset)
  have pl: "row_ok N (vb_range vb) node pl"
    using prune_ok[OF assms(1) pool, of node] relink(7) by auto
  have "graph_rows N (max_row vb) g"
    using graph_rows_put[OF g node row_ok_mono[OF pl] assms(2)] relink(8) by auto
  moreover have "length (ls_work s) = Suc (length (remove1 node (ls_work s)))"
    using relink(4) length_pos_if_in_set[of node "ls_work s"] by (simp add: length_remove1)
  moreover have "set (remove1 node (ls_work s)) \<subseteq> {..<N}"
    using assms(3) set_remove1_subset[of node "ls_work s"] by (auto simp: link_inv_def)
  moreover have "task_ok vb N (Inserting node pl)"
    using pl node by (auto simp: row_ok_def)
  ultimately show ?thesis
    using assms(3) relink(1,3) sum_left_update[OF relink(2), of "Inserting node pl"] pl
      task_update_ok[of "ls_tasks s" vb N "Inserting node pl" t]
    unfolding link_inv_def work_left_def row_ok_def by (simp add: algebra_simps)
next
  case (put_back t n des rest g copy)
  have k: "task_ok vb N (Inserting n (des # rest))" and g: "graph_rows N (max_row vb) (ls_graph s)"
    using assms(3) put_back(2,3) nth_mem by (fastforce simp: link_inv_def)+
  let ?k = "case copy of None \<Rightarrow> Inserting n rest | Some ns \<Rightarrow> Replacing n des ns rest"
  have "graph_rows N (max_row vb) g \<and> task_ok vb N ?k"
    using insert_locked_ok[OF g, of des n "vb_range vb"] put_back(4) k assms(2) by (auto split: option.split)
  moreover have "task_left ?k < task_left (Inserting n (des # rest))"
    by (simp split: option.split)
  ultimately show ?thesis
    using assms(3) put_back(1,3) sum_left_update[OF put_back(2), of ?k] task_update_ok[of "ls_tasks s" vb N ?k t]
    unfolding link_inv_def work_left_def by simp
next
  case (replace t n des ns rest new g)
  have k: "task_ok vb N (Replacing n des ns rest)" and g: "graph_rows N (max_row vb) (ls_graph s)"
    using assms(3) replace(2,3) nth_mem by (fastforce simp: link_inv_def)+
  obtain new1 g1 where "prune_neighbors vb des (nbr_pool vb des ns []) = Some new1"
    "set_neighbours (ls_graph s) des new1 = Inr g1" "graph_rows N (max_row vb) g1"
    by (rule prune_put_ok[OF assms(1) g, of des ns]) (use k assms(2) that in auto)
  then have "graph_rows N (max_row vb) g"
    using replace(4,5) by simp
  then show ?thesis
    using assms(3) k replace(1,3) sum_left_update[OF replace(2), of "Inserting n rest"]
      task_update_ok[of "ls_tasks s" vb N "Inserting n rest" t]
    unfolding link_inv_def work_left_def by simp
next
  case (finish t n)
  then show ?thesis
    using assms(3) sum_left_update[OF finish(2), of Free] task_update_ok[of "ls_tasks s" vb N Free t]
    unfolding link_inv_def work_left_def by simp
qed

definition link_done :: "lsys \<Rightarrow> bool" where
  "link_done s \<longleftrightarrow> ls_work s = [] \<and> (\<forall>k \<in> set (ls_tasks s). k = Free)"

lemma link_progress:
  assumes "vb_alpha vb = fone" "N < 2 ^ 32" "link_inv vb N s" "ls_tasks s \<noteq> []" "\<not> link_done s"
  shows "\<exists>s'. link_step vb N s s'"
proof (cases "\<forall>k \<in> set (ls_tasks s). k = Free")
  case True
  then obtain node where node: "node \<in> set (ls_work s)"
    using assms(5) unfolding link_done_def by (meson list.set_sel(1))
  moreover have "ls_tasks s ! 0 = Free" using True assms(4) by simp
  moreover obtain pl where pl: "prune_neighbors vb node (filter (\<lambda>(d, v). v \<noteq> node) []) = Some pl" "row_ok N (vb_range vb) node pl"
    using prune_ok[OF assms(1), of "[]" N node] by auto
  moreover have big: "row_ok N (max_row vb) node pl"
    by (rule row_ok_mono[OF pl(2)]) simp
  moreover obtain g where "set_neighbours (ls_graph s) node pl = Inr g"
  proof (rule graph_rows_put)
    show "graph_rows N (max_row vb) (ls_graph s)" "node < N" using assms(3) node by (auto simp: link_inv_def)
  qed (use big assms(2) in auto)
  ultimately show ?thesis
    using relink[of 0 s node "[]" N vb pl g] assms(4) by auto
next
  case False
  then obtain t where t: "t < length (ls_tasks s)" "ls_tasks s ! t \<noteq> Free" by (auto simp: in_set_conv_nth)
  have ok: "task_ok vb N (ls_tasks s ! t)" and g: "graph_rows N (max_row vb) (ls_graph s)"
    using assms(3) t(1) by (simp_all add: link_inv_def)
  show ?thesis
  proof (cases "ls_tasks s ! t")
    case Free
    then show ?thesis using t(2) by simp
  next
    case (Inserting n ds)
    show ?thesis
    proof (cases ds)
      case Nil
      then show ?thesis using finish[OF t(1)] Inserting by blast
    next
      case (Cons des rest)
      then have "des < N" "n < N" "n \<noteq> des" using ok Inserting by auto
      then obtain g' c where "insert_locked (vb_range vb) n des (ls_graph s) = Inr (g', c)"
        by (rule insert_locked_ok[OF g, of des n "vb_range vb"]) (use assms(2) that in auto)
      then show ?thesis using put_back[OF t(1)] Inserting Cons by blast
    qed
  next
    case (Replacing n des ns rest)
    then obtain new g' where "prune_neighbors vb des (nbr_pool vb des ns []) = Some new" "set_neighbours (ls_graph s) des new = Inr g'"
      by - (rule prune_put_ok[OF assms(1) g, of des ns], use ok assms(2) that in auto)
    then show ?thesis using link_step.replace[OF t(1) Replacing] by blast
  qed
qed

lemma link_run_inv:
  assumes "vb_alpha vb = fone" "N < 2 ^ 32" "link_inv vb N s0" "(link_step vb N ^^ k) s0 s"
  shows "link_inv vb N s \<and> work_left vb s + k \<le> work_left vb s0 \<and> length (ls_tasks s) = length (ls_tasks s0)"
  using assms(4)
proof (induction k arbitrary: s)
  case 0
  then show ?case using assms(3) by simp
next
  case (Suc k)
  then obtain s1 where s1: "(link_step vb N ^^ k) s0 s1" "link_step vb N s1 s" by auto
  then show ?case
    using Suc.IH[OF s1(1)] link_step_inv[OF assms(1,2) _ s1(2)] by fastforce
qed

section \<open>The final cleanup\<close>

lemma obind_simps [simp]:
  "obind None f = None"
  "obind (Some (Inl e)) f = Some (Inl e)"
  "obind (Some (Inr x)) f = f x"
  by (simp_all add: obind_def)

lemma ofold_invariant:
  assumes "I s" "\<And>x s. x \<in> set xs \<Longrightarrow> I s \<Longrightarrow> \<exists>s'. f x s = Some (Inr s') \<and> I s'"
  shows "\<exists>s'. ofold f xs s = Some (Inr s') \<and> I s'"
  using assms
proof (induction xs arbitrary: s)
  case Nil
  then show ?case by simp
next
  case (Cons x xs)
  then obtain s1 where "f x s = Some (Inr s1)" "I s1" by (meson list.set_intros(1))
  then show ?case using Cons.IH[of s1] Cons.prems(2) by simp
qed

lemma clear_put: "i < length (gs_graph g) \<Longrightarrow>
    \<exists>g1. clear_neighbours g i = Inr g1 \<and> set_neighbours g1 i row = set_neighbours g i row"
  by (simp add: clear_neighbours_def set_neighbours_def)

lemma cleanup_node_ok:
  assumes "vb_alpha vb = fone" "N < 2 ^ 32" "graph_rows N m g" "node < N" "vb_range vb \<le> m"
  obtains g' where "cleanup_node vb node g = Some (Inr g')" "graph_rows N m g'"
    "length (gs_graph g' ! node) \<le> vb_range vb" "\<And>j. j \<noteq> node \<Longrightarrow> gs_graph g' ! j = gs_graph g ! j"
proof (cases "vb_range vb < length (gs_graph g ! node)")
  case False
  then show thesis
    using that[of g] assms(3) graph_rows_get[OF assms(3,4)] by (simp add: cleanup_node_def)
next
  case True
  have row: "get_neighbours g node = Inr (gs_graph g ! node)" "set (gs_graph g ! node) \<subseteq> {..<N}" "node < length (gs_graph g)"
    using graph_rows_get[OF assms(3,4)] assms(3,4) by (auto simp: row_ok_def graph_rows_def)
  obtain new g' where new: "prune_neighbors vb node (nbr_pool vb node (gs_graph g ! node) []) = Some new"
    "row_ok N (vb_range vb) node new" "set_neighbours g node new = Inr g'" "graph_rows N m g'"
    "\<And>j. gs_graph g' ! j = (if j = node then new else gs_graph g ! j)"
    using prune_put_ok[OF assms(1,3,4) row(2) assms(5,2)] by blast
  obtain g1 where "clear_neighbours g node = Inr g1" "set_neighbours g1 node new = Inr g'"
    using clear_put[OF row(3), of new] new(3) by auto
  then have "cleanup_node vb node g = Some (Inr g')"
    using True row(1) new(1) by (simp add: cleanup_node_def)
  then show thesis
    using that new(2,4,5) by (auto simp: row_ok_def)
qed

lemma cleanup_all:
  assumes "vb_alpha vb = fone" "N < 2 ^ 32" "graph_rows N m g" "set order \<subseteq> {..<N}" "vb_range vb \<le> m"
  shows "\<exists>g'. ofold (cleanup_node vb) order g = Some (Inr g') \<and> graph_rows N m g' \<and>
    (\<forall>i < N. length (gs_graph g' ! i) \<le> (if i \<in> set order then vb_range vb else length (gs_graph g ! i)))"
  using assms(3,4)
proof (induction order arbitrary: g)
  case Nil
  then show ?case by simp
next
  case (Cons node order)
  obtain g1 where g1: "cleanup_node vb node g = Some (Inr g1)" "graph_rows N m g1"
    "length (gs_graph g1 ! node) \<le> vb_range vb" "\<And>j. j \<noteq> node \<Longrightarrow> gs_graph g1 ! j = gs_graph g ! j"
    using cleanup_node_ok[OF assms(1,2) Cons.prems(1) _ assms(5), of node] Cons.prems(2) by auto
  obtain g' where "ofold (cleanup_node vb) order g1 = Some (Inr g')" "graph_rows N m g'"
    "\<forall>i < N. length (gs_graph g' ! i) \<le> (if i \<in> set order then vb_range vb else length (gs_graph g1 ! i))"
    using Cons.IH[OF g1(2)] Cons.prems(2) by auto
  then show ?case
    using g1 by (intro exI[of _ g']) (auto split: if_splits; metis order.trans)
qed

lemma graph_rows_shrink:
  "graph_rows N m g \<Longrightarrow> \<forall>i < N. length (gs_graph g ! i) \<le> m' \<Longrightarrow> graph_rows N m' g"
  by (simp add: graph_rows_def row_ok_def)

section \<open>Properties of the build\<close>


lemma graph_rows_new: "graph_rows N m (graph_store_new N)"
  by (simp add: graph_rows_def row_ok_def store_ok_def graph_store_new_def resize_graph_def resize_rows_def)

abbreviation example_params :: vamana where
  "example_params \<equiv> \<lparr>vb_range = 2, vb_L = 4, vb_maxc = 10, vb_alpha = fone, vb_saturate = False, vb_pq_dist = False,
     vb_metric = L2, vb_dist = \<lambda>i j. fone, vb_query_dist = \<lambda>i j. fone, vb_allowed = \<lambda>i j. True\<rparr>"


text \<open>C29. Pruning at \<open>alpha = 1\<close>, the value the construction builds with, is the neighbourhood rule: walk the
  candidates by ascending distance, no more than \<open>maxc\<close> of them, and take one unless a point taken
  before occludes it, until \<open>R\<close> are taken. It returns for every pool, and from a pool without
  repetitions it returns at most \<open>R\<close> distinct candidates, not the point itself.\<close>

theorem prune_neighbors_reference:
  assumes "vb_alpha vb = fone" "distinct (map snd pool)"
  shows "\<exists>pl. prune_neighbors vb location pool = Some pl \<and>
    pl = vamana_rng vb location (vb_range vb)
      (take (vb_maxc vb) (std_sort dist_id_lt (if vb_pq_dist vb then map (\<lambda>(d, v). (vb_dist vb v location, v)) pool else pool))) [] [] \<and>
    distinct pl \<and> location \<notin> set pl \<and> set pl \<subseteq> snd ` set pool \<and> length pl \<le> vb_range vb"
proof -
  have "snd ` set pool \<subseteq> {..<Suc (Max (snd ` set pool))}"
    by (intro subsetI) (simp only: lessThan_iff less_Suc_eq_le, rule Max_ge, simp_all)
  from prune_ok[OF assms this, of location] obtain pl where "prune_neighbors vb location pool = Some pl"
    "row_ok (Suc (Max (snd ` set pool))) (vb_range vb) location pl" "set pl \<subseteq> snd ` set pool" .
  then show ?thesis
    using prune_neighbors_rng[OF assms(1), of location pool] by (intro exI[of _ pl]) (auto simp: row_ok_def)
qed

theorem prune_neighbors_reference_witness:
  "\<exists>pl. prune_neighbors example_params 0 [(fone, 1), (fone, 2)] = Some pl \<and> length pl \<le> 2"
  using prune_neighbors_reference[of example_params "[(fone, 1), (fone, 2)]" 0] by auto

section \<open>The build on one thread\<close>

lemma arg_min_dist_lt: "ds \<noteq> [] \<Longrightarrow> arg_min_dist ds < length ds"
proof -
  have "fst (fold (\<lambda>i (m, d). if flt (ds ! i) d then (i, ds ! i) else (m, d)) is s) < length ds"
    if "fst s < length ds" "\<forall>i \<in> set is. i < length ds" for "is" and s :: "nat \<times> fp"
    using that
  proof (induction "is" arbitrary: s)
    case Nil
    then show ?case by simp
  next
    case (Cons i js)
    then show ?case by (cases s) auto
  qed
  then show "ds \<noteq> [] \<Longrightarrow> arg_min_dist ds < length ds"
    by (simp add: arg_min_dist_def)
qed

text \<open>An index whose graph has a row for every point and whose distances are not negative.\<close>

definition build_ok :: "vamana \<Rightarrow> nat \<Rightarrow> index \<Rightarrow> bool" where
  "build_ok vb N ix \<longleftrightarrow> graph_rows N (max_row vb) (ix_graph ix) \<and> ix_max_points ix + ix_num_frozen ix = N \<and> ix_start ix < N"

definition dists_ok :: "vamana \<Rightarrow> nat \<Rightarrow> bool" where
  "dists_ok vb N \<longleftrightarrow> (\<forall>i < N. \<forall>j < N. fnonneg (vb_query_dist vb i j))"

lemma init_ids_in:
  assumes "build_ok vb N ix" "N < 2 ^ 32"
  shows "set (get_init_ids ix) \<subseteq> {..<N}"
  using assms by (auto simp: build_ok_def get_init_ids_def u32_id)

lemma search_and_prune_ok:
  assumes "vb_alpha vb = fone" "0 < vb_L vb" "N < 2 ^ 32" "dists_ok vb N" "build_ok vb N ix" "node < N"
  shows "\<exists>pl. search_for_point_and_prune vb scratch ix node [] = Some (Inr pl) \<and> row_ok N (vb_range vb) node pl"
proof -
  let ?nb = "get_neighbours (ix_graph ix)" and ?d = "vb_query_dist vb node"
  have g: "graph_ok ?d ?nb {..<N}"
    using assms(4-6) graph_rows_get[of N "max_row vb" "ix_graph ix"] by (auto simp: graph_ok_def build_ok_def dists_ok_def row_ok_def)
  have G: "{..<N} \<subseteq> {..<ix_max_points ix + ix_num_frozen ix}" using assms(5) by (simp add: build_ok_def)
  obtain st where st: "iterate_to_fixed_point ix ?d (\<lambda>i. True) False False (npq_clear scratch) [] (vb_L vb) (get_init_ids ix) = Some (Inr st)"
    "distinct (map nb_id (sr_expanded st))" "\<forall>n \<in> set (sr_expanded st). nb_id n < N"
    using iterate_run_ids[OF g assms(2) init_ids_in[OF assms(5,3)] G, of "\<lambda>i. True" scratch] assms(5) by (auto simp: build_ok_def)
  let ?pool = "filter (\<lambda>(d, v). v \<noteq> node) (map (\<lambda>n. (nb_dist n, nb_id n)) (sr_expanded st))"
  have "distinct (map snd ?pool)" "snd ` set ?pool \<subseteq> {..<N}"
    using st(2,3) by (auto simp: distinct_map filter_map o_def inj_on_def)
  from prune_ok[OF assms(1) this, of node] obtain pl where "prune_neighbors vb node ?pool = Some pl" "row_ok N (vb_range vb) node pl" .
  then show ?thesis
    using st(1) by (simp add: search_for_point_and_prune_def)
qed

lemma inter_insert_ok:
  assumes "vb_alpha vb = fone" "N < 2 ^ 32" "graph_rows N (max_row vb) g" "n < N" "row_ok N (vb_range vb) n pl"
  shows "\<exists>g'. inter_insert vb n pl g = Some (Inr g') \<and> graph_rows N (max_row vb) g'"
  unfolding inter_insert_def
proof (rule ofold_invariant[where I = "graph_rows N (max_row vb)"])
  fix des g assume des: "des \<in> set pl" and g: "graph_rows N (max_row vb) g"
  then have d: "des < N" "n \<noteq> des" using assms(5) by (auto simp: row_ok_def)
  obtain g1 c where g1: "insert_locked (vb_range vb) n des g = Inr (g1, c)" "graph_rows N (max_row vb) g1"
    "\<forall>ns. c = Some ns \<longrightarrow> set ns \<subseteq> {..<N}"
    by (rule insert_locked_ok[OF g d(1) assms(4) d(2) _ assms(2), of "vb_range vb"]) (use that in auto)
  show "\<exists>g'. inter_insert_one vb n des g = Some (Inr g') \<and> graph_rows N (max_row vb) g'"
  proof (cases c)
    case None
    then show ?thesis using g1 by (simp add: inter_insert_one_def)
  next
    case (Some ns)
    obtain new g' where "prune_neighbors vb des (nbr_pool vb des ns []) = Some new" "set_neighbours g1 des new = Inr g'"
      "graph_rows N (max_row vb) g'"
      by (rule prune_put_ok[OF assms(1) g1(2) d(1), of ns]) (use g1(3) Some assms(2) that in auto)
    then show ?thesis using g1(1) Some by (simp add: inter_insert_one_def)
  qed
qed (rule assms(3))

lemma link_node_ok:
  assumes "vb_alpha vb = fone" "0 < vb_L vb" "N < 2 ^ 32" "dists_ok vb N" "build_ok vb N ix" "node < N"
  shows "\<exists>ix'. link_node vb scratch node ix = Some (Inr ix') \<and> build_ok vb N ix'"
proof -
  obtain pl where pl: "search_for_point_and_prune vb scratch ix node [] = Some (Inr pl)" "row_ok N (vb_range vb) node pl"
    using search_and_prune_ok[OF assms] by blast
  have g0: "graph_rows N (max_row vb) (ix_graph ix)" using assms(5) by (simp add: build_ok_def)
  obtain g where g: "set_neighbours (ix_graph ix) node pl = Inr g" "graph_rows N (max_row vb) g"
    by (rule graph_rows_put[OF g0 assms(6) row_ok_mono[OF pl(2)] assms(3)]) (use that in auto)
  obtain g' where "inter_insert vb node pl g = Some (Inr g')" "graph_rows N (max_row vb) g'"
    using inter_insert_ok[OF assms(1,3) g(2) assms(6) pl(2)] by blast
  then show ?thesis
    using pl(1) g(1) assms(5) by (simp add: link_node_def build_ok_def)
qed

lemma link_run:
  assumes "vb_alpha vb = fone" "0 < vb_L vb" "N < 2 ^ 32" "dists_ok vb N" "graph_rows N (max_row vb) (ix_graph ix)"
    and "N = ix_max_points ix + ix_num_frozen ix" "nd = ix_max_points ix" "length vecs = ix_max_points ix" "vecs \<noteq> []"
  shows "\<exists>ix'. link vb scratch vecs dm nd ix = Some (Inr ix') \<and> ix_start ix' < N \<and> graph_rows N (vb_range vb) (ix_graph ix')"
proof -
  let ?ix = "ix\<lparr>ix_start := (if ix_num_frozen ix > 0 then u32 (ix_max_points ix) else calculate_medoid vecs dm)\<rparr>"
  have order: "set (visit_order nd ix) = {..<N}"
    using assms(3,6,7) by (auto simp: visit_order_def u32_id)
  have "calculate_medoid vecs dm < length vecs"
    using arg_min_dist_lt[of "map (centre_dist (centroid vecs dm)) vecs"] assms(9) by (simp add: calculate_medoid_def)
  then have "build_ok vb N ?ix"
    using assms(3,5,6,8) by (auto simp: build_ok_def u32_id)
  then obtain ix1 where ix1: "ofold (link_node vb scratch) (visit_order nd ix) ?ix = Some (Inr ix1)" "build_ok vb N ix1"
    using ofold_invariant[of "build_ok vb N" ?ix "visit_order nd ix" "link_node vb scratch"] link_node_ok[OF assms(1-4)] order by auto
  have g1: "graph_rows N (max_row vb) (ix_graph ix1)" "ix_start ix1 < N" using ix1(2) by (simp_all add: build_ok_def)
  obtain g where g: "ofold (cleanup_node vb) (visit_order nd ix) (ix_graph ix1) = Some (Inr g)" "graph_rows N (max_row vb) g"
    "\<forall>i < N. length (gs_graph g ! i) \<le> vb_range vb"
    using cleanup_all[OF assms(1,3) g1(1), of "visit_order nd ix"] order by auto
  then show ?thesis
    using ix1(1) g1(2) graph_rows_shrink[OF g(2,3)] by (simp add: link_def Let_def)
qed



end
