(* ===== verification/Sigma_Query.thy ===== *)
theory Sigma_Query
  imports Search_Load Vamana_Build
begin

text \<open>
  One query from end to end, \<open>SigmaSearch::cached_beam_search_explicit\<close> of \<open>search/ours_search.cpp\<close>: the query is
  normalised if the metric asks for it, its chunk distances are tabulated, the entry point is chosen among the
  medoids, and the traversal (\<open>Beam_Search\<close>) and the refinement (\<open>Beam_Refine\<close>) run on the loaded index. The kernel
  that compares two aligned vectors is the argument \<open>cmp\<close>.
\<close>

section \<open>Square root\<close>

text \<open>\<open>std::sqrt\<close>, correctly rounded: the integer square root of the scaled value has two bits more than the format, and
  half a unit is added when it is not exact.\<close>

fun isqrt :: "nat \<Rightarrow> nat" where
  "isqrt n = (if n = 0 then 0 else let r = 2 * isqrt (n div 4) in if (r + 1) * (r + 1) \<le> n then r + 1 else r)"

declare isqrt.simps [simp del]

fun fsqrt :: "fmt \<Rightarrow> fp \<Rightarrow> fp" where
  "fsqrt f NaN = NaN"
| "fsqrt f (Inf s) = (if s then NaN else Inf False)"
| "fsqrt f (Fin s m) =
     (if m = 0 then Fin s 0
      else if s then NaN
      else
        let (n, d) = quotient_of m; k = prec f + 2 + nat (- qmin f); a = nat n * 4 ^ k; r = isqrt (a div nat d)
        in fround f False ((of_nat r + (if r * r * nat d = a then 0 else 1 / 2)) / 2 ^ k))"

section \<open>The query\<close>

definition inherent_dim :: "metric \<Rightarrow> nat \<Rightarrow> nat" where
  "inherent_dim metric data_dim = (if metric = COSINE then data_dim else sub64 data_dim 1)"

definition query_norm :: "fp list \<Rightarrow> fp" where
  "query_norm xs = fsqrt Binary32 (foldl (\<lambda>n x. fadd Binary32 n (fmul Binary32 x x)) fzero xs)"

text \<open>The first \<open>_data_dim\<close> entries of \<open>aligned_query_T\<close>.\<close>

definition prepare_query :: "metric \<Rightarrow> nat \<Rightarrow> fp list \<Rightarrow> fp list res" where
  "prepare_query metric data_dim query1 =
     (if metric = INNER_PRODUCT \<or> metric = COSINE then
        let inherent = inherent_dim metric data_dim; xs = take inherent query1; norm = query_norm xs;
            q = map (\<lambda>x. fdiv Binary32 x (if flt fzero norm then norm else fone)) xs
        in if length query1 < inherent then Inl OutOfRange
           else Inr (if metric = INNER_PRODUCT then q @ [fzero] else q)
      else if length query1 < data_dim then Inl OutOfRange
      else Inr (take data_dim query1))"

section \<open>The search of a query\<close>

record query_params =
  qp_k_search :: nat
  qp_l_search :: nat
  qp_beam_width :: nat
  qp_io_limit :: nat
  qp_refine_total :: bool
  qp_early_exit_streak :: nat
  qp_fixed_refine_count :: nat
  qp_fixed_refine_ratio :: fp

text \<open>What is left of earlier queries in the scratch space of a thread: the queue, the sectors, and \<open>rotated_query\<close> from
  \<open>_data_dim\<close> on.\<close>

record query_scratch =
  qs_retset :: npq
  qs_sectors :: "byte list"
  qs_rotated :: "fp list"

text \<open>The reader: what the kernel submits and completes, and the open file.\<close>

record index_reader =
  rd_sub :: "nat \<Rightarrow> nat \<Rightarrow> int"
  rd_got :: "nat \<Rightarrow> nat \<Rightarrow> int"
  rd_file :: bfile

definition loaded_io :: "index_reader \<Rightarrow> loaded \<Rightarrow> disk_io" where
  "loaded_io rd ld = \<lparr>io_sub = rd_sub rd, io_got = rd_got rd, io_file = rd_file rd, io_src = ld_graph ld\<rparr>"

definition loaded_sigma :: "index_reader \<Rightarrow> loaded \<Rightarrow> cache \<Rightarrow> sigma" where
  "loaded_sigma rd ld c =
     \<lparr>sg_max_node_len = ld_max_node_len ld, sg_nnodes_per_sector = ld_nnodes_per_sector ld,
      sg_io = loaded_io rd ld, sg_cache = c\<rparr>"

definition loaded_refiner :: "index_reader \<Rightarrow> loaded \<Rightarrow> refiner" where
  "loaded_refiner rd ld =
     \<lparr>rf_sub = rd_sub rd, rf_got = rd_got rd, rf_file = rd_file rd, rf_src = ld_vector ld, rf_vec_bytes = ld_data_dim ld * 4\<rparr>"

text \<open>A vector of \<open>_data_dim\<close> entries with the zeros up to \<open>_aligned_dim\<close>.\<close>

definition aligned_vec :: "loaded \<Rightarrow> fp list \<Rightarrow> fp list" where
  "aligned_vec ld xs = xs @ replicate (ld_aligned_dim ld - ld_data_dim ld) fzero"

text \<open>\<open>preprocess_query\<close> and \<open>populate_chunk_distances\<close> on \<open>rotated_query\<close>.\<close>

definition query_table :: "loaded \<Rightarrow> query_scratch \<Rightarrow> fp list \<Rightarrow> fp list res" where
  "query_table ld sc q =
     (let rotated = q @ qs_rotated sc
      in if length rotated < pt_ndims (ld_pq ld) then Inl OutOfRange
         else populate_chunk_distances (ld_pq ld) (preprocess_query (ld_pq ld) rotated))"

text \<open>\<open>compute_dists\<close>\<close>

definition compute_dist :: "loaded \<Rightarrow> fp list \<Rightarrow> nat \<Rightarrow> fp" where
  "compute_dist ld pq_dists = query_pq_dist (ld_pq_data ld) (get_num_chunks (ld_pq ld)) pq_dists"

definition entry_point :: "(fp list \<Rightarrow> fp list \<Rightarrow> fp) \<Rightarrow> loaded \<Rightarrow> fp list \<Rightarrow> nat" where
  "entry_point cmp ld q =
     best_medoid (\<lambda>i. cmp (aligned_vec ld q) (block (ld_centroids ld) (i * ld_aligned_dim ld) (ld_aligned_dim ld))) (ld_medoids ld)"

definition exact_dist :: "(fp list \<Rightarrow> fp list \<Rightarrow> fp) \<Rightarrow> loaded \<Rightarrow> fp list \<Rightarrow> byte list \<Rightarrow> fp" where
  "exact_dist cmp ld q v = cmp (aligned_vec ld q) (aligned_vec ld (f32s v))"

text \<open>The ids and distances written; \<open>None\<close> is a traversal that does not end.\<close>

definition cached_beam_search_explicit ::
    "(fp list \<Rightarrow> fp list \<Rightarrow> fp) \<Rightarrow> metric \<Rightarrow> index_reader \<Rightarrow> loaded \<Rightarrow> cache \<Rightarrow> (nat \<Rightarrow> byte list) \<Rightarrow> string option \<Rightarrow> query_scratch \<Rightarrow>
     query_params \<Rightarrow> fp list \<Rightarrow> (nat list \<times> fp list) res option" where
  "cached_beam_search_explicit cmp metric rd ld c fresh env_bs sc qp query1 =
     (case rbind (prepare_query metric (ld_data_dim ld) query1) (\<lambda>q. rbind (query_table ld sc q) (\<lambda>pq_dists. Inr (q, pq_dists))) of
        Inl e \<Rightarrow> Some (Inl e)
      | Inr (q, pq_dists) \<Rightarrow>
          if ld_medoids ld = [] then Some (Inl OutOfRange)
          else
            case beam_search (compute_dist ld pq_dists) (loaded_sigma rd ld c) (qs_retset sc) (qs_sectors sc)
                   (entry_point cmp ld q) (qp_l_search qp) (qp_beam_width qp) (qp_io_limit qp) of
              None \<Rightarrow> None
            | Some (Inl e) \<Rightarrow> Some (Inl e)
            | Some (Inr st) \<Rightarrow>
                Some (rbind (refine (exact_dist cmp ld q) (loaded_refiner rd ld) fresh env_bs (metric = INNER_PRODUCT)
                               (qp_k_search qp) (qp_l_search qp) (qp_refine_total qp) (qp_early_exit_streak qp)
                               (qp_fixed_refine_count qp) (qp_fixed_refine_ratio qp) (npq_keys (bm_q st)))
                        (\<lambda>out. Inr (map fst out, map snd out))))"

section \<open>Lemmas on the square root\<close>

lemma isqrt_spec: "isqrt n * isqrt n \<le> n \<and> n < (isqrt n + 1) * (isqrt n + 1)"
proof (induction n rule: isqrt.induct)
  case (1 n)
  show ?case
  proof (cases "n = 0")
    case True
    then show ?thesis by (simp add: isqrt.simps)
  next
    case False
    let ?s = "isqrt (n div 4)"
    have IH: "?s * ?s \<le> n div 4" "n div 4 < (?s + 1) * (?s + 1)" using 1 False by simp_all
    have "2 * ?s * (2 * ?s) \<le> n" using IH(1) by (simp add: less_eq_div_iff_mult_less_eq algebra_simps)
    moreover have "n < 4 * ((?s + 1) * (?s + 1))" using IH(2) by (simp add: div_less_iff_less_mult mult.commute)
    then have "n < (2 * ?s + 1 + 1) * (2 * ?s + 1 + 1)" by (simp add: algebra_simps)
    ultimately show ?thesis using False by (subst (1 2 3 4) isqrt.simps) (simp add: Let_def not_le)
  qed
qed

lemma isqrt_square [simp]: "isqrt (n * n) = n"
proof -
  have "\<not> isqrt (n * n) < n" "\<not> n < isqrt (n * n)"
  proof -
    show "\<not> isqrt (n * n) < n"
    proof
      assume "isqrt (n * n) < n"
      then have "(isqrt (n * n) + 1) * (isqrt (n * n) + 1) \<le> n * n" by (intro mult_le_mono) simp_all
      then show False using isqrt_spec[of "n * n"] by simp
    qed
    show "\<not> n < isqrt (n * n)"
    proof
      assume "n < isqrt (n * n)"
      then have "n * n < isqrt (n * n) * isqrt (n * n)" by (intro mult_strict_mono') simp_all
      then show False using isqrt_spec[of "n * n"] by simp
    qed
  qed
  then show ?thesis by simp
qed

lemma fsqrt_square: "fsqrt f (Fin False (of_nat (n * n))) = fround f False (of_nat n)"
proof (cases "n = 0")
  case True
  then show ?thesis by (simp add: fround_def)
next
  case False
  have q: "quotient_of (of_nat (n * n)) = (int (n * n), 1)" by (metis Rat.of_int_def of_int_of_nat_eq quotient_of_int)
  define k where "k = prec f + 2 + nat (- qmin f)"
  have a: "n * n * 4 ^ k = n * 2 ^ k * (n * 2 ^ k)" by (induction k) (simp_all add: algebra_simps)
  then have r: "isqrt (n * n * 4 ^ k) = n * 2 ^ k" by (simp only: isqrt_square)
  have "fsqrt f (Fin False (of_nat (n * n))) = fround f False (of_nat (n * 2 ^ k) / 2 ^ k)"
    unfolding fsqrt.simps(3) k_def[symmetric] q using False by (simp add: Let_def r a[symmetric] nat_mult_distrib)
  then show ?thesis by simp
qed

section \<open>The entry point and the candidates\<close>

lemma best_medoid_in: "medoids \<noteq> [] \<Longrightarrow> best_medoid cd medoids \<in> set medoids"
proof -
  assume m: "medoids \<noteq> []"
  have "fst (foldl (\<lambda>(best, best_dist) i. if flt (cd i) best_dist then (medoids ! i, cd i) else (best, best_dist)) z is) \<in> set medoids"
    if "fst z \<in> set medoids" "set is \<subseteq> {..<length medoids}" for z "is"
    using that by (induction "is" arbitrary: z) (auto split: prod.splits)
  from this[of "(medoids ! 0, flt_max)" "[0..<length medoids]"] show ?thesis
    using m by (auto simp: best_medoid_def atLeast0LessThan)
qed

lemma reach_inside:
  assumes "beam_graph d adj" "(adj_edge adj)\<^sup>*\<^sup>* s v" "s < length adj"
  shows "v < length adj"
  using assms(2,3) by (induction rule: rtranclp_induct) (use assms(1) in \<open>auto simp: adj_edge_def beam_graph_def\<close>)

lemma set_best_of: "set (best_of lt L xs) \<subseteq> set xs"
  by (auto simp: best_of_def dest!: in_set_takeD)

lemma representable_ge: "representable f y \<Longrightarrow> 0 \<le> y"
  by (auto simp: representable_def pow2_def)

lemma refine_count_total:
  assumes "\<not> flt fone ratio" "l < 2 ^ 53" "wf_fp Binary64 ratio"
  shows "\<exists>M. refine_count l n k cnt ratio = Inr M"
proof (cases "cnt > 0 \<or> \<not> flt fzero ratio")
  case True
  then show ?thesis by (auto simp: refine_count_def Let_def)
next
  case False
  then obtain m where m: "ratio = Fin False m" "0 < m" "m \<le> 1"
    using assms(1,3) by (cases ratio) (auto dest: representable_ge split: if_splits)
  let ?r = "min l n"
  have r: "?r < 2 ^ 53" using assms(2) by simp
  then have fr: "f_of_nat Binary64 ?r = Fin False (of_nat ?r)"
    using fround_exact[OF representable_of_nat[of ?r Binary64]] by (simp add: f_of_nat_def)
  have "(of_nat ?r :: rat) < of_nat (2 ^ 53)" using r by (simp only: of_nat_less_iff)
  then have "(of_nat ?r :: rat) \<le> 2 ^ 53" by simp
  then have "of_nat ?r * m \<le> 2 ^ 53 * 1" using m by (intro mult_mono) simp_all
  then have "of_nat ?r * m \<le> pow2 53" by (simp add: pow2_def)
  moreover have "0 \<le> of_nat ?r * m" using m by simp
  ultimately obtain x where x: "fround Binary64 False (of_nat ?r * m) = Fin False x" "0 \<le> x" "x \<le> pow2 53"
    using fround_le_pow2[of "of_nat ?r * m" 53 Binary64] by auto
  have "x \<le> of_int (2 ^ 53)" using x(3) by (simp add: pow2_def)
  then have "\<lceil>x\<rceil> \<le> 2 ^ 53" by (simp only: ceiling_le_iff)
  then have "\<lceil>x\<rceil> < 2 ^ 64" by (rule le_less_trans) simp
  then have "of_int \<lceil>x\<rceil> < (of_int (2 ^ 64) :: rat)" by (simp only: of_int_less_iff)
  then have "of_int \<lceil>x\<rceil> < (2 ^ 64 :: rat)" by simp
  then show ?thesis
    using False fr m x by (auto simp: refine_count_def Let_def not_le)
qed

section \<open>The answer to a query\<close>

text \<open>A loaded index whose file holds the graph \<open>rows\<close> and the vectors \<open>vecs\<close>.\<close>

definition index_ok :: "index_reader \<Rightarrow> loaded \<Rightarrow> nat list list \<Rightarrow> byte list list \<Rightarrow> bool" where
  "index_ok rd ld rows vecs \<longleftrightarrow> aio_up (rd_sub rd) \<and> aio_up (rd_got rd) \<and>
     (\<exists>s. ld_graph ld = DiskANNGraph s \<and> ld_vector ld = DiskANNVector s \<and> ds_max_node_len s = ld_max_node_len ld \<and>
        ds_nnodes_per_sector s = ld_nnodes_per_sector ld \<and> ds_bytes_per_point s = ld_data_dim ld * 4 \<and>
        disk_graph s (rd_file rd) rows \<and> disk_vectors s (rd_file rd) vecs) \<and>
     length vecs = length rows \<and> ld_medoids ld \<noteq> [] \<and> set (ld_medoids ld) \<subseteq> {..<length rows} \<and>
     pq_table_ok (ld_pq ld) \<and> pt_n_chunks (ld_pq ld) < 2 ^ 32 \<and>
     length rows * pt_n_chunks (ld_pq ld) \<le> length (ld_pq_data ld) \<and>
     (\<forall>row \<in> set rows. length row \<le> MAX_GRAPH_DEGREE \<and> set row \<subseteq> {..<length rows})"

text \<open>A query the table accepts: as long as its dimension, and not a number nowhere once the centroid is subtracted.\<close>

definition query_ok :: "loaded \<Rightarrow> query_scratch \<Rightarrow> fp list \<Rightarrow> bool" where
  "query_ok ld sc q \<longleftrightarrow> length (q @ qs_rotated sc) = pt_ndims (ld_pq ld) \<and>
     (\<forall>j < pt_ndims (ld_pq ld). \<not> is_nan (preprocess_query (ld_pq ld) (q @ qs_rotated sc) ! j))"

lemma length_preprocess: "pt_ndims pt \<le> length q \<Longrightarrow> length (preprocess_query pt q) = length q"
  by (simp add: preprocess_query_def Let_def split: option.split)

lemma query_table_run:
  assumes "index_ok rd ld rows vecs" "query_ok ld sc q"
  obtains dv where "query_table ld sc q = Inr dv" "beam_graph (compute_dist ld dv) rows"
    "\<And>i. i < length rows \<Longrightarrow> compute_dist ld dv i =
      foldl (\<lambda>acc c. fadd Binary32 acc (chunk_dist (ld_pq ld) (preprocess_query (ld_pq ld) (q @ qs_rotated sc)) c
               (unat (ld_pq_data ld ! (i * pt_n_chunks (ld_pq ld) + c))))) fzero [0..<pt_n_chunks (ld_pq ld)]"
proof -
  let ?pt = "ld_pq ld" and ?r = "q @ qs_rotated sc"
  let ?n = "pt_n_chunks ?pt"
  have ok: "pq_table_ok ?pt" "?n < 2 ^ 32" "length rows * ?n \<le> length (ld_pq_data ld)"
    "\<forall>row \<in> set rows. length row \<le> MAX_GRAPH_DEGREE \<and> set row \<subseteq> {..<length rows}"
    using assms(1) by (simp_all add: index_ok_def)
  have r: "length ?r = pt_ndims ?pt" "\<forall>j < pt_ndims ?pt. \<not> is_nan (preprocess_query ?pt ?r ! j)"
    using assms(2) unfolding query_ok_def by blast+
  have len: "length (preprocess_query ?pt ?r) = pt_ndims ?pt" using length_preprocess[of ?pt ?r] r(1) by simp
  obtain dv where dv: "populate_chunk_distances ?pt (preprocess_query ?pt ?r) = Inr dv"
    "\<And>codes i. i * ?n + ?n \<le> length codes \<Longrightarrow>
       query_pq_dist codes ?n dv i =
         foldl (\<lambda>acc c. fadd Binary32 acc (chunk_dist ?pt (preprocess_query ?pt ?r) c (unat (codes ! (i * ?n + c))))) fzero [0..<?n] \<and>
       fnonneg (query_pq_dist codes ?n dv i)"
    using pq_dists_run[OF ok(1) len r(2)] by blast
  have c: "get_num_chunks ?pt = ?n" using ok(2) by (simp add: get_num_chunks_def u32_id)
  have fit: "i * ?n + ?n \<le> length (ld_pq_data ld)" if "i < length rows" for i
    using that ok(3) mult_le_mono1[of "Suc i" "length rows" ?n] by simp
  have "beam_graph (compute_dist ld dv) rows"
    using dv(2)[OF fit] ok(4) unfolding beam_graph_def compute_dist_def c by (metis nth_mem)
  moreover have "query_table ld sc q = Inr dv" using r(1) dv(1) by (simp add: query_table_def)
  ultimately show ?thesis using that dv(2)[OF fit] unfolding compute_dist_def c by blast
qed

lemma loaded_io_ok: "index_ok rd ld rows vecs \<Longrightarrow> io_ok (loaded_io rd ld) rows"
  by (auto simp: index_ok_def loaded_io_def io_ok_def)

lemma loaded_sigma_ok: "index_ok rd ld rows vecs \<Longrightarrow> cache_true rows c \<Longrightarrow> sigma_ok (loaded_sigma rd ld c) rows"
  using loaded_io_ok[of rd ld rows vecs] by (auto simp: index_ok_def sigma_ok_def loaded_sigma_def loaded_io_def)

lemma loaded_refiner_ok: "index_ok rd ld rows vecs \<Longrightarrow> refiner_ok (loaded_refiner rd ld) vecs"
  by (auto simp: index_ok_def refiner_ok_def loaded_refiner_def)

definition params_ok :: "loaded \<Rightarrow> query_scratch \<Rightarrow> query_params \<Rightarrow> bool" where
  "params_ok ld sc qp \<longleftrightarrow> 0 < qp_l_search qp \<and> qp_l_search qp < 2 ^ 53 \<and> 0 < qp_beam_width qp \<and>
     qp_beam_width qp * gs_get_read_buffer_size (ld_graph ld) \<le> length (qs_sectors sc) \<and>
     qp_io_limit qp + qp_beam_width qp \<le> 2 ^ 32 \<and> wf_fp Binary64 (qp_fixed_refine_ratio qp) \<and> \<not> flt fone (qp_fixed_refine_ratio qp)"

text \<open>What an answer to a query is.\<close>

definition answered ::
    "(fp list \<Rightarrow> fp list \<Rightarrow> fp) \<Rightarrow> metric \<Rightarrow> index_reader \<Rightarrow> loaded \<Rightarrow> cache \<Rightarrow> (nat \<Rightarrow> byte list) \<Rightarrow> string option \<Rightarrow> query_scratch \<Rightarrow>
     query_params \<Rightarrow> fp list \<Rightarrow> fp list \<Rightarrow> nat list list \<Rightarrow> byte list list \<Rightarrow> bool" where
  "answered cmp metric rd ld c fresh env_bs sc qp query1 q rows vecs \<longleftrightarrow> (
    \<exists>dv st m M. query_table ld sc q = Inr dv \<and>
    (let d = compute_dist ld dv; cands = best_of dist_id_lt (qp_l_search qp) (map (\<lambda>i. (d i, i)) (bm_visited st));
         out = take (min (qp_k_search qp) M) (std_sort dist_id_lt (take M (exact_range (exact_dist cmp ld q) vecs 0 m cands)))
     in beam_search d (loaded_sigma rd ld c) (qs_retset sc) (qs_sectors sc) (entry_point cmp ld q) (qp_l_search qp) (qp_beam_width qp)
          (qp_io_limit qp) = Some (Inr st) \<and>
        entry_point cmp ld q \<in> set (ld_medoids ld) \<and>
        (\<forall>v \<in> set (bm_visited st). (adj_edge rows)\<^sup>*\<^sup>* (entry_point cmp ld q) v) \<and>
        (bm_ios st < qp_io_limit qp \<longrightarrow> (\<forall>u \<in> snd ` set cands. set (rows ! u) \<subseteq> set (bm_visited st))) \<and>
        refine_count (qp_l_search qp) (length cands) (qp_k_search qp) (qp_fixed_refine_count qp) (qp_fixed_refine_ratio qp) = Inr M \<and>
        m \<le> M \<and> (qp_refine_total qp \<or> 0 < qp_fixed_refine_count qp \<or> \<not> feq (qp_fixed_refine_ratio qp) fzero \<longrightarrow> m = M) \<and>
        cached_beam_search_explicit cmp metric rd ld c fresh env_bs sc qp query1 =
          Some (Inr (map snd out, map (\<lambda>(x, i). if metric = INNER_PRODUCT then fneg x else x) out))))"

lemma sigma_query_run:
  fixes cmp metric ld c sc qp query1 rows vecs rd env_bs and fresh :: "nat \<Rightarrow> byte list"
  assumes "index_ok rd ld rows vecs" "cache_true rows c" "params_ok ld sc qp" "\<forall>n. length (fresh n) = n"
    and "prepare_query metric (ld_data_dim ld) query1 = Inr q" "query_ok ld sc q"
  shows "answered cmp metric rd ld c fresh env_bs sc qp query1 q rows vecs"
proof -
  let ?e = "entry_point cmp ld q" and ?L = "qp_l_search qp" and ?sg = "loaded_sigma rd ld c"
  obtain dv where dv: "query_table ld sc q = Inr dv" "beam_graph (compute_dist ld dv) rows"
    using query_table_run[OF assms(1,6)] by metis
  have qp: "0 < ?L" "?L < 2 ^ 53" "0 < qp_beam_width qp" "qp_beam_width qp * beam_stride ?sg \<le> length (qs_sectors sc)"
    "qp_io_limit qp + qp_beam_width qp \<le> 2 ^ 32" "\<not> flt fone (qp_fixed_refine_ratio qp)" "wf_fp Binary64 (qp_fixed_refine_ratio qp)"
    using assms(3) by (simp_all add: params_ok_def beam_stride_def loaded_sigma_def loaded_io_def)
  have med: "ld_medoids ld \<noteq> []" "set (ld_medoids ld) \<subseteq> {..<length rows}" "length vecs = length rows"
    using assms(1) by (simp_all add: index_ok_def)
  then have e: "?e \<in> set (ld_medoids ld)" by (simp add: entry_point_def best_medoid_in)
  then have el: "?e < length rows" using med(2) by auto
  obtain st where st: "beam_search (compute_dist ld dv) ?sg (qs_retset sc) (qs_sectors sc) ?e ?L (qp_beam_width qp) (qp_io_limit qp) = Some (Inr st)"
    "npq_keys (bm_q st) = best_of dist_id_lt ?L (map (\<lambda>i. (compute_dist ld dv i, i)) (bm_visited st))"
    "\<forall>v \<in> set (bm_visited st). (adj_edge rows)\<^sup>*\<^sup>* ?e v"
    "bm_ios st < qp_io_limit qp \<longrightarrow> (\<forall>u \<in> npq_ids (bm_q st). set (rows ! u) \<subseteq> set (bm_visited st))"
    using beam_run[OF dv(2) loaded_sigma_ok[OF assms(1,2)] el qp(1,3,4,5)] by blast
  let ?c = "npq_keys (bm_q st)"
  have ids: "npq_ids (bm_q st) = snd ` set ?c" by (force simp: npq_ids_def npq_keys_def nb_key_def)
  have "\<forall>v \<in> set (bm_visited st). v < length rows" using st(3) reach_inside[OF dv(2) _ el] by blast
  then have cr: "\<forall>i \<in> snd ` set ?c. i < length vecs"
    unfolding st(2) using set_best_of[of dist_id_lt ?L "map (\<lambda>i. (compute_dist ld dv i, i)) (bm_visited st)"] med(3) by auto
  obtain M where M: "refine_count ?L (length ?c) (qp_k_search qp) (qp_fixed_refine_count qp) (qp_fixed_refine_ratio qp) = Inr M"
    using refine_count_total[OF qp(6,2,7)] by blast
  let ?out = "\<lambda>m. take (min (qp_k_search qp) M) (std_sort dist_id_lt (take M (exact_range (exact_dist cmp ld q) vecs 0 m ?c)))"
  obtain m where m: "m \<le> M" "qp_refine_total qp \<or> 0 < qp_fixed_refine_count qp \<or> \<not> feq (qp_fixed_refine_ratio qp) fzero \<longrightarrow> m = M"
    "refine (exact_dist cmp ld q) (loaded_refiner rd ld) fresh env_bs (metric = INNER_PRODUCT) (qp_k_search qp) ?L (qp_refine_total qp)
       (qp_early_exit_streak qp) (qp_fixed_refine_count qp) (qp_fixed_refine_ratio qp) ?c =
     Inr (map (\<lambda>(x, i). (i, if metric = INNER_PRODUCT then fneg x else x)) (?out m))"
    using refine_run[OF loaded_refiner_ok[OF assms(1)] cr assms(4) M] by blast
  have "cached_beam_search_explicit cmp metric rd ld c fresh env_bs sc qp query1 =
      Some (Inr (map snd (?out m), map (\<lambda>(x, i). if metric = INNER_PRODUCT then fneg x else x) (?out m)))"
    using assms(5) dv(1) med(1) st(1) m(3) by (simp add: cached_beam_search_explicit_def comp_def case_prod_beta')
  then show ?thesis
    using dv(1) st(1,3,4) e M m(1,2) unfolding answered_def ids st(2) Let_def by blast
qed


text \<open>The files of an index next to the disk index \<open>out\<close>: a table that covers the dimensions, and a code for every point.\<close>

definition index_files :: "(string \<Rightarrow> bfile option) \<Rightarrow> string \<Rightarrow> bfile \<Rightarrow> pq_table \<Rightarrow> byte list \<Rightarrow> nat \<Rightarrow> nat \<Rightarrow> bool" where
  "index_files fs p out pq codes N ndims \<longleftrightarrow>
     fs (p @ ''_disk.index'') = Some out \<and> fs (p @ ''_medoids.bin'') = None \<and> fs (p @ ''_centroids.bin'') = None \<and>
     load_pq_centroid_bin (p @ ''_pq_pivots.bin'') (fs (p @ ''_pq_pivots.bin'')) (fs (p @ ''_pq_pivots.bin_rotation_matrix.bin'')) 0 = Inr pq \<and>
     pq_table_ok pq \<and> pt_ndims pq = ndims \<and> pt_n_chunks pq < 2 ^ 32 \<and>
     (\<exists>a b. load_bin_at 1 (p @ ''_pq_compressed.bin'') (fs (p @ ''_pq_compressed.bin'')) 0 = Inr (codes, a, b)) \<and> N * pt_n_chunks pq \<le> length codes"

lemma loaded_index:
  fixes ndims width medoid :: nat and vecs rows mem
  defines "n \<equiv> (width + 1) * 4 + ndims * 4" and "N \<equiv> length rows"
  assumes "layout_ok (ndims * 4) width n vecs rows" "medoid < N" "N < 2 ^ 32" "0 < ndims" "ndims < 2 ^ 32"
    and "24 + length (concat (map node_bytes rows)) < 2 ^ 64" "n + 8192 \<le> 2 ^ 32"
    and "create_disk_layout 4 mem (le_bytes 4 N @ le_bytes 4 ndims @ concat vecs) (graph_bytes rows width medoid 0) None = Inr out"
    and "index_files fs p out pq codes N ndims" "env_layout \<noteq> Some ''SEPARATE''" "aio_up sub" "aio_up got" "\<forall>n. length (fresh n) = n"
    and "\<forall>row \<in> set rows. length row \<le> MAX_GRAPH_DEGREE \<and> set row \<subseteq> {..<N}"
  shows "\<exists>ld. sigma_load sub got fs fresh env_layout env_R p = Inr ld \<and> index_ok \<lparr>rd_sub = sub, rd_got = got, rd_file = out\<rparr> ld rows vecs \<and>
    ld_num_points ld = N \<and> ld_data_dim ld = ndims \<and> ld_max_degree ld = width \<and> ld_medoids ld = [medoid] \<and> ld_pq ld = pq \<and> ld_pq_data ld = codes"
proof -
  obtain a b where f: "fs (p @ ''_disk.index'') = Some out" "fs (p @ ''_medoids.bin'') = None \<and> [medoid] = [medoid] \<or> fs (p @ ''_medoids.bin'') = Some (medoid_file [medoid])"
    "fs (p @ ''_centroids.bin'') = None"
    "load_pq_centroid_bin (p @ ''_pq_pivots.bin'') (fs (p @ ''_pq_pivots.bin'')) (fs (p @ ''_pq_pivots.bin_rotation_matrix.bin'')) 0 = Inr pq"
    "load_bin_at 1 (p @ ''_pq_compressed.bin'') (fs (p @ ''_pq_compressed.bin'')) 0 = Inr (codes, a, b)"
    "pq_table_ok pq" "pt_n_chunks pq < 2 ^ 32" "N * pt_n_chunks pq \<le> length codes"
    using assms(11) unfolding index_files_def by blast
  have m: "\<forall>m \<in> set [medoid]. m < length rows" "length [medoid] < 2 ^ 32" using assms(4) by (simp_all add: N_def)
  obtain s where s: "disk_source_new n width (ndims * 4) = Inr s" "disk_graph s out rows" "disk_vectors s out vecs"
    "sigma_load sub got fs fresh env_layout env_R p =
      Inr \<lparr>ld_num_points = N, ld_data_dim = ndims, ld_aligned_dim = ROUND_UP ndims 8, ld_max_node_len = n,
           ld_nnodes_per_sector = (if n \<le> 4096 then 4096 div n else 0), ld_max_degree = width, ld_pq = pq, ld_pq_data = codes,
           ld_graph = DiskANNGraph s, ld_vector = DiskANNVector s, ld_medoids = [medoid],
           ld_centroids = concat (map (\<lambda>m. f32s (vecs ! m) @ replicate (ROUND_UP ndims 8 - ndims) fzero) [medoid])\<rparr>"
    using search_load_run[OF assms(3)[unfolded n_def] assms(4,5)[unfolded N_def] assms(6,7) zero_less_power[of "2 :: nat" 64] assms(8) assms(9)[unfolded n_def]
        assms(10)[unfolded N_def] f(1,4,5,2,3) m assms(12-15), of env_R]
    unfolding n_def N_def by auto
  have "ds_max_node_len s = n" "ds_nnodes_per_sector s = (if n \<le> 4096 then 4096 div n else 0)" "ds_bytes_per_point s = ndims * 4"
    using s(1) by (auto simp: disk_source_new_def split: if_splits)
  then show ?thesis
    using s(2-4) f(6-8) assms(3,4,13,14,16) by (auto simp: index_ok_def layout_ok_def N_def)
qed

lemma sample_index:
  obtains rd ld where "index_ok rd ld [[0]] [[1, 2, 3, 4]]" "ld_data_dim ld = 1" "pt_ndims (ld_pq ld) = 1" "pt_rotmat_tr (ld_pq ld) = None"
    "pt_centroid (ld_pq ld) = [fzero]" "cache_true [[0]] cache_empty"
proof -
  obtain h :: bfile where h: "length h = 4096" using Ex_list_of_length by blast
  have "\<exists>ts. length ts = n \<and> (\<forall>x \<in> set ts. x = fone)" for n by (rule exI[of _ "replicate n fone"]) simp
  then obtain ts where ts: "length ts = 256" "\<forall>x \<in> set ts. x = fone" by blast
  let ?s = "\<lparr>ds_max_node_len = 12, ds_max_degree = 1, ds_bytes_per_point = 4, ds_nnodes_per_sector = 341\<rparr>"
  let ?f = "h @ [1, 2, 3, 4] @ le_bytes 4 1 @ enc32 [0]"
  let ?t = "\<lparr>pt_ndims = 1, pt_n_chunks = 0, pt_tables = ts, pt_tables_tr = transpose_tables 1 ts,
      pt_centroid = [fzero], pt_chunk_offsets = [0], pt_rotmat_tr = None\<rparr>"
  let ?rd = "\<lparr>rd_sub = \<lambda>i n. int n, rd_got = \<lambda>i n. int n, rd_file = ?f\<rparr>"
  let ?ld = "\<lparr>ld_num_points = 1, ld_data_dim = 1, ld_aligned_dim = 8, ld_max_node_len = 12, ld_nnodes_per_sector = 341, ld_max_degree = 1,
      ld_pq = ?t, ld_pq_data = [], ld_graph = DiskANNGraph ?s, ld_vector = DiskANNVector ?s, ld_medoids = [0], ld_centroids = []\<rparr>"
  have n: "disk_node ?f ?s 0 [1, 2, 3, 4] [0]"
    using h by (simp add: disk_node_def node_off_def block_append_right) (simp add: block_def)
  have s: "disk_source_ok ?s" by (simp add: disk_source_ok_def)
  have "disk_graph ?s ?f [[0]]" using n s by (auto simp: disk_graph_def)
  moreover have "disk_vectors ?s ?f [[1, 2, 3, 4]]" using n s by (auto simp: disk_vectors_def)
  moreover have "pq_table_ok ?t" using ts by (auto simp: pq_table_ok_def chunks_inside_def)
  ultimately have "index_ok ?rd ?ld [[0]] [[1, 2, 3, 4]]" by (simp add: index_ok_def aio_up_def MAX_GRAPH_DEGREE_def)
  moreover have "cache_true [[0]] cache_empty"
    by (simp add: cache_true_def cache_lookup_def cache_empty_def find_cache_lookup_def)
  ultimately show ?thesis by (intro that[of ?rd ?ld]) simp_all
qed

definition sample_query :: query_params where
  "sample_query = \<lparr>qp_k_search = 1, qp_l_search = 1, qp_beam_width = 1, qp_io_limit = 4, qp_refine_total = True, qp_early_exit_streak = 1,
     qp_fixed_refine_count = 0, qp_fixed_refine_ratio = fzero\<rparr>"


end
