(* ===== verification/Float_Round.thy ===== *)
theory Float_Round
  imports Ieee_Float
begin

text \<open>
  More on rounding: it does not pass a representable number, so the floor and the ceiling of a quotient of
  integers computed in \<open>double\<close> are those of the exact quotient. And the bits of a \<open>float\<close>.
\<close>

section \<open>Rounding and representable numbers\<close>

lemma round_half_even_ge:
  assumes "of_int n \<le> x"
  shows "n \<le> round_half_even x"
proof -
  have "n \<le> \<lfloor>x\<rfloor>" using assms by (simp add: le_floor_iff)
  then show ?thesis by (auto simp: round_half_even_def Let_def)
qed

text \<open>The exponent of the last place to which \<open>x\<close> is rounded.\<close>

definition last_place :: "fmt \<Rightarrow> rat \<Rightarrow> int" where
  "last_place f x = max (ilog2 x - int (prec f) + 1) (qmin f)"

definition rounded :: "fmt \<Rightarrow> rat \<Rightarrow> rat" where
  "rounded f x = of_int (round_half_even (x / pow2 (last_place f x))) * pow2 (last_place f x)"

lemma fround_rounded: "x \<noteq> 0 \<Longrightarrow> fround f s x = (if pow2 (emax f + 1) \<le> rounded f x then Inf s else Fin s (rounded f x))"
  by (simp add: fround_def rounded_def last_place_def Let_def)

lemma of_nat_lt_pow2: "m < 2 ^ n \<Longrightarrow> (of_nat m :: rat) < pow2 (int n)"
proof -
  assume "m < 2 ^ n"
  then have "(of_nat m :: rat) < of_nat (2 ^ n)" by (simp only: of_nat_less_iff)
  then show ?thesis by (simp add: pow2_def)
qed

lemma rounded_le:
  assumes "0 < x" "x \<le> y" "representable f y"
  shows "rounded f x \<le> y"
proof -
  let ?q = "last_place f x"
  obtain m e where y: "y = of_nat m * pow2 e" "m < 2 ^ prec f" "qmin f \<le> e" using assms(3) by (auto simp: representable_def)
  have "?q \<le> e"
  proof (rule ccontr)
    assume "\<not> ?q \<le> e"
    then have "e + int (prec f) \<le> ilog2 x" using y(3) by (auto simp: last_place_def)
    then have "pow2 (e + int (prec f)) \<le> y"
      using pow2_mono[of "e + int (prec f)" "ilog2 x"] ilog2_bounds(1)[OF assms(1)] assms(2) by linarith
    then have "pow2 e * pow2 (int (prec f)) \<le> pow2 e * of_nat m" by (simp add: y(1) mult.commute flip: pow2_add)
    then show False using of_nat_lt_pow2[OF y(2)] by simp
  qed
  then have "y = of_nat m * pow2 (e - ?q) * pow2 ?q" using pow2_add[of "e - ?q" ?q] y(1) by simp
  then have yq: "y = of_int (int m * 2 ^ nat (e - ?q)) * pow2 ?q" using \<open>?q \<le> e\<close> by (simp add: pow2_nat)
  have "x / pow2 ?q \<le> of_int (int m * 2 ^ nat (e - ?q))"
    using assms(2) yq by (simp add: divide_le_eq)
  then have "round_half_even (x / pow2 ?q) \<le> int m * 2 ^ nat (e - ?q)" by (rule round_half_even_le)
  then have "(of_int (round_half_even (x / pow2 ?q)) :: rat) \<le> of_int (int m * 2 ^ nat (e - ?q))" by (simp only: of_int_le_iff)
  then have "rounded f x \<le> of_int (int m * 2 ^ nat (e - ?q)) * pow2 ?q"
    unfolding rounded_def by (rule mult_right_mono) (simp add: less_imp_le)
  then show ?thesis using yq by simp
qed

lemma rounded_ge:
  assumes "0 < x" "y \<le> x" "representable f y"
  shows "y \<le> rounded f x"
proof -
  let ?q = "last_place f x"
  have ge: "of_int k * pow2 ?q \<le> rounded f x" if "of_int k * pow2 ?q \<le> x" for k
  proof -
    have "k \<le> round_half_even (x / pow2 ?q)" using that by (intro round_half_even_ge) (simp add: le_divide_eq)
    then have "(of_int k :: rat) \<le> of_int (round_half_even (x / pow2 ?q))" by (simp only: of_int_le_iff)
    then show ?thesis unfolding rounded_def by (rule mult_right_mono) (simp add: less_imp_le)
  qed
  obtain m e where y: "y = of_nat m * pow2 e" "m < 2 ^ prec f" "qmin f \<le> e" using assms(3) by (auto simp: representable_def)
  show ?thesis
  proof (cases "?q \<le> e")
    case True
    have "y = of_nat m * pow2 (e - ?q) * pow2 ?q" using pow2_add[of "e - ?q" ?q] y(1) by simp
    then have "y = of_int (int m * 2 ^ nat (e - ?q)) * pow2 ?q" using True by (simp add: pow2_nat)
    then show ?thesis using ge[of "int m * 2 ^ nat (e - ?q)"] assms(2) by simp
  next
    case False
    then have q: "?q = ilog2 x - int (prec f) + 1" "e + int (prec f) \<le> ilog2 x" using y(3) by (auto simp: last_place_def)
    have p: "0 < prec f" by (cases f) simp_all
    have "int (prec f) - 1 + ?q = ilog2 x" using q(1) by simp
    then have top: "pow2 (ilog2 x) = of_int (2 ^ nat (int (prec f) - 1)) * pow2 ?q"
      using pow2_add[of "int (prec f) - 1" ?q] pow2_nat[of "int (prec f) - 1"] p by simp
    have "y \<le> pow2 (int (prec f)) * pow2 e"
      unfolding y(1) using of_nat_lt_pow2[OF y(2)] by (intro mult_right_mono) (simp_all add: less_imp_le)
    also have "\<dots> \<le> pow2 (ilog2 x)" using pow2_mono[OF q(2)] by (simp add: pow2_add mult.commute)
    also have "\<dots> \<le> rounded f x" using ge[of "2 ^ nat (int (prec f) - 1)"] ilog2_bounds(1)[OF assms(1)] unfolding top by simp
    finally show ?thesis .
  qed
qed

section \<open>Quotients of integers\<close>

fun ffloor :: "fp \<Rightarrow> fp" where
  "ffloor (Fin s m) = (if s then Fin True (of_int \<lceil>m\<rceil>) else Fin False (of_int \<lfloor>m\<rfloor>))"
| "ffloor x = x"

fun fceiling :: "fp \<Rightarrow> fp" where
  "fceiling (Fin s m) = (if s then Fin True (of_int \<lfloor>m\<rfloor>) else Fin False (of_int \<lceil>m\<rceil>))"
| "fceiling x = x"

lemma representable_frac:
  assumes "m < 2 ^ 53" "k \<le> 1000"
  shows "representable Binary64 (of_nat m / 2 ^ k)"
proof -
  have "pow2 (- int k) = 1 / 2 ^ k" by (simp add: pow2_def)
  then have e: "(of_nat m / 2 ^ k :: rat) = of_nat m * pow2 (- int k)" by simp
  have "(of_nat m / 2 ^ k :: rat) \<le> of_nat m" by (simp add: divide_le_eq mult_le_cancel_left1)
  also have "\<dots> < pow2 53" using of_nat_lt_pow2[OF assms(1)] by simp
  also have "\<dots> < pow2 1024" by (simp add: pow2_less_iff)
  finally show ?thesis using assms e unfolding representable_def by (intro exI[of _ m] exI[of _ "- int k"]) simp
qed

lemma quotient_rounded:
  assumes "0 < b" "a < 2 ^ 32" "b < 2 ^ 32" "0 < a"
  shows "of_nat (a div b) \<le> rounded Binary64 (of_nat a / of_nat b)" "rounded Binary64 (of_nat a / of_nat b) < of_nat (a div b) + 1"
    "a mod b = 0 \<Longrightarrow> rounded Binary64 (of_nat a / of_nat b) = of_nat (a div b)"
    "a mod b \<noteq> 0 \<Longrightarrow> of_nat (a div b) < rounded Binary64 (of_nat a / of_nat b)"
proof -
  let ?x = "of_nat a / of_nat b :: rat" and ?q = "a div b"
  have x: "0 < ?x" using assms by simp
  obtain k where k: "b \<le> 2 ^ k" "2 ^ k \<le> 2 * b" "k \<le> 32"
  proof -
    define k where "k = (LEAST k. b \<le> 2 ^ k)"
    have "b \<le> 2 ^ 32" using assms(3) by simp
    then have k: "b \<le> 2 ^ k" "k \<le> 32" unfolding k_def by (rule LeastI, rule Least_le)
    have "2 ^ k \<le> 2 * b"
    proof (cases k)
      case (Suc j)
      then have "\<not> b \<le> 2 ^ j" using not_less_Least[of j "\<lambda>k. b \<le> 2 ^ k"] unfolding k_def by simp
      then show ?thesis using Suc by simp
    qed (use assms(1) in simp)
    then show thesis using that k by blast
  qed
  have ab: "a = ?q * b + a mod b" "a mod b < b" using assms(1) by simp_all
  have qb: "?q * b < 2 ^ 32" using assms(2) by (meson div_times_less_eq_dividend le_less_trans)
  have qk: "?q * 2 ^ k \<le> 2 * (?q * b)" using mult_le_mono2[OF k(2), of ?q] by (simp add: mult.left_commute)
  have "(?q + 1) * 2 ^ k = ?q * 2 ^ k + 2 ^ k" by simp
  also have "\<dots> \<le> 2 * (?q * b) + 2 * b" using qk k(2) by linarith
  also have "\<dots> < 2 * 2 ^ 32 + 2 * 2 ^ 32" using qb assms(3) by linarith
  finally have fit: "(?q + 1) * 2 ^ k < 2 ^ 53" by simp
  have e: "?x = of_nat ?q + of_nat (a mod b) / of_nat b"
  proof -
    have "(of_nat a :: rat) = of_nat (?q * b + a mod b)" using ab(1) by (simp only:)
    also have "\<dots> = of_nat ?q * of_nat b + of_nat (a mod b)" by (simp only: of_nat_add of_nat_mult)
    finally show ?thesis using assms(1) by (simp add: add_divide_distrib)
  qed
  have b1: "1 / 2 ^ k \<le> (1 / of_nat b :: rat)"
  proof -
    have "(of_nat b :: rat) \<le> of_nat (2 ^ k)" using k(1) by (simp only: of_nat_le_iff)
    then show ?thesis using assms(1) by (simp add: frac_le)
  qed
  have rep: "representable Binary64 (of_nat m / 2 ^ k)" if "m < 2 ^ 53" for m using that k(3) by (intro representable_frac) simp_all
  have "?q < 2 ^ 32" using assms(2) by (meson div_le_dividend le_less_trans)
  then have q53: "?q < 2 ^ 53" by simp
  show lo: "of_nat ?q \<le> rounded Binary64 ?x"
  proof (rule rounded_ge[OF x])
    show "of_nat ?q \<le> ?x" unfolding e by simp
    show "representable Binary64 (of_nat ?q)" using q53 by (intro representable_of_nat) simp
  qed
  show "rounded Binary64 ?x < of_nat ?q + 1"
  proof -
    let ?p = "of_nat ((?q + 1) * 2 ^ k - 1) / 2 ^ k :: rat"
    have p: "?p = of_nat ?q + 1 - 1 / 2 ^ k"
      by (simp add: of_nat_diff Suc_le_eq field_simps)
    have "(of_nat (a mod b) :: rat) \<le> of_nat (b - 1)" using ab(2) by (simp only: of_nat_le_iff)
    then have "(of_nat (a mod b) / of_nat b :: rat) \<le> of_nat (b - 1) / of_nat b" by (rule divide_right_mono) simp
    also have "\<dots> = 1 - 1 / of_nat b" using assms(1) by (simp add: of_nat_diff field_simps)
    finally have "?x \<le> ?p" unfolding e p using b1 by linarith
    moreover have "(?q + 1) * 2 ^ k - 1 < 2 ^ 53" using fit by linarith
    ultimately have "rounded Binary64 ?x \<le> ?p" by (intro rounded_le[OF x]) (simp_all only: rep)
    also have "\<dots> < of_nat ?q + 1" unfolding p by simp
    finally show ?thesis .
  qed
  show "rounded Binary64 ?x = of_nat ?q" if "a mod b = 0"
    using rounded_le[OF x, of "of_nat ?q" Binary64] representable_of_nat[of ?q Binary64] q53 lo that e by simp
  show "of_nat ?q < rounded Binary64 ?x" if "a mod b \<noteq> 0"
  proof -
    let ?p = "of_nat (?q * 2 ^ k + 1) / 2 ^ k :: rat"
    have p: "?p = of_nat ?q + 1 / 2 ^ k" by (simp add: field_simps)
    have "1 \<le> a mod b" using that by linarith
    then have "(of_nat 1 :: rat) \<le> of_nat (a mod b)" by (simp only: of_nat_le_iff)
    then have "(1 :: rat) \<le> of_nat (a mod b)" by simp
    then have "1 / of_nat b \<le> (of_nat (a mod b) / of_nat b :: rat)" by (rule divide_right_mono) simp
    then have "?p \<le> ?x" unfolding e p using b1 by linarith
    moreover have "?q * 2 ^ k + 1 < 2 ^ 53"
    proof -
      have "?q * 2 ^ k + 1 \<le> (?q + 1) * 2 ^ k" by simp
      then show ?thesis using fit by linarith
    qed
    ultimately have "?p \<le> rounded Binary64 ?x" by (intro rounded_ge[OF x]) (simp_all only: rep)
    moreover have "of_nat ?q < ?p" unfolding p by simp
    ultimately show ?thesis by linarith
  qed
qed

text \<open>\<open>(size_t)std::floor((double)a / (double)b)\<close> and the same with \<open>std::ceil\<close>.\<close>

definition floor_quot :: "nat \<Rightarrow> nat \<Rightarrow> nat option" where
  "floor_quot a b = f_to_u64 (ffloor (fdiv Binary64 (f_of_nat Binary64 a) (f_of_nat Binary64 b)))"

definition ceil_quot :: "nat \<Rightarrow> nat \<Rightarrow> nat option" where
  "ceil_quot a b = f_to_u64 (fceiling (fdiv Binary64 (f_of_nat Binary64 a) (f_of_nat Binary64 b)))"

lemma quot_exact:
  assumes "0 < b" "a < 2 ^ 32" "b < 2 ^ 32" "0 < a"
  shows "floor_quot a b = Some (a div b)" "ceil_quot a b = Some (a div b + (if a mod b = 0 then 0 else 1))"
proof -
  let ?x = "of_nat a / of_nat b :: rat" and ?q = "a div b"
  note r = quotient_rounded[OF assms]
  have f: "f_of_nat Binary64 n = Fin False (of_nat n)" if "n < 2 ^ 32" for n
    using fround_exact[OF representable_of_nat[of n Binary64]] that by (simp add: f_of_nat_def)
  have q: "?q < 2 ^ 32" using assms(2) by (meson div_le_dividend le_less_trans)
  then have q1: "of_nat ?q + 1 < (2 ^ 33 :: rat)"
  proof -
    have "(of_nat ?q :: rat) < of_nat (2 ^ 32)" using q by (simp only: of_nat_less_iff)
    then show ?thesis by simp
  qed
  have "rounded Binary64 ?x < pow2 1024"
    using r(2) q1 pow2_mono[of 33 1024] by (simp add: pow2_def)
  then have d: "fdiv Binary64 (f_of_nat Binary64 a) (f_of_nat Binary64 b) = Fin False (rounded Binary64 ?x)"
    using f[OF assms(2)] f[OF assms(3)] assms(1,4) fround_rounded[of ?x Binary64 False] by simp
  have fl: "\<lfloor>rounded Binary64 ?x\<rfloor> = int ?q" using r(1,2) by (simp add: floor_eq_iff)
  have ce: "\<lceil>rounded Binary64 ?x\<rceil> = int (?q + (if a mod b = 0 then 0 else 1))"
    using r by (auto simp: ceiling_eq_iff)
  have lt: "(of_nat n :: rat) < 2 ^ 64" if "n < 2 ^ 33" for n
  proof -
    have "(of_nat n :: rat) < of_nat (2 ^ 33)" using that by (simp only: of_nat_less_iff)
    then show ?thesis by simp
  qed
  show "floor_quot a b = Some (a div b)"
    using lt[of ?q] q by (simp add: floor_quot_def d fl not_le)
  show "ceil_quot a b = Some (a div b + (if a mod b = 0 then 0 else 1))"
    using lt[of "?q + (if a mod b = 0 then 0 else 1)"] q unfolding ceil_quot_def d fceiling.simps ce
    by (simp add: not_le nat_add_distrib split: if_splits)
qed

section \<open>Bounded values\<close>

text \<open>A finite value of the format of magnitude at most \<open>B\<close>.\<close>

definition bounded :: "fmt \<Rightarrow> rat \<Rightarrow> fp \<Rightarrow> bool" where
  "bounded f B x \<longleftrightarrow> (\<exists>s m. x = Fin s m \<and> representable f m \<and> m \<le> B)"

lemma representable_nonneg: "representable f x \<Longrightarrow> 0 \<le> x"
  by (auto simp: representable_def intro!: mult_nonneg_nonneg less_imp_le[OF pow2_pos])

lemma bounded_fin: "bounded f B x \<Longrightarrow> is_fin x" and bounded_wf: "bounded f B x \<Longrightarrow> wf_fp f x"
  by (auto simp: bounded_def)

lemma representable_zero [simp]: "representable f 0"
  using representable_of_nat[of 0 f] by simp

lemma bounded_zero: "0 \<le> B \<Longrightarrow> bounded f B (Fin s 0)"
  by (simp add: bounded_def)

lemma fround_bounded:
  assumes "0 \<le> x" "x \<le> B" "representable f B"
  shows "bounded f B (fround f s x)"
proof (cases "x = 0")
  case True
  then show ?thesis using assms by (simp add: fround_def bounded_zero)
next
  case False
  then have "rounded f x \<le> B" using assms by (intro rounded_le) simp_all
  moreover have "B < pow2 (emax f + 1)" using assms(3) by (auto simp: representable_def)
  ultimately have "fround f s x = Fin s (rounded f x)" using fround_rounded[OF False, of f s] by simp
  then show ?thesis using fround_wf[OF assms(1), of f s] \<open>rounded f x \<le> B\<close> by (simp add: bounded_def)
qed

lemma fadd_bounded:
  assumes "bounded g A a" "bounded h B b" "representable f (A + B)"
  shows "bounded f (A + B) (fadd f a b)"
proof -
  obtain s m t n where ab: "a = Fin s m" "0 \<le> m" "m \<le> A" "b = Fin t n" "0 \<le> n" "n \<le> B"
    using assms(1,2) representable_nonneg by (auto simp: bounded_def)
  let ?v = "fval (Fin s m) + fval (Fin t n)"
  have "\<bar>?v\<bar> \<le> A + B" using ab by auto
  then have "bounded f (A + B) (fround f (?v < 0) \<bar>?v\<bar>)" using assms(3) by (intro fround_bounded) simp_all
  then show ?thesis using ab assms(3) representable_nonneg[OF assms(3)] by (simp add: Let_def bounded_zero)
qed

lemma representable_scaled:
  assumes "representable Binary32 M" "k < 2 ^ 29"
  shows "representable Binary64 (of_nat k * M)"
proof -
  obtain m q where M: "M = of_nat m * pow2 q" "m < 2 ^ 24" "- 149 \<le> q" "M < pow2 128" using assms(1) by (auto simp: representable_def)
  have "k * m \<le> (2 ^ 29 - 1) * (2 ^ 24 - 1)" using assms(2) M(2) by (intro mult_le_mono) simp_all
  then have "k * m < 2 ^ 53" by simp
  moreover have "of_nat k * M = of_nat (k * m) * pow2 q" by (simp add: M(1))
  moreover have "of_nat k * M < pow2 1024"
  proof -
    have "of_nat k * M \<le> pow2 29 * pow2 128"
      using of_nat_lt_pow2[OF assms(2)] M(4) representable_nonneg[OF assms(1)] by (intro mult_mono) (simp_all add: less_imp_le)
    also have "\<dots> < pow2 1024" by (simp add: pow2_less_iff flip: pow2_add)
    finally show ?thesis .
  qed
  ultimately show ?thesis using M(3) unfolding representable_def
    by (intro exI[of _ "k * m"] exI[of _ q]) simp
qed

lemma representable_wider: "representable Binary32 M \<Longrightarrow> representable Binary64 M"
  using representable_scaled[of M 1] by simp

text \<open>A sum of fewer than \<open>2\<^sup>2\<^sup>9\<close> floats in doubles: the bound is exact, whatever the rounding.\<close>

lemma sum_bounded:
  assumes "representable Binary32 M" "\<forall>x \<in> set xs. bounded Binary32 M x" "length xs < 2 ^ 29"
  shows "bounded Binary64 (of_nat (length xs) * M) (foldl (fadd Binary64) fzero xs)"
  using assms(2,3)
proof (induction xs rule: rev_induct)
  case Nil
  then show ?case by (simp add: bounded_zero)
next
  case (snoc x xs)
  have "of_nat (length xs) * M + M = of_nat (length (xs @ [x])) * M" by (simp add: algebra_simps)
  then show ?case
    using fadd_bounded[of Binary64 "of_nat (length xs) * M" "foldl (fadd Binary64) fzero xs" Binary32 M x Binary64]
      snoc representable_scaled[OF assms(1), of "length (xs @ [x])"] by simp
qed

lemma mean_bounded:
  assumes "representable Binary32 M" "\<forall>x \<in> set xs. bounded Binary32 M x" "length xs < 2 ^ 29" "xs \<noteq> []"
  shows "bounded Binary32 M (fconv Binary32 (fdiv Binary64 (foldl (fadd Binary64) fzero xs) (f_of_nat Binary64 (length xs))))"
proof -
  let ?k = "of_nat (length xs) :: rat"
  have k: "0 < ?k" using assms(4) by simp
  have "f_of_nat Binary64 (length xs) = Fin False ?k"
    unfolding f_of_nat_def using assms(3) by (intro fround_exact representable_of_nat) simp
  moreover obtain s m where sum: "foldl (fadd Binary64) fzero xs = Fin s m" "0 \<le> m" "m \<le> ?k * M"
    using sum_bounded[OF assms(1-3)] representable_nonneg by (auto simp: bounded_def)
  moreover have "m / ?k \<le> M" using sum(3) k by (simp add: divide_le_eq mult.commute)
  ultimately have "bounded Binary64 M (fdiv Binary64 (foldl (fadd Binary64) fzero xs) (f_of_nat Binary64 (length xs)))"
    using k fround_bounded[of "m / ?k" M Binary64 "s"] representable_wider[OF assms(1)] by simp
  then show ?thesis
    using fround_bounded[OF _ _ assms(1)] representable_nonneg by (auto simp: bounded_def)
qed

end
