(* ===== verification/Kmeans.thy ===== *)
theory Kmeans
  imports Float_Round Dist_Order
begin

text \<open>
  \<open>src/math_utils.cpp\<close>: the nearest centre of every point and Lloyd's iterations of k-means. The matrix products and norms are
  calls of a BLAS library and parameters here, as are the contents of uninitialised memory and the order in which the
  iterations of a parallel loop reach their critical section.
\<close>

section \<open>Distances\<close>

record kenv =
  ke_snrm2 :: "fp list \<Rightarrow> fp"
  ke_sgemm_nt :: "nat \<Rightarrow> nat \<Rightarrow> nat \<Rightarrow> fp \<Rightarrow> fp list \<Rightarrow> fp list \<Rightarrow> fp \<Rightarrow> fp list \<Rightarrow> fp list"
  ke_new_u32 :: "nat \<Rightarrow> nat list"
  ke_new_f32 :: "nat \<Rightarrow> fp list"
  ke_order :: "nat list \<Rightarrow> nat list"

text \<open>What is known of them: an array is as long as asked for, and a parallel loop runs every iteration once.\<close>

definition kenv_ok :: "kenv \<Rightarrow> bool" where
  "kenv_ok e \<longleftrightarrow> (\<forall>n. length (ke_new_u32 e n) = n) \<and> (\<forall>xs. mset (ke_order e xs) = mset xs)"

definition calc_distance :: "fp list \<Rightarrow> fp list \<Rightarrow> nat \<Rightarrow> fp" where
  "calc_distance vec_1 vec_2 dm =
     fold (\<lambda>j acc. fadd Binary32 acc (fmul Binary32 (fsub Binary32 (vec_1 ! j) (vec_2 ! j)) (fsub Binary32 (vec_1 ! j) (vec_2 ! j)))) [0..<dm] fzero"

definition compute_vecs_l2sq :: "kenv \<Rightarrow> fp list \<Rightarrow> nat \<Rightarrow> nat \<Rightarrow> fp list" where
  "compute_vecs_l2sq e data num_points dm =
     map (\<lambda>i. let x = ke_snrm2 e (block data (i * dm) dm) in fmul Binary32 x x) [0..<num_points]"

text \<open>\<open>dist_matrix\<close>: the squared norms of the points, plus those of the centres, minus twice the products.\<close>

definition dist_matrix_of :: "kenv \<Rightarrow> fp list \<Rightarrow> nat \<Rightarrow> nat \<Rightarrow> fp list \<Rightarrow> nat \<Rightarrow> fp list \<Rightarrow> fp list \<Rightarrow> fp list \<Rightarrow> fp list" where
  "dist_matrix_of e data num_points dm centers num_centers docs_l2sq centers_l2sq dist_matrix =
     (let ones_a = replicate num_centers fone; ones_b = replicate num_points fone;
          d1 = ke_sgemm_nt e num_points num_centers 1 fone docs_l2sq ones_a fzero dist_matrix;
          d2 = ke_sgemm_nt e num_points num_centers 1 fone ones_b centers_l2sq fone d1
      in ke_sgemm_nt e num_points num_centers dm (Fin True 2) data centers fone d2)"

text \<open>The scan of a row. Without a distance below \<open>FLT_MAX\<close> the entry of \<open>center_index\<close> is not written.\<close>

definition closest_in_row :: "nat \<Rightarrow> fp list \<Rightarrow> nat \<Rightarrow> nat" where
  "closest_in_row old current num_centers =
     fst (foldl (\<lambda>(c, mn) j. if flt (current ! j) mn then (j, current ! j) else (c, mn)) (old, flt_max) [0..<num_centers])"

text \<open>With \<open>k = 1\<close>, as in product quantisation.\<close>

definition compute_closest_centers_in_block ::
  "kenv \<Rightarrow> fp list \<Rightarrow> nat \<Rightarrow> nat \<Rightarrow> fp list \<Rightarrow> nat \<Rightarrow> fp list \<Rightarrow> fp list \<Rightarrow> nat list \<Rightarrow> fp list \<Rightarrow> nat list \<times> fp list" where
  "compute_closest_centers_in_block e data num_points dm centers num_centers docs_l2sq centers_l2sq center_index dist_matrix =
     (if 1 > num_centers then (center_index, dist_matrix)
      else
        let d = dist_matrix_of e data num_points dm centers num_centers docs_l2sq centers_l2sq dist_matrix
        in (foldl (\<lambda>ci i. ci[i := closest_in_row (ci ! i) (block d (i * num_centers) num_centers) num_centers]) center_index [0..<num_points], d))"

text \<open>One point is given to its centre; a garbage index writes outside \<open>inverted_index\<close>.\<close>

definition assign_point :: "nat list \<Rightarrow> nat \<Rightarrow> nat \<Rightarrow> nat list \<times> nat list list option \<Rightarrow> (nat list \<times> nat list list option) res" where
  "assign_point closest_centers start j s =
     (let this_center_id = closest_centers ! (j - start); ivf = (fst s)[j := this_center_id]
      in case snd s of
           None \<Rightarrow> Inr (ivf, None)
         | Some inverted_index \<Rightarrow>
             if this_center_id < length inverted_index
             then Inr (ivf, Some (inverted_index[this_center_id := inverted_index ! this_center_id @ [j]]))
             else Inl OutOfRange)"

text \<open>A block of points: its nearest centres, copied to the result point by point. The buffers are those of the call.\<close>

definition closest_block ::
  "kenv \<Rightarrow> fp list \<Rightarrow> nat \<Rightarrow> nat \<Rightarrow> fp list \<Rightarrow> nat \<Rightarrow> fp list \<Rightarrow> fp list \<Rightarrow> nat \<Rightarrow> nat \<Rightarrow>
   (nat list \<times> nat list list option) \<times> nat list \<times> fp list \<Rightarrow> ((nat list \<times> nat list list option) \<times> nat list \<times> fp list) res" where
  "closest_block e data num_points dm pivot_data num_centers pts_norms pivs_norms par cur_blk st =
     (case st of (s, closest_centers, distance_matrix) \<Rightarrow>
        let b = compute_closest_centers_in_block e (drop (cur_blk * par * dm) data) (min par (num_points - cur_blk * par)) dm pivot_data num_centers
                  (drop (cur_blk * par) pts_norms) pivs_norms closest_centers distance_matrix
        in rbind (rfold (assign_point (fst b) (cur_blk * par)) (ke_order e [cur_blk * par..<min num_points ((cur_blk + 1) * par)]) s)
             (\<lambda>s'. Inr (s', b)))"

text \<open>No points are a division by zero.\<close>

definition compute_closest_centers ::
  "kenv \<Rightarrow> fp list \<Rightarrow> nat \<Rightarrow> nat \<Rightarrow> fp list \<Rightarrow> nat \<Rightarrow> nat list \<Rightarrow> nat list list option \<Rightarrow> fp list option \<Rightarrow> (nat list \<times> nat list list option) res" where
  "compute_closest_centers e data num_points dm pivot_data num_centers closest_centers_ivf inverted_index pts_norms_squared =
     (if 1 > num_centers then Inr (closest_centers_ivf, inverted_index)
      else if num_points = 0 then Inl OutOfRange
      else
        let par = num_points;
            n_blocks = (if num_points mod par = 0 then num_points div par else num_points div par + 1);
            pts_norms = (case pts_norms_squared of None \<Rightarrow> compute_vecs_l2sq e data num_points dm | Some ns \<Rightarrow> ns);
            pivs_norms = compute_vecs_l2sq e pivot_data num_centers dm
        in rbind (rfold (closest_block e data num_points dm pivot_data num_centers pts_norms pivs_norms par) [0..<n_blocks]
                    ((closest_centers_ivf, inverted_index), ke_new_u32 e par, ke_new_f32 e (num_centers * par)))
             (\<lambda>st. Inr (fst st)))"

section \<open>Lloyd's iterations\<close>

text \<open>The new centre of a cluster: the mean, summed in doubles; zeros for an empty cluster.\<close>

definition cluster_mean :: "fp list \<Rightarrow> nat \<Rightarrow> nat list \<Rightarrow> fp list" where
  "cluster_mean data dm docs =
     (if docs = [] then replicate dm fzero
      else map (\<lambda>j. fconv Binary32 (fdiv Binary64 (fold (\<lambda>i sm. fadd Binary64 sm (data ! (i * dm + j))) docs fzero) (f_of_nat Binary64 (length docs))))
             [0..<dm])"

definition lloyds_residual :: "fp list \<Rightarrow> nat \<Rightarrow> nat \<Rightarrow> fp list \<Rightarrow> nat list \<Rightarrow> fp" where
  "lloyds_residual data num_points dm centers closest_center =
     (let cs = 2 * 8192; nchunks = num_points div cs + (if num_points mod cs = 0 then 0 else 1);
          residuals = map (\<lambda>chunk.
            fold (\<lambda>d acc. fadd Binary32 acc (calc_distance (block data (d * dm) dm) (block centers (closest_center ! d * dm) dm) dm))
              [chunk * cs..<min num_points ((chunk + 1) * cs)] fzero) [0..<nchunks]
      in foldl (fadd Binary32) fzero residuals)"

record lloyds =
  ll_residual :: fp
  ll_centers :: "fp list"
  ll_docs :: "nat list list"
  ll_closest :: "nat list"

definition lloyds_iter :: "kenv \<Rightarrow> fp list \<Rightarrow> nat \<Rightarrow> nat \<Rightarrow> nat \<Rightarrow> fp list \<Rightarrow> lloyds \<Rightarrow> lloyds res" where
  "lloyds_iter e data num_points dm num_centers docs_l2sq s =
     rbind (compute_closest_centers e data num_points dm (ll_centers s) num_centers (ll_closest s) (Some (map (\<lambda>_. []) (ll_docs s))) (Some docs_l2sq))
       (\<lambda>(closest_center, docs).
         let closest_docs = the docs; centers = concat (map (\<lambda>c. cluster_mean data dm (closest_docs ! c)) [0..<num_centers])
         in if \<exists>d \<in> set [0..<num_points]. num_centers \<le> closest_center ! d then Inl OutOfRange
            else Inr \<lparr>ll_residual = lloyds_residual data num_points dm centers closest_center, ll_centers = centers,
                      ll_docs = closest_docs, ll_closest = closest_center\<rparr>)"

text \<open>The test of the residuals: a \<open>float\<close> against the \<open>double\<close> constant \<open>0.00001\<close>, and \<open>FLT_EPSILON\<close>.\<close>

definition residual_done :: "nat \<Rightarrow> fp \<Rightarrow> fp \<Rightarrow> bool" where
  "residual_done i old_residual residual \<longleftrightarrow>
     i \<noteq> 0 \<and> flt (fdiv Binary32 (fsub Binary32 old_residual residual) residual) (fround Binary64 False (1 / 100000)) \<or>
     flt residual (Fin False (pow2 (- 23)))"

fun lloyds_loop :: "kenv \<Rightarrow> fp list \<Rightarrow> nat \<Rightarrow> nat \<Rightarrow> nat \<Rightarrow> fp list \<Rightarrow> nat \<Rightarrow> nat \<Rightarrow> lloyds \<Rightarrow> lloyds res" where
  "lloyds_loop e data num_points dm num_centers docs_l2sq i 0 s = Inr s"
| "lloyds_loop e data num_points dm num_centers docs_l2sq i (Suc reps) s =
     rbind (lloyds_iter e data num_points dm num_centers docs_l2sq s) (\<lambda>t.
       if residual_done i (ll_residual s) (ll_residual t) then Inr t
       else lloyds_loop e data num_points dm num_centers docs_l2sq (i + 1) reps t)"

definition run_lloyds :: "kenv \<Rightarrow> fp list \<Rightarrow> nat \<Rightarrow> nat \<Rightarrow> fp list \<Rightarrow> nat \<Rightarrow> nat \<Rightarrow> nat list list option \<Rightarrow> nat list option \<Rightarrow> lloyds res" where
  "run_lloyds e data num_points dm centers num_centers max_reps closest_docs closest_center =
     lloyds_loop e data num_points dm num_centers (compute_vecs_l2sq e data num_points dm) 0 max_reps
       \<lparr>ll_residual = flt_max, ll_centers = centers,
        ll_docs = (case closest_docs of None \<Rightarrow> replicate num_centers [] | Some ds \<Rightarrow> ds),
        ll_closest = (case closest_center of None \<Rightarrow> ke_new_u32 e num_points | Some cc \<Rightarrow> cc)\<rparr>"

section \<open>The nearest centre\<close>

text \<open>The first of the smallest distances of a row.\<close>

definition nearest :: "fp list \<Rightarrow> nat \<Rightarrow> nat \<Rightarrow> bool" where
  "nearest r n c \<longleftrightarrow> c < n \<and> (\<forall>j < n. \<not> flt (r ! j) (r ! c)) \<and> (\<forall>j < c. is_nan (r ! j) \<or> flt (r ! c) (r ! j))"

lemma closest_in_row_nearest:
  assumes "\<exists>j < n. flt (r ! j) flt_max"
  shows "nearest r n (closest_in_row old r n)"
proof -
  let ?f = "\<lambda>(c, mn) j. if flt (r ! j) mn then (j, r ! j) else (c, mn)"
  have "foldl ?f (old, flt_max) [0..<m] = (old, flt_max) \<and> (\<forall>j < m. \<not> flt (r ! j) flt_max) \<or>
      (\<exists>c. foldl ?f (old, flt_max) [0..<m] = (c, r ! c) \<and> flt (r ! c) flt_max \<and> nearest r m c)" for m
  proof (induction m)
    case (Suc m)
    then consider "foldl ?f (old, flt_max) [0..<m] = (old, flt_max)" "\<forall>j < m. \<not> flt (r ! j) flt_max"
      | c where "foldl ?f (old, flt_max) [0..<m] = (c, r ! c)" "flt (r ! c) flt_max" "nearest r m c" by blast
    then show ?case
    proof cases
      case 1
      have "is_nan (r ! j) \<or> flt (r ! m) (r ! j)" if "flt (r ! m) flt_max" "j < m" for j
        using that 1(2) not_flt[of "r ! j" flt_max] flt_fle_trans by (auto simp: flt_max_def)
      then show ?thesis using 1 by (auto simp: less_Suc_eq nearest_def dest: flt_trans)
    next
      case 2
      have new: "is_nan (r ! j) \<or> flt (r ! m) (r ! j)" if "flt (r ! m) (r ! c)" "j < m" for j
        using that 2(3) not_flt[of "r ! j" "r ! c"] flt_fle_trans flt_not_nan by (auto simp: nearest_def)
      then have "nearest r (Suc m) m" if "flt (r ! m) (r ! c)"
        using that 2(3) flt_trans by (auto simp: nearest_def less_Suc_eq dest: flt_asym)
      moreover have "nearest r (Suc m) c" if "\<not> flt (r ! m) (r ! c)" using that 2(3) by (auto simp: nearest_def less_Suc_eq)
      ultimately show ?thesis using 2 flt_trans by auto
    qed
  qed simp
  from this[of n] assms show ?thesis by (auto simp: closest_in_row_def)
qed

text \<open>A row without such a distance, as one of NaNs: what the uninitialised array held is taken for the nearest centre.\<close>

lemma closest_in_row_unset: "\<forall>j < n. \<not> flt (r ! j) flt_max \<Longrightarrow> closest_in_row old r n = old"
proof -
  assume a: "\<forall>j < n. \<not> flt (r ! j) flt_max"
  have "foldl (\<lambda>(c, mn) j. if flt (r ! j) mn then (j, r ! j) else (c, mn)) (old, flt_max) [0..<m] = (old, flt_max)" if "m \<le> n" for m
    using that a by (induction m) simp_all
  from this[of n] show ?thesis by (simp add: closest_in_row_def)
qed

lemma foldl_write:
  assumes "n \<le> length xs"
  shows "foldl (\<lambda>ci i. ci[i := g i (ci ! i)]) xs [0..<n] = map (\<lambda>i. g i (xs ! i)) [0..<n] @ drop n xs"
  using assms
proof (induction n)
  case (Suc n)
  then have "drop n xs = xs ! n # drop (Suc n) xs" by (simp add: Cons_nth_drop_Suc)
  then show ?case using Suc by (simp add: nth_append list_update_append)
qed simp

text \<open>The points of a list given to their centres one after the other.\<close>

lemma assign_points:
  assumes "\<forall>j \<in> set js. start \<le> j \<and> cc ! (j - start) < length ix" "distinct js"
  shows "\<exists>ivf' ix'. rfold (assign_point cc start) js (ivf, Some ix) = Inr (ivf', Some ix') \<and> length ivf' = length ivf \<and> length ix' = length ix \<and>
      (\<forall>j < length ivf. ivf' ! j = (if j \<in> set js then cc ! (j - start) else ivf ! j)) \<and>
      (\<forall>c < length ix. ix' ! c = ix ! c @ filter (\<lambda>j. cc ! (j - start) = c) js)"
  using assms
proof (induction js arbitrary: ivf ix)
  case (Cons j js)
  let ?c = "cc ! (j - start)"
  have "assign_point cc start j (ivf, Some ix) = Inr (ivf[j := ?c], Some (ix[?c := ix ! ?c @ [j]]))"
    using Cons.prems(1) by (simp add: assign_point_def Let_def)
  moreover obtain ivf' ix' where "rfold (assign_point cc start) js (ivf[j := ?c], Some (ix[?c := ix ! ?c @ [j]])) = Inr (ivf', Some ix')"
    "length ivf' = length ivf" "length ix' = length ix"
    "\<forall>i < length ivf. ivf' ! i = (if i \<in> set js then cc ! (i - start) else ivf[j := ?c] ! i)"
    "\<forall>c < length ix. ix' ! c = ix[?c := ix ! ?c @ [j]] ! c @ filter (\<lambda>j. cc ! (j - start) = c) js"
    using Cons.IH[of "ix[?c := ix ! ?c @ [j]]" "ivf[j := ?c]"] Cons.prems by auto
  ultimately show ?case using Cons.prems by (auto simp: nth_list_update)
qed simp

lemma assign_points_plain:
  "rfold (assign_point cc start) js (ivf, None) = Inr (foldl (\<lambda>ivf j. ivf[j := cc ! (j - start)]) ivf js, None)"
  by (induction js arbitrary: ivf) (simp_all add: assign_point_def Let_def)

lemma order_ok: "kenv_ok e \<Longrightarrow> set (ke_order e xs) = set xs" "kenv_ok e \<Longrightarrow> distinct xs \<Longrightarrow> distinct (ke_order e xs)"
  unfolding kenv_ok_def by (metis mset_eq_setD, metis mset_eq_imp_distinct_iff)

text \<open>The distances \<open>compute_closest_centers\<close> compares.\<close>

definition point_dists :: "kenv \<Rightarrow> fp list \<Rightarrow> nat \<Rightarrow> nat \<Rightarrow> fp list \<Rightarrow> nat \<Rightarrow> fp list option \<Rightarrow> nat \<Rightarrow> fp list" where
  "point_dists e data n dm pivots nc norms i =
     block (dist_matrix_of e data n dm pivots nc (case norms of None \<Rightarrow> compute_vecs_l2sq e data n dm | Some ns \<Rightarrow> ns)
              (compute_vecs_l2sq e pivots nc dm) (ke_new_f32 e (nc * n))) (i * nc) nc"

lemma closest_centers_eq:
  fixes data dm pivots norms
  assumes "kenv_ok e" "0 < n" "0 < nc"
  defines "cc \<equiv> map (\<lambda>i. closest_in_row (ke_new_u32 e n ! i) (point_dists e data n dm pivots nc norms i) nc) [0..<n]"
  shows "compute_closest_centers e data n dm pivots nc ivf ix norms = rfold (assign_point cc 0) (ke_order e [0..<n]) (ivf, ix)"
proof -
  have "length (ke_new_u32 e n) = n" using assms(1) by (simp add: kenv_ok_def)
  note w = foldl_write[of n "ke_new_u32 e n" "\<lambda>i old. closest_in_row old (point_dists e data n dm pivots nc norms i) nc", folded cc_def]
  have b: "fst (compute_closest_centers_in_block e data n dm pivots nc (case norms of None \<Rightarrow> compute_vecs_l2sq e data n dm | Some ns \<Rightarrow> ns)
      (compute_vecs_l2sq e pivots nc dm) (ke_new_u32 e n) (ke_new_f32 e (nc * n))) = cc"
    using assms(3) w \<open>length (ke_new_u32 e n) = n\<close> unfolding compute_closest_centers_in_block_def
    by (simp add: Let_def point_dists_def)
  show ?thesis
    using assms(2,3) unfolding compute_closest_centers_def by (simp add: closest_block_def Let_def b rfold_Nil rbind_right rbind_fst)
qed

text \<open>When every point has a distance below \<open>FLT_MAX\<close>, every point gets the nearest centre, and the inverted index lists
  for every centre its points, each once.\<close>

lemma closest_centers_run:
  assumes "kenv_ok e" "0 < n" "0 < nc" "length ivf = n" "\<forall>i < n. \<exists>j < nc. flt (point_dists e data n dm pivots nc norms i ! j) flt_max"
  shows "\<exists>cc ix. compute_closest_centers e data n dm pivots nc ivf (Some (replicate nc [])) norms = Inr (cc, Some ix) \<and>
      length cc = n \<and> (\<forall>i < n. nearest (point_dists e data n dm pivots nc norms i) nc (cc ! i)) \<and>
      length ix = nc \<and> (\<forall>c < nc. distinct (ix ! c) \<and> set (ix ! c) = {i. i < n \<and> cc ! i = c})"
proof -
  let ?g = "\<lambda>i. closest_in_row (ke_new_u32 e n ! i) (point_dists e data n dm pivots nc norms i) nc"
  let ?cc = "map ?g [0..<n]" and ?js = "ke_order e [0..<n]"
  have near: "nearest (point_dists e data n dm pivots nc norms i) nc (?g i)" if "i < n" for i
    using assms(5) that by (intro closest_in_row_nearest) blast
  have js: "set ?js = {0..<n}" "distinct ?js" using order_ok[OF assms(1), of "[0..<n]"] by simp_all
  have "\<forall>j \<in> set ?js. 0 \<le> j \<and> ?cc ! (j - 0) < length (replicate nc [] :: nat list list)"
    using near by (auto simp: js(1) nearest_def)
  from assign_points[OF this js(2), of ivf] obtain cc ix where r:
    "rfold (assign_point ?cc 0) ?js (ivf, Some (replicate nc [])) = Inr (cc, Some ix)" "length cc = n" "length ix = nc"
    "\<forall>i < n. cc ! i = ?g i" "\<forall>c < nc. ix ! c = filter (\<lambda>j. ?cc ! (j - 0) = c) ?js"
    using assms(4) js(1) by auto
  have "distinct (ix ! c) \<and> set (ix ! c) = {i. i < n \<and> cc ! i = c}" if "c < nc" for c
    using r(4,5) that js by auto
  then show ?thesis using closest_centers_eq[OF assms(1-3)] r(1-4) near by auto
qed

section \<open>Lloyd's iterations\<close>

text \<open>Points and centres inside the box \<open>[-M, M]\<close>, and centres to which every point has a distance below \<open>FLT_MAX\<close>.\<close>

definition box_data :: "rat \<Rightarrow> nat \<Rightarrow> fp list \<Rightarrow> bool" where
  "box_data M n data \<longleftrightarrow> representable Binary32 M \<and> length data = n \<and> (\<forall>x \<in> set data. bounded Binary32 M x)"

definition reachable_centers :: "kenv \<Rightarrow> fp list \<Rightarrow> nat \<Rightarrow> nat \<Rightarrow> nat \<Rightarrow> fp list option \<Rightarrow> fp list \<Rightarrow> bool" where
  "reachable_centers e data n dm nc norms centers \<longleftrightarrow> (\<forall>i < n. \<exists>j < nc. flt (point_dists e data n dm centers nc norms i ! j) flt_max)"

definition lloyds_ok :: "rat \<Rightarrow> nat \<Rightarrow> nat \<Rightarrow> nat \<Rightarrow> lloyds \<Rightarrow> bool" where
  "lloyds_ok M n dm nc s \<longleftrightarrow> box_data M (nc * dm) (ll_centers s) \<and> length (ll_docs s) = nc \<and> length (ll_closest s) = n"

lemma box_data_concat:
  assumes "representable Binary32 M" "\<forall>r \<in> set rs. box_data M dm r"
  shows "box_data M (length rs * dm) (concat rs)"
  using assms by (induction rs) (auto simp: box_data_def)

lemma cluster_mean_box:
  assumes "box_data M (n * dm) data" "set docs \<subseteq> {..<n}" "length docs < 2 ^ 29"
  shows "box_data M dm (cluster_mean data dm docs)"
proof (cases "docs = []")
  case True
  then show ?thesis using assms(1) by (auto simp: cluster_mean_def box_data_def bounded_zero representable_nonneg)
next
  case False
  have "bounded Binary32 M (fconv Binary32 (fdiv Binary64 (fold (\<lambda>i sm. fadd Binary64 sm (data ! (i * dm + j))) docs fzero) (f_of_nat Binary64 (length docs))))"
    if "j < dm" for j
  proof -
    let ?xs = "map (\<lambda>i. data ! (i * dm + j)) docs"
    have "i * dm + j < n * dm" if "i < n" for i
    proof -
      have "i * dm + j < Suc i * dm" using \<open>j < dm\<close> by simp
      also have "\<dots> \<le> n * dm" using that by (intro mult_le_mono1) simp
      finally show ?thesis .
    qed
    then have "\<forall>x \<in> set ?xs. bounded Binary32 M x" using assms(1,2) by (auto simp: box_data_def subset_iff)
    moreover have "foldl (fadd Binary64) fzero ?xs = fold (\<lambda>i sm. fadd Binary64 sm (data ! (i * dm + j))) docs fzero"
      by (simp add: foldl_conv_fold fold_map comp_def)
    ultimately show ?thesis using mean_bounded[of M ?xs] assms(1,3) False by (simp add: box_data_def)
  qed
  then show ?thesis using False assms(1) by (auto simp: cluster_mean_def box_data_def)
qed

lemma lloyds_iter_run:
  assumes "kenv_ok e" "0 < n" "n < 2 ^ 29" "0 < nc" "box_data M (n * dm) data" "lloyds_ok M n dm nc s"
    and "reachable_centers e data n dm nc (Some norms) (ll_centers s)"
  shows "\<exists>t. lloyds_iter e data n dm nc norms s = Inr t \<and> lloyds_ok M n dm nc t \<and>
      (\<forall>i < n. nearest (point_dists e data n dm (ll_centers s) nc (Some norms) i) nc (ll_closest t ! i)) \<and>
      (\<forall>c < nc. distinct (ll_docs t ! c) \<and> set (ll_docs t ! c) = {i. i < n \<and> ll_closest t ! i = c} \<and>
         block (ll_centers t) (c * dm) dm = cluster_mean data dm (ll_docs t ! c)) \<and>
      ll_residual t = lloyds_residual data n dm (ll_centers t) (ll_closest t)"
proof -
  obtain cc ix where r: "compute_closest_centers e data n dm (ll_centers s) nc (ll_closest s) (Some (map (\<lambda>_. []) (ll_docs s))) (Some norms) = Inr (cc, Some ix)"
    "length cc = n" "\<forall>i < n. nearest (point_dists e data n dm (ll_centers s) nc (Some norms) i) nc (cc ! i)"
    "length ix = nc" "\<forall>c < nc. distinct (ix ! c) \<and> set (ix ! c) = {i. i < n \<and> cc ! i = c}"
    using closest_centers_run[OF assms(1,2,4), of "ll_closest s" data dm "ll_centers s" "Some norms"] assms(6,7)
    by (auto simp: lloyds_ok_def reachable_centers_def map_replicate_const)
  let ?means = "map (\<lambda>c. cluster_mean data dm (ix ! c)) [0..<nc]"
  have "box_data M dm (cluster_mean data dm (ix ! c))" if "c < nc" for c
  proof (rule cluster_mean_box[OF assms(5)])
    show sub: "set (ix ! c) \<subseteq> {..<n}" using r(5) that by auto
    have "length (ix ! c) = card (set (ix ! c))" using r(5) that distinct_card[of "ix ! c"] by simp
    also have "\<dots> \<le> n" using card_mono[OF _ sub] by simp
    finally show "length (ix ! c) < 2 ^ 29" using assms(3) by simp
  qed
  then have means: "\<forall>m \<in> set ?means. box_data M dm m" by auto
  then have box: "box_data M (nc * dm) (concat ?means)"
    using box_data_concat[OF _ means] assms(5) by (simp add: box_data_def[of M "n * dm"])
  have rows: "block (concat ?means) (c * dm) dm = cluster_mean data dm (ix ! c)" if "c < nc" for c
    using block_concat_uniform[of ?means dm c] means that by (auto simp: box_data_def)
  let ?t = "\<lparr>ll_residual = lloyds_residual data n dm (concat ?means) cc, ll_centers = concat ?means, ll_docs = ix, ll_closest = cc\<rparr>"
  have "\<not> (\<exists>d \<in> set [0..<n]. nc \<le> cc ! d)" using r(3) by (auto simp: nearest_def not_le)
  then have "lloyds_iter e data n dm nc norms s = Inr ?t"
    using r(1) by (simp add: lloyds_iter_def Let_def)
  moreover have "lloyds_ok M n dm nc ?t" using box r(2,4) by (simp add: lloyds_ok_def)
  ultimately show ?thesis using r rows by auto
qed

lemma lloyds_loop_run:
  assumes "kenv_ok e" "0 < n" "n < 2 ^ 29" "0 < nc" "box_data M (n * dm) data"
    and "\<forall>centers. box_data M (nc * dm) centers \<longrightarrow> reachable_centers e data n dm nc (Some norms) centers" "lloyds_ok M n dm nc s"
  shows "\<exists>t. lloyds_loop e data n dm nc norms i reps s = Inr t \<and> lloyds_ok M n dm nc t"
  using assms(7)
proof (induction reps arbitrary: i s)
  case (Suc reps)
  then obtain t where "lloyds_iter e data n dm nc norms s = Inr t" "lloyds_ok M n dm nc t"
    using lloyds_iter_run[OF assms(1-5), of s norms] assms(6) by (auto simp: lloyds_ok_def)
  then show ?case using Suc.IH[of t "i + 1"] by simp
qed simp

lemma run_lloyds_box:
  assumes "kenv_ok e" "0 < n" "n < 2 ^ 29" "0 < nc" "box_data M (n * dm) data" "box_data M (nc * dm) centers" "length cc = n"
    and "\<forall>cs. box_data M (nc * dm) cs \<longrightarrow> reachable_centers e data n dm nc (Some (compute_vecs_l2sq e data n dm)) cs"
  shows "\<exists>t. run_lloyds e data n dm centers nc reps None (Some cc) = Inr t \<and> length (ll_centers t) = nc * dm \<and>
      (\<forall>x \<in> set (ll_centers t). bounded Binary32 M x) \<and> length (ll_closest t) = n"
  using lloyds_loop_run[OF assms(1-5,8), of "\<lparr>ll_residual = flt_max, ll_centers = centers, ll_docs = replicate nc [], ll_closest = cc\<rparr>" 0 reps]
    assms(6,7)
  by (auto simp: run_lloyds_def lloyds_ok_def box_data_def)

section \<open>Properties\<close>

text \<open>C25. One iteration of Lloyd's algorithm, for any BLAS library, any contents of fresh memory and any order of the threads: when every
  point has a distance below \<open>FLT_MAX\<close>, every point is given to the first centre at the smallest distance, the inverted index
  lists for every centre exactly its points, each once, and the new centres are the means of these clusters.\<close>

theorem lloyds_iter_correct:
  assumes "kenv_ok e" "0 < n" "n < 2 ^ 29" "0 < nc" "box_data M (n * dm) data" "lloyds_ok M n dm nc s"
    and "reachable_centers e data n dm nc (Some norms) (ll_centers s)"
  shows "\<exists>t. lloyds_iter e data n dm nc norms s = Inr t \<and> lloyds_ok M n dm nc t \<and>
      (\<forall>i < n. nearest (point_dists e data n dm (ll_centers s) nc (Some norms) i) nc (ll_closest t ! i)) \<and>
      (\<forall>c < nc. distinct (ll_docs t ! c) \<and> set (ll_docs t ! c) = {i. i < n \<and> ll_closest t ! i = c} \<and>
         block (ll_centers t) (c * dm) dm = cluster_mean data dm (ll_docs t ! c)) \<and>
      ll_residual t = lloyds_residual data n dm (ll_centers t) (ll_closest t)"
  by (rule lloyds_iter_run[OF assms])

text \<open>C26. \<open>run_lloyds\<close> returns within \<open>max_reps\<close> iterations, and no centre leaves the box of the data: rounding never carries
  a mean past the largest coordinate, because the sums are exact enough in doubles for fewer than \<open>2\<^sup>2\<^sup>9\<close> points.\<close>

theorem run_lloyds_bounded:
  assumes "kenv_ok e" "0 < n" "n < 2 ^ 29" "0 < nc" "box_data M (n * dm) data" "box_data M (nc * dm) centers" "length cc = n"
    and "\<forall>cs. box_data M (nc * dm) cs \<longrightarrow> reachable_centers e data n dm nc (Some (compute_vecs_l2sq e data n dm)) cs"
  shows "\<exists>t. run_lloyds e data n dm centers nc reps None (Some cc) = Inr t \<and> length (ll_centers t) = nc * dm \<and>
      (\<forall>x \<in> set (ll_centers t). bounded Binary32 M x) \<and> length (ll_closest t) = n"
  by (rule run_lloyds_box[OF assms])

text \<open>A library that returns zero distances, for the examples.\<close>

definition sample_kenv :: kenv where
  "sample_kenv = \<lparr>ke_snrm2 = \<lambda>_. fzero, ke_sgemm_nt = \<lambda>m n k a x y b c. replicate (m * n) fzero, ke_new_u32 = \<lambda>n. replicate n 7,
     ke_new_f32 = \<lambda>n. replicate n NaN, ke_order = rev\<rparr>"

lemma sample_kenv_ok: "kenv_ok sample_kenv"
  by (simp add: kenv_ok_def sample_kenv_def)

lemma sample_reachable: "0 < nc \<Longrightarrow> reachable_centers sample_kenv data n dm nc norms centers"
proof -
  assume nc: "0 < nc"
  have "i * nc < n * nc" if "i < n" for i using that nc by simp
  then have "point_dists sample_kenv data n dm centers nc norms i ! 0 = fzero" if "i < n" for i
    using that nc by (simp add: point_dists_def dist_matrix_of_def sample_kenv_def Let_def block_def)
  then show ?thesis using nc by (auto simp: reachable_centers_def flt_max_def)
qed

lemma sample_box: "box_data 1 2 [fone, fone]" "box_data 1 1 [fone]"
  using representable_of_nat[of 1 Binary32] by (auto simp: box_data_def bounded_def)

theorem lloyds_iter_correct_witness:
  "\<exists>t. lloyds_iter sample_kenv [fone, fone] 2 1 1 [] \<lparr>ll_residual = fzero, ll_centers = [fone], ll_docs = [[]], ll_closest = [0, 0]\<rparr> = Inr t \<and>
     lloyds_ok 1 2 1 1 t"
proof -
  let ?s = "\<lparr>ll_residual = fzero, ll_centers = [fone], ll_docs = [[]], ll_closest = [0, 0]\<rparr>"
  have s: "lloyds_ok 1 2 1 1 ?s" using sample_box(2) by (simp add: lloyds_ok_def)
  show ?thesis
    using lloyds_iter_correct[OF sample_kenv_ok, of 2 1 1 1 "[fone, fone]" ?s "[]"] sample_box(1) s sample_reachable[of 1] by auto
qed

theorem run_lloyds_bounded_witness:
  "\<exists>t. run_lloyds sample_kenv [fone, fone] 2 1 [fone] 1 12 None (Some [0, 0]) = Inr t \<and> length (ll_centers t) = 1 * 1 \<and>
      (\<forall>x \<in> set (ll_centers t). bounded Binary32 1 x) \<and> length (ll_closest t) = 2"
  using run_lloyds_bounded[OF sample_kenv_ok, of 2 1 1 1 "[fone, fone]" "[fone]" "[0, 0]" 12] sample_box sample_reachable[of 1] by simp

end
