(* ===== verification/Kmeans_Init.thy ===== *)
theory Kmeans_Init
  imports Kmeans
begin

text \<open>
  The choice of the first centres in \<open>src/math_utils.cpp\<close>: k-means++ and, for more than \<open>2\<^sup>2\<^sup>3\<close> points, uniform choice. The values
  the random generators return are parameters.
\<close>

section \<open>The operations\<close>

text \<open>A point drawn again leaves its row of \<open>pivot_data\<close> unwritten. Without points the distribution has the bounds \<open>0\<close> and
  \<open>2\<^sup>6\<^sup>4 - 1\<close>.\<close>

definition selecting_pivots :: "(nat \<Rightarrow> nat) \<Rightarrow> fp list \<Rightarrow> nat \<Rightarrow> nat \<Rightarrow> fp list \<Rightarrow> nat \<Rightarrow> fp list res" where
  "selecting_pivots draw data num_points dm pivot_data num_centers =
     rbind (rfold (\<lambda>j (picked, pivots).
              let tmp_pivot = draw j
              in if tmp_pivot \<in> set picked then Inr (picked, pivots)
                 else if num_points \<le> tmp_pivot then Inl OutOfRange
                 else Inr (picked @ [tmp_pivot], blit pivots (j * dm) (block data (tmp_pivot * dm) dm)))
            [0..<num_centers] ([], pivot_data))
       (\<lambda>(picked, pivots). Inr pivots)"

record kpp =
  kp_num_picked :: nat
  kp_picked :: "nat list"
  kp_dist :: "fp list"
  kp_sum_flag :: bool
  kp_pivots :: "fp list"

text \<open>The point the dart hits: the search over the prefix sums; the last point when no interval contains the dart.\<close>

fun dart_scan :: "fp \<Rightarrow> fp \<Rightarrow> fp list \<Rightarrow> nat \<Rightarrow> nat \<Rightarrow> nat" where
  "dart_scan dart_val prefix_sum [] i tmp_pivot = tmp_pivot"
| "dart_scan dart_val prefix_sum (d # ds) i tmp_pivot =
     (if fle prefix_sum dart_val \<and> flt dart_val (fadd Binary64 prefix_sum d) then i
      else dart_scan dart_val (fadd Binary64 prefix_sum d) ds (i + 1) i)"

text \<open>\<open>std::min(a, b)\<close> is \<open>(b < a) ? b : a\<close>.\<close>

definition fmin :: "fp \<Rightarrow> fp \<Rightarrow> fp" where
  "fmin a b = (if flt b a then b else a)"

text \<open>One round of the loop; \<open>continue\<close> keeps all but the flag.\<close>

definition kpp_round :: "fp list \<Rightarrow> nat \<Rightarrow> nat \<Rightarrow> fp \<Rightarrow> kpp \<Rightarrow> kpp" where
  "kpp_round data num_points dm dart s =
     (let sm = foldl (fadd Binary64) fzero (kp_dist s);
          sum_flag = (if feq sm fzero then True else kp_sum_flag s);
          tmp_pivot = dart_scan (fmul Binary64 dart sm) fzero (kp_dist s) 0 0
      in if tmp_pivot \<in> set (kp_picked s) \<and> \<not> sum_flag then s\<lparr>kp_sum_flag := sum_flag\<rparr>
         else
           \<lparr>kp_num_picked = kp_num_picked s + 1, kp_picked = kp_picked s @ [tmp_pivot],
            kp_dist = map (\<lambda>i. fmin (kp_dist s ! i) (calc_distance (block data (i * dm) dm) (block data (tmp_pivot * dm) dm) dm)) [0..<num_points],
            kp_sum_flag = sum_flag,
            kp_pivots = blit (kp_pivots s) (kp_num_picked s * dm) (block data (tmp_pivot * dm) dm)\<rparr>)"

text \<open>The loop ends when \<open>num_centers\<close> points are picked, if ever; \<open>draws k\<close> is the value of \<open>distribution(generator)\<close> in round \<open>k\<close>.\<close>

partial_function (option) kpp_loop :: "fp list \<Rightarrow> nat \<Rightarrow> nat \<Rightarrow> nat \<Rightarrow> (nat \<Rightarrow> fp) \<Rightarrow> nat \<Rightarrow> kpp \<Rightarrow> kpp option" where
  "kpp_loop data num_points dm num_centers draws k s =
     (if kp_num_picked s < num_centers then kpp_loop data num_points dm num_centers draws (k + 1) (kpp_round data num_points dm (draws k) s)
      else Some s)"

definition kpp_start :: "fp list \<Rightarrow> nat \<Rightarrow> nat \<Rightarrow> fp list \<Rightarrow> nat \<Rightarrow> kpp" where
  "kpp_start data num_points dm pivot_data init_id =
     \<lparr>kp_num_picked = 1, kp_picked = [init_id],
      kp_dist = map (\<lambda>i. calc_distance (block data (i * dm) dm) (block data (init_id * dm) dm) dm) [0..<num_points],
      kp_sum_flag = False, kp_pivots = blit pivot_data 0 (block data (init_id * dm) dm)\<rparr>"

definition kmeanspp_selecting_pivots ::
  "(nat \<Rightarrow> nat) \<Rightarrow> (nat \<Rightarrow> fp) \<Rightarrow> fp list \<Rightarrow> nat \<Rightarrow> nat \<Rightarrow> fp list \<Rightarrow> nat \<Rightarrow> fp list res option" where
  "kmeanspp_selecting_pivots idraw draws data num_points dm pivot_data num_centers =
     (if num_points > 2 ^ 23 then Some (selecting_pivots idraw data num_points dm pivot_data num_centers)
      else
        let init_id = idraw 0
        in if num_points \<le> init_id then Some (Inl OutOfRange)
           else map_option (\<lambda>s. Inr (kp_pivots s))
                  (kpp_loop data num_points dm num_centers draws 0 (kpp_start data num_points dm pivot_data init_id)))"

section \<open>The dart\<close>

lemma ilog2_unique:
  assumes "pow2 e \<le> x" "x < pow2 (e + 1)"
  shows "ilog2 x = e"
proof -
  have x: "0 < x" using assms(1) pow2_pos[of e] by linarith
  have "pow2 (ilog2 x) < pow2 (e + 1)" "pow2 e < pow2 (ilog2 x + 1)" using ilog2_bounds[OF x] assms by linarith+
  then show ?thesis by (simp add: pow2_less_iff)
qed

lemma below_one:
  assumes "representable Binary64 d" "d < 1"
  shows "d \<le> 1 - pow2 (- 53)"
proof -
  obtain m q where d: "d = of_nat m * pow2 q" "m < 2 ^ 53" using assms(1) by (auto simp: representable_def)
  show ?thesis
  proof (cases "- 53 \<le> q")
    case True
    let ?k = "m * 2 ^ nat (q + 53)"
    have k: "d = of_nat ?k * pow2 (- 53)"
    proof -
      have "d = of_nat m * pow2 (q + 53) * pow2 (- 53)" unfolding d(1) by (simp add: mult.assoc flip: pow2_add)
      then show ?thesis using True by (simp add: pow2_nat)
    qed
    have "of_nat ?k * pow2 (- 53) < of_nat (2 ^ 53) * pow2 (- 53)" using assms(2) k by (simp add: pow2_def)
    then have "?k < 2 ^ 53" by (simp only: mult_less_cancel_right_pos[OF pow2_pos] of_nat_less_iff)
    then have "of_nat ?k \<le> (of_nat (2 ^ 53 - 1) :: rat)" by (simp only: of_nat_le_iff)
    then have "d \<le> of_nat (2 ^ 53 - 1) * pow2 (- 53)" unfolding k by (rule mult_right_mono) (simp add: less_imp_le)
    then show ?thesis by (simp add: pow2_def)
  next
    case False
    have "d \<le> pow2 53 * pow2 q" unfolding d(1) using of_nat_lt_pow2[OF d(2)] by (intro mult_right_mono) (simp_all add: less_imp_le)
    also have "\<dots> = pow2 (53 + q)" by (simp add: pow2_add)
    also have "\<dots> \<le> pow2 (- 1)" using False by (intro pow2_mono) simp
    finally show ?thesis by (simp add: pow2_def)
  qed
qed

lemma normal_form:
  assumes "representable Binary64 s" "pow2 (- 1000) \<le> s"
  obtains K where "s = of_nat K * pow2 (ilog2 s - 52)" "2 ^ 52 \<le> K" "K < 2 ^ 53"
proof -
  obtain m q where s: "s = of_nat m * pow2 q" "m < 2 ^ 53" using assms(1) by (auto simp: representable_def)
  have pos: "0 < s" using assms(2) pow2_pos[of "- 1000"] by linarith
  let ?e = "ilog2 s"
  note lg = ilog2_bounds[OF pos]
  have "s < pow2 53 * pow2 q" unfolding s(1) using of_nat_lt_pow2[OF s(2)] by simp
  then have "pow2 ?e < pow2 (53 + q)" using lg(1) by (simp add: pow2_add)
  then have q: "?e - 52 \<le> q" by (simp add: pow2_less_iff)
  let ?K = "m * 2 ^ nat (q - (?e - 52))"
  have "s = of_nat m * pow2 (q - (?e - 52)) * pow2 (?e - 52)" using pow2_add[of "q - (?e - 52)" "?e - 52"] s(1) by simp
  then have K: "s = of_nat ?K * pow2 (?e - 52)" using q by (simp add: pow2_nat)
  have "of_nat (2 ^ 52) * pow2 (?e - 52) \<le> of_nat ?K * pow2 (?e - 52)" "of_nat ?K * pow2 (?e - 52) < of_nat (2 ^ 53) * pow2 (?e - 52)"
    using lg pow2_add[of 52 "?e - 52"] pow2_add[of 53 "?e - 52"] unfolding K[symmetric] by (simp_all add: pow2_nat add.commute)
  then have "2 ^ 52 \<le> ?K" "?K < 2 ^ 53"
    by (simp_all only: mult_le_cancel_right_pos[OF pow2_pos] mult_less_cancel_right_pos[OF pow2_pos] of_nat_le_iff of_nat_less_iff)
  then show thesis using that[of ?K] K by blast
qed

text \<open>A double below one times a normal double, rounded, stays below it.\<close>

lemma product_below:
  assumes "representable Binary64 d" "d < 1" "representable Binary64 s" "pow2 (- 1000) \<le> s" "0 < d"
  shows "rounded Binary64 (d * s) < s"
proof -
  let ?e = "ilog2 s" and ?x = "d * s"
  obtain K where K: "s = of_nat K * pow2 (?e - 52)" "2 ^ 52 \<le> K" "K < 2 ^ 53" by (rule normal_form[OF assms(3,4)])
  have s: "0 < s" "s < pow2 1024" using less_le_trans[OF pow2_pos assms(4)] assms(3) by (auto simp: representable_def)
  have x: "0 < ?x" "?x \<le> (1 - pow2 (- 53)) * s"
    using s(1) assms(5) below_one[OF assms(1,2)] by (simp_all add: mult_right_mono)
  have e: "- 1000 \<le> ?e"
  proof -
    have "pow2 (- 1000) < pow2 (?e + 1)" using ilog2_bounds(2)[OF s(1)] assms(4) by linarith
    then show ?thesis by (simp add: pow2_less_iff)
  qed
  have rep: "representable Binary64 (of_nat k * pow2 q)" if "k < 2 ^ 53" "- 1074 \<le> q" "of_nat k * pow2 q < s" for k q
    using that s(2) by (auto simp: representable_def intro!: exI[of _ k] exI[of _ q])
  show ?thesis
  proof (cases "K = 2 ^ 52")
    case True
    have eq: "(1 - pow2 (- 53)) * s = of_nat (2 ^ 53 - 1) * pow2 (?e - 53)"
    proof -
      have "pow2 (?e - 52) = 2 * pow2 (?e - 53)" using pow2_add[of 1 "?e - 53"] by (simp add: pow2_def[of 1])
      then have "s = of_nat (2 ^ 53) * pow2 (?e - 53)" using K(1) True by simp
      moreover have "(1 - pow2 (- 53)) * of_nat (2 ^ 53) = of_nat (2 ^ 53 - 1)" by (simp add: pow2_def)
      ultimately show ?thesis by (metis mult.assoc)
    qed
    moreover have "(1 - pow2 (- 53)) * s < s" using s(1) by simp
    ultimately have "representable Binary64 ((1 - pow2 (- 53)) * s)" using rep[of "2 ^ 53 - 1" "?e - 53"] e by simp
    then have "rounded Binary64 ?x \<le> (1 - pow2 (- 53)) * s" using x by (intro rounded_le)
    also have "\<dots> < s" using s(1) by simp
    finally show ?thesis .
  next
    case False
    let ?p = "of_nat (K - 1) * pow2 (?e - 52)"
    have "?p < of_nat K * pow2 (?e - 52)" using K(2) by (intro mult_strict_right_mono) simp_all
    then have p: "?p < s" unfolding K(1)[symmetric] .
    show ?thesis
    proof (cases "?x \<le> ?p")
      case True
      have "representable Binary64 ?p" using rep[of "K - 1" "?e - 52"] K(3) e p by simp
      from rounded_le[OF x(1) True this] p show ?thesis by linarith
    next
      case np: False
      have "2 ^ 52 \<le> K - 1" using K(2) False by simp
      then have "(of_nat (2 ^ 52) :: rat) \<le> of_nat (K - 1)" by (simp only: of_nat_le_iff)
      then have "of_nat (2 ^ 52) * pow2 (?e - 52) \<le> ?p" by (rule mult_right_mono) (simp add: less_imp_le)
      moreover have "pow2 ?e = of_nat (2 ^ 52) * pow2 (?e - 52)" using pow2_add[of 52 "?e - 52"] by (simp add: pow2_nat)
      ultimately have "pow2 ?e \<le> ?x" using np by linarith
      moreover have "?x < pow2 (?e + 1)" using ilog2_bounds(2)[OF s(1)] assms(2) s(1) by (meson less_trans mult_less_cancel_right2 not_le)
      ultimately have "ilog2 ?x = ?e" by (rule ilog2_unique)
      then have lp: "last_place Binary64 ?x = ?e - 52" using e by (simp add: last_place_def)
      have "?x / pow2 (?e - 52) \<le> (1 - pow2 (- 53)) * of_nat K" using x(2) K(1) by (simp add: divide_le_eq mult.assoc)
      also have "\<dots> < of_nat K - 1/2"
      proof -
        have "(of_nat (2 ^ 52) :: rat) < of_nat K" using K(2) False by (simp only: of_nat_less_iff)
        then show ?thesis by (simp add: pow2_def left_diff_distrib)
      qed
      finally have "of_int (round_half_even (?x / pow2 (?e - 52))) < (of_nat K :: rat)"
        using round_half_even_bounds(1)[of "?x / pow2 (?e - 52)"] by linarith
      then have "rounded Binary64 ?x < of_nat K * pow2 (?e - 52)" unfolding rounded_def lp by (intro mult_strict_right_mono) simp_all
      then show ?thesis unfolding K(1)[symmetric] .
    qed
  qed
qed

text \<open>A distance: a non-negative finite float.\<close>

definition dist_ok :: "fp \<Rightarrow> bool" where
  "dist_ok x \<longleftrightarrow> (\<exists>m. x = Fin False m \<and> representable Binary32 m)"

abbreviation flt_max_rat :: rat where "flt_max_rat \<equiv> (2 ^ 24 - 1) * 2 ^ 104"

lemma representable_flt_max: "representable Binary32 flt_max_rat"
proof -
  have eq: "flt_max_rat = of_nat (2 ^ 24 - 1) * pow2 104" by (simp add: pow2_def)
  have "of_nat (2 ^ 24 - 1) * pow2 104 < of_nat (2 ^ 24) * pow2 104" by (rule mult_strict_right_mono) simp_all
  also have "\<dots> = pow2 128" using pow2_add[of 24 104] by (simp add: pow2_nat)
  finally have "flt_max_rat < pow2 (emax Binary32 + 1)" unfolding eq by simp
  moreover have "(2 ^ 24 - 1 :: nat) < 2 ^ prec Binary32" "qmin Binary32 \<le> 104" by simp_all
  ultimately show ?thesis unfolding representable_def using eq by blast
qed

lemma representable_le_max:
  assumes "representable Binary32 m"
  shows "m \<le> flt_max_rat"
proof -
  obtain k q where m: "m = of_nat k * pow2 q" "k < 2 ^ 24" "m < pow2 128" using assms by (auto simp: representable_def)
  show ?thesis
  proof (cases "q \<le> 104")
    case True
    have "(of_nat k :: rat) \<le> of_nat (2 ^ 24 - 1)" using m(2) by (simp only: of_nat_le_iff)
    moreover have "pow2 q \<le> pow2 104" using True by (rule pow2_mono)
    ultimately have "m \<le> of_nat (2 ^ 24 - 1) * pow2 104" unfolding m(1) by (intro mult_mono) (simp_all add: less_imp_le)
    then show ?thesis by (simp add: pow2_def)
  next
    case False
    let ?n = "k * 2 ^ nat (q - 104)"
    have n: "m = of_nat ?n * pow2 104" using pow2_add[of "q - 104" 104] False m(1) by (simp add: pow2_nat)
    then have "of_nat ?n * pow2 104 < of_nat (2 ^ 24) * pow2 104" using m(3) by (simp add: pow2_def)
    then have "?n < 2 ^ 24" by (simp only: mult_less_cancel_right_pos[OF pow2_pos] of_nat_less_iff)
    then have "(of_nat ?n :: rat) \<le> of_nat (2 ^ 24 - 1)" by (simp only: of_nat_le_iff)
    then have "m \<le> of_nat (2 ^ 24 - 1) * pow2 104" unfolding n by (rule mult_right_mono) (simp add: less_imp_le)
    then show ?thesis by (simp add: pow2_def)
  qed
qed

lemma dist_ok_bounded: "dist_ok x \<Longrightarrow> bounded Binary32 flt_max_rat x"
  using representable_le_max by (auto simp: dist_ok_def bounded_def)

lemma representable_min: "representable Binary32 m \<Longrightarrow> m \<noteq> 0 \<Longrightarrow> pow2 (- 149) \<le> m"
proof -
  assume m: "representable Binary32 m" "m \<noteq> 0"
  then obtain k q where k: "m = of_nat k * pow2 q" "- 149 \<le> q" by (auto simp: representable_def)
  have "1 * pow2 (- 149) \<le> of_nat k * pow2 q"
    using m(2) k(1) pow2_mono[OF k(2)] by (intro mult_mono) (auto simp: Suc_le_eq less_imp_le of_nat_0_less_iff intro: Suc_leI)
  then show ?thesis using k(1) by simp
qed

text \<open>Adding a distance to a partial sum of \<open>i\<close> distances.\<close>

lemma add_dist:
  assumes "representable Binary64 a" "a \<le> of_nat i * flt_max_rat" "representable Binary32 b" "i + 1 < 2 ^ 29"
  obtains c where "fadd Binary64 (Fin False a) (Fin False b) = Fin False c" "representable Binary64 c" "c \<le> of_nat (i + 1) * flt_max_rat"
    "a \<le> c" "b \<le> c" "b = 0 \<longrightarrow> c = a"
proof (cases "a + b = 0")
  case True
  then have "a = 0" "b = 0" using representable_nonneg[OF assms(1)] representable_nonneg[OF assms(3)] by linarith+
  then show thesis by (intro that[of 0]) simp_all
next
  case False
  have nn: "0 \<le> a" "0 \<le> b" using representable_nonneg assms(1,3) by blast+
  then have pos: "0 < a + b" using False by simp
  have "a + b \<le> of_nat (i + 1) * flt_max_rat" using assms(2) representable_le_max[OF assms(3)] by (simp add: algebra_simps)
  then have "bounded Binary64 (of_nat (i + 1) * flt_max_rat) (fround Binary64 False (a + b))"
    using pos representable_scaled[OF representable_flt_max assms(4)] by (intro fround_bounded) simp_all
  then obtain c s where c: "fround Binary64 False (a + b) = Fin s c" "representable Binary64 c" "c \<le> of_nat (i + 1) * flt_max_rat"
    by (auto simp: bounded_def)
  then have r: "s = False" "c = rounded Binary64 (a + b)" using fround_rounded[of "a + b" Binary64 False] False by (auto split: if_splits)
  have "a \<le> c" "b \<le> c"
    unfolding r(2) using pos nn assms(1) representable_wider[OF assms(3)] by (intro rounded_ge; simp)+
  moreover have "c = a" if "b = 0" using c(1) fround_exact[OF assms(1), of False] that by simp
  ultimately show thesis using that[of c] c r(1) pos nn by (simp add: Let_def)
qed

lemma dart_hits:
  assumes "\<forall>d \<in> set ds. dist_ok d" "representable Binary64 a" "a \<le> of_nat k * flt_max_rat" "k + length ds < 2 ^ 29" "a \<le> x"
    and "foldl (fadd Binary64) (Fin False a) ds = Fin False z" "x < z"
  shows "\<exists>j < length ds. dart_scan (Fin False x) (Fin False a) ds i t = i + j \<and> ds ! j \<noteq> fzero"
  using assms
proof (induction ds arbitrary: a k i t)
  case (Cons d ds)
  obtain b where b: "d = Fin False b" "representable Binary32 b" using Cons.prems(1) by (auto simp: dist_ok_def)
  obtain c where c: "fadd Binary64 (Fin False a) d = Fin False c" "representable Binary64 c" "c \<le> of_nat (k + 1) * flt_max_rat" "a \<le> c" "b = 0 \<longrightarrow> c = a"
    using add_dist[OF Cons.prems(2,3) b(2)] Cons.prems(4) b(1) by (metis add_lessD1 add.assoc length_Cons plus_1_eq_Suc)
  show ?case
  proof (cases "x < c")
    case True
    then have "d \<noteq> fzero" using c(5) b(1) Cons.prems(5) by auto
    then show ?thesis using True c(1) Cons.prems(5) by (intro exI[of _ 0]) (auto simp: fle_def)
  next
    case False
    then obtain j where "j < length ds" "dart_scan (Fin False x) (Fin False c) ds (i + 1) i = i + 1 + j" "ds ! j \<noteq> fzero"
      using Cons.IH[of c "k + 1" "i + 1" i] Cons.prems c by auto
    then show ?thesis using False c(1) by (intro exI[of _ "Suc j"]) auto
  qed
qed auto

lemma dist_sum:
  assumes "\<forall>d \<in> set ds. dist_ok d" "length ds < 2 ^ 29"
  shows "\<exists>z. foldl (fadd Binary64) fzero ds = Fin False z \<and> representable Binary64 z \<and> z \<le> of_nat (length ds) * flt_max_rat \<and>
      (\<forall>d \<in> set ds. fval d \<le> z) \<and> ((\<forall>d \<in> set ds. d = fzero) \<longrightarrow> z = 0)"
  using assms
proof (induction ds rule: rev_induct)
  case (snoc d ds)
  then obtain z where z: "foldl (fadd Binary64) fzero ds = Fin False z" "representable Binary64 z" "z \<le> of_nat (length ds) * flt_max_rat"
    "\<forall>d \<in> set ds. fval d \<le> z" "(\<forall>d \<in> set ds. d = fzero) \<longrightarrow> z = 0" by auto
  obtain b where b: "d = Fin False b" "representable Binary32 b" using snoc.prems(1) by (auto simp: dist_ok_def)
  have len: "length ds + 1 < 2 ^ 29" using snoc.prems(2) by simp
  obtain c where c: "fadd Binary64 (Fin False z) (Fin False b) = Fin False c" "representable Binary64 c"
    "c \<le> of_nat (length ds + 1) * flt_max_rat" "z \<le> c" "b \<le> c" "b = 0 \<longrightarrow> c = z"
    by (rule add_dist[OF z(2,3) b(2) len])
  have "\<forall>x \<in> set (ds @ [d]). fval x \<le> c" using z(4) c(4,5) b(1) by auto
  then show ?case using z(1,5) b(1) c by (intro exI[of _ c]) auto
qed simp

definition unit_draw :: "fp \<Rightarrow> bool" where
  "unit_draw d \<longleftrightarrow> (\<exists>m. d = Fin False m \<and> representable Binary64 m \<and> m < 1)"

text \<open>A dart of \<open>[0, 1)\<close> hits a point that is not at distance zero, if there is one.\<close>

lemma dart_scan_hits:
  assumes "\<forall>d \<in> set ds. dist_ok d" "length ds < 2 ^ 29" "unit_draw dart" "\<not> feq (foldl (fadd Binary64) fzero ds) fzero"
  shows "\<exists>j < length ds. dart_scan (fmul Binary64 dart (foldl (fadd Binary64) fzero ds)) fzero ds 0 0 = j \<and> ds ! j \<noteq> fzero"
proof -
  obtain z where z: "foldl (fadd Binary64) fzero ds = Fin False z" "representable Binary64 z" "\<forall>d \<in> set ds. fval d \<le> z"
    "(\<forall>d \<in> set ds. d = fzero) \<longrightarrow> z = 0" using dist_sum[OF assms(1,2)] by auto
  have "z \<noteq> 0" using assms(4) z(1) by simp
  then obtain d where d: "d \<in> set ds" "d \<noteq> fzero" using z(4) by blast
  then obtain b where b: "d = Fin False b" "representable Binary32 b" using assms(1) by (auto simp: dist_ok_def)
  have "pow2 (- 1000) \<le> pow2 (- 149)" by (rule pow2_mono) simp
  also have "\<dots> \<le> b" using representable_min[OF b(2)] d(2) b(1) by simp
  also have "b \<le> z" using z(3) d(1) b(1) by auto
  finally have zb: "pow2 (- 1000) \<le> z" .
  then have zp: "0 < z" using pow2_pos[of "- 1000"] by linarith
  obtain m where m: "dart = Fin False m" "representable Binary64 m" "m < 1" using assms(3) by (auto simp: unit_draw_def)
  have "\<exists>x. fmul Binary64 dart (Fin False z) = Fin False x \<and> 0 \<le> x \<and> x < z"
  proof (cases "m = 0")
    case True
    then show ?thesis using m(1) zp by (simp add: fround_def)
  next
    case False
    have mp: "0 < m" using representable_nonneg[OF m(2)] False by simp
    have r: "rounded Binary64 (m * z) < z" by (rule product_below[OF m(2,3) z(2) zb mp])
    moreover have "z < pow2 (emax Binary64 + 1)" using z(2) by (auto simp: representable_def)
    ultimately have "fmul Binary64 dart (Fin False z) = Fin False (rounded Binary64 (m * z))"
      using fround_rounded[of "m * z" Binary64 False] mp zp m(1) by simp
    moreover have "0 \<le> rounded Binary64 (m * z)" using mp zp by (intro rounded_ge) simp_all
    ultimately show ?thesis using r by blast
  qed
  then obtain x where x: "fmul Binary64 dart (Fin False z) = Fin False x" "0 \<le> x" "x < z" by blast
  show ?thesis using dart_hits[of ds 0 0 x z 0 0] assms(1,2) x z(1) by simp
qed

section \<open>The rounds\<close>

abbreviation point_dist :: "fp list \<Rightarrow> nat \<Rightarrow> nat \<Rightarrow> nat \<Rightarrow> fp" where
  "point_dist data dm i j \<equiv> calc_distance (block data (i * dm) dm) (block data (j * dm) dm) dm"

text \<open>The state between rounds: \<open>dist\<close> holds for every point its distance to a picked point, zero for the picked ones, and the
  picked points differ until all distances are zero.\<close>

definition kpp_inv :: "fp list \<Rightarrow> nat \<Rightarrow> nat \<Rightarrow> nat \<Rightarrow> kpp \<Rightarrow> bool" where
  "kpp_inv data n dm nc s \<longleftrightarrow> kp_num_picked s = length (kp_picked s) \<and> set (kp_picked s) \<subseteq> {..<n} \<and>
     length (kp_dist s) = n \<and> (\<forall>d \<in> set (kp_dist s). dist_ok d) \<and> (\<forall>p \<in> set (kp_picked s). kp_dist s ! p = fzero) \<and>
     (\<forall>i < n. \<exists>p \<in> set (kp_picked s). kp_dist s ! i = point_dist data dm i p) \<and>
     length (kp_pivots s) = nc * dm \<and> (\<forall>k < kp_num_picked s. block (kp_pivots s) (k * dm) dm = block data (kp_picked s ! k * dm) dm) \<and>
     (kp_sum_flag s \<longrightarrow> (\<forall>i < n. kp_dist s ! i = fzero)) \<and> (distinct (kp_picked s) \<or> kp_sum_flag s)"

definition points_ok :: "fp list \<Rightarrow> nat \<Rightarrow> nat \<Rightarrow> bool" where
  "points_ok data n dm \<longleftrightarrow> length data = n * dm \<and> (\<forall>i < n. point_dist data dm i i = fzero) \<and> (\<forall>i < n. \<forall>j < n. dist_ok (point_dist data dm i j))"

lemma dart_scan_lt: "0 < length ds \<Longrightarrow> dart_scan x a ds i t < i + length ds"
proof (induction ds arbitrary: a i t)
  case (Cons d ds)
  show ?case
  proof (cases "ds = []")
    case False
    then show ?thesis using Cons.IH[of "fadd Binary64 a d" "i + 1" i] by simp
  qed simp
qed simp

lemma fmin_dist: "dist_ok a \<Longrightarrow> dist_ok b \<Longrightarrow> dist_ok (fmin a b)" "dist_ok a \<Longrightarrow> fmin a fzero = fzero" "dist_ok b \<Longrightarrow> fmin fzero b = fzero"
  "fmin a b = a \<or> fmin a b = b"
  by (auto simp: fmin_def dist_ok_def not_less dest: representable_nonneg intro: order.antisym)

lemma mult_row_le: "a < b \<Longrightarrow> a * dm + dm \<le> b * (dm :: nat)"
proof -
  assume "a < b"
  then have "Suc a * dm \<le> b * dm" by (intro mult_le_mono1) simp
  then show ?thesis by simp
qed

lemma kpp_start_inv:
  assumes "points_ok data n dm" "id0 < n" "length pv = nc * dm" "0 < nc"
  shows "kpp_inv data n dm nc (kpp_start data n dm pv id0)"
proof -
  have "dm \<le> length pv" "length (block data (id0 * dm) dm) = dm"
    using assms mult_row_le[of id0 n dm] by (simp_all add: points_ok_def Suc_le_eq)
  then show ?thesis
    using assms(1-3) block_blit_same[of 0 "block data (id0 * dm) dm" pv] by (auto simp: kpp_inv_def kpp_start_def points_ok_def)
qed

lemma sum_zero:
  assumes "\<forall>d \<in> set ds. dist_ok d" "length ds < 2 ^ 29" "feq (foldl (fadd Binary64) fzero ds) fzero" "d \<in> set ds"
  shows "d = fzero"
proof -
  obtain z where "foldl (fadd Binary64) fzero ds = Fin False z" "\<forall>d \<in> set ds. fval d \<le> z" using dist_sum[OF assms(1,2)] by blast
  then have "fval d \<le> 0" using assms(3,4) by auto
  moreover obtain m where "d = Fin False m" "0 \<le> m" using assms(1,4) representable_nonneg by (auto simp: dist_ok_def)
  ultimately show ?thesis by simp
qed

lemma pick_inv:
  assumes "kpp_inv data n dm nc s" "points_ok data n dm" "t < n" "kp_num_picked s < nc" "fl \<longrightarrow> (\<forall>i < n. kp_dist s ! i = fzero)"
    and "t \<notin> set (kp_picked s) \<and> distinct (kp_picked s) \<or> fl"
  shows "kpp_inv data n dm nc
    \<lparr>kp_num_picked = kp_num_picked s + 1, kp_picked = kp_picked s @ [t], kp_dist = map (\<lambda>i. fmin (kp_dist s ! i) (point_dist data dm i t)) [0..<n],
     kp_sum_flag = fl, kp_pivots = blit (kp_pivots s) (kp_num_picked s * dm) (block data (t * dm) dm)\<rparr>" (is "kpp_inv _ _ _ _ ?s")
proof -
  note i = assms(1)[unfolded kpp_inv_def]
  have d: "dist_ok (kp_dist s ! k)" if "k < n" for k using i that by simp
  have p: "dist_ok (point_dist data dm a t)" "point_dist data dm t t = fzero" if "a < n" for a
    using assms(2,3) that by (simp_all add: points_ok_def)
  have "dm \<le> length data - t * dm" "t * dm + dm \<le> length data" using assms(2) mult_row_le[OF assms(3), of dm] by (simp_all add: points_ok_def)
  then have row: "length (block data (t * dm) dm) = dm" by simp
  have fit: "kp_num_picked s * dm + dm \<le> length (kp_pivots s)" using mult_row_le[OF assms(4), of dm] i by simp
  have dists: "length (kp_dist ?s) = n" "\<forall>x \<in> set (kp_dist ?s). dist_ok x" using d p(1) fmin_dist(1) by auto
  have zero: "kp_dist ?s ! q = fzero" if q: "q \<in> set (kp_picked ?s)" for q
  proof -
    have qn: "q < n" using q i assms(3) by auto
    have "kp_dist s ! q = fzero \<or> q = t" using q i by auto
    then show ?thesis using qn p[OF qn] d[OF qn] fmin_dist(2,3) by auto
  qed
  have near: "\<exists>q \<in> set (kp_picked ?s). kp_dist ?s ! k = point_dist data dm k q" if k: "k < n" for k
  proof -
    obtain q where "q \<in> set (kp_picked s)" "kp_dist s ! k = point_dist data dm k q" using i k by blast
    then show ?thesis using k fmin_dist(4)[of "kp_dist s ! k" "point_dist data dm k t"] by auto
  qed
  have rows: "block (kp_pivots ?s) (k * dm) dm = block data (kp_picked ?s ! k * dm) dm" if k: "k < kp_num_picked ?s" for k
  proof (cases "k = kp_num_picked s")
    case True
    then show ?thesis using block_blit_same[of "kp_num_picked s * dm" "block data (t * dm) dm" "kp_pivots s"] fit row i by simp
  next
    case False
    then have "k < kp_num_picked s" using k by simp
    then show ?thesis
      using block_blit_before[of "k * dm" dm "kp_num_picked s * dm" "block data (t * dm) dm" "kp_pivots s"] fit row i mult_row_le[of k "kp_num_picked s" dm]
      by (simp add: nth_append)
  qed
  have flag: "\<forall>k < n. kp_dist ?s ! k = fzero" if fl using that assms(5) p(1) fmin_dist(3) by simp
  show ?thesis unfolding kpp_inv_def using dists zero near rows flag i assms(3,6) fit row by auto
qed

lemma kpp_round_ok:
  assumes "kpp_inv data n dm nc s" "points_ok data n dm" "0 < n" "n \<le> 2 ^ 23" "kp_num_picked s < nc" "unit_draw dart"
  shows "kpp_inv data n dm nc (kpp_round data n dm dart s) \<and> kp_num_picked (kpp_round data n dm dart s) = kp_num_picked s + 1"
proof -
  let ?ds = "kp_dist s" and ?sm = "foldl (fadd Binary64) fzero (kp_dist s)"
  let ?t = "dart_scan (fmul Binary64 dart ?sm) fzero ?ds 0 0"
  note i = assms(1)[unfolded kpp_inv_def]
  have ds: "\<forall>d \<in> set ?ds. dist_ok d" "length ?ds < 2 ^ 29" "length ?ds = n" using i assms(4) by auto
  let ?r = "\<lambda>fl. \<lparr>kp_num_picked = kp_num_picked s + 1, kp_picked = kp_picked s @ [?t], kp_dist = map (\<lambda>i. fmin (?ds ! i) (point_dist data dm i ?t)) [0..<n],
     kp_sum_flag = fl, kp_pivots = blit (kp_pivots s) (kp_num_picked s * dm) (block data (?t * dm) dm)\<rparr>"
  show ?thesis
  proof (cases "feq ?sm fzero")
    case True
    then have "\<forall>k < n. ?ds ! k = fzero" using sum_zero[OF ds(1,2)] ds(3) by auto
    moreover have "?t < n" using dart_scan_lt[of ?ds "fmul Binary64 dart ?sm" fzero 0 0] assms(3) ds(3) by simp
    ultimately have "kpp_inv data n dm nc (?r True)" using assms(1,2,5) by (intro pick_inv) simp_all
    moreover have "kpp_round data n dm dart s = ?r True" using True by (simp add: kpp_round_def Let_def)
    ultimately show ?thesis by simp
  next
    case False
    obtain j where j: "j < n" "?t = j" "?ds ! j \<noteq> fzero" using dart_scan_hits[OF ds(1,2) assms(6) False] ds(3) by auto
    then have new: "?t \<notin> set (kp_picked s)" "\<not> kp_sum_flag s" using i by auto
    then have "kpp_inv data n dm nc (?r False)" using assms(1,2,5) j i by (intro pick_inv) simp_all
    moreover have "kpp_round data n dm dart s = ?r False" using False new by (simp add: kpp_round_def Let_def)
    ultimately show ?thesis by simp
  qed
qed

lemma kpp_loop_run:
  assumes "points_ok data n dm" "0 < n" "n \<le> 2 ^ 23" "\<forall>k. unit_draw (draws k)" "kpp_inv data n dm nc s" "kp_num_picked s \<le> nc"
  shows "\<exists>t. kpp_loop data n dm nc draws k s = Some t \<and> kpp_inv data n dm nc t \<and> kp_num_picked t = nc"
  using assms(5,6)
proof (induction "nc - kp_num_picked s" arbitrary: k s)
  case 0
  then show ?case by (subst kpp_loop.simps) simp
next
  case (Suc m)
  then have lt: "kp_num_picked s < nc" by simp
  note r = kpp_round_ok[OF Suc.prems(1) assms(1-3) lt assms(4)[rule_format, of k]]
  show ?case using Suc.hyps(1)[of "kpp_round data n dm (draws k) s" "k + 1"] Suc.hyps(2) r lt
    by (subst kpp_loop.simps) simp
qed

lemma fadd_wf: "wf_fp f (fadd f x y)"
  by (cases x; cases y) (auto simp: Let_def fround_wf)

lemma calc_distance_sum:
  assumes "\<forall>j < dm. is_fin (a ! j) \<and> is_fin (b ! j)"
  shows "fnonneg (calc_distance a b dm) \<and> wf_fp Binary32 (calc_distance a b dm)" "\<forall>j < dm. a ! j = b ! j \<Longrightarrow> calc_distance a b dm = fzero"
proof -
  let ?f = "\<lambda>j acc. fadd Binary32 acc (fmul Binary32 (fsub Binary32 (a ! j) (b ! j)) (fsub Binary32 (a ! j) (b ! j)))"
  have "fnonneg (fold ?f [0..<n] fzero) \<and> wf_fp Binary32 (fold ?f [0..<n] fzero)" if "n \<le> dm" for n
    using that assms by (induction n) (auto simp: fadd_wf fsub_fin_not_nan intro!: fadd_nonneg fmul_self_nonneg)
  then show "fnonneg (calc_distance a b dm) \<and> wf_fp Binary32 (calc_distance a b dm)" by (simp add: calc_distance_def)
  have "fold ?f [0..<n] fzero = fzero" if "n \<le> dm" "\<forall>j < dm. a ! j = b ! j" for n
    using that assms by (induction n) (auto simp: fsub_self fround_def)
  then show "calc_distance a b dm = fzero" if "\<forall>j < dm. a ! j = b ! j" using that by (simp add: calc_distance_def)
qed

lemma points_ok_finite:
  assumes "length data = n * dm" "\<forall>x \<in> set data. is_fin x" "\<forall>i < n. \<forall>j < n. is_fin (point_dist data dm i j)"
  shows "points_ok data n dm"
proof -
  have fin: "is_fin (block data (i * dm) dm ! k)" if "i < n" "k < dm" for i k
    using mult_row_le[OF that(1), of dm] that(2) assms(1,2) by simp
  have "dist_ok (point_dist data dm i j)" if "i < n" "j < n" for i j
    using calc_distance_sum(1)[of dm "block data (i * dm) dm" "block data (j * dm) dm"] fin that assms(3)[rule_format, OF that]
    by (cases "point_dist data dm i j") (auto simp: dist_ok_def)
  moreover have "point_dist data dm i i = fzero" if "i < n" for i
    using calc_distance_sum(2)[of dm "block data (i * dm) dm" "block data (i * dm) dm"] fin that by simp
  ultimately show ?thesis using assms(1) by (simp add: points_ok_def)
qed

section \<open>Properties\<close>

lemma kmeanspp_run:
  assumes "points_ok data n dm" "0 < n" "n \<le> 2 ^ 23" "idraw 0 < n" "\<forall>k. unit_draw (draws k)" "length pv = nc * dm" "0 < nc"
  shows "\<exists>ids pivots. kmeanspp_selecting_pivots idraw draws data n dm pv nc = Some (Inr pivots) \<and>
      length ids = nc \<and> set ids \<subseteq> {..<n} \<and> length pivots = nc * dm \<and> (\<forall>k < nc. block pivots (k * dm) dm = block data (ids ! k * dm) dm) \<and>
      (distinct ids \<or> (\<forall>i < n. \<exists>p \<in> set ids. point_dist data dm i p = fzero))"
proof -
  let ?s = "kpp_start data n dm pv (idraw 0)"
  have "kpp_inv data n dm nc ?s" by (rule kpp_start_inv[OF assms(1,4,6,7)])
  moreover have "kp_num_picked ?s \<le> nc" using assms(7) by (simp add: kpp_start_def Suc_le_eq)
  ultimately obtain t where t: "kpp_loop data n dm nc draws 0 ?s = Some t" "kpp_inv data n dm nc t" "kp_num_picked t = nc"
    using kpp_loop_run[OF assms(1-3,5)] by blast
  have "kmeanspp_selecting_pivots idraw draws data n dm pv nc = Some (Inr (kp_pivots t))"
    using assms(3,4) t(1) by (simp add: kmeanspp_selecting_pivots_def Let_def)
  moreover note i = t(2)[unfolded kpp_inv_def]
  have "distinct (kp_picked t) \<or> (\<forall>i < n. \<exists>p \<in> set (kp_picked t). point_dist data dm i p = fzero)" using i by metis
  ultimately show ?thesis using i t(3) by (intro exI[of _ "kp_picked t"] exI[of _ "kp_pivots t"]) auto
qed

text \<open>C19. On finite points with finite distances, and for any values of the random generators in their ranges, k-means++ returns: no round
  picks a point again while a point away from all picked ones is left, since a dart below one times the sum of the distances
  stays below the sum after rounding. Every centre is a row of the data, and the picked points are pairwise different or
  every point coincides with one of them.\<close>

theorem kmeanspp_returns:
  assumes "length data = n * dm" "\<forall>x \<in> set data. is_fin x" "\<forall>i < n. \<forall>j < n. is_fin (point_dist data dm i j)"
    and "0 < n" "n \<le> 2 ^ 23" "idraw 0 < n" "\<forall>k. unit_draw (draws k)" "length pv = nc * dm" "0 < nc"
  shows "\<exists>ids pivots. kmeanspp_selecting_pivots idraw draws data n dm pv nc = Some (Inr pivots) \<and>
      length ids = nc \<and> set ids \<subseteq> {..<n} \<and> length pivots = nc * dm \<and> (\<forall>k < nc. block pivots (k * dm) dm = block data (ids ! k * dm) dm) \<and>
      (distinct ids \<or> (\<forall>i < n. \<exists>p \<in> set ids. point_dist data dm i p = fzero))"
  by (rule kmeanspp_run[of data n dm idraw draws pv nc, OF points_ok_finite[OF assms(1-3)] assms(4-9)])

theorem kmeanspp_returns_witness:
  "\<exists>ids pivots. kmeanspp_selecting_pivots (\<lambda>_. 1) (\<lambda>_. fzero) [fzero, fzero] 2 1 [fzero, fzero] 2 = Some (Inr pivots) \<and>
     length ids = 2 \<and> set ids \<subseteq> {..<2 :: nat} \<and> length pivots = 2 * 1"
proof -
  have pd: "point_dist [fzero, fzero] 1 i j = fzero" if "i < 2" "j < 2" for i j
    using that by (auto simp: less_2_cases_iff calc_distance_def block_def fsub_def fround_def)
  show ?thesis
    using kmeanspp_returns[of "[fzero, fzero]" 2 1 "\<lambda>_. 1" "\<lambda>_. fzero" "[fzero, fzero]" 2] pd by (simp add: unit_draw_def) (elim exE conjE, blast)
qed

text \<open>A state no round changes.\<close>

lemma kpp_loop_stuck:
  assumes "\<And>d. kpp_round data n dm d s = s" "kp_num_picked s < nc"
  shows "kpp_loop data n dm nc draws k s = None"
proof (rule ccontr)
  assume "kpp_loop data n dm nc draws k s \<noteq> None"
  then obtain r where r: "kpp_loop data n dm nc draws k s = Some r" by blast
  have "(\<forall>d. kpp_round data n dm d s = s) \<longrightarrow> kp_num_picked s < nc \<longrightarrow> False"
    by (rule kpp_loop.raw_induct[OF _ r]) metis
  then show False using assms by blast
qed

lemma fadd_NaN [simp]: "fadd f x NaN = NaN"
  by (cases x) simp_all

lemma sum_NaN: "NaN \<in> set xs \<Longrightarrow> foldl (fadd f) z xs = NaN"
proof -
  have "foldl (fadd f) NaN xs = NaN" for xs by (induction xs) simp_all
  then show "NaN \<in> set xs \<Longrightarrow> foldl (fadd f) z xs = NaN" by (induction xs arbitrary: z) auto
qed

lemma calc_distance_NaN: "j < dm \<Longrightarrow> a ! j = NaN \<Longrightarrow> calc_distance a b dm = NaN"
proof -
  assume j: "j < dm" "a ! j = NaN"
  let ?x = "\<lambda>j. fmul Binary32 (fsub Binary32 (a ! j) (b ! j)) (fsub Binary32 (a ! j) (b ! j))"
  have "calc_distance a b dm = foldl (fadd Binary32) fzero (map ?x [0..<dm])"
    by (simp add: calc_distance_def foldl_conv_fold fold_map comp_def)
  moreover have "?x j = NaN" using j(2) by (simp add: fsub_def)
  then have "NaN \<in> set (map ?x [0..<dm])" using j(1) by force
  ultimately show ?thesis using sum_NaN by metis
qed

lemma dart_scan_NaN: "dart_scan NaN a ds i t = (if ds = [] then t else i + length ds - 1)"
  by (induction ds arbitrary: a i t) (auto simp: fle_def)

lemma kpp_round_NaN:
  assumes "NaN \<in> set (kp_dist s)" "length (kp_dist s) = n"
  shows "kpp_round data n dm d s =
    (if n - 1 \<in> set (kp_picked s) \<and> \<not> kp_sum_flag s then s
     else \<lparr>kp_num_picked = kp_num_picked s + 1, kp_picked = kp_picked s @ [n - 1],
           kp_dist = map (\<lambda>i. fmin (kp_dist s ! i) (point_dist data dm i (n - 1))) [0..<n], kp_sum_flag = kp_sum_flag s,
           kp_pivots = blit (kp_pivots s) (kp_num_picked s * dm) (block data ((n - 1) * dm) dm)\<rparr>)"
proof -
  have "fmul Binary64 d NaN = NaN" by (cases d) simp_all
  moreover have "kp_dist s \<noteq> []" using assms(1) by auto
  ultimately show ?thesis
    using sum_NaN[OF assms(1)] assms(2) by (simp add: kpp_round_def Let_def dart_scan_NaN)
qed

text \<open>k-means++ on data with a coordinate that is not a number never returns when three centres are asked for: the sum of the
  distances is not a number, every dart ends at the last point, and the loop goes on picking it again and again.\<close>

lemma kmeanspp_diverges:
  assumes "length data = n * dm" "p < n" "j < dm" "data ! (p * dm + j) = NaN" "n \<le> 2 ^ 23" "idraw 0 < n" "3 \<le> nc"
  shows "kmeanspp_selecting_pivots idraw draws data n dm pv nc = None"
proof -
  have row: "block data (p * dm) dm ! j = NaN" using mult_row_le[OF assms(2), of dm] assms(1,3,4) by simp
  have nan: "point_dist data dm p q = NaN" for q by (rule calc_distance_NaN[where j = j, OF assms(3) row])
  let ?s = "kpp_start data n dm pv (idraw 0)"
  have "NaN = map (\<lambda>i. point_dist data dm i (idraw 0)) [0..<n] ! p" using nan assms(2) by simp
  then have s: "NaN \<in> set (kp_dist ?s)" "length (kp_dist ?s) = n" "\<not> kp_sum_flag ?s" "kp_num_picked ?s = 1" "kp_picked ?s = [idraw 0]"
    using assms(2) nth_mem[of p "map (\<lambda>i. point_dist data dm i (idraw 0)) [0..<n]"] by (simp_all add: kpp_start_def)
  have "kpp_loop data n dm nc draws 0 ?s = None"
  proof (cases "idraw 0 = n - 1")
    case True
    then have "kpp_round data n dm d ?s = ?s" for d unfolding kpp_round_NaN[OF s(1,2)] using s(3,5) by simp
    then show ?thesis using assms(7) s(4) by (intro kpp_loop_stuck) simp_all
  next
    case False
    let ?t = "kpp_round data n dm (draws 0) ?s"
    have t: "kp_dist ?t = map (\<lambda>i. fmin (kp_dist ?s ! i) (point_dist data dm i (n - 1))) [0..<n]" "\<not> kp_sum_flag ?t" "kp_num_picked ?t = 2"
      "n - 1 \<in> set (kp_picked ?t)"
      using False s(3-5) by (simp_all add: kpp_round_NaN[OF s(1,2)])
    have "fmin (kp_dist ?s ! p) (point_dist data dm p (n - 1)) = NaN" using nan assms(2) by (simp add: kpp_start_def fmin_def)
    then have "kp_dist ?t ! p = NaN" using assms(2) by (simp add: t(1))
    then have "NaN \<in> set (kp_dist ?t)" using assms(2) nth_mem[of p "kp_dist ?t"] by (simp add: t(1))
    then have "kpp_loop data n dm nc draws 1 ?t = None"
      using assms(7) t by (intro kpp_loop_stuck) (simp_all add: kpp_round_NaN[of ?t n])
    then show ?thesis using assms(7) s(4) by (subst kpp_loop.simps) simp
  qed
  then show ?thesis using assms(5,6) by (simp add: kmeanspp_selecting_pivots_def Let_def)
qed

text \<open>The uniform choice skips a point drawn before without filling the row.\<close>

lemma selecting_pivots_repeat: "selecting_pivots (\<lambda>_. 0) [fone] 1 1 [fzero, fzero] 2 = Inr [fone, fzero]"
  by (simp add: selecting_pivots_def numeral_2_eq_2 blit_def block_def)

end
