(* ===== verification/Float_Bits.thy ===== *)
theory Float_Bits
  imports Float_Round Pq_Prune
begin

text \<open>The bits of a \<open>float\<close>, the inverse of \<open>f32_of_bits\<close> on the values of the format, and files of floats.\<close>

definition f32_bits :: "fp \<Rightarrow> nat" where
  "f32_bits x =
     (case x of
        NaN \<Rightarrow> 255 * 2 ^ 23 + 2 ^ 22
      | Inf s \<Rightarrow> (if s then 2 ^ 31 else 0) + 255 * 2 ^ 23
      | Fin s m \<Rightarrow> (if s then 2 ^ 31 else 0) +
          (if m < pow2 (- 126) then nat \<lfloor>m * pow2 149\<rfloor>
           else nat (ilog2 m + 127) * 2 ^ 23 + (nat \<lfloor>m * pow2 (23 - ilog2 m)\<rfloor> - 2 ^ 23)))"

lemma f32_of_fields:
  assumes "E < 256" "M < 2 ^ 23"
  shows "f32_of_bits ((if s then 2 ^ 31 else 0) + (E * 2 ^ 23 + M)) =
      (if E = 255 then (if M = 0 then Inf s else NaN)
       else if E = 0 then Fin s (of_nat M * pow2 (- 149)) else Fin s (of_nat (2 ^ 23 + M) * pow2 (int E - 150)))"
    "(if s then 2 ^ 31 else 0) + (E * 2 ^ 23 + M) < 2 ^ 32"
proof -
  let ?b = "E * 2 ^ 23 + M" and ?n = "(if s then 2 ^ 31 else 0) + (E * 2 ^ 23 + M)"
  have "E * 2 ^ 23 \<le> 255 * 2 ^ 23" using assms(1) by (intro mult_le_mono1) simp
  then have b: "?b < 2 ^ 31" using assms(2) by simp
  have n: "?n div 2 ^ 31 = (if s then 1 else 0)" using b by simp
  have "?n div 2 ^ 23 = (if s then 256 else 0) + E" using assms(2) by (simp add: div_add1_eq)
  then have e: "?n div 2 ^ 23 mod 256 = E" using assms(1) by simp
  have m: "?n mod 2 ^ 23 = M" using assms(2) by (simp add: mod_add_eq[symmetric])
  show "f32_of_bits ?n = (if E = 255 then (if M = 0 then Inf s else NaN)
       else if E = 0 then Fin s (of_nat M * pow2 (- 149)) else Fin s (of_nat (2 ^ 23 + M) * pow2 (int E - 150)))"
    unfolding f32_of_bits_def n e m Let_def by simp
  show "?n < 2 ^ 32" using b by simp
qed

lemma scaled_nat:
  assumes "x = of_nat k * pow2 q" "- q \<le> a"
  shows "x * pow2 a = of_nat (k * 2 ^ nat (q + a))"
proof -
  have "x * pow2 a = of_nat k * pow2 (q + a)" by (simp add: assms(1) pow2_add)
  also have "pow2 (q + a) = of_nat (2 ^ nat (q + a))" using assms(2) by (simp add: pow2_def)
  finally show ?thesis by simp
qed

lemma scale_back: "x * pow2 a = y \<Longrightarrow> y * pow2 (- a) = x"
  using pow2_add[of a "- a"] by (auto simp: pow2_def)

lemma f32_bits_inverse:
  assumes "wf_fp Binary32 x"
  shows "f32_of_bits (f32_bits x) = x" "f32_bits x < 2 ^ 32"
proof -
  have "f32_of_bits (f32_bits x) = x \<and> f32_bits x < 2 ^ 32"
  proof (cases x)
    case NaN
    then show ?thesis using f32_of_fields[of 255 "2 ^ 22" False] by (simp add: f32_bits_def)
  next
    case (Inf s)
    then show ?thesis using f32_of_fields[of 255 0 s] by (simp add: f32_bits_def)
  next
    case (Fin s m)
    then obtain k q where m: "m = of_nat k * pow2 q" "k < 2 ^ 24" "- 149 \<le> q" "m < pow2 128"
      using assms by (auto simp: representable_def)
    show ?thesis
    proof (cases "m < pow2 (- 126)")
      case True
      define n where "n = k * 2 ^ nat (q + 149)"
      have mn: "m * pow2 149 = of_nat n" unfolding n_def using m(3) by (intro scaled_nat[OF m(1)]) simp
      have "m * pow2 149 < pow2 (- 126) * pow2 149" using True by simp
      then have "(of_nat n :: rat) < of_nat (2 ^ 23)" unfolding mn by (simp add: pow2_def flip: pow2_add)
      then have n: "n < 2 ^ 23" by (simp only: of_nat_less_iff)
      have "f32_bits x = (if s then 2 ^ 31 else 0) + (0 * 2 ^ 23 + n)" using True Fin mn by (simp add: f32_bits_def)
      then show ?thesis using f32_of_fields[of 0 n s] n scale_back[OF mn] Fin by simp
    next
      case False
      have pos: "0 < m" using False pow2_pos[of "- 126"] by linarith
      define e where "e = ilog2 m"
      note lg = ilog2_bounds[OF pos, folded e_def]
      have "pow2 (- 126) < pow2 (e + 1)" using lg(2) False by linarith
      then have e1: "- 126 \<le> e" by (simp add: pow2_less_iff)
      have "pow2 e < pow2 128" using lg(1) m(4) by linarith
      then have e2: "e \<le> 127" by (simp add: pow2_less_iff)
      have "e - 23 \<le> q"
      proof (rule ccontr)
        assume "\<not> e - 23 \<le> q"
        then have "pow2 (24 + q) \<le> pow2 e" by (intro pow2_mono) simp
        moreover have "m < pow2 24 * pow2 q" unfolding m(1) using of_nat_lt_pow2[OF m(2)] by simp
        ultimately show False using lg(1) by (simp add: pow2_add)
      qed
      define n where "n = k * 2 ^ nat (q + (23 - e))"
      have mn: "m * pow2 (23 - e) = of_nat n" unfolding n_def using \<open>e - 23 \<le> q\<close> by (intro scaled_nat[OF m(1)]) simp
      have "pow2 e * pow2 (23 - e) \<le> m * pow2 (23 - e)" "m * pow2 (23 - e) < pow2 (e + 1) * pow2 (23 - e)" using lg by simp_all
      then have "(of_nat (2 ^ 23) :: rat) \<le> of_nat n" "(of_nat n :: rat) < of_nat (2 ^ 24)" 
        unfolding mn pow2_add[symmetric] by (simp_all add: pow2_nat)
      then have n: "2 ^ 23 \<le> n" "n < 2 ^ 24" by (simp_all only: of_nat_le_iff of_nat_less_iff)
      let ?E = "nat (e + 127)"
      have E: "?E < 255" "?E \<noteq> 0" "int ?E - 150 = - (23 - e)" using e1 e2 by auto
      have "f32_bits x = (if s then 2 ^ 31 else 0) + (?E * 2 ^ 23 + (n - 2 ^ 23))"
        using False Fin mn by (simp add: f32_bits_def flip: e_def)
      moreover have "n - 2 ^ 23 < 2 ^ 23" "2 ^ 23 + (n - 2 ^ 23) = n" using n by simp_all
      ultimately show ?thesis using f32_of_fields[of ?E "n - 2 ^ 23" s] E scale_back[OF mn] Fin by simp
    qed
  qed
  then show "f32_of_bits (f32_bits x) = x" "f32_bits x < 2 ^ 32" by auto
qed

end
