(* ===== verification/Pq_Chunks.thy ===== *)
theory Pq_Chunks
  imports Float_Round
begin

text \<open>
  How \<open>generate_pq_pivots\<close> (\<open>src/pq.cpp\<close>) distributes the dimensions over the chunks: every dimension goes to the
  least loaded bin that is not full. The loads are never updated, so it is the first bin that is not full.
\<close>

section \<open>The bins\<close>

text \<open>\<open>cur_best\<close> for a dimension; \<open>num_pq_chunks + 1\<close> when no bin is left.\<close>

definition pick_bin :: "fp list \<Rightarrow> nat list list \<Rightarrow> nat \<Rightarrow> nat" where
  "pick_bin bin_loads bin_to_dims cur_bin_threshold =
     fst (foldl (\<lambda>(cur_best, cur_best_load) b.
            if flt (bin_loads ! b) cur_best_load \<and> length (bin_to_dims ! b) < cur_bin_threshold then (b, bin_loads ! b)
            else (cur_best, cur_best_load))
          (length bin_to_dims + 1, flt_max) [0..<length bin_to_dims])"

record bins =
  bn_dims :: "nat list list"
  bn_num_high :: nat
  bn_threshold :: nat

definition place_dim :: "fp list \<Rightarrow> nat \<Rightarrow> nat \<Rightarrow> nat \<Rightarrow> nat \<Rightarrow> bins \<Rightarrow> bins res" where
  "place_dim bin_loads low_val high_val max_num_high d s =
     (let b = pick_bin bin_loads (bn_dims s) (bn_threshold s)
      in if length (bn_dims s) \<le> b then Inl OutOfRange
         else
           let dims = (bn_dims s)[b := bn_dims s ! b @ [d]]
           in if length (dims ! b) = high_val then
                let n = bn_num_high s + 1
                in Inr \<lparr>bn_dims = dims, bn_num_high = n, bn_threshold = (if n = max_num_high then low_val else bn_threshold s)\<rparr>
              else Inr (s\<lparr>bn_dims := dims\<rparr>))"

text \<open>\<open>chunk_offsets\<close>: the sizes of the bins summed up, with the dimension at the end.\<close>

definition offsets_of :: "nat \<Rightarrow> nat list list \<Rightarrow> nat list" where
  "offsets_of dm bin_to_dims =
     foldl (\<lambda>offs b. if 0 < b then offs @ [u32 (offs ! (b - 1) + length (bin_to_dims ! (b - 1)))] else offs) [0] [0..<length bin_to_dims]
     @ [dm]"

text \<open>A quotient that does not fit \<open>size_t\<close>, as for no chunks, is undefined.\<close>

definition chunk_offsets :: "nat \<Rightarrow> nat \<Rightarrow> nat list res" where
  "chunk_offsets dm num_pq_chunks =
     (case (floor_quot dm num_pq_chunks, ceil_quot dm num_pq_chunks) of
        (Some low_val, Some high_val) \<Rightarrow>
          rbind (rfold (place_dim (replicate num_pq_chunks fzero) low_val high_val (dm - low_val * num_pq_chunks)) [0..<dm]
                   \<lparr>bn_dims = replicate num_pq_chunks [], bn_num_high = 0, bn_threshold = high_val\<rparr>) (\<lambda>s.
            Inr (offsets_of dm (bn_dims s)))
      | _ \<Rightarrow> Inl OutOfRange)"

section \<open>The distribution\<close>

text \<open>The reference: with \<open>dm = n * q + r\<close> the first \<open>r\<close> of the \<open>n\<close> chunks have \<open>q + 1\<close> dimensions, the others \<open>q\<close>.\<close>

definition chunk_start :: "nat \<Rightarrow> nat \<Rightarrow> nat \<Rightarrow> nat" where
  "chunk_start dm n b = b * (dm div n) + min b (dm mod n)"

lemma pick_bin_first:
  assumes "b < n" "length dims = n" "length (dims ! b) < t" "\<And>c. c < b \<Longrightarrow> t \<le> length (dims ! c)"
  shows "pick_bin (replicate n fzero) dims t = b"
proof -
  let ?f = "\<lambda>(best, load) c. if flt (replicate n fzero ! c) load \<and> length (dims ! c) < t then (c, replicate n fzero ! c) else (best, load)"
  have "foldl ?f z [0..<c] = z" if "c \<le> b" for z c
    using that assms(1,4) by (induction c) (auto simp: not_less[symmetric] split: prod.split)
  then have "foldl ?f (n + 1, flt_max) [0..<Suc b] = (b, fzero)"
    using assms(1,3) by (simp add: flt_max_def)
  moreover have "foldl ?f (b, fzero) [Suc b..<n] = (b, fzero)"
  proof -
    have "foldl ?f (b, fzero) cs = (b, fzero)" if "set cs \<subseteq> {..<n}" for cs using that by (induction cs) auto
    moreover have "set [Suc b..<n] \<subseteq> {..<n}" by auto
    ultimately show ?thesis by blast
  qed
  moreover have "[0..<n] = [0..<Suc b] @ [Suc b..<n]" 
    using upt_add_eq_append[of 0 "Suc b" "n - Suc b"] assms(1) by simp
  ultimately show ?thesis using assms(2) by (simp add: pick_bin_def del: upt_Suc)
qed

lemma chunk_start_mono: "a \<le> b \<Longrightarrow> chunk_start dm n a \<le> chunk_start dm n b"
  by (auto simp: chunk_start_def intro!: add_mono mult_le_mono)

lemma chunk_start_Suc: "chunk_start dm n (Suc b) = chunk_start dm n b + (dm div n + (if b < dm mod n then 1 else 0))"
  by (auto simp: chunk_start_def min_def)

lemma chunk_start_end: "0 < n \<Longrightarrow> chunk_start dm n n = dm"
  by (simp add: chunk_start_def min_absorb2 less_imp_le)

lemma chunk_start_lt: "b < n \<Longrightarrow> n \<le> dm \<Longrightarrow> chunk_start dm n b < chunk_start dm n (Suc b)"
  by (simp add: chunk_start_Suc div_greater_zero_iff)

text \<open>After \<open>d\<close> dimensions: every bin holds the part below \<open>d\<close> of its range.\<close>

definition bins_inv :: "nat \<Rightarrow> nat \<Rightarrow> nat \<Rightarrow> bins \<Rightarrow> bool" where
  "bins_inv dm n d s \<longleftrightarrow>
     bn_dims s = map (\<lambda>b. [chunk_start dm n b..<min d (chunk_start dm n (Suc b))]) [0..<n] \<and>
     (dm mod n \<noteq> 0 \<longrightarrow> bn_num_high s = card {b. b < dm mod n \<and> chunk_start dm n (Suc b) \<le> d}) \<and>
     bn_threshold s = (if dm mod n \<noteq> 0 \<and> chunk_start dm n (dm mod n) \<le> d then dm div n else dm div n + (if dm mod n = 0 then 0 else 1))"

lemma bin_of_dim:
  assumes "d < dm" "0 < n"
  obtains b where "b < n" "chunk_start dm n b \<le> d" "d < chunk_start dm n (Suc b)"
proof -
  have "\<exists>b < m. chunk_start dm n b \<le> d \<and> d < chunk_start dm n (Suc b)" if "d < chunk_start dm n m" for m
    using that
  proof (induction m)
    case 0
    then show ?case by (simp add: chunk_start_def)
  next
    case (Suc m)
    then show ?case by (metis less_Suc_eq not_le)
  qed
  then show thesis using that chunk_start_end[OF assms(2)] assms(1) by metis
qed

lemma bins_inv_start: "0 < n \<Longrightarrow> n \<le> dm \<Longrightarrow>
  bins_inv dm n 0 \<lparr>bn_dims = replicate n [], bn_num_high = 0, bn_threshold = dm div n + (if dm mod n = 0 then 0 else 1)\<rparr>"
proof -
  assume n: "0 < n" "n \<le> dm"
  have pos: "0 < chunk_start dm n (Suc b)" if "b < n" for b using chunk_start_lt[OF that n(2)] by simp
  have "{b. b < dm mod n \<and> chunk_start dm n (Suc b) \<le> 0} = {}" using pos n(1) by (auto dest: less_trans[OF _ mod_less_divisor])
  moreover have "dm mod n \<noteq> 0 \<longrightarrow> 0 < chunk_start dm n (dm mod n)"
  proof (cases "dm mod n")
    case (Suc k)
    then have "k < n" using mod_less_divisor[OF n(1), of dm] by linarith
    from pos[OF this] show ?thesis using Suc by simp
  qed simp
  moreover have "map (\<lambda>b. [chunk_start dm n b..<min 0 (chunk_start dm n (Suc b))]) [0..<n] = replicate n []"
    by (simp add: map_replicate_const)
  ultimately show ?thesis by (auto simp: bins_inv_def)
qed

lemma place_dim_ok:
  assumes "bins_inv dm n d s" "d < dm" "0 < n" "n \<le> dm"
  shows "\<exists>s'. place_dim (replicate n fzero) (dm div n) (dm div n + (if dm mod n = 0 then 0 else 1)) (dm mod n) d s = Inr s' \<and> bins_inv dm n (Suc d) s'"
proof -
  let ?st = "chunk_start dm n" and ?q = "dm div n" and ?r = "dm mod n"
  let ?h = "?q + (if ?r = 0 then 0 else 1)"
  obtain b where b: "b < n" "?st b \<le> d" "d < ?st (Suc b)" by (rule bin_of_dim[OF assms(2,3)])
  have r: "?r < n" using assms(3) by simp
  have dims: "bn_dims s = map (\<lambda>b. [?st b..<min d (?st (Suc b))]) [0..<n]" using assms(1) by (simp add: bins_inv_def)
  have le: "?st c \<le> d" if "c \<le> b" for c using chunk_start_mono[OF that, of dm n] b(2) by linarith
  have gt: "d < ?st c" if "b < c" for c using chunk_start_mono[of "Suc b" c dm n] that b(3) by linarith
  have thr: "bn_threshold s = (if ?r \<noteq> 0 \<and> ?r \<le> b then ?q else ?h)"
  proof -
    have "?st ?r \<le> d \<longleftrightarrow> ?r \<le> b" using le[of ?r] gt[of ?r] by (cases "?r \<le> b") auto
    then show ?thesis using assms(1) by (simp add: bins_inv_def)
  qed
  have pick: "pick_bin (replicate n fzero) (bn_dims s) (bn_threshold s) = b"
  proof (rule pick_bin_first[OF b(1)])
    show "length (bn_dims s) = n" by (simp add: dims)
    show "length (bn_dims s ! b) < bn_threshold s" using b chunk_start_Suc[of dm n b] by (auto simp: dims thr)
    show "bn_threshold s \<le> length (bn_dims s ! c)" if "c < b" for c
      using that b(1) le[of "Suc c"] chunk_start_Suc[of dm n c] by (auto simp: dims thr)
  qed
  let ?dims = "(bn_dims s)[b := bn_dims s ! b @ [d]]"
  have nth: "?dims ! b = [?st b..<Suc d]" using b by (simp add: dims)
  have new: "?dims = map (\<lambda>b. [?st b..<min (Suc d) (?st (Suc b))]) [0..<n]"
  proof (rule nth_equalityI)
    fix c assume c: "c < length ?dims"
    show "?dims ! c = map (\<lambda>b. [?st b..<min (Suc d) (?st (Suc b))]) [0..<n] ! c"
    proof (cases "c = b")
      case True
      then show ?thesis using nth b by simp
    next
      case False
      then consider "c < b" | "b < c" by linarith
      then show ?thesis
      proof cases
        case 1
        then show ?thesis using c le[of "Suc c"] by (simp add: dims)
      next
        case 2
        then show ?thesis using c gt[of c] gt[of "Suc c"] by (simp add: dims)
      qed
    qed
  qed (simp add: dims)
  have full: "{c. c < ?r \<and> ?st (Suc c) \<le> d} = {..<min b ?r}"
  proof -
    have "?st (Suc c) \<le> d \<longleftrightarrow> c < b" for c using le[of "Suc c"] gt[of "Suc c"] by (cases "c < b") auto
    then have "{c. c < ?r \<and> ?st (Suc c) \<le> d} = {c. c < ?r \<and> c < b}" by presburger
    then show ?thesis by (simp add: set_eq_iff conj_commute)
  qed
  have num: "?r \<noteq> 0 \<longrightarrow> bn_num_high s = min b ?r" using assms(1) full by (simp add: bins_inv_def)
  have ln: "length (bn_dims s) = n" by (simp add: dims)
  let ?full = "length (?dims ! b) = ?h"
  have fl: "?full \<longleftrightarrow> Suc d = ?st (Suc b) \<and> (?r = 0 \<or> b < ?r)"
    unfolding nth using b chunk_start_Suc[of dm n b] by auto
  have full': "{c. c < ?r \<and> ?st (Suc c) \<le> Suc d} = (if Suc d = ?st (Suc b) then {..<min (Suc b) ?r} else {..<min b ?r})"
  proof -
    have "?st (Suc c) \<le> Suc d \<longleftrightarrow> c < b \<or> c = b \<and> Suc d = ?st (Suc b)" if "c < ?r" for c
    proof -
      have "Suc d < ?st (Suc c)" if "b < c" using chunk_start_lt[of c n dm] gt[OF that] \<open>c < ?r\<close> r assms(4) by linarith
      then show ?thesis using le[of "Suc c"] b(3) by (cases c b rule: linorder_cases) auto
    qed
    then have "{c. c < ?r \<and> ?st (Suc c) \<le> Suc d} = {c. c < ?r \<and> (c < b \<or> c = b \<and> Suc d = ?st (Suc b))}" by blast
    then show ?thesis by (simp add: set_eq_iff less_Suc_eq) blast
  qed
  have th: "?st ?r \<le> Suc d \<longleftrightarrow> ?r \<le> b \<or> ?r = Suc b \<and> Suc d = ?st (Suc b)"
  proof -
    have "Suc d < ?st ?r" if "Suc b < ?r"
    proof -
      define k where "k = ?r - 1"
      have k: "b < k" "k < n" "?r = Suc k" using that r by (auto simp: k_def)
      show ?thesis using chunk_start_lt[OF k(2) assms(4)] gt[OF k(1)] by (simp add: k(3))
    qed
    then show ?thesis using le[of ?r] b(3) by (cases ?r "Suc b" rule: linorder_cases) (auto simp: less_Suc_eq_le)
  qed
  show ?thesis
  proof (cases ?full)
    case True
    let ?n = "bn_num_high s + 1"
    have "place_dim (replicate n fzero) ?q ?h ?r d s =
        Inr \<lparr>bn_dims = ?dims, bn_num_high = ?n, bn_threshold = (if ?n = ?r then ?q else bn_threshold s)\<rparr>"
      unfolding place_dim_def pick Let_def ln using True b(1) by (simp only: if_False if_True not_le[symmetric] if_not_P refl)
    moreover have "bins_inv dm n (Suc d) \<lparr>bn_dims = ?dims, bn_num_high = ?n, bn_threshold = (if ?n = ?r then ?q else bn_threshold s)\<rparr>"
    proof -
      have e: "Suc d = ?st (Suc b)" "?r = 0 \<or> b < ?r" using True fl by blast+
      have n: "?r \<noteq> 0 \<longrightarrow> ?n = min (Suc b) ?r" using num e(2) by (cases "?r = 0") simp_all
      have "(if ?n = ?r then ?q else bn_threshold s) = (if ?r \<noteq> 0 \<and> (?r \<le> b \<or> ?r = Suc b) then ?q else ?h)"
        using n e(2) thr by (cases "?r = 0") auto
      then show ?thesis unfolding bins_inv_def full' th using n e(1) by (simp add: new)
    qed
    ultimately show ?thesis by blast
  next
    case False
    have "place_dim (replicate n fzero) ?q ?h ?r d s = Inr (s\<lparr>bn_dims := ?dims\<rparr>)"
      unfolding place_dim_def pick Let_def ln using False b(1) by (simp only: if_False if_True not_le[symmetric] if_not_P refl)
    moreover have "bins_inv dm n (Suc d) (s\<lparr>bn_dims := ?dims\<rparr>)"
    proof -
      have e: "\<not> (Suc d = ?st (Suc b) \<and> (?r = 0 \<or> b < ?r))" using False unfolding fl .
      have "?r \<noteq> 0 \<longrightarrow> bn_num_high s = card (if Suc d = ?st (Suc b) then {..<min (Suc b) ?r} else {..<min b ?r})"
        using num e by (auto simp: min_def)
      moreover have "?r = Suc b \<and> Suc d = ?st (Suc b) \<longrightarrow> False" using e by auto
      ultimately show ?thesis unfolding bins_inv_def full' th using thr by (simp add: new)
    qed
    ultimately show ?thesis by blast
  qed
qed

lemma place_dims:
  assumes "0 < n" "n \<le> dm" "e \<le> dm"
  shows "\<exists>s. rfold (place_dim (replicate n fzero) (dm div n) (dm div n + (if dm mod n = 0 then 0 else 1)) (dm mod n)) [0..<e]
      \<lparr>bn_dims = replicate n [], bn_num_high = 0, bn_threshold = dm div n + (if dm mod n = 0 then 0 else 1)\<rparr> = Inr s \<and> bins_inv dm n e s"
  using assms(3)
proof (induction e)
  case 0
  then show ?case using bins_inv_start[OF assms(1,2)] by simp
next
  case (Suc e)
  then obtain s where s: "rfold (place_dim (replicate n fzero) (dm div n) (dm div n + (if dm mod n = 0 then 0 else 1)) (dm mod n)) [0..<e]
      \<lparr>bn_dims = replicate n [], bn_num_high = 0, bn_threshold = dm div n + (if dm mod n = 0 then 0 else 1)\<rparr> = Inr s" "bins_inv dm n e s"
    by auto
  from place_dim_ok[OF s(2) _ assms(1,2)] Suc.prems obtain s'
    where "place_dim (replicate n fzero) (dm div n) (dm div n + (if dm mod n = 0 then 0 else 1)) (dm mod n) e s = Inr s'" "bins_inv dm n (Suc e) s'"
    by auto
  then show ?case using s(1) by (simp add: rfold_append)
qed

lemma offsets_of_bins:
  assumes "0 < n" "n \<le> dm" "dm < 2 ^ 32"
  shows "offsets_of dm (map (\<lambda>b. [chunk_start dm n b..<chunk_start dm n (Suc b)]) [0..<n]) = map (chunk_start dm n) [0..<Suc n]"
proof -
  let ?dims = "map (\<lambda>b. [chunk_start dm n b..<chunk_start dm n (Suc b)]) [0..<n]"
  have "foldl (\<lambda>offs b. if 0 < b then offs @ [u32 (offs ! (b - 1) + length (?dims ! (b - 1)))] else offs) [0] [0..<Suc m] = map (chunk_start dm n) [0..<Suc m]"
    if "m < n" for m using that
  proof (induction m)
    case 0
    then show ?case by (simp add: chunk_start_def)
  next
    case (Suc m)
    have "chunk_start dm n m \<le> chunk_start dm n (Suc m)" by (rule chunk_start_mono) simp
    moreover have "chunk_start dm n (Suc m) < 2 ^ 32"
      using chunk_start_mono[of "Suc m" n dm n] Suc.prems chunk_start_end[OF assms(1), of dm] assms(3) by linarith
    ultimately have "u32 (chunk_start dm n m + (chunk_start dm n (Suc m) - chunk_start dm n m)) = chunk_start dm n (Suc m)" by (simp add: u32_def)
    moreover have "map (chunk_start dm n) [0..<Suc m] ! m = chunk_start dm n m" by (simp del: upt_Suc)
    ultimately show ?case using Suc by (simp add: nth_append)
  qed
  from this[of "n - 1"] assms(1) show ?thesis by (simp add: offsets_of_def chunk_start_end)
qed

lemma chunk_offsets_eq:
  assumes "0 < n" "n \<le> dm" "dm < 2 ^ 32"
  shows "chunk_offsets dm n = Inr (map (chunk_start dm n) [0..<Suc n])"
proof -
  have "n < 2 ^ 32" "0 < dm" using assms by linarith+
  note quot = quot_exact[OF assms(1,3) this]
  have rest: "dm - dm div n * n = dm mod n" by (simp add: minus_div_mult_eq_mod)
  obtain s where s: "rfold (place_dim (replicate n fzero) (dm div n) (dm div n + (if dm mod n = 0 then 0 else 1)) (dm mod n)) [0..<dm]
      \<lparr>bn_dims = replicate n [], bn_num_high = 0, bn_threshold = dm div n + (if dm mod n = 0 then 0 else 1)\<rparr> = Inr s" "bins_inv dm n dm s"
    using place_dims[OF assms(1,2) order.refl] by blast
  have "min dm (chunk_start dm n (Suc b)) = chunk_start dm n (Suc b)" if "b < n" for b
    using chunk_start_mono[of "Suc b" n dm n] that chunk_start_end[OF assms(1), of dm] by simp
  then have "bn_dims s = map (\<lambda>b. [chunk_start dm n b..<chunk_start dm n (Suc b)]) [0..<n]"
    using s(2) by (simp add: bins_inv_def)
  then show ?thesis using offsets_of_bins[OF assms] 
    by (simp only: chunk_offsets_def quot rest s(1) option.case prod.case rbind_simps)
qed

text \<open>No chunks: the quotient is infinite.\<close>

lemma chunk_offsets_none: "0 < dm \<Longrightarrow> dm < 2 ^ 32 \<Longrightarrow> chunk_offsets dm 0 = Inl OutOfRange"
  by (cases "f_of_nat Binary64 dm") (simp_all add: chunk_offsets_def floor_quot_def f_of_nat_def fround_def split: option.splits)

text \<open>C31. The chunk offsets computed from double quotients are total, run from \<open>0\<close> to the dimension, and every chunk is non-empty and
  has \<open>\<lfloor>dim / chunks\<rfloor>\<close> or one more dimensions: no chunk outgrows another by more than one.\<close>

theorem chunk_offsets_balanced:
  assumes "0 < n" "n \<le> dm" "dm < 2 ^ 32"
  shows "\<exists>offs. chunk_offsets dm n = Inr offs \<and> length offs = n + 1 \<and> offs ! 0 = 0 \<and> offs ! n = dm \<and>
      (\<forall>b < n. offs ! b < offs ! (b + 1) \<and> dm div n \<le> offs ! (b + 1) - offs ! b \<and> offs ! (b + 1) - offs ! b \<le> dm div n + 1)"
proof -
  have nth: "map (chunk_start dm n) [0..<Suc n] ! b = chunk_start dm n b" if "b \<le> n" for b
    using that by (simp del: upt_Suc)
  show ?thesis unfolding chunk_offsets_eq[OF assms]
    using chunk_start_end[OF assms(1), of dm] chunk_start_lt[OF _ assms(2)] 
    by (intro exI[of _ "map (chunk_start dm n) [0..<Suc n]"]) (auto simp: nth chunk_start_Suc chunk_start_def[of dm n 0] simp del: upt_Suc)
qed

theorem chunk_offsets_balanced_witness:
  "\<exists>offs. chunk_offsets 10 4 = Inr offs \<and> length offs = 4 + 1 \<and> offs ! 0 = 0 \<and> offs ! 4 = 10 \<and>
      (\<forall>b < 4. offs ! b < offs ! (b + 1) \<and> 10 div 4 \<le> offs ! (b + 1) - offs ! b \<and> offs ! (b + 1) - offs ! b \<le> 10 div 4 + 1)"
  using chunk_offsets_balanced[of 4 10] by simp

end
