(* ===== verification/Pq_Train.thy ===== *)
theory Pq_Train
  imports Kmeans_Init Float_Bits Pq_Chunks Sigma_Query
begin

text \<open>
  The training of the product quantisation and the compression of the vectors, \<open>src/pq.cpp\<close>, for \<open>float\<close> data and without the
  rotation of OPQ: sampling, centring, k-means in every chunk, the pivots file, and the file of the codes, block by block.
\<close>

section \<open>The operations\<close>

definition METADATA_SIZE :: nat where "METADATA_SIZE = 4096"
definition NUM_PQ_CENTROIDS :: nat where "NUM_PQ_CENTROIDS = 256"
definition NUM_KMEANS_REPS_PQ :: nat where "NUM_KMEANS_REPS_PQ = 12"

text \<open>\<open>save_bin\<close> of elements of \<open>k\<close> bytes at an offset of a file that may exist: the file is not truncated, and a gap reads as
  zeros. Also the number of bytes written.\<close>

definition save_bin_at :: "nat \<Rightarrow> bfile option \<Rightarrow> byte list \<Rightarrow> nat \<Rightarrow> nat \<Rightarrow> nat \<Rightarrow> bfile \<times> nat" where
  "save_bin_at k fo data npts ndims off =
     (pwrite (case fo of None \<Rightarrow> [] | Some f \<Rightarrow> f) off (le_bytes 4 npts @ le_bytes 4 ndims @ take (npts * ndims * k) data), npts * ndims * k + 8)"

definition f32_bytes :: "fp list \<Rightarrow> byte list" where
  "f32_bytes xs = enc32 (map f32_bits xs)"

text \<open>\<open>gen_random_slice\<close>: the vectors whose draw is below \<open>p_val\<close>, the number of them and the dimension.\<close>

definition sample_point :: "(nat \<Rightarrow> fp) \<Rightarrow> fp \<Rightarrow> nat \<Rightarrow> nat \<Rightarrow> cifs \<times> fp list list \<Rightarrow> (cifs \<times> fp list list) res" where
  "sample_point draws p_val ndims i st =
     rbind (cifs_read (fst st) (ndims * 4)) (\<lambda>(bs, rd).
       Inr (rd, if flt (draws i) p_val then snd st @ [f32s bs] else snd st))"

definition gen_random_slice :: "(nat \<Rightarrow> fp) \<Rightarrow> bfile \<Rightarrow> fp \<Rightarrow> (fp list \<times> nat \<times> nat) res" where
  "gen_random_slice draws data_file p_val =
     rbind (cifs_read (cifs_open data_file (64 * 1024 * 1024)) 4) (\<lambda>(nb, rd).
     rbind (cifs_read rd 4) (\<lambda>(db, rd).
       let npts = le_nat nb; ndims = le_nat db; p_val = (if flt p_val fone then p_val else fone)
       in rbind (rfold (sample_point draws p_val ndims) [0..<npts] (rd, [])) (\<lambda>(_, sampled_vectors).
            Inr (concat sampled_vectors, length sampled_vectors, ndims))))"

text \<open>The mean of the training data, summed in floats, and the data around it.\<close>

definition train_centroid :: "fp list \<Rightarrow> nat \<Rightarrow> nat \<Rightarrow> bool \<Rightarrow> fp list" where
  "train_centroid train_data num_train dm make_zero_mean =
     (if make_zero_mean then
        map (\<lambda>d. fdiv Binary32 (fold (\<lambda>p c. fadd Binary32 c (train_data ! (p * dm + d))) [0..<num_train] fzero) (f_of_nat Binary32 num_train)) [0..<dm]
      else replicate dm fzero)"

definition centered :: "fp list \<Rightarrow> fp list \<Rightarrow> nat \<Rightarrow> fp list" where
  "centered mean xs dm = map (\<lambda>k. fsub Binary32 (xs ! k) (mean ! (k mod dm))) [0..<length xs]"

text \<open>Columns \<open>lo\<close> to \<open>lo + sz\<close> of a matrix with \<open>n\<close> rows of \<open>dm\<close> elements: \<open>cur_data\<close> and \<open>cur_pivot_data\<close>.\<close>

definition chunk_cols :: "fp list \<Rightarrow> nat \<Rightarrow> nat \<Rightarrow> nat \<Rightarrow> nat \<Rightarrow> fp list" where
  "chunk_cols xs dm n lo sz = concat (map (\<lambda>j. block xs (j * dm + lo) sz) [0..<n])"

text \<open>The random generators of a chunk.\<close>

record rng =
  rg_int :: "nat \<Rightarrow> nat"
  rg_real :: "nat \<Rightarrow> fp"

text \<open>One chunk: k-means++ and Lloyd's iterations on its columns, and the centres copied to theirs. \<open>None\<close> is a loop that does
  not end.\<close>

definition train_chunk :: "kenv \<Rightarrow> (nat \<Rightarrow> rng) \<Rightarrow> fp list \<Rightarrow> nat \<Rightarrow> nat \<Rightarrow> nat \<Rightarrow> nat \<Rightarrow> nat list \<Rightarrow> nat \<Rightarrow> fp list \<Rightarrow> fp list res option" where
  "train_chunk e rnd train_data num_train dm num_centers max_reps offs i full =
     (let lo = offs ! i; sz = sub32 (offs ! (i + 1)) lo
      in if sz = 0 then Some (Inr full)
         else
           let cur_data = chunk_cols train_data dm num_train lo sz
           in case kmeanspp_selecting_pivots (rg_int (rnd i)) (rg_real (rnd i)) cur_data num_train sz (replicate (num_centers * sz) fzero) num_centers of
                None \<Rightarrow> None
              | Some r \<Rightarrow>
                  Some (rbind r (\<lambda>pivots.
                    rbind (run_lloyds e cur_data num_train sz pivots num_centers max_reps None (Some (replicate num_train 0))) (\<lambda>t.
                      Inr (foldl (\<lambda>fl j. blit fl (j * dm + lo) (block (ll_centers t) (j * sz) sz)) full [0..<num_centers])))))"

fun train_chunks :: "kenv \<Rightarrow> (nat \<Rightarrow> rng) \<Rightarrow> fp list \<Rightarrow> nat \<Rightarrow> nat \<Rightarrow> nat \<Rightarrow> nat \<Rightarrow> nat list \<Rightarrow> nat list \<Rightarrow> fp list \<Rightarrow> fp list res option" where
  "train_chunks e rnd train_data num_train dm num_centers max_reps offs [] full = Some (Inr full)"
| "train_chunks e rnd train_data num_train dm num_centers max_reps offs (i # cs) full =
     (case train_chunk e rnd train_data num_train dm num_centers max_reps offs i full of
        None \<Rightarrow> None
      | Some (Inl x) \<Rightarrow> Some (Inl x)
      | Some (Inr full') \<Rightarrow> train_chunks e rnd train_data num_train dm num_centers max_reps offs cs full')"

text \<open>The pivots file: the parts one after the other from \<open>METADATA_SIZE\<close> on, then their offsets at the beginning.\<close>

definition write_pivots :: "bfile option \<Rightarrow> fp list \<Rightarrow> nat \<Rightarrow> nat \<Rightarrow> fp list \<Rightarrow> nat list \<Rightarrow> bfile" where
  "write_pivots fo full num_centers dm mean offs =
     (let c0 = METADATA_SIZE;
          w1 = save_bin_at 4 fo (f32_bytes full) num_centers dm c0; c1 = c0 + snd w1;
          w2 = save_bin_at 4 (Some (fst w1)) (f32_bytes mean) dm 1 c1; c2 = c1 + snd w2;
          w3 = save_bin_at 4 (Some (fst w2)) (enc32 offs) (length offs) 1 c2; c3 = c2 + snd w3
      in fst (save_bin_at 8 (Some (fst w3)) (enc64 [c0, c1, c2, c3]) 4 1 0))"

text \<open>The test for a file that is there already.\<close>

definition pivots_exist :: "string \<Rightarrow> bfile option \<Rightarrow> nat \<Rightarrow> nat \<Rightarrow> bool res" where
  "pivots_exist pq_pivots_path fo num_centers dm =
     (if fo = None then Inr False
      else rbind (load_bin_at 4 pq_pivots_path fo METADATA_SIZE) (\<lambda>(_, file_num_centers, file_dim).
             Inr (file_dim = dm \<and> file_num_centers = num_centers)))"

text \<open>The return value and the pivots file afterwards. An existing file of the same shape is kept.\<close>

definition generate_pq_pivots ::
  "kenv \<Rightarrow> (nat \<Rightarrow> rng) \<Rightarrow> string \<Rightarrow> bfile option \<Rightarrow> fp list \<Rightarrow> nat \<Rightarrow> nat \<Rightarrow> nat \<Rightarrow> nat \<Rightarrow> nat \<Rightarrow> bool \<Rightarrow> (int \<times> bfile option) res option" where
  "generate_pq_pivots e rnd pq_pivots_path fo passed num_train dm num_centers num_pq_chunks max_reps make_zero_mean =
     (if num_pq_chunks > dm then Some (Inr (- 1, fo))
      else
        case pivots_exist pq_pivots_path fo num_centers dm of
          Inl x \<Rightarrow> Some (Inl x)
        | Inr True \<Rightarrow> Some (Inr (- 1, fo))
        | Inr False \<Rightarrow>
            let mean = train_centroid passed num_train dm make_zero_mean;
                train_data = (if make_zero_mean then centered mean passed dm else passed)
            in case chunk_offsets dm num_pq_chunks of
                 Inl x \<Rightarrow> Some (Inl x)
               | Inr offs \<Rightarrow>
                   map_option (\<lambda>r. rbind r (\<lambda>full. Inr (0, Some (write_pivots fo full num_centers dm mean offs))))
                     (train_chunks e rnd train_data num_train dm num_centers max_reps offs [0..<num_pq_chunks] (ke_new_f32 e (num_centers * dm))))"

section \<open>Compression\<close>

text \<open>What \<open>generate_pq_data_from_pivots\<close> takes from the pivots file: the centres, the mean and the chunk offsets.\<close>

definition load_pivot_parts :: "string \<Rightarrow> bfile option \<Rightarrow> nat \<Rightarrow> nat \<Rightarrow> nat \<Rightarrow> (fp list \<times> fp list \<times> nat list) res" where
  "load_pivot_parts what fo num_centers num_pq_chunks dm =
     (if fo = None then Inl (ANNException ''PQ k-means pivot file not found'')
      else rbind (load_bin_at 8 what fo 0) (\<lambda>(ob, nr, nc).
        if nr \<noteq> 4 then Inl (ANNException ''Error reading pq_pivots file at offsets data.'')
        else if nc = 0 then Inl OutOfRange
        else
          let offs = dec64 (nr * nc) ob
          in rbind (load_bin_at 4 what fo (offs ! 0)) (\<lambda>(tb, nr, nc).
               if nr \<noteq> num_centers \<or> nc \<noteq> dm then Inl (ANNException ''Error reading pq_pivots file at pivots data.'')
               else rbind (load_bin_at 4 what fo (offs ! 1)) (\<lambda>(cb, nr, nc).
                 if nr \<noteq> dm \<or> nc \<noteq> 1 then Inl (ANNException ''Error reading pq_pivots file at centroid data.'')
                 else rbind (load_bin_at 4 what fo (offs ! 2)) (\<lambda>(xb, nr, nc).
                   if nr \<noteq> num_pq_chunks + 1 \<or> nc \<noteq> 1 then Inl (ANNException ''Error reading pq_pivots file at chunk offsets.'')
                   else Inr (f32s tb, f32s cb, dec32 xb))))))"

text \<open>The block size from the budget of \<open>SIGMA_CHUNK_BYTES\<close>. No dimensions are a division by zero.\<close>

definition pq_block_size :: "string option \<Rightarrow> nat \<Rightarrow> nat \<Rightarrow> nat res" where
  "pq_block_size env_p dm num_points =
     (let target_ram_bytes = (case env_p of None \<Rightarrow> 256 * 1024 * 1024
                              | Some s \<Rightarrow> (case stoull s of Inl _ \<Rightarrow> 256 * 1024 * 1024 | Inr v \<Rightarrow> v));
          bytes_per_point = dm * 4 + dm * 4 + dm * 4
      in if bytes_per_point = 0 then Inl OutOfRange
         else
           let calculated = target_ram_bytes div bytes_per_point;
               calculated = (if calculated < 1024 then 1024 else calculated);
               calculated = (if calculated > 1000000 then 1000000 else calculated)
           in Inr (if num_points \<le> calculated then num_points else calculated))"

text \<open>One chunk of a block: the nearest centre of every point, written to column \<open>i\<close> of \<open>block_compressed_base\<close>.\<close>

definition encode_chunk :: "kenv \<Rightarrow> fp list \<Rightarrow> nat list \<Rightarrow> nat \<Rightarrow> nat \<Rightarrow> nat \<Rightarrow> nat \<Rightarrow> fp list \<Rightarrow> nat \<Rightarrow> nat list \<Rightarrow> nat list res" where
  "encode_chunk e full offs num_centers num_pq_chunks dm cur_blk_size block_data i base =
     (let lo = offs ! i; sz = sub32 (offs ! (i + 1)) lo
      in if sz = 0 then Inr base
         else
           rbind (compute_closest_centers e (chunk_cols block_data dm cur_blk_size lo sz) cur_blk_size sz (chunk_cols full dm num_centers lo sz) num_centers
                    (replicate cur_blk_size 0) None None) (\<lambda>(closest_center, _).
             Inr (foldl (\<lambda>b j. b[j * num_pq_chunks + i := closest_center ! j]) base [0..<cur_blk_size])))"

record pq_writer =
  pw_reader :: cifs
  pw_base :: "nat list"
  pw_out :: "byte list"

definition encode_block ::
  "kenv \<Rightarrow> fp list \<Rightarrow> fp list \<Rightarrow> nat list \<Rightarrow> nat \<Rightarrow> nat \<Rightarrow> nat \<Rightarrow> nat \<Rightarrow> nat \<Rightarrow> nat \<Rightarrow> pq_writer \<Rightarrow> pq_writer res" where
  "encode_block e full mean offs num_centers num_pq_chunks dm num_points block_size blk w =
     (let start_id = blk * block_size; end_id = min ((blk + 1) * block_size) num_points; cur_blk_size = end_id - start_id
      in rbind (cifs_read (pw_reader w) (4 * (cur_blk_size * dm))) (\<lambda>(bs, rd).
           let block_data = centered mean (f32s bs) dm
           in rbind (rfold (encode_chunk e full offs num_centers num_pq_chunks dm cur_blk_size block_data) [0..<num_pq_chunks] (pw_base w)) (\<lambda>base.
                let codes = take (cur_blk_size * num_pq_chunks) base
                in Inr \<lparr>pw_reader = rd, pw_base = base,
                        pw_out = pw_out w @ (if num_centers > 256 then enc32 codes else map word_of_nat codes)\<rparr>)))"

text \<open>The compressed file. Without points the number of blocks is a division by zero.\<close>

definition generate_pq_data_from_pivots :: "kenv \<Rightarrow> string option \<Rightarrow> bfile \<Rightarrow> nat \<Rightarrow> nat \<Rightarrow> string \<Rightarrow> bfile option \<Rightarrow> bfile res" where
  "generate_pq_data_from_pivots e env_p data_file num_centers num_pq_chunks pq_pivots_path pivots =
     rbind (cifs_read (cifs_open data_file (64 * 1024 * 1024)) 4) (\<lambda>(nb, rd).
     rbind (cifs_read rd 4) (\<lambda>(db, rd).
       let num_points = le_nat nb; dm = le_nat db
       in rbind (load_pivot_parts pq_pivots_path pivots num_centers num_pq_chunks dm) (\<lambda>(full, mean, offs).
          rbind (pq_block_size env_p dm num_points) (\<lambda>block_size.
            if block_size = 0 then Inl OutOfRange
            else
              rbind (rfold (encode_block e full mean offs num_centers num_pq_chunks dm num_points block_size) [0..<DIV_ROUND_UP num_points block_size]
                       \<lparr>pw_reader = rd, pw_base = replicate (block_size * num_pq_chunks) 0, pw_out = le_bytes 4 num_points @ le_bytes 4 num_pq_chunks\<rparr>)
                (\<lambda>w. Inr (pw_out w))))))"

text \<open>\<open>generate_quantized_data\<close>: the pivots file and the compressed file afterwards. With a codebook the training is skipped; the
  return value of \<open>generate_pq_pivots\<close> is not looked at.\<close>

definition generate_quantized_data ::
  "kenv \<Rightarrow> (nat \<Rightarrow> fp) \<Rightarrow> (nat \<Rightarrow> rng) \<Rightarrow> string option \<Rightarrow> bfile \<Rightarrow> string \<Rightarrow> bfile option \<Rightarrow> metric \<Rightarrow> fp \<Rightarrow> nat \<Rightarrow> bool \<Rightarrow> (bfile option \<times> bfile) res option" where
  "generate_quantized_data e draws rnd env_p data_file pq_pivots_path pivots compareMetric p_val num_pq_chunks codebook =
     (let trained =
        (if codebook then Some (Inr pivots)
         else
           case gen_random_slice draws data_file p_val of
             Inl x \<Rightarrow> Some (Inl x)
           | Inr (train_data, train_size, train_dim) \<Rightarrow>
               map_option (map_sum id snd)
                 (generate_pq_pivots e rnd pq_pivots_path pivots train_data train_size train_dim NUM_PQ_CENTROIDS (u32 num_pq_chunks) NUM_KMEANS_REPS_PQ
                    (compareMetric \<noteq> INNER_PRODUCT)))
      in map_option (\<lambda>r. rbind r (\<lambda>pf.
           map_sum id (Pair pf) (generate_pq_data_from_pivots e env_p data_file NUM_PQ_CENTROIDS (u32 num_pq_chunks) pq_pivots_path pf))) trained)"

section \<open>The pivots file\<close>

lemma f32s_bytes: "\<forall>x \<in> set xs. wf_fp Binary32 x \<Longrightarrow> f32s (f32_bytes xs) = xs"
  using f32_bits_inverse by (simp add: f32s_def f32_bytes_def map_idI u32_id[OF f32_bits_inverse(2)])

lemma length_f32_bytes [simp]: "length (f32_bytes xs) = 4 * length xs"
  by (simp add: f32_bytes_def)

lemma load_bin_at_block:
  assumes "block f off (8 + a * b * k) = le_bytes 4 a @ le_bytes 4 b @ bs" "a < 2 ^ 32" "b < 2 ^ 32" "length bs = a * b * k"
  shows "load_bin_at k what (Some f) off = Inr (bs, a, b)"
proof -
  have "length (block f off (8 + a * b * k)) = 8 + a * b * k" unfolding assms(1) using assms(4) by simp
  then have len: "off + 8 + a * b * k \<le> length f" by (simp add: length_block_min)
  have "block f off 4 = le_bytes 4 a" "block f (off + 4) 4 = le_bytes 4 b" "block f (off + 8) (a * b * k) = bs"
  proof -
    let ?bs = "le_bytes 4 a @ le_bytes 4 b @ bs"
    have "block ?bs 0 4 = le_bytes 4 a" "block ?bs 4 4 = le_bytes 4 b" "block ?bs 8 (a * b * k) = bs"
      using assms(4) by (simp_all add: block_def)
    then show "block f off 4 = le_bytes 4 a" "block f (off + 4) 4 = le_bytes 4 b" "block f (off + 8) (a * b * k) = bs"
      using block_slice[of 0 4 "8 + a * b * k" f off] block_slice[of 4 4 "8 + a * b * k" f off]
        block_slice[of 8 "a * b * k" "8 + a * b * k" f off]
      unfolding assms(1) by simp_all
  qed
  then show ?thesis using len assms(2,3) by (simp add: load_bin_at_def u32_id Let_def)
qed

lemma save_bin_block:
  assumes "length data = a * b * k"
  shows "block (fst (save_bin_at k fo data a b off)) off (8 + a * b * k) = le_bytes 4 a @ le_bytes 4 b @ data"
    "off + (8 + a * b * k) \<le> length (fst (save_bin_at k fo data a b off))"
  using assms block_pwrite_same[of _ off "le_bytes 4 a @ le_bytes 4 b @ data"] by (simp_all add: save_bin_at_def length_pwrite)

lemma save_bin_keeps:
  assumes "i + n \<le> length f" "i + n \<le> off \<or> off + (8 + a * b * k) \<le> i" "length data = a * b * k"
  shows "block (fst (save_bin_at k (Some f) data a b off)) i n = block f i n" "i + n \<le> length (fst (save_bin_at k (Some f) data a b off))"
  using assms block_pwrite_other[of i n f off "le_bytes 4 a @ le_bytes 4 b @ data"] by (auto simp: save_bin_at_def length_pwrite)

lemma write_pivots_parts:
  fixes fo
  assumes "length full = nc * dm" "length mean = dm" "nc < 2 ^ 32" "dm < 2 ^ 32" "length offs < 2 ^ 32"
  defines "F \<equiv> write_pivots fo full nc dm mean offs"
    and "c1 \<equiv> 4104 + nc * dm * 4" and "c2 \<equiv> 4112 + nc * dm * 4 + dm * 4" and "c3 \<equiv> 4120 + nc * dm * 4 + dm * 4 + length offs * 4"
  shows "load_bin_at 8 what (Some F) 0 = Inr (enc64 [4096, c1, c2, c3], 4, 1)"
    "load_bin_at 4 what (Some F) 4096 = Inr (f32_bytes full, nc, dm)" "load_bin_at 4 what (Some F) c1 = Inr (f32_bytes mean, dm, 1)"
    "load_bin_at 4 what (Some F) c2 = Inr (enc32 offs, length offs, 1)"
proof -
  define f1 where "f1 = fst (save_bin_at 4 fo (f32_bytes full) nc dm 4096)"
  define f2 where "f2 = fst (save_bin_at 4 (Some f1) (f32_bytes mean) dm 1 c1)"
  define f3 where "f3 = fst (save_bin_at 4 (Some f2) (enc32 offs) (length offs) 1 c2)"
  have F: "F = fst (save_bin_at 8 (Some f3) (enc64 [4096, c1, c2, c3]) 4 1 0)"
    by (simp add: F_def write_pivots_def METADATA_SIZE_def Let_def save_bin_at_def f1_def f2_def f3_def c1_def c2_def c3_def add.assoc)
  have len: "length (f32_bytes full) = nc * dm * 4" "length (f32_bytes mean) = dm * 1 * 4" "length (enc32 offs) = length offs * 1 * 4"
    "length (enc64 [4096, c1, c2, c3]) = 4 * 1 * 8" using assms(1,2) by simp_all
  note b1 = save_bin_block[OF len(1), where fo = fo and off = 4096, folded f1_def]
  note b2 = save_bin_block[OF len(2), where fo = "Some f1" and off = c1, folded f2_def]
  note b3 = save_bin_block[OF len(3), where fo = "Some f2" and off = c2, folded f3_def]
  note b4 = save_bin_block[OF len(4), where fo = "Some f3" and off = 0, folded F]
  have k12: "block f2 4096 (8 + nc * dm * 4) = block f1 4096 (8 + nc * dm * 4)" "4096 + (8 + nc * dm * 4) \<le> length f2"
    unfolding f2_def using b1(2) len(2) by (intro save_bin_keeps; simp add: c1_def)+
  have k23: "block f3 4096 (8 + nc * dm * 4) = block f2 4096 (8 + nc * dm * 4)" "4096 + (8 + nc * dm * 4) \<le> length f3"
    unfolding f3_def using k12(2) len(3) by (intro save_bin_keeps; simp add: c2_def)+
  have m23: "block f3 c1 (8 + dm * 1 * 4) = block f2 c1 (8 + dm * 1 * 4)" "c1 + (8 + dm * 1 * 4) \<le> length f3"
    unfolding f3_def using b2(2) len(3) by (intro save_bin_keeps; simp add: c1_def c2_def)+
  have F1: "block F 4096 (8 + nc * dm * 4) = block f3 4096 (8 + nc * dm * 4)"
    unfolding F using k23(2) len(4) by (intro save_bin_keeps) simp_all
  have F2: "block F c1 (8 + dm * 1 * 4) = block f3 c1 (8 + dm * 1 * 4)"
    unfolding F using m23(2) len(4) by (intro save_bin_keeps) (simp_all add: c1_def)
  have F3: "block F c2 (8 + length offs * 1 * 4) = block f3 c2 (8 + length offs * 1 * 4)"
    unfolding F using b3(2) len(4) by (intro save_bin_keeps) (simp_all add: c2_def)
  show "load_bin_at 8 what (Some F) 0 = Inr (enc64 [4096, c1, c2, c3], 4, 1)" by (rule load_bin_at_block[OF b4(1)]) (simp_all add: len)
  show "load_bin_at 4 what (Some F) 4096 = Inr (f32_bytes full, nc, dm)"
    by (rule load_bin_at_block) (use F1 k23 k12 b1 assms(1,3,4) in simp_all)
  show "load_bin_at 4 what (Some F) c1 = Inr (f32_bytes mean, dm, 1)"
    by (rule load_bin_at_block) (use F2 m23 b2 assms(4) len in simp_all)
  show "load_bin_at 4 what (Some F) c2 = Inr (enc32 offs, length offs, 1)"
    by (rule load_bin_at_block) (use F3 b3 assms(5) len in simp_all)
qed

lemma offsets_decoded:
  fixes a b c d :: nat
  assumes "a < 2 ^ 64" "b < 2 ^ 64" "c < 2 ^ 64" "d < 2 ^ 64"
  shows "dec64 (4 * 1) (enc64 [a, b, c, d]) = [a, b, c, d]"
proof -
  have "map u64 [a, b, c, d] = [a, b, c, d]" using assms by (simp add: u64_id)
  moreover have "length [a, b, c, d] = 4 * 1" by simp
  ultimately show ?thesis using dec64_enc64[of "[a, b, c, d]" "[]"] by (simp only: append_Nil2)
qed

lemma parts_below:
  assumes "nc \<le> 256" "dm < 2 ^ 32" "n < (2 ^ 32 :: nat)"
  shows "4120 + nc * dm * 4 + dm * 4 + n * 4 < (2 ^ 64 :: nat)"
proof -
  have "nc * dm \<le> 256 * 2 ^ 32" using assms by (intro mult_le_mono) simp_all
  then show ?thesis using assms by simp
qed

text \<open>Both readers of the file get what was written.\<close>

lemma pivots_loaded:
  fixes fo
  assumes "length full = nc * dm" "length mean = dm" "nc \<le> 256" "dm < 2 ^ 32" "length offs < 2 ^ 32" "0 < length offs"
    and "\<forall>x \<in> set (full @ mean). wf_fp Binary32 x" "\<forall>x \<in> set offs. x < 2 ^ 32"
  defines "F \<equiv> write_pivots fo full nc dm mean offs"
  shows "load_pivot_parts what (Some F) nc (length offs - 1) dm = Inr (full, mean, offs)"
    and "nc = 256 \<Longrightarrow> load_pq_centroid_bin what (Some F) None 0 =
      Inr \<lparr>pt_ndims = dm, pt_n_chunks = length offs - 1, pt_tables = full, pt_tables_tr = transpose_tables dm full,
           pt_centroid = mean, pt_chunk_offsets = offs, pt_rotmat_tr = None\<rparr>"
proof -
  have nc: "nc < 2 ^ 32" using assms(3) by simp
  let ?c1 = "4104 + nc * dm * 4" and ?c2 = "4112 + nc * dm * 4 + dm * 4" and ?c3 = "4120 + nc * dm * 4 + dm * 4 + length offs * 4"
  note w = write_pivots_parts[OF assms(1,2) nc assms(4,5), where fo = fo and what = what, folded F_def]
  have c3: "?c3 < 2 ^ 64" by (rule parts_below[OF assms(3-5)])
  have d: "dec64 (4 * 1) (enc64 [4096, ?c1, ?c2, ?c3]) = [4096, ?c1, ?c2, ?c3]"
    by (rule offsets_decoded) (use c3 in linarith)+
  have fl: "f32s (f32_bytes full) = full" "f32s (f32_bytes mean) = mean" using assms(7) by (simp_all add: f32s_bytes)
  have o: "map u32 offs = offs" using assms(8) by (simp add: map_idI u32_id)
  show "load_pivot_parts what (Some F) nc (length offs - 1) dm = Inr (full, mean, offs)"
    unfolding load_pivot_parts_def using w d fl o assms(6) by simp
  have "sub64 (length offs) 1 = length offs - 1" using assms(5,6) by (intro sub64_id) (auto simp: Suc_le_eq)
  then show "load_pq_centroid_bin what (Some F) None 0 =
      Inr \<lparr>pt_ndims = dm, pt_n_chunks = length offs - 1, pt_tables = full, pt_tables_tr = transpose_tables dm full,
           pt_centroid = mean, pt_chunk_offsets = offs, pt_rotmat_tr = None\<rparr>" if "nc = 256"
    unfolding load_pq_centroid_bin_def using w[unfolded that] d[unfolded that] fl o by (simp add: Let_def)
qed

section \<open>The training\<close>

lemma length_concat_blocks: "(\<And>j. j < n \<Longrightarrow> j * dm + lo + sz \<le> length xs) \<Longrightarrow> length (chunk_cols xs dm n lo sz) = n * sz"
  by (induction n) (auto simp: chunk_cols_def)

lemma chunk_in_row: "j < n \<Longrightarrow> lo + sz \<le> dm \<Longrightarrow> j * dm + lo + sz \<le> n * (dm :: nat)"
  using mult_row_le[of j n dm] by linarith

lemma set_chunk_cols: "set (chunk_cols xs dm n lo sz) \<subseteq> set xs"
  by (auto simp: chunk_cols_def block_def dest: in_set_takeD in_set_dropD)

text \<open>The columns of a chunk, written row by row.\<close>

lemma write_cols:
  assumes "length full = nc * dm" "lo + sz \<le> dm" "length ct = nc * sz" "m \<le> nc"
  defines "g \<equiv> foldl (\<lambda>fl j. blit fl (j * dm + lo) (block ct (j * sz) sz)) full [0..<m]"
  shows "length g = nc * dm \<and> (\<forall>j < nc. \<forall>d < dm. g ! (j * dm + d) =
      (if j < m \<and> lo \<le> d \<and> d < lo + sz then ct ! (j * sz + (d - lo)) else full ! (j * dm + d)))"
  using assms(4) unfolding g_def
proof (induction m)
  case 0
  then show ?case using assms(1) by simp
next
  case (Suc m)
  let ?g = "foldl (\<lambda>fl j. blit fl (j * dm + lo) (block ct (j * sz) sz)) full [0..<m]" and ?b = "block ct (m * sz) sz"
  have IH: "length ?g = nc * dm" "\<And>j d. j < nc \<Longrightarrow> d < dm \<Longrightarrow> ?g ! (j * dm + d) =
      (if j < m \<and> lo \<le> d \<and> d < lo + sz then ct ! (j * sz + (d - lo)) else full ! (j * dm + d))" using Suc by auto
  have m: "m < nc" using Suc.prems by simp
  have b: "length ?b = sz" "\<And>i. i < sz \<Longrightarrow> ?b ! i = ct ! (m * sz + i)" using mult_row_le[OF m, of sz] assms(3) by simp_all
  have fit: "m * dm + lo + length ?b \<le> length ?g" using chunk_in_row[OF m assms(2)] IH(1) b(1) by simp
  have nth: "blit ?g (m * dm + lo) ?b ! k = (if m * dm + lo \<le> k \<and> k < m * dm + lo + sz then ?b ! (k - (m * dm + lo)) else ?g ! k)"
    if "k < nc * dm" for k
    using fit b(1) that IH(1) by (auto simp: blit_def nth_append min_def)
  have "blit ?g (m * dm + lo) ?b ! (j * dm + d) =
      (if j < Suc m \<and> lo \<le> d \<and> d < lo + sz then ct ! (j * sz + (d - lo)) else full ! (j * dm + d))" if jd: "j < nc" "d < dm" for j d
  proof -
    have k: "j * dm + d < nc * dm" using mult_row_le[OF jd(1), of dm] jd(2) by linarith
    consider "j < m" | "j = m" | "m < j" by linarith
    then show ?thesis
    proof cases
      case 1
      then have "\<not> m * dm + lo \<le> j * dm + d" using mult_row_le[OF 1, of dm] jd(2) by linarith
      then show ?thesis using nth[OF k] IH(2)[OF jd] 1 by simp
    next
      case 2
      then show ?thesis using nth[OF k] IH(2)[OF jd] b(2)[of "d - lo"] by auto
    next
      case 3
      then have "\<not> j * dm + d < m * dm + lo + sz" using mult_row_le[OF 3, of dm] assms(2) by linarith
      then show ?thesis using nth[OF k] IH(2)[OF jd] 3 by auto
    qed
  qed
  then show ?case using fit IH(1) by simp
qed

text \<open>What the training of a chunk relies on: draws in their ranges, coordinates in the box \<open>[-M, M]\<close> with finite distances, and a
  library whose distances to centres in the box stay below \<open>FLT_MAX\<close>.\<close>

definition chunk_trainable :: "kenv \<Rightarrow> rng \<Rightarrow> rat \<Rightarrow> fp list \<Rightarrow> nat \<Rightarrow> nat \<Rightarrow> nat \<Rightarrow> bool" where
  "chunk_trainable e r M cur n sz nc \<longleftrightarrow> rg_int r 0 < n \<and> (\<forall>k. unit_draw (rg_real r k)) \<and> points_ok cur n sz \<and> box_data M (n * sz) cur \<and>
     (\<forall>cs. box_data M (nc * sz) cs \<longrightarrow> reachable_centers e cur n sz nc (Some (compute_vecs_l2sq e cur n sz)) cs)"

lemma box_of_rows:
  assumes "box_data M (n * sz) data" "length xs = nc * sz" "set ids \<subseteq> {..<n}" "length ids = nc" "\<forall>k < nc. block xs (k * sz) sz = block data (ids ! k * sz) sz"
  shows "box_data M (nc * sz) xs"
proof -
  have "bounded Binary32 M (xs ! x)" if x: "x < nc * sz" for x
  proof -
    have sz: "0 < sz" using x by (cases sz) simp_all
    have k: "x div sz < nc" using x by (simp add: less_mult_imp_div_less)
    have id: "ids ! (x div sz) < n" using assms(3,4) k by (meson lessThan_iff nth_mem subset_iff)
    have d: "x mod sz < sz" using sz by simp
    have "xs ! x = block xs (x div sz * sz) sz ! (x mod sz)" using mult_row_le[OF k, of sz] d assms(2) by simp
    also have "\<dots> = data ! (ids ! (x div sz) * sz + x mod sz)"
      using assms(5) k mult_row_le[OF id, of sz] d assms(1) by (simp add: box_data_def)
    finally show ?thesis using assms(1) mult_row_le[OF id, of sz] d by (simp add: box_data_def)
  qed
  then show ?thesis using assms(1,2) by (auto simp: box_data_def in_set_conv_nth)
qed

lemma train_chunk_run:
  assumes "kenv_ok e" "0 < n" "n \<le> 2 ^ 23" "0 < nc" "offs ! i < offs ! (i + 1)" "offs ! (i + 1) \<le> dm" "dm < 2 ^ 32" "length full = nc * dm"
    and "chunk_trainable e (rnd i) M (chunk_cols data dm n (offs ! i) (offs ! (i + 1) - offs ! i)) n (offs ! (i + 1) - offs ! i) nc"
  shows "\<exists>full'. train_chunk e rnd data n dm nc reps offs i full = Some (Inr full') \<and> length full' = nc * dm \<and>
      (\<forall>j < nc. \<forall>d < dm. if offs ! i \<le> d \<and> d < offs ! (i + 1) then bounded Binary32 M (full' ! (j * dm + d)) else full' ! (j * dm + d) = full ! (j * dm + d))"
proof -
  let ?lo = "offs ! i" and ?sz = "offs ! (i + 1) - offs ! i"
  let ?cur = "chunk_cols data dm n ?lo ?sz"
  note t = assms(9)[unfolded chunk_trainable_def]
  have sz: "sub32 (offs ! (i + 1)) ?lo = ?sz" using assms(5-7) by (intro sub32_id) simp_all
  obtain ids pv where pv: "kmeanspp_selecting_pivots (rg_int (rnd i)) (rg_real (rnd i)) ?cur n ?sz (replicate (nc * ?sz) fzero) nc = Some (Inr pv)"
    "length ids = nc" "set ids \<subseteq> {..<n}" "length pv = nc * ?sz" "\<forall>k < nc. block pv (k * ?sz) ?sz = block ?cur (ids ! k * ?sz) ?sz"
    using kmeanspp_run[of ?cur n ?sz "rg_int (rnd i)" "rg_real (rnd i)" "replicate (nc * ?sz) fzero" nc] t assms(2-4) by auto
  have box: "box_data M (nc * ?sz) pv" using box_of_rows[OF _ pv(4,3,2,5)] t by blast
  obtain r where r: "run_lloyds e ?cur n ?sz pv nc reps None (Some (replicate n 0)) = Inr r" "length (ll_centers r) = nc * ?sz"
    "\<forall>x \<in> set (ll_centers r). bounded Binary32 M x"
    using run_lloyds_box[OF assms(1,2) _ assms(4) _ box, where data = ?cur and cc = "replicate n 0" and reps = reps] t assms(3) by auto
  let ?full = "foldl (\<lambda>fl j. blit fl (j * dm + ?lo) (block (ll_centers r) (j * ?sz) ?sz)) full [0..<nc]"
  have w: "length ?full = nc * dm" "\<And>j d. j < nc \<Longrightarrow> d < dm \<Longrightarrow> ?full ! (j * dm + d) =
      (if ?lo \<le> d \<and> d < ?lo + ?sz then ll_centers r ! (j * ?sz + (d - ?lo)) else full ! (j * dm + d))"
    using write_cols[OF assms(8) _ r(2) order.refl, of ?lo] assms(5,6) by auto
  have "train_chunk e rnd data n dm nc reps offs i full = Some (Inr ?full)"
    unfolding train_chunk_def Let_def sz using assms(5) pv(1) r(1) by simp
  moreover have "bounded Binary32 M (?full ! (j * dm + d))" if "j < nc" "d < dm" "?lo \<le> d" "d < offs ! (i + 1)" for j d
  proof -
    have "j * ?sz + (d - ?lo) < nc * ?sz" using mult_row_le[OF that(1), of ?sz] that(3,4) by linarith
    then show ?thesis using w(2)[OF that(1,2)] that(3,4) r(2,3) assms(5) by simp
  qed
  ultimately show ?thesis using w assms(5) by auto
qed

text \<open>All the chunks: every centre is written and lies in the box.\<close>

lemma train_chunks_run:
  assumes "kenv_ok e" "0 < n" "n \<le> 2 ^ 23" "0 < nc" "dm < 2 ^ 32" "length full = nc * dm"
    and "\<forall>i < m. offs ! i < offs ! (i + 1) \<and> offs ! (i + 1) \<le> dm" "i0 \<le> m"
    and "\<forall>i < m. chunk_trainable e (rnd i) M (chunk_cols data dm n (offs ! i) (offs ! (i + 1) - offs ! i)) n (offs ! (i + 1) - offs ! i) nc"
    and "\<forall>j < nc. \<forall>d < offs ! i0. bounded Binary32 M (full ! (j * dm + d))"
  shows "\<exists>full'. train_chunks e rnd data n dm nc reps offs [i0..<m] full = Some (Inr full') \<and> length full' = nc * dm \<and>
      (\<forall>j < nc. \<forall>d < offs ! m. bounded Binary32 M (full' ! (j * dm + d)))"
  using assms(6,8,10)
proof (induction "m - i0" arbitrary: i0 full)
  case 0
  then show ?case by simp
next
  case (Suc k)
  then have i0: "i0 < m" by simp
  obtain f where f: "train_chunk e rnd data n dm nc reps offs i0 full = Some (Inr f)" "length f = nc * dm"
    "\<forall>j < nc. \<forall>d < dm. if offs ! i0 \<le> d \<and> d < offs ! (i0 + 1) then bounded Binary32 M (f ! (j * dm + d)) else f ! (j * dm + d) = full ! (j * dm + d)"
    using train_chunk_run[OF assms(1-4) _ _ assms(5) Suc.prems(1), of offs i0 rnd M data reps] assms(7,9) i0 by auto
  have "\<forall>j < nc. \<forall>d < offs ! (i0 + 1). bounded Binary32 M (f ! (j * dm + d))"
  proof (intro allI impI)
    fix j d assume jd: "j < nc" "d < offs ! (i0 + 1)"
    then have "d < dm" using assms(7) i0 by (meson less_le_trans)
    then show "bounded Binary32 M (f ! (j * dm + d))" using f(3)[rule_format, OF jd(1), of d] jd Suc.prems(3) by (auto split: if_splits)
  qed
  moreover have k: "k = m - (i0 + 1)" using Suc.hyps(2) by simp
  ultimately obtain f' where "train_chunks e rnd data n dm nc reps offs [i0 + 1..<m] f = Some (Inr f')" "length f' = nc * dm"
    "\<forall>j < nc. \<forall>d < offs ! m. bounded Binary32 M (f' ! (j * dm + d))"
    using Suc.hyps(1)[of "i0 + 1" f] k f(2) i0 by auto
  then show ?case using f(1) i0 by (simp add: upt_conv_Cons)
qed

definition trainable :: "kenv \<Rightarrow> (nat \<Rightarrow> rng) \<Rightarrow> rat \<Rightarrow> fp list \<Rightarrow> nat \<Rightarrow> nat \<Rightarrow> nat \<Rightarrow> nat \<Rightarrow> bool" where
  "trainable e rnd M data n dm nc nch \<longleftrightarrow>
     (\<forall>i < nch. let lo = chunk_start dm nch i; sz = chunk_start dm nch (i + 1) - lo
        in chunk_trainable e (rnd i) M (chunk_cols data dm n lo sz) n sz nc)"

text \<open>What \<open>generate_pq_pivots\<close> trains on.\<close>

definition train_points :: "fp list \<Rightarrow> nat \<Rightarrow> nat \<Rightarrow> bool \<Rightarrow> fp list" where
  "train_points passed n dm mz = (if mz then centered (train_centroid passed n dm mz) passed dm else passed)"

lemma generate_pq_pivots_run:
  assumes "kenv_ok e" "\<forall>m. length (ke_new_f32 e m) = m" "0 < n" "n \<le> 2 ^ 23" "0 < nch" "nch \<le> dm" "dm < 2 ^ 32" "0 < nc"
    and "trainable e rnd M (train_points passed n dm mz) n dm nc nch" "pivots_exist what fo nc dm = Inr False"
  shows "\<exists>full. generate_pq_pivots e rnd what fo passed n dm nc nch reps mz =
      Some (Inr (0, Some (write_pivots fo full nc dm (train_centroid passed n dm mz) (map (chunk_start dm nch) [0..<Suc nch])))) \<and>
      length full = nc * dm \<and> (\<forall>x \<in> set full. bounded Binary32 M x)"
proof -
  let ?offs = "map (chunk_start dm nch) [0..<Suc nch]" and ?data = "train_points passed n dm mz"
  have nth: "?offs ! b = chunk_start dm nch b" if "b \<le> nch" for b using that by (simp del: upt_Suc)
  have last: "chunk_start dm nch nch = dm" by (rule chunk_start_end[OF assms(5)])
  have offs: "\<forall>i < nch. ?offs ! i < ?offs ! (i + 1) \<and> ?offs ! (i + 1) \<le> dm"
    using chunk_start_lt[OF _ assms(6)] chunk_start_mono[of _ nch dm nch] last by (auto simp: nth Suc_le_eq simp del: upt_Suc)
  have tr: "\<forall>i < nch. chunk_trainable e (rnd i) M (chunk_cols ?data dm n (?offs ! i) (?offs ! (i + 1) - ?offs ! i)) n (?offs ! (i + 1) - ?offs ! i) nc"
    using assms(9) by (simp add: trainable_def nth Let_def del: upt_Suc)
  have "\<forall>j < nc. \<forall>d < ?offs ! 0. bounded Binary32 M (ke_new_f32 e (nc * dm) ! (j * dm + d))"
    using nth[of 0] by (simp add: chunk_start_def del: upt_Suc)
  then obtain full where full: "train_chunks e rnd ?data n dm nc reps ?offs [0..<nch] (ke_new_f32 e (nc * dm)) = Some (Inr full)" "length full = nc * dm"
    "\<forall>j < nc. \<forall>d < ?offs ! nch. bounded Binary32 M (full ! (j * dm + d))"
    using train_chunks_run[OF assms(1,3,4,8,7) assms(2)[rule_format] offs le0 tr] by blast
  have "bounded Binary32 M (full ! x)" if "x < nc * dm" for x
  proof -
    have "0 < dm" using assms(5,6) by simp
    moreover have "x div dm < nc" using that by (simp add: less_mult_imp_div_less)
    ultimately show ?thesis using full(3)[rule_format, of "x div dm" "x mod dm"] nth[of nch] last by simp
  qed
  then have "\<forall>x \<in> set full. bounded Binary32 M x" using full(2) by (auto simp: in_set_conv_nth)
  moreover have "\<not> dm < nch" using assms(6) by simp
  ultimately show ?thesis
    using full(1,2) assms(10) chunk_offsets_eq[OF assms(5-7)]
    by (intro exI[of _ full]) (simp add: generate_pq_pivots_def train_points_def Let_def del: upt_Suc split: if_splits)
qed

lemma fdiv_wf: "wf_fp f x \<Longrightarrow> wf_fp f y \<Longrightarrow> wf_fp f (fdiv f x y)"
  by (cases x; cases y) (auto intro!: fround_wf divide_nonneg_nonneg dest: representable_nonneg)

lemma fsum_wf: "wf_fp f z \<Longrightarrow> wf_fp f (fold (\<lambda>p c. fadd f c (g p)) ps z)"
  by (induction ps arbitrary: z) (simp_all add: fadd_wf)

lemma train_centroid_wf: "\<forall>x \<in> set (train_centroid data n dm mz). wf_fp Binary32 x" "length (train_centroid data n dm mz) = dm"
  by (auto simp: train_centroid_def f_of_nat_def intro!: fdiv_wf fround_wf fsum_wf)

lemma table_ok:
  assumes "0 < nch" "nch \<le> dm" "length full = 256 * dm" "\<forall>x \<in> set full. is_fin x"
  shows "pq_table_ok \<lparr>pt_ndims = dm, pt_n_chunks = nch, pt_tables = full, pt_tables_tr = transpose_tables dm full, pt_centroid = mean,
    pt_chunk_offsets = map (chunk_start dm nch) [0..<Suc nch], pt_rotmat_tr = None\<rparr>" (is "pq_table_ok ?pt")
proof -
  have "j < dm" if "c < nch" "j \<in> set (chunk_dims ?pt c)" for c j
  proof -
    have "j < chunk_start dm nch (c + 1)" using that by (simp add: chunk_dims_def del: upt_Suc)
    also have "\<dots> \<le> chunk_start dm nch nch" using that(1) by (intro chunk_start_mono) simp
    finally show ?thesis using chunk_start_end[OF assms(1)] by simp
  qed
  then show ?thesis using assms(3,4) by (simp add: pq_table_ok_def chunks_inside_def del: upt_Suc)
qed

lemma pivots_file_run:
  assumes "kenv_ok e" "\<forall>m. length (ke_new_f32 e m) = m" "0 < n" "n \<le> 2 ^ 23" "0 < nch" "nch \<le> dm" "dm + 1 < 2 ^ 32"
    and "trainable e rnd M (train_points passed n dm mz) n dm 256 nch" "pivots_exist what fo 256 dm = Inr False"
  shows "\<exists>f full. generate_pq_pivots e rnd what fo passed n dm 256 nch reps mz = Some (Inr (0, Some f)) \<and>
      load_pivot_parts what (Some f) 256 nch dm = Inr (full, train_centroid passed n dm mz, map (chunk_start dm nch) [0..<Suc nch]) \<and>
      load_pq_centroid_bin what (Some f) None 0 =
        Inr \<lparr>pt_ndims = dm, pt_n_chunks = nch, pt_tables = full, pt_tables_tr = transpose_tables dm full, pt_centroid = train_centroid passed n dm mz,
             pt_chunk_offsets = map (chunk_start dm nch) [0..<Suc nch], pt_rotmat_tr = None\<rparr> \<and>
      length full = 256 * dm \<and> (\<forall>x \<in> set full. bounded Binary32 M x)"
proof -
  let ?offs = "map (chunk_start dm nch) [0..<Suc nch]" and ?mean = "train_centroid passed n dm mz"
  have dm: "dm < 2 ^ 32" using assms(7) by simp
  have c256: "0 < (256 :: nat)" "(256 :: nat) \<le> 256" by simp_all
  obtain full where full: "generate_pq_pivots e rnd what fo passed n dm 256 nch reps mz = Some (Inr (0, Some (write_pivots fo full 256 dm ?mean ?offs)))"
    "length full = 256 * dm" "\<forall>x \<in> set full. bounded Binary32 M x"
    using generate_pq_pivots_run[OF assms(1-6) dm c256(1) assms(8,9)] by blast
  have "chunk_start dm nch b < 2 ^ 32" if "b \<le> nch" for b
    using chunk_start_mono[OF that, of dm nch] chunk_start_end[OF assms(5), of dm] assms(7) by linarith
  then have offs: "\<forall>x \<in> set ?offs. x < 2 ^ 32" by (auto simp: less_Suc_eq_le simp del: upt_Suc)
  have wf: "\<forall>x \<in> set (full @ ?mean). wf_fp Binary32 x" using full(3) bounded_wf train_centroid_wf(1) by auto
  have len: "length ?offs < 2 ^ 32" "0 < length ?offs" "length ?offs - 1 = nch" using assms(6,7) by (simp_all del: upt_Suc)
  show ?thesis
    using full pivots_loaded[OF full(2) train_centroid_wf(2) c256(2) dm len(1,2) wf offs, of what fo] len(3) by auto
qed

section \<open>The codes\<close>

lemma plain_closest:
  assumes "kenv_ok e" "0 < n" "0 < nc" "length ivf = n" "reachable_centers e data n dm nc None pivots"
  obtains cc where "compute_closest_centers e data n dm pivots nc ivf None None = Inr (cc, None)" "length cc = n"
    "\<forall>j < n. nearest (point_dists e data n dm pivots nc None j) nc (cc ! j)"
proof -
  let ?cc = "map (\<lambda>i. closest_in_row (ke_new_u32 e n ! i) (point_dists e data n dm pivots nc None i) nc) [0..<n]"
  have w: "length (foldl (\<lambda>v j. v[j := ?cc ! (j - 0)]) v js) = length v \<and>
      (\<forall>j < length v. foldl (\<lambda>v j. v[j := ?cc ! (j - 0)]) v js ! j = (if j \<in> set js then ?cc ! (j - 0) else v ! j))" for v js
    by (induction js arbitrary: v) (auto simp: nth_list_update)
  let ?r = "foldl (\<lambda>v j. v[j := ?cc ! (j - 0)]) ivf (ke_order e [0..<n])"
  have "compute_closest_centers e data n dm pivots nc ivf None None = Inr (?r, None)"
    unfolding closest_centers_eq[OF assms(1-3)] by (rule assign_points_plain)
  moreover have "length ?r = n" using w assms(4) by simp
  moreover have "nearest (point_dists e data n dm pivots nc None j) nc (?r ! j)" if "j < n" for j
    using w[of ivf "ke_order e [0..<n]"] that assms(4) order_ok(1)[OF assms(1), of "[0..<n]"] assms(5)
    by (simp add: closest_in_row_nearest reachable_centers_def)
  ultimately show thesis by (intro that[of ?r]) simp_all
qed

text \<open>A column of codes written into the rows.\<close>

lemma write_codes:
  fixes cc
  assumes "n * m \<le> length base" "i < m"
  defines "g \<equiv> foldl (\<lambda>b j. b[j * m + i := cc ! j]) base [0..<n]"
  shows "length g = length base \<and> (\<forall>j < n. \<forall>k < m. g ! (j * m + k) = (if k = i then cc ! j else base ! (j * m + k)))"
proof -
  have same: "j * m + k = j' * m + i \<longleftrightarrow> j = j' \<and> k = i" if "k < m" for j j' k
    using that assms(2) mult_row_le[of j j' m] mult_row_le[of j' j m] by (cases j j' rule: linorder_cases) auto
  have "length (foldl (\<lambda>b j. b[j * m + i := cc ! j]) base [0..<q]) = length base \<and>
      (\<forall>j < n. \<forall>k < m. foldl (\<lambda>b j. b[j * m + i := cc ! j]) base [0..<q] ! (j * m + k) = (if k = i \<and> j < q then cc ! j else base ! (j * m + k)))"
    if "q \<le> n" for q
    using that
  proof (induction q)
    case (Suc q)
    have "j * m + k < length base" if "j < n" "k < m" for j k using mult_row_le[OF that(1), of m] that(2) assms(1) by linarith
    moreover have "q * m + i = j * m + k \<longleftrightarrow> j = q \<and> k = i" if "k < m" for j k using same[OF that, of j q] by auto
    ultimately show ?case using Suc by (auto simp: nth_list_update less_Suc_eq)
  qed simp
  from this[of n] show ?thesis unfolding g_def by simp
qed

text \<open>The distances a code is chosen by: point \<open>j\<close> of a block of \<open>n\<close> points in chunk \<open>i\<close>.\<close>

definition code_dists :: "kenv \<Rightarrow> fp list \<Rightarrow> nat list \<Rightarrow> nat \<Rightarrow> nat \<Rightarrow> fp list \<Rightarrow> nat \<Rightarrow> nat \<Rightarrow> nat \<Rightarrow> fp list" where
  "code_dists e full offs nc dm pts n i j =
     (let lo = offs ! i; sz = offs ! (i + 1) - lo
      in point_dists e (chunk_cols pts dm n lo sz) n sz (chunk_cols full dm nc lo sz) nc None j)"

definition codable :: "kenv \<Rightarrow> fp list \<Rightarrow> nat list \<Rightarrow> nat \<Rightarrow> nat \<Rightarrow> nat \<Rightarrow> fp list \<Rightarrow> nat \<Rightarrow> bool" where
  "codable e full offs nc nch dm pts n \<longleftrightarrow> (\<forall>i < nch. \<forall>j < n. \<exists>k < nc. flt (code_dists e full offs nc dm pts n i j ! k) flt_max)"

lemma encode_chunks_run:
  assumes "kenv_ok e" "0 < n" "0 < nc" "n * nch \<le> length base" "m \<le> nch" "dm < 2 ^ 32"
    and "\<forall>i < nch. offs ! i < offs ! (i + 1) \<and> offs ! (i + 1) \<le> dm" "codable e full offs nc nch dm pts n"
  shows "\<exists>base'. rfold (encode_chunk e full offs nc nch dm n pts) [0..<m] base = Inr base' \<and> length base' = length base \<and>
      (\<forall>j < n. \<forall>i < m. nearest (code_dists e full offs nc dm pts n i j) nc (base' ! (j * nch + i)))"
  using assms(5)
proof (induction m)
  case (Suc m)
  then obtain b where b: "rfold (encode_chunk e full offs nc nch dm n pts) [0..<m] base = Inr b" "length b = length base"
    "\<forall>j < n. \<forall>i < m. nearest (code_dists e full offs nc dm pts n i j) nc (b ! (j * nch + i))" by auto
  have m: "m < nch" using Suc.prems by simp
  let ?lo = "offs ! m" and ?sz = "offs ! (m + 1) - offs ! m"
  have lt: "?lo < offs ! (m + 1)" "offs ! (m + 1) < 2 ^ 32" using assms(6,7) m by (auto intro: le_less_trans)
  have sz: "sub32 (offs ! (m + 1)) ?lo = ?sz" by (rule sub32_id[OF less_imp_le[OF lt(1)] lt(2)])
  have "reachable_centers e (chunk_cols pts dm n ?lo ?sz) n ?sz nc None (chunk_cols full dm nc ?lo ?sz)"
    using assms(8) m by (simp add: codable_def reachable_centers_def code_dists_def Let_def)
  from plain_closest[OF assms(1-3) _ this, of "replicate n 0"] obtain cc
    where cc: "compute_closest_centers e (chunk_cols pts dm n ?lo ?sz) n ?sz (chunk_cols full dm nc ?lo ?sz) nc (replicate n 0) None None = Inr (cc, None)"
      "\<forall>j < n. nearest (code_dists e full offs nc dm pts n m j) nc (cc ! j)"
    by (auto simp: code_dists_def Let_def)
  let ?b = "foldl (\<lambda>b j. b[j * nch + m := cc ! j]) b [0..<n]"
  have w: "length ?b = length base" "\<forall>j < n. \<forall>k < nch. ?b ! (j * nch + k) = (if k = m then cc ! j else b ! (j * nch + k))"
    using write_codes[of n nch b m cc] b(2) m assms(4) by auto
  have "encode_chunk e full offs nc nch dm n pts m b = Inr ?b"
    unfolding encode_chunk_def Let_def sz using lt(1) cc(1) by simp
  moreover have "nearest (code_dists e full offs nc dm pts n i j) nc (?b ! (j * nch + i))" if "j < n" "i < Suc m" for i j
    using w(2)[rule_format, OF that(1), of i] that m b(3) cc(2) by (cases "i = m") auto
  ultimately show ?case using b(1) w(1) by (simp add: rfold_append)
qed simp

section \<open>The blocks\<close>

definition block_len :: "nat \<Rightarrow> nat \<Rightarrow> nat \<Rightarrow> nat" where
  "block_len bs N b = min bs (N - b * bs)"

definition block_points :: "fp list \<Rightarrow> fp list \<Rightarrow> nat \<Rightarrow> nat \<Rightarrow> nat \<Rightarrow> nat \<Rightarrow> fp list" where
  "block_points mean pts dm bs N b = centered mean (block pts (b * bs * dm) (block_len bs N b * dm)) dm"

text \<open>The distances of point \<open>p\<close> in chunk \<open>i\<close>, computed with its block.\<close>

definition point_code_dists :: "kenv \<Rightarrow> fp list \<Rightarrow> fp list \<Rightarrow> nat list \<Rightarrow> nat \<Rightarrow> fp list \<Rightarrow> nat \<Rightarrow> nat \<Rightarrow> nat \<Rightarrow> nat \<Rightarrow> fp list" where
  "point_code_dists e full mean offs dm pts bs N p i =
     code_dists e full offs 256 dm (block_points mean pts dm bs N (p div bs)) (block_len bs N (p div bs)) i (p mod bs)"

lemma f32s_block:
  assumes "4 dvd length body"
  shows "f32s (block body (4 * i) (4 * n)) = block (f32s body) i n"
proof -
  have "map u32 (block (dec32 body) i n) = block (dec32 body) i n"
    by (intro map_idI u32_id dec32_lt) (auto simp: block_def dest: in_set_takeD in_set_dropD)
  then have "dec32 (block body (4 * i) (4 * n)) = block (dec32 body) i n"
    using block_enc32[of "dec32 body" i n] enc32_dec32[OF assms] by simp
  then show ?thesis by (simp add: f32s_def block_def take_map drop_map)
qed

text \<open>After \<open>b\<close> blocks.\<close>

definition writer_inv ::
  "kenv \<Rightarrow> fp list \<Rightarrow> fp list \<Rightarrow> nat list \<Rightarrow> nat \<Rightarrow> nat \<Rightarrow> byte list \<Rightarrow> nat \<Rightarrow> nat \<Rightarrow> byte list \<Rightarrow> nat \<Rightarrow> pq_writer \<Rightarrow> nat list \<Rightarrow> bool" where
  "writer_inv e full mean offs nch dm body bs N hdr b w codes \<longleftrightarrow>
     cifs_ok (pw_reader w) \<and> cifs_rest (pw_reader w) = drop (4 * (min (b * bs) N * dm)) body \<and> length (pw_base w) = bs * nch \<and>
     pw_out w = hdr @ map word_of_nat codes \<and> length codes = min (b * bs) N * nch \<and>
     (\<forall>p < min (b * bs) N. \<forall>i < nch. nearest (point_code_dists e full mean offs dm (f32s body) bs N p i) 256 (codes ! (p * nch + i)))"

lemma encode_block_run:
  assumes "kenv_ok e" "b * bs < N" "0 < bs" "length body = 4 * (N * dm)" "dm < 2 ^ 32" "\<forall>i < nch. offs ! i < offs ! (i + 1) \<and> offs ! (i + 1) \<le> dm"
    and "codable e full offs 256 nch dm (block_points mean (f32s body) dm bs N b) (block_len bs N b)"
    and "writer_inv e full mean offs nch dm body bs N hdr b w codes"
  shows "\<exists>w' codes'. encode_block e full mean offs 256 nch dm N bs b w = Inr w' \<and> writer_inv e full mean offs nch dm body bs N hdr (b + 1) w' codes'"
proof -
  note i = assms(8)[unfolded writer_inv_def]
  let ?n = "block_len bs N b" and ?pts = "block_points mean (f32s body) dm bs N b"
  have n: "0 < ?n" "?n \<le> bs" "min ((b + 1) * bs) N - b * bs = ?n" "min ((b + 1) * bs) N = b * bs + ?n" "min (b * bs) N = b * bs"
    using assms(2,3) by (auto simp: block_len_def)
  have fits: "b * bs * dm + ?n * dm \<le> N * dm" using mult_le_mono1[of "b * bs + ?n" N dm] n(4) by (simp add: algebra_simps min_def split: if_splits)
  have rest: "4 * (?n * dm) \<le> length (cifs_rest (pw_reader w))" using i n(5) fits assms(4) by simp
  obtain rd where rd: "cifs_read (pw_reader w) (4 * (?n * dm)) = Inr (block body (4 * (b * bs * dm)) (4 * (?n * dm)), rd)" "cifs_ok rd"
    "cifs_rest rd = drop (4 * (?n * dm)) (drop (4 * (b * bs * dm)) body)"
    using cifs_read_ok[OF _ rest] i n(5) by (auto simp: block_def)
  have pts: "centered mean (f32s (block body (4 * (b * bs * dm)) (4 * (?n * dm)))) dm = ?pts"
    using f32s_block[of body "b * bs * dm" "?n * dm"] assms(4) by (simp add: block_points_def)
  have base: "?n * nch \<le> length (pw_base w)" using i n(2) by simp
  obtain base' where base': "rfold (encode_chunk e full offs 256 nch dm ?n ?pts) [0..<nch] (pw_base w) = Inr base'" "length base' = bs * nch"
    "\<forall>j < ?n. \<forall>i < nch. nearest (code_dists e full offs 256 dm ?pts ?n i j) 256 (base' ! (j * nch + i))"
    using encode_chunks_run[OF assms(1) n(1) _ base order.refl assms(5,6,7)] i by auto
  let ?codes = "take (?n * nch) base'"
  let ?w = "\<lparr>pw_reader = rd, pw_base = base', pw_out = pw_out w @ map word_of_nat ?codes\<rparr>"
  have "encode_block e full mean offs 256 nch dm N bs b w = Inr ?w"
    unfolding encode_block_def Let_def n(3) rd(1) using base'(1) by (simp add: pts)
  moreover have "writer_inv e full mean offs nch dm body bs N hdr (b + 1) ?w (codes @ ?codes)"
  proof -
    have lc: "length codes = b * bs * nch" using i n(5) by simp
    have ln: "length ?codes = ?n * nch" using base'(2) mult_le_mono1[OF n(2), of nch] by simp
    have near: "nearest (point_code_dists e full mean offs dm (f32s body) bs N p k) 256 ((codes @ ?codes) ! (p * nch + k))"
      if p: "p < b * bs + ?n" and k: "k < nch" for p k
    proof (cases "p < b * bs")
      case True
      then have "p * nch + k < b * bs * nch" using mult_row_le[OF True, of nch] k by linarith
      then show ?thesis using i True k lc n(5) by (simp add: nth_append)
    next
      case False
      let ?j = "p - b * bs"
      have j: "?j < ?n" "?j < bs" "p = b * bs + ?j" using False p n(2) by linarith+
      have dm: "p div bs = b" "p mod bs = ?j" using j(2) by (subst j(3), simp)+
      have idx: "p * nch + k = b * bs * nch + (?j * nch + k)" by (subst j(3)) (simp add: algebra_simps)
      have "?j * nch + k < ?n * nch" using mult_row_le[OF j(1), of nch] k by linarith
      then have "(codes @ ?codes) ! (p * nch + k) = base' ! (?j * nch + k)" unfolding idx using lc by (simp add: nth_append)
      then show ?thesis using base'(3) j(1) k by (simp add: point_code_dists_def dm)
    qed
    have "cifs_rest rd = drop (4 * ((b * bs + ?n) * dm)) body" using rd(3) by (simp add: algebra_simps)
    then show ?thesis unfolding writer_inv_def n(4)
      using rd(2) base'(2) i lc ln near by (simp add: algebra_simps)
  qed
  ultimately show ?thesis by blast
qed

lemma pq_block_size_pos: "pq_block_size env_p dm N = Inr bs \<Longrightarrow> 0 < N \<Longrightarrow> 0 < bs"
  by (auto simp: pq_block_size_def Let_def split: if_splits option.splits sum.splits)

text \<open>Without points the block size, by which the number of blocks divides, is zero.\<close>

lemma pq_block_size_empty: "0 < dm \<Longrightarrow> pq_block_size env_p dm 0 = Inr 0"
  by (simp add: pq_block_size_def Let_def)

lemma encode_blocks_run:
  assumes "kenv_ok e" "0 < bs" "length body = 4 * (N * dm)" "dm < 2 ^ 32" "\<forall>i < nch. offs ! i < offs ! (i + 1) \<and> offs ! (i + 1) \<le> dm"
    and "\<forall>b. b * bs < N \<longrightarrow> codable e full offs 256 nch dm (block_points mean (f32s body) dm bs N b) (block_len bs N b)"
    and "writer_inv e full mean offs nch dm body bs N hdr 0 w []" "m \<le> div_up N bs"
  shows "\<exists>w' codes. rfold (encode_block e full mean offs 256 nch dm N bs) [0..<m] w = Inr w' \<and> writer_inv e full mean offs nch dm body bs N hdr m w' codes"
  using assms(8)
proof (induction m)
  case (Suc m)
  then obtain w' codes where w': "rfold (encode_block e full mean offs 256 nch dm N bs) [0..<m] w = Inr w'" "writer_inv e full mean offs nch dm body bs N hdr m w' codes"
    by auto
  have "(m + 1) * bs \<le> div_up N bs * bs" using Suc.prems by (intro mult_le_mono1) simp
  then have m: "m * bs < N" using div_up_mult_less[OF assms(2), of N] by simp
  show ?case using encode_block_run[OF assms(1) m assms(2-5) _ w'(2)] assms(6) m w'(1) by (auto simp: rfold_append)
qed (use assms(7) in auto)

lemma header_read:
  assumes "a < 2 ^ 32" "b < 2 ^ 32"
  obtains r1 r2 where "cifs_read (cifs_open (le_bytes 4 a @ le_bytes 4 b @ body) c) 4 = Inr (le_bytes 4 a, r1)"
    "cifs_read r1 4 = Inr (le_bytes 4 b, r2)" "cifs_ok r2" "cifs_rest r2 = body"
proof -
  let ?f = "le_bytes 4 a @ le_bytes 4 b @ body"
  obtain r1 where r1: "cifs_read (cifs_open ?f c) 4 = Inr (le_bytes 4 a, r1)" "cifs_ok r1" "cifs_rest r1 = le_bytes 4 b @ body"
    using cifs_read_ok[OF cifs_open_ok(1)[of ?f c], of 4] unfolding cifs_open_ok(2) by auto
  obtain r2 where "cifs_read r1 4 = Inr (le_bytes 4 b, r2)" "cifs_ok r2" "cifs_rest r2 = body"
    using cifs_read_ok[OF r1(2), of 4] unfolding r1(3) by auto
  then show thesis using that r1(1) by blast
qed

lemma codes_file_run:
  assumes "kenv_ok e" "0 < N" "N < 2 ^ 32" "dm < 2 ^ 32" "nch < 2 ^ 32" "length body = 4 * (N * dm)" "pq_block_size env_p dm N = Inr bs"
    and "load_pivot_parts what pf 256 nch dm = Inr (full, mean, offs)" "\<forall>i < nch. offs ! i < offs ! (i + 1) \<and> offs ! (i + 1) \<le> dm"
    and "\<forall>b. b * bs < N \<longrightarrow> codable e full offs 256 nch dm (block_points mean (f32s body) dm bs N b) (block_len bs N b)"
  shows "\<exists>codes. generate_pq_data_from_pivots e env_p (le_bytes 4 N @ le_bytes 4 dm @ body) 256 nch what pf =
        Inr (le_bytes 4 N @ le_bytes 4 nch @ map word_of_nat codes) \<and> length codes = N * nch \<and>
      (\<forall>p < N. \<forall>i < nch. nearest (point_code_dists e full mean offs dm (f32s body) bs N p i) 256 (codes ! (p * nch + i)))"
proof -
  let ?hdr = "le_bytes 4 N @ le_bytes 4 nch"
  obtain r1 r2 where r: "cifs_read (cifs_open (le_bytes 4 N @ le_bytes 4 dm @ body) (64 * 1024 * 1024)) 4 = Inr (le_bytes 4 N, r1)"
    "cifs_read r1 4 = Inr (le_bytes 4 dm, r2)" "cifs_ok r2" "cifs_rest r2 = body" by (rule header_read[OF assms(3,4)])
  have bs: "0 < bs" by (rule pq_block_size_pos[OF assms(7,2)])
  let ?w = "\<lparr>pw_reader = r2, pw_base = replicate (bs * nch) 0, pw_out = ?hdr\<rparr>"
  have "writer_inv e full mean offs nch dm body bs N ?hdr 0 ?w []" using r(3,4) by (simp add: writer_inv_def)
  from encode_blocks_run[OF assms(1) bs assms(6,4,9,10) this order.refl] obtain w codes
    where w: "rfold (encode_block e full mean offs 256 nch dm N bs) [0..<div_up N bs] ?w = Inr w"
      "writer_inv e full mean offs nch dm body bs N ?hdr (div_up N bs) w codes" by blast
  have all: "min (div_up N bs * bs) N = N" using div_up_mult_ge[OF bs, of N] by simp
  have "generate_pq_data_from_pivots e env_p (le_bytes 4 N @ le_bytes 4 dm @ body) 256 nch what pf = Inr (pw_out w)"
    using r(1,2) assms(3,4,7,8) bs w(1) by (simp add: generate_pq_data_from_pivots_def u32_id DIV_ROUND_UP_eq)
  then show ?thesis using w(2) unfolding writer_inv_def all by auto
qed

section \<open>The sample\<close>

definition sampled :: "(nat \<Rightarrow> fp) \<Rightarrow> fp \<Rightarrow> nat \<Rightarrow> nat list" where
  "sampled draws p_val N = filter (\<lambda>i. flt (draws i) (if flt p_val fone then p_val else fone)) [0..<N]"

lemma sample_points_run:
  assumes "cifs_ok r" "cifs_rest r = body" "length body = 4 * (N * dm)" "m \<le> N"
  shows "\<exists>rd. rfold (sample_point draws p dm) [0..<m] (r, []) =
      Inr (rd, map (\<lambda>i. block (f32s body) (i * dm) dm) (filter (\<lambda>i. flt (draws i) p) [0..<m])) \<and> cifs_ok rd \<and> cifs_rest rd = drop (4 * (m * dm)) body"
  using assms(4)
proof (induction m)
  case (Suc m)
  let ?xs = "map (\<lambda>i. block (f32s body) (i * dm) dm) (filter (\<lambda>i. flt (draws i) p) [0..<m])"
  obtain rd where rd: "rfold (sample_point draws p dm) [0..<m] (r, []) = Inr (rd, ?xs)" "cifs_ok rd" "cifs_rest rd = drop (4 * (m * dm)) body"
    using Suc by auto
  have "4 * dm \<le> length (cifs_rest rd)" using mult_row_le[of m N dm] Suc.prems assms(3) rd(3) by simp
  from cifs_read_ok[OF rd(2) this] obtain rd' where rd': "cifs_read rd (4 * dm) = Inr (block body (4 * (m * dm)) (4 * dm), rd')" "cifs_ok rd'"
    "cifs_rest rd' = drop (4 * (Suc m * dm)) body"
    unfolding rd(3) by (auto simp: block_def algebra_simps)
  have "f32s (block body (4 * (m * dm)) (4 * dm)) = block (f32s body) (m * dm) dm" using assms(3) by (intro f32s_block) simp
  then have "sample_point draws p dm m (rd, ?xs) = Inr (rd', if flt (draws m) p then ?xs @ [block (f32s body) (m * dm) dm] else ?xs)"
    using rd'(1) by (simp add: sample_point_def mult.commute[of dm 4])
  then show ?case using rd(1) rd'(2,3) by (simp add: rfold_append)
qed (use assms(1,2) in auto)

lemma gen_random_slice_run:
  assumes "N < 2 ^ 32" "dm < 2 ^ 32" "length body = 4 * (N * dm)"
  shows "gen_random_slice draws (le_bytes 4 N @ le_bytes 4 dm @ body) p_val =
    Inr (concat (map (\<lambda>i. block (f32s body) (i * dm) dm) (sampled draws p_val N)), length (sampled draws p_val N), dm)"
proof -
  obtain r1 r2 where r: "cifs_read (cifs_open (le_bytes 4 N @ le_bytes 4 dm @ body) (64 * 1024 * 1024)) 4 = Inr (le_bytes 4 N, r1)"
    "cifs_read r1 4 = Inr (le_bytes 4 dm, r2)" "cifs_ok r2" "cifs_rest r2 = body" by (rule header_read[OF assms(1,2)])
  let ?p = "if flt p_val fone then p_val else fone"
  obtain rd where "rfold (sample_point draws ?p dm) [0..<N] (r2, []) = Inr (rd, map (\<lambda>i. block (f32s body) (i * dm) dm) (filter (\<lambda>i. flt (draws i) ?p) [0..<N]))"
    using sample_points_run[OF r(3,4) assms(3) order.refl] by blast
  then show ?thesis
    using r(1,2) assms(1,2) unfolding gen_random_slice_def Let_def by (simp only: rbind_simps prod.case le_nat_bytes4 u32_id sampled_def length_map)
qed

section \<open>Properties\<close>

text \<open>C11. \<open>generate_pq_pivots\<close> returns, for any random generators and any BLAS library with distances below \<open>FLT_MAX\<close>, and the file it writes loads in
  the search: the table has the dimension and the chunks asked for, the chunks are the balanced ranges of dimensions,
  the centroid is the mean of the training data, and the centres lie in the box of the training data, so
  \<open>pq_table_ok\<close>, on which every compressed distance rests, holds. A file that was there with other numbers is written over.\<close>

theorem pq_pivots_loaded:
  assumes "kenv_ok e" "\<forall>m. length (ke_new_f32 e m) = m" "0 < n" "n \<le> 2 ^ 23" "0 < nch" "nch \<le> dm" "dm + 1 < 2 ^ 32"
    and "trainable e rnd M (train_points passed n dm mz) n dm 256 nch" "pivots_exist what fo 256 dm = Inr False"
  shows "\<exists>f pt. generate_pq_pivots e rnd what fo passed n dm 256 nch reps mz = Some (Inr (0, Some f)) \<and>
      load_pq_centroid_bin what (Some f) None 0 = Inr pt \<and> pq_table_ok pt \<and> pt_ndims pt = dm \<and> pt_n_chunks pt = nch \<and>
      pt_chunk_offsets pt = map (chunk_start dm nch) [0..<Suc nch] \<and> pt_centroid pt = train_centroid passed n dm mz \<and>
      (\<forall>x \<in> set (pt_tables pt). bounded Binary32 M x)"
proof -
  obtain f full where f: "generate_pq_pivots e rnd what fo passed n dm 256 nch reps mz = Some (Inr (0, Some f))"
    "load_pq_centroid_bin what (Some f) None 0 =
        Inr \<lparr>pt_ndims = dm, pt_n_chunks = nch, pt_tables = full, pt_tables_tr = transpose_tables dm full, pt_centroid = train_centroid passed n dm mz,
             pt_chunk_offsets = map (chunk_start dm nch) [0..<Suc nch], pt_rotmat_tr = None\<rparr>"
    "length full = 256 * dm" "\<forall>x \<in> set full. bounded Binary32 M x"
    using pivots_file_run[OF assms] by blast
  have "\<forall>x \<in> set full. is_fin x" using f(4) bounded_fin by blast
  from table_ok[OF assms(5,6) f(3) this] f show ?thesis by (intro exI conjI) (assumption | simp del: upt_Suc)+
qed

lemma codes_loaded:
  assumes "N < 2 ^ 32" "nch < 2 ^ 32" "length codes = N * nch"
  shows "load_bin_at 1 what (Some (le_bytes 4 N @ le_bytes 4 nch @ map word_of_nat codes)) 0 = Inr (map word_of_nat codes, N, nch)"
  using load_bin_at_found[of 0 "[]" N nch "map word_of_nat codes" 1 what "[]"] assms by simp


lemma quantized_run:
  fixes body :: "byte list" and N dm nch :: nat and draws p_val metric
  defines "sel \<equiv> sampled draws p_val N"
  defines "train \<equiv> concat (map (\<lambda>i. block (f32s body) (i * dm) dm) sel)" and "offs \<equiv> map (chunk_start dm nch) [0..<Suc nch]"
  defines "mean \<equiv> train_centroid train (length sel) dm (metric \<noteq> INNER_PRODUCT)"
  assumes "kenv_ok e" "\<forall>m. length (ke_new_f32 e m) = m" "0 < N" "N < 2 ^ 32" "0 < nch" "nch \<le> dm" "dm + 1 < 2 ^ 32" "length body = 4 * (N * dm)"
    and "0 < length sel" "length sel \<le> 2 ^ 23" "trainable e rnd M (train_points train (length sel) dm (metric \<noteq> INNER_PRODUCT)) (length sel) dm 256 nch"
    and "pivots_exist what fo 256 dm = Inr False" "pq_block_size env_p dm N = Inr bs"
    and "\<forall>full. box_data M (256 * dm) full \<longrightarrow>
      (\<forall>b. b * bs < N \<longrightarrow> codable e full offs 256 nch dm (block_points mean (f32s body) dm bs N b) (block_len bs N b))"
  shows "\<exists>pf cf pq codes. generate_quantized_data e draws rnd env_p (le_bytes 4 N @ le_bytes 4 dm @ body) what fo metric p_val nch False = Some (Inr (Some pf, cf)) \<and>
      (\<forall>fs p out. fs (p @ ''_disk.index'') = Some out \<and> fs (p @ ''_medoids.bin'') = None \<and> fs (p @ ''_centroids.bin'') = None \<and>
         p @ ''_pq_pivots.bin'' = what \<and> fs what = Some pf \<and> fs (p @ ''_pq_pivots.bin_rotation_matrix.bin'') = None \<and> fs (p @ ''_pq_compressed.bin'') = Some cf \<longrightarrow>
         index_files fs p out pq (map word_of_nat codes) N dm) \<and>
      (\<forall>p < N. \<forall>i < nch. nearest (point_code_dists e (pt_tables pq) mean offs dm (f32s body) bs N p i) 256 (codes ! (p * nch + i)))"
proof -
  let ?f = "le_bytes 4 N @ le_bytes 4 dm @ body" and ?mz = "metric \<noteq> INNER_PRODUCT" and ?n = "length sel"
  have dm: "dm < 2 ^ 32" and nch: "nch < 2 ^ 32" using assms(10,11) by simp_all
  have sample: "gen_random_slice draws ?f p_val = Inr (train, ?n, dm)"
    unfolding train_def sel_def by (rule gen_random_slice_run[OF assms(8) dm assms(12)])
  obtain pf full where pf: "generate_pq_pivots e rnd what fo train ?n dm 256 nch NUM_KMEANS_REPS_PQ ?mz = Some (Inr (0, Some pf))"
    "load_pivot_parts what (Some pf) 256 nch dm = Inr (full, mean, offs)"
    "load_pq_centroid_bin what (Some pf) None 0 =
        Inr \<lparr>pt_ndims = dm, pt_n_chunks = nch, pt_tables = full, pt_tables_tr = transpose_tables dm full, pt_centroid = mean,
             pt_chunk_offsets = offs, pt_rotmat_tr = None\<rparr>"
    "length full = 256 * dm" "\<forall>x \<in> set full. bounded Binary32 M x"
    using pivots_file_run[OF assms(5,6,13,14,9,10,11,15,16)] unfolding mean_def offs_def by blast
  let ?pq = "\<lparr>pt_ndims = dm, pt_n_chunks = nch, pt_tables = full, pt_tables_tr = transpose_tables dm full, pt_centroid = mean,
             pt_chunk_offsets = offs, pt_rotmat_tr = None\<rparr>"
  have M: "representable Binary32 M"
    using assms(9,15) by (auto simp: trainable_def chunk_trainable_def box_data_def Let_def)
  then have "box_data M (256 * dm) full" using pf(4,5) by (simp add: box_data_def)
  note cod = assms(18)[rule_format, OF this]
  have nth: "offs ! b = chunk_start dm nch b" if "b \<le> nch" for b using that by (simp add: offs_def del: upt_Suc)
  have offs: "\<forall>i < nch. offs ! i < offs ! (i + 1) \<and> offs ! (i + 1) \<le> dm"
    using chunk_start_lt[OF _ assms(10)] chunk_start_mono[of _ nch dm nch] chunk_start_end[OF assms(9), of dm] by (auto simp: nth Suc_le_eq)
  obtain codes where codes: "generate_pq_data_from_pivots e env_p ?f 256 nch what (Some pf) = Inr (le_bytes 4 N @ le_bytes 4 nch @ map word_of_nat codes)"
    "length codes = N * nch" "\<forall>p < N. \<forall>i < nch. nearest (point_code_dists e full mean offs dm (f32s body) bs N p i) 256 (codes ! (p * nch + i))"
    using codes_file_run[OF assms(5,7,8) dm nch assms(12,17) pf(2) offs] cod by blast
  let ?cf = "le_bytes 4 N @ le_bytes 4 nch @ map word_of_nat codes"
  have "generate_quantized_data e draws rnd env_p ?f what fo metric p_val nch False = Some (Inr (Some pf, ?cf))"
    unfolding generate_quantized_data_def using sample pf(1) codes(1) nch by (simp add: NUM_PQ_CENTROIDS_def u32_id)
  moreover have "\<forall>x \<in> set full. is_fin x" using pf(5) bounded_fin by blast
  from table_ok[OF assms(9,10) pf(4) this, of mean] have ok: "pq_table_ok ?pq" by (simp add: offs_def)
  moreover have "index_files fs p out ?pq (map word_of_nat codes) N dm"
    if "fs (p @ ''_disk.index'') = Some out \<and> fs (p @ ''_medoids.bin'') = None \<and> fs (p @ ''_centroids.bin'') = None \<and>
         p @ ''_pq_pivots.bin'' = what \<and> fs what = Some pf \<and> fs (p @ ''_pq_pivots.bin_rotation_matrix.bin'') = None \<and> fs (p @ ''_pq_compressed.bin'') = Some ?cf"
    for fs p out
    unfolding index_files_def using that pf(3) ok codes_loaded[OF assms(8) nch codes(2)] codes(2) nch by auto
  ultimately show ?thesis using codes(3) by (intro exI[of _ pf] exI[of _ ?cf] exI[of _ ?pq] exI[of _ codes]) simp
qed

text \<open>The whole of \<open>generate_quantized_data\<close>: sampling, training and compression give a pivots file and a compressed file which, put
  beside a disk index of as many points, are all the search needs to load (\<^const>\<open>index_files\<close>); the codes are those of
  the nearest centres.\<close>

theorem quantized_index_files:
  fixes body :: "byte list" and N dm nch :: nat and draws p_val metric
  defines "sel \<equiv> sampled draws p_val N"
  defines "train \<equiv> concat (map (\<lambda>i. block (f32s body) (i * dm) dm) sel)" and "offs \<equiv> map (chunk_start dm nch) [0..<Suc nch]"
  defines "mean \<equiv> train_centroid train (length sel) dm (metric \<noteq> INNER_PRODUCT)"
  assumes "kenv_ok e" "\<forall>m. length (ke_new_f32 e m) = m" "0 < N" "N < 2 ^ 32" "0 < nch" "nch \<le> dm" "dm + 1 < 2 ^ 32" "length body = 4 * (N * dm)"
    and "0 < length sel" "length sel \<le> 2 ^ 23" "trainable e rnd M (train_points train (length sel) dm (metric \<noteq> INNER_PRODUCT)) (length sel) dm 256 nch"
    and "pivots_exist what fo 256 dm = Inr False" "pq_block_size env_p dm N = Inr bs"
    and "\<forall>full. box_data M (256 * dm) full \<longrightarrow>
      (\<forall>b. b * bs < N \<longrightarrow> codable e full offs 256 nch dm (block_points mean (f32s body) dm bs N b) (block_len bs N b))"
  shows "\<exists>pf cf pq codes. generate_quantized_data e draws rnd env_p (le_bytes 4 N @ le_bytes 4 dm @ body) what fo metric p_val nch False = Some (Inr (Some pf, cf)) \<and>
      (\<forall>fs p out. fs (p @ ''_disk.index'') = Some out \<and> fs (p @ ''_medoids.bin'') = None \<and> fs (p @ ''_centroids.bin'') = None \<and>
         p @ ''_pq_pivots.bin'' = what \<and> fs what = Some pf \<and> fs (p @ ''_pq_pivots.bin_rotation_matrix.bin'') = None \<and> fs (p @ ''_pq_compressed.bin'') = Some cf \<longrightarrow>
         index_files fs p out pq (map word_of_nat codes) N dm) \<and>
      (\<forall>p < N. \<forall>i < nch. nearest (point_code_dists e (pt_tables pq) mean offs dm (f32s body) bs N p i) 256 (codes ! (p * nch + i)))"
  unfolding mean_def offs_def train_def sel_def
  by (rule quantized_run[OF assms(5-18)[unfolded mean_def offs_def train_def sel_def]])

definition sample_rng :: "nat \<Rightarrow> rng" where
  "sample_rng i = \<lparr>rg_int = \<lambda>_. 0, rg_real = \<lambda>_. fzero\<rparr>"

lemma sample_training:
  "\<forall>m. length (ke_new_f32 sample_kenv m) = m" "trainable sample_kenv sample_rng 1 [fzero] 1 1 256 1" "pivots_exist what None 256 1 = Inr False"
  "codable sample_kenv full offs 256 nch dm pts n" "f32s [0, 0, 0, 0] = [fzero]"
proof -
  show "\<forall>m. length (ke_new_f32 sample_kenv m) = m" by (simp add: sample_kenv_def)
  have pd: "points_ok [fzero] 1 1"
    by (simp add: points_ok_def calc_distance_def block_def fsub_def fround_def dist_ok_def)
  have box: "box_data 1 1 [fzero]" using sample_box(2) by (simp add: box_data_def bounded_def)
  have cols: "chunk_cols [fzero] 1 1 0 1 = [fzero]" by (simp add: chunk_cols_def block_def)
  have "chunk_trainable sample_kenv (sample_rng 0) 1 [fzero] 1 1 256"
    using pd box sample_reachable[of 256] by (simp add: chunk_trainable_def sample_rng_def unit_draw_def)
  then show "trainable sample_kenv sample_rng 1 [fzero] 1 1 256 1" using cols by (simp add: trainable_def chunk_start_def Let_def)
  show "pivots_exist what None 256 1 = Inr False" by (simp add: pivots_exist_def)
  show "codable sample_kenv full offs 256 nch dm pts n"
    using sample_reachable[of 256] by (simp add: codable_def code_dists_def reachable_centers_def Let_def)
  show "f32s [0, 0, 0, 0] = [fzero]" by (simp add: f32s_def f32_of_bits_def)
qed

theorem pq_pivots_loaded_witness:
  "\<exists>f pt. generate_pq_pivots sample_kenv sample_rng ''pq_pivots.bin'' None [fzero] 1 1 256 1 12 False = Some (Inr (0, Some f)) \<and>
      load_pq_centroid_bin ''pq_pivots.bin'' (Some f) None 0 = Inr pt \<and> pq_table_ok pt"
proof -
  have t: "trainable sample_kenv sample_rng 1 (train_points [fzero] 1 1 False) 1 1 256 1" using sample_training(2) by (simp add: train_points_def)
  show ?thesis using pq_pivots_loaded[OF sample_kenv_ok sample_training(1) _ _ _ _ _ t sample_training(3), of "''pq_pivots.bin''" 12] by auto
qed


theorem quantized_index_files_witness:
  "\<exists>pf cf pq codes. generate_quantized_data sample_kenv (\<lambda>_. fzero) sample_rng None (le_bytes 4 1 @ le_bytes 4 1 @ [0, 0, 0, 0]) ''x_pq_pivots.bin'' None
        INNER_PRODUCT fone 1 False = Some (Inr (Some pf, cf)) \<and>
     index_files (\<lambda>f. if f = ''x_disk.index'' then Some [] else if f = ''x_pq_pivots.bin'' then Some pf else if f = ''x_pq_compressed.bin'' then Some cf else None)
       ''x'' [] pq codes 1 1"
proof -
  have sel: "sampled (\<lambda>_. fzero) fone 1 = [0]" by (simp add: sampled_def)
  have tr: "concat (map (\<lambda>i. block (f32s [0, 0, 0, 0]) (i * 1) 1) [0]) = [fzero]" unfolding sample_training(5) by (simp add: block_def)
  have t: "trainable sample_kenv sample_rng 1 (train_points [fzero] (length [0 :: nat]) 1 (INNER_PRODUCT \<noteq> INNER_PRODUCT)) (length [0 :: nat]) 1 256 1"
    using sample_training(2) by (simp add: train_points_def)
  have bs: "pq_block_size None 1 1 = Inr 1" by (simp add: pq_block_size_def)
  have num: "0 < (1 :: nat)" "1 < (2 :: nat) ^ 32" "1 \<le> (1 :: nat)" "1 + 1 < (2 :: nat) ^ 32" "length [0, 0, 0, 0 :: byte] = 4 * (1 * 1)"
    "0 < length [0 :: nat]" "length [0 :: nat] \<le> 2 ^ 23" by simp_all
  note th = quantized_index_files[where draws = "\<lambda>_. fzero" and p_val = fone and N = 1 and body = "[0, 0, 0, 0]" and dm = 1 and metric = INNER_PRODUCT,
      unfolded sel tr, OF sample_kenv_ok sample_training(1) num(1,2,1,3-7) t sample_training(3) bs]
  obtain pf cf pq codes where q: "generate_quantized_data sample_kenv (\<lambda>_. fzero) sample_rng None (le_bytes 4 1 @ le_bytes 4 1 @ [0, 0, 0, 0]) ''x_pq_pivots.bin'' None
        INNER_PRODUCT fone 1 False = Some (Inr (Some pf, cf))"
    "\<forall>fs p out. fs (p @ ''_disk.index'') = Some out \<and> fs (p @ ''_medoids.bin'') = None \<and> fs (p @ ''_centroids.bin'') = None \<and>
         p @ ''_pq_pivots.bin'' = ''x_pq_pivots.bin'' \<and> fs ''x_pq_pivots.bin'' = Some pf \<and> fs (p @ ''_pq_pivots.bin_rotation_matrix.bin'') = None \<and>
         fs (p @ ''_pq_compressed.bin'') = Some cf \<longrightarrow> index_files fs p out pq (map word_of_nat codes) 1 1"
    using th[of "''x_pq_pivots.bin''"] sample_training(4) by blast
  show ?thesis using q(1) q(2)[rule_format, of "\<lambda>f. if f = ''x_disk.index'' then Some [] else if f = ''x_pq_pivots.bin'' then Some pf
      else if f = ''x_pq_compressed.bin'' then Some cf else None" "''x''" "[]"] by (intro exI conjI) (assumption, simp)
qed

end
