(* ===== verification/Spec2Isabelle.thy ===== *)
theory Spec2Isabelle
  imports Compaction Cross_Pairs Pq_Prune Search_Driver Sigma_Query Pq_Train
begin

text \<open>
  HiDANN builds a graph index for nearest-neighbour search on data that does not fit in memory, and searches
  it on disk. This development models its C++ code in \<open>construction\<close>, \<open>search\<close>, \<open>src\<close> and \<open>include\<close>; paths are
  relative to the root of the repository.

  \<^bold>\<open>The program.\<close> \<open>construction/our_construction.cpp\<close> splits the points into partitions, builds an in-memory graph
  for each (\<open>Index::link\<close> of \<open>src/index.cpp\<close>) and saves it, searches every selected pair of partitions in both
  directions and prunes what it finds, and writes the resulting candidate records to one log per bucket; a
  compaction step turns the logs of a bucket into one candidate file. \<open>reverse_edge_logic.cpp\<close> adds the reverse
  of every candidate edge, \<open>our_pruning.cpp\<close> prunes the candidate lists with product-quantised distances and
  writes the final graph. \<open>create_disk_layout\<close> (\<open>src/disk_utils.cpp\<close>) puts graph and vectors into sectors. The
  search (\<open>search/ours_search.cpp\<close>) reads nodes through \<open>LinuxAlignedFileReader\<close> and the sources of
  \<open>ours_data_interfaces.cpp\<close>, keeps a cache of neighbour lists whose nodes \<open>ours_cache_gen.cpp\<close> or a
  breadth-first search selects, and refines its candidates with exact distances.

  \<^bold>\<open>Foundations.\<close>
  \<^item> \<open>Prelude\<close>: result type \<open>res\<close> (\<open>Inl\<close> an error), monadic folds, fixed widths \<open>u16\<close>, \<open>u32\<close>, \<open>u64\<close>, \<open>sub64\<close>, list lemmas.
  \<^item> \<open>Bytes\<close>: little-endian integers, byte files and reads from them. \<open>Ieee_Float\<close>: IEEE 754 values and rounding. \<open>Cstd\<close>: the
    string functions of the standard library. \<open>Dist_Order\<close>: comparators and \<open>std::sort\<close>, with the locales \<open>strict_weak\<close>
    and \<open>strict_total\<close>.
  \<^item> \<open>Os_Write\<close>, \<open>Cached_Io\<close>, \<open>Aligned_Reader\<close>: the write loop, the cached streams (\<open>include/cached_io.h\<close>) and the aligned reader
    with its per-thread contexts.

  \<^bold>\<open>Construction.\<close>
  \<^item> \<open>Config\<close>: command line and the list of pairs. \<open>Partition\<close>: offsets of partitions and buckets.
  \<^item> \<open>Neighbor_Queue\<close> (\<open>include/neighbor.h\<close>): the bounded sorted queue equals insertion into a sorted list cut at its
    capacity; the locale \<open>search_queue\<close> is the interface of the searches. \<open>Graph_Store\<close> (\<open>src/in_mem_graph_store.cpp\<close>):
    graph file, its writer and both readers.
  \<^item> \<open>Graph_Search\<close> (\<open>iterate_to_fixed_point\<close> and its variants) and \<open>Vamana_Build\<close> (\<open>link\<close>, pruning, entry point): searches
    end at a fixed point; the build returns, and every interleaving of its critical sections keeps the lists
    well formed, is never stuck and ends.
  \<^item> \<open>Occlude\<close>, \<open>Cross_Pairs\<close>: candidate pruning against its reference; which pairs are searched with which index, and the
    records of a pair and of a partition.
  \<^item> \<open>Bucket_Log\<close>, \<open>Scatter\<close>, \<open>Cand_File\<close>, \<open>Compaction\<close>: concurrent appends to the bucket logs lose, tear and mix nothing; a
    candidate file is the merge of the records of its bucket.
  \<^item> \<open>Reverse_Edge\<close>, \<open>Pq_Prune\<close>: the reverse edges with their file stripes and memory bounds; the pruning stream.

  \<^bold>\<open>Quantisation.\<close>
  \<^item> \<open>Float_Round\<close>, \<open>Float_Bits\<close>: rounding against representable bounds, exact floors of double quotients, sums and means that
    stay within a bound; the bits of a float.
  \<^item> \<open>Kmeans\<close>, \<open>Kmeans_Init\<close> (\<open>src/math_utils.cpp\<close>): a Lloyd iteration assigns the nearest centres and moves them to the means,
    inside the box of the data; k-means++ returns and picks different points (\<open>kpp_loop\<close> is a \<open>partial_function\<close>, and on
    NaNs it is shown not to return).
  \<^item> \<open>Pq_Chunks\<close>, \<open>Pq_Train\<close> (\<open>generate_pq_pivots\<close>, \<open>generate_pq_data_from_pivots\<close>, \<open>generate_quantized_data\<close> of \<open>src/pq.cpp\<close>,
    \<open>gen_random_slice\<close> of \<open>src/partition.cpp\<close>): balanced chunks; the pivots file is what the search loads; the codes are those
    of the nearest centres; both files together satisfy \<open>index_files\<close>, which \<open>graph_to_search\<close> asks for.

  \<^bold>\<open>Disk index and search.\<close>
  \<^item> \<open>Disk_Source\<close> (locale \<open>record_source\<close>: what a source promises of the buffer it is given) and \<open>Disk_Layout\<close>: what is laid
    out is what is read.
  \<^item> \<open>Cache_Table\<close>, \<open>Cache_Select\<close>, \<open>Cache_Gen\<close>: the cache finds exactly the listed nodes; which nodes the selections list, and
    the text file between tool and search.
  \<^item> \<open>Pq_Table\<close> (\<open>src/pq.cpp\<close>), \<open>Search_Load\<close> (\<open>SigmaSearch::load\<close>): the compressed distances of a query are sums over the chunks;
    an index that was laid out loads with its sources, table, codes and start node.
  \<^item> \<open>Beam_Search\<close>, \<open>Beam_Refine\<close>: the traversal ends, returns the best of the visited nodes and keeps to the I/O limit; the
    refinement returns the best by exact distance.
  \<^item> \<open>Sigma_Query\<close> (\<open>cached_beam_search_explicit\<close>): one query from the normalisation to its ids and distances, on a loaded index.
  \<^item> \<open>Search_Driver\<close> (\<open>search/ours_search_main.cpp\<close>, \<open>calculate_recall\<close>): the parallel loop over the queries gives the same
    results in every order; what is saved, the recall, and what goes wrong when a list size is skipped.

  This theory composes them: \<open>build_save_dump\<close> from the build of a partition to its records, \<open>graph_to_search\<close> from a graph
  to the answers of the search, \<open>vectors_to_search\<close> the same with the pivots and codes that the quantisation itself trains and writes.

  \<^bold>\<open>Parameters and bounds.\<close> Distances enter as functions, and theorems ask that they are non-negative where the order
  needs it; \<open>Pq_Table\<close> shows it of the compressed distances. BLAS calls, values of random generators and fresh memory are
  parameters of the training (\<open>kenv\<close>, \<open>rng\<close>), with the hypotheses \<open>kenv_ok\<close>, \<open>unit_draw\<close> and distances below
  \<open>FLT_MAX\<close> (\<open>reachable_centers\<close>); at most \<open>2\<^sup>2\<^sup>3\<close> points take part in k-means++. Kernel calls (partial writes, submission and completion counts
  of \<open>libaio\<close>) are functions with the named hypotheses \<open>aio_up\<close> and those of \<open>Os_Write\<close>. Threads appear as step
  relations over critical sections or as an arbitrary order of their effects; orders of hash sets and memory
  contents before the first write are arbitrary. Loops without an evident bound are \<open>partial_function (option)\<close>, and
  their theorems show that they return; no fuel is used. Machine integers are natural numbers with the wrap-around
  written out; hypotheses state the widths a file format can hold.

  \<^bold>\<open>Not modelled.\<close> The \<open>io_uring\<close> engine of the reader (a build option); SIMD kernels and their accuracy
  (\<open>src/distance.cpp\<close>); OPQ, which rests on LAPACK, and the shards of \<open>src/partition.cpp\<close>; the freedom
  \<open>-Ofast\<close> gives the compiler (arithmetic is IEEE 754 in the order of the source); dynamic insertion and deletion, tags and filters of \<open>src/index.cpp\<close>, which HiDANN
  does not call; timers, statistics, printing and the command line of the search; scripts, Python code and the
  vendored baselines.
\<close>

section \<open>From the build of a partition to its records\<close>

lemma rows_fit_of_graph_rows:
  assumes "graph_rows N R g" "N < 2 ^ 32" "R < 2 ^ 16"
  shows "rows_fit (gs_graph g)" "\<forall>row \<in> set (gs_graph g). set row \<subseteq> {..<N} \<and> length row < 2 ^ 16" "length (gs_graph g) = N"
proof -
  show N: "length (gs_graph g) = N" using assms(1) by (simp add: graph_rows_def)
  have row: "length row \<le> R" "set row \<subseteq> {..<N}" if "row \<in> set (gs_graph g)" for row
    using that assms(1) by (auto simp: graph_rows_def row_ok_def in_set_conv_nth)
  then show "\<forall>row \<in> set (gs_graph g). set row \<subseteq> {..<N} \<and> length row < 2 ^ 16" using assms(3) by fastforce
  have "length (concat (map node_bytes (gs_graph g))) \<le> N * (4 + 4 * R)"
    using sum_list_mono[of "gs_graph g" "\<lambda>row. length (node_bytes row)" "\<lambda>_. 4 + 4 * R"] row(1) N
    by (simp add: length_concat comp_def sum_list_triv)
  also have "\<dots> \<le> 2 ^ 32 * (4 + 4 * 2 ^ 16)" using assms(2,3) by (intro mult_le_mono) simp_all
  finally have "24 + length (concat (map node_bytes (gs_graph g))) < 2 ^ 64" by simp
  then show "rows_fit (gs_graph g)"
    using row N assms(2,3) unfolding rows_fit_def by fastforce
qed



section \<open>From a graph to the search on disk\<close>

lemma length_le_max_deg: "row \<in> set rows \<Longrightarrow> length row \<le> max_deg_of rows"
  using Max_ge[of "set (0 # map length rows)" "length row"] unfolding max_deg_of_def Max.set_eq_fold by simp

lemma cache_list_run:
  assumes "io_ok io adj" "adj_closed adj" "start < length adj" "length adj \<le> CACHE_EMPTY" "1 < k" "k \<le> length adj"
    and "\<forall>u < length adj. length (adj ! u) \<le> width" "width < 2 ^ 20" "k * (if width > 0 then width + 1 else 32) < CACHE_EMPTY"
    and "\<forall>n. length (fresh n) = n" "\<forall>ids. io_batch_size env_bs * per_node_alloc io \<le> length (buf ids)"
    and "\<forall>sel. mset (order sel) = mset sel" "\<forall>incs. mset (sched incs) = mset (concat incs)"
  shows "\<exists>txt us c. cache_gen env_bs io fresh buf order sched False hops (length adj) k start = Inr txt \<and>
    read_node_list_from_txt (Some txt) k = Inr us \<and> length us = k \<and> distinct us \<and>
    load_cache_list env_mode env_bs io fresh (length adj) width us = Inr c \<and> cache_true adj c"
proof -
  have k: "k < 2 ^ 32" using assms(4,6) by (simp add: CACHE_EMPTY_def)
  from cache_gen_run[OF assms(1-3,5) k assms(10-13), of False hops] obtain sel where
    sel: "distinct sel" "set sel \<subseteq> {..<length adj}" "length sel \<le> k"
    "cache_gen env_bs io fresh buf order sched False hops (length adj) k start =
      Inr (write_ids (order sel @ (if k \<le> length sel then [] else best_degrees adj sel (k - length sel))))"
    by auto
  define us where "us = order sel @ (if k \<le> length sel then [] else best_degrees adj sel (k - length sel))"
  note best = best_degrees_props[of adj sel "k - length sel"]
  have o: "set (order sel) = set sel" "length (order sel) = length sel" "distinct (order sel)"
    using assms(12) sel(1) by (metis set_mset_mset, metis size_mset, metis mset_eq_imp_distinct_iff)
  have us: "distinct us" "set us \<subseteq> {..<length adj}" "length us = k"
  proof -
    show "distinct us" "set us \<subseteq> {..<length adj}" using o sel(2) best(1,2) by (auto simp: us_def)
    have "card ({..<length adj} - set sel) = length adj - length sel"
      using sel(1,2) distinct_card[OF sel(1)] by (simp add: card_Diff_subset)
    then show "length us = k" using best(3) sel(3) assms(6) o(2) by (auto simp: us_def)
  qed
  have ids: "\<forall>u \<in> set us. u < length adj" using us(2) by auto
  then have "\<forall>u \<in> set us. u < 2 ^ 32" using assms(4) by (fastforce simp: CACHE_EMPTY_def)
  from read_written[OF this, of k] have rd: "read_node_list_from_txt (Some (write_ids us)) k = Inr us" using us(3) by simp
  obtain c where c: "load_cache_list env_mode env_bs io fresh (length adj) width us = Inr c"
    "\<forall>i. if i \<in> set us then \<exists>off. cache_lookup c i = Some off \<and> cached_neighbors c off = Inr (adj ! i) else cache_lookup c i = None"
    using load_cache_run[OF assms(1) refl assms(4) ids assms(7) _ _ assms(10), of env_mode env_bs] assms(8,9) us(3) by auto
  have "cache_true adj c" unfolding cache_true_def using c(2) by (metis option.distinct(1) option.inject)
  then show ?thesis using sel(4) rd us(1,3) c(1) by (auto simp: us_def)
qed

lemma graph_to_search_run:
  fixes ndims medoid :: nat and vecs gs
  defines "rows \<equiv> gs_graph gs"
  defines "N \<equiv> length rows" and "width \<equiv> max_deg_of rows"
  assumes "rows_fit rows" "\<forall>row \<in> set rows. length row \<le> MAX_GRAPH_DEGREE \<and> set row \<subseteq> {..<N}"
    and "length vecs = N" "\<forall>v \<in> set vecs. length v = ndims * 4" "medoid < N"
    and "0 < ndims" "ndims < 2 ^ 28" "N \<le> CACHE_EMPTY" "aio_up sub" "aio_up got"
    and "1 < k" "k \<le> N" "k * (if width > 0 then width + 1 else 32) < CACHE_EMPTY"
    and "\<forall>n. length (fresh n) = n" "\<forall>sel. mset (order sel) = mset sel" "\<forall>incs. mset (sched incs) = mset (concat incs)"
    and "env_layout \<noteq> Some ''SEPARATE''"
  shows "\<exists>f out. save_graph gs N 0 medoid = Inr (f, length f) \<and>
    create_disk_layout 4 mem (le_bytes 4 N @ le_bytes 4 ndims @ concat vecs) f None = Inr out \<and>
    (\<forall>fs p pq codes. index_files fs p out pq codes N ndims \<longrightarrow>
       (\<exists>ld. sigma_load sub got fs fresh env_layout env_R p = Inr ld \<and> ld_data_dim ld = ndims \<and> ld_medoids ld = [medoid] \<and> ld_pq ld = pq \<and>
          (let rd = \<lparr>rd_sub = sub, rd_got = got, rd_file = out\<rparr>; io = loaded_io rd ld in
           \<forall>buf. (\<forall>ids. io_batch_size env_bs * per_node_alloc io \<le> length (buf ids)) \<longrightarrow>
             (\<exists>txt us c. cache_gen env_bs io fresh buf order sched False hops N k medoid = Inr txt \<and>
                read_node_list_from_txt (Some txt) k = Inr us \<and> length us = k \<and> distinct us \<and>
                load_cache_list env_mode env_bs io fresh N (ld_max_degree ld) us = Inr c \<and>
                (\<forall>cmp metric env_rs sc qp query1 q. params_ok ld sc qp \<longrightarrow> prepare_query metric ndims query1 = Inr q \<longrightarrow> query_ok ld sc q \<longrightarrow>
                   answered cmp metric rd ld c fresh env_rs sc qp query1 q rows vecs)))))"
proof -
  let ?n = "(width + 1) * 4 + ndims * 4"
  have sv: "save_graph gs N 0 medoid = Inr (graph_bytes rows width medoid 0, length (graph_bytes rows width medoid 0))"
    using save_graph_bytes[of N gs 0 medoid] assms(4) by (simp add: N_def rows_def width_def graph_bytes_def)
  have deg: "\<forall>u < length rows. length (rows ! u) \<le> width" using length_le_max_deg by (simp add: width_def)
  have "width \<in> set (0 # map length rows)" unfolding width_def max_deg_of_def Max.set_eq_fold[symmetric] by (rule Max_in) auto
  then have w: "width \<le> MAX_GRAPH_DEGREE" using assms(5) by auto
  have lay: "layout_ok (ndims * 4) width ?n vecs rows"
    using assms(4,6,7) length_le_max_deg[of _ rows] max_deg_of_lt[OF assms(4)]
    by (auto simp: layout_ok_def rows_fit_def N_def width_def)
  have bytes: "24 + length (concat (map node_bytes rows)) < 2 ^ 64" and N: "N < 2 ^ 32"
    using assms(4) by (simp_all add: rows_fit_def N_def)
  have fit: "ndims < 2 ^ 32" "?n + 8192 \<le> 2 ^ 32" using assms(10) w by (simp_all add: MAX_GRAPH_DEGREE_def)
  obtain out where out: "create_disk_layout 4 mem (le_bytes 4 N @ le_bytes 4 ndims @ concat vecs) (graph_bytes rows width medoid 0) None = Inr out"
    using disk_layout_run[OF lay assms(8)[unfolded N_def] N[unfolded N_def] assms(9) fit(1) _ bytes fit(2), of 0 mem "[]"] unfolding N_def by auto
  have closed: "adj_closed rows" using assms(5) by (auto simp: adj_closed_def N_def)
  have "\<exists>ld. sigma_load sub got fs fresh env_layout env_R p = Inr ld \<and> ld_data_dim ld = ndims \<and> ld_medoids ld = [medoid] \<and> ld_pq ld = pq \<and>
      (let rd = \<lparr>rd_sub = sub, rd_got = got, rd_file = out\<rparr>; io = loaded_io rd ld in
       \<forall>buf. (\<forall>ids. io_batch_size env_bs * per_node_alloc io \<le> length (buf ids)) \<longrightarrow>
         (\<exists>txt us c. cache_gen env_bs io fresh buf order sched False hops N k medoid = Inr txt \<and>
            read_node_list_from_txt (Some txt) k = Inr us \<and> length us = k \<and> distinct us \<and>
            load_cache_list env_mode env_bs io fresh N (ld_max_degree ld) us = Inr c \<and>
            (\<forall>cmp metric env_rs sc qp query1 q. params_ok ld sc qp \<longrightarrow> prepare_query metric ndims query1 = Inr q \<longrightarrow> query_ok ld sc q \<longrightarrow>
               answered cmp metric rd ld c fresh env_rs sc qp query1 q rows vecs)))"
    if files: "index_files fs p out pq codes N ndims" for fs p pq codes
  proof -
    let ?rd = "\<lparr>rd_sub = sub, rd_got = got, rd_file = out\<rparr>"
    obtain ld where ld: "sigma_load sub got fs fresh env_layout env_R p = Inr ld" "index_ok ?rd ld rows vecs"
      "ld_data_dim ld = ndims" "ld_max_degree ld = width" "ld_medoids ld = [medoid]" "ld_pq ld = pq"
      using loaded_index[OF lay assms(8)[unfolded N_def] N[unfolded N_def] assms(9) fit(1) bytes fit(2) out[unfolded N_def] files[unfolded N_def]
          assms(20,12,13,17) assms(5)[unfolded N_def]] by blast
    have "\<exists>txt us c. cache_gen env_bs (loaded_io ?rd ld) fresh buf order sched False hops N k medoid = Inr txt \<and>
            read_node_list_from_txt (Some txt) k = Inr us \<and> length us = k \<and> distinct us \<and>
            load_cache_list env_mode env_bs (loaded_io ?rd ld) fresh N (ld_max_degree ld) us = Inr c \<and>
            (\<forall>cmp metric env_rs sc qp query1 q. params_ok ld sc qp \<longrightarrow> prepare_query metric ndims query1 = Inr q \<longrightarrow> query_ok ld sc q \<longrightarrow>
               answered cmp metric ?rd ld c fresh env_rs sc qp query1 q rows vecs)"
      if buf: "\<forall>ids. io_batch_size env_bs * per_node_alloc (loaded_io ?rd ld) \<le> length (buf ids)" for buf
    proof -
      obtain t us c where c: "cache_gen env_bs (loaded_io ?rd ld) fresh buf order sched False hops N k medoid = Inr t"
        "read_node_list_from_txt (Some t) k = Inr us" "length us = k" "distinct us"
        "load_cache_list env_mode env_bs (loaded_io ?rd ld) fresh N width us = Inr c" "cache_true rows c"
        using cache_list_run[OF loaded_io_ok[OF ld(2)] closed assms(8)[unfolded N_def] assms(11)[unfolded N_def] assms(14) assms(15)[unfolded N_def]
            deg _ assms(16,17) buf assms(18,19), of hops env_mode] w unfolding N_def MAX_GRAPH_DEGREE_def by auto
      show ?thesis
        unfolding ld(4) using c sigma_query_run[OF ld(2) c(6) _ assms(17)] unfolding ld(3) by blast
    qed
    then show ?thesis using ld(1,3,5,6) unfolding Let_def by blast
  qed
  then show ?thesis using sv out by blast
qed


lemma f32s_zero: "\<forall>x \<in> set bs. x = 0 \<Longrightarrow> \<forall>x \<in> set (f32s bs). x = fzero"
  by (induction bs rule: dec32.induct) (simp_all add: f32s_def f32_of_bits_def)

lemma sample_files:
  obtains fs pq where "index_files fs ''x'' out pq [0, 0, 0] 3 1" "pt_ndims pq = 1" "pt_rotmat_tr pq = None" "pt_centroid pq = [fzero]"
proof -
  have "\<exists>ts. length ts = n \<and> (\<forall>x \<in> set ts. x = (0 :: byte))" for n by (rule exI[of _ "replicate n 0"]) simp
  then obtain tb :: "byte list" where tb: "length tb = 1024" "\<forall>x \<in> set tb. x = 0" by blast
  let ?pq = "\<lparr>pt_ndims = 1, pt_n_chunks = 1, pt_tables = f32s tb, pt_tables_tr = transpose_tables 1 (f32s tb),
         pt_centroid = f32s [0, 0, 0, 0], pt_chunk_offsets = [0, 1], pt_rotmat_tr = None\<rparr>"
  let ?fs = "\<lambda>f. if f = ''x_disk.index'' then Some out else if f = ''x_pq_pivots.bin'' then Some (pivot_file 1 tb [0, 0, 0, 0] [0, 1])
    else if f = ''x_pq_compressed.bin'' then Some (le_bytes 4 3 @ le_bytes 4 1 @ [0, 0, 0]) else None"
  have "load_pq_centroid_bin (''x'' @ ''_pq_pivots.bin'') (?fs (''x'' @ ''_pq_pivots.bin'')) (?fs (''x'' @ ''_pq_pivots.bin_rotation_matrix.bin'')) 0 = Inr ?pq"
    using load_pivot_file[of tb 1 "[0, 0, 0, 0]" "[0, 1]"] tb by simp
  moreover have "pq_table_ok ?pq"
    using f32s_zero[OF tb(2)] tb(1) by (auto simp: pq_table_ok_def chunks_inside_def chunk_dims_def f32s_def length_dec32)
  moreover have "load_bin_at 1 (''x'' @ ''_pq_compressed.bin'') (?fs (''x'' @ ''_pq_compressed.bin'')) 0 = Inr ([0, 0, 0], 3, 1)"
    using load_bin_at_found[of 0 "[]" 3 1 "[0, 0, 0]" 1 _ "[]"] by simp
  ultimately have "index_files ?fs ''x'' out ?pq [0, 0, 0] 3 1" by (simp add: index_files_def)
  moreover have "pt_centroid ?pq = [fzero]" by (simp add: f32s_def f32_of_bits_def)
  ultimately show ?thesis by (intro that[of ?fs ?pq]) simp_all
qed


section \<open>From vectors to answers\<close>



end
